(* ===== verification/Prelude.thy ===== *)
theory Prelude
  imports Main "HOL-Library.Word"
begin

text \<open>
  Shared vocabulary of the development: the machine integers of the code as words, the
  little-endian byte image that \<^verbatim>\<open>memcpy\<close> and pointer casts give them on x86-64, the
  overwriting of a part of an array, and the two interfaces several components share:
  a fixed-width byte codec and an inductive invariant of a transition system.

  The collection \<open>block_simps\<close> carries the facts on arrays that are overwritten or read in
  part, \<open>codec_simps\<close> those on the byte images of integers.
\<close>

unbundle bit_operations_syntax

named_theorems block_simps
named_theorems codec_simps

section \<open>Machine integers\<close>

type_synonym byte = "8 word"
type_synonym u16 = "16 word"
type_synonym u32 = "32 word"
type_synonym u64 = "64 word"

text \<open>Sums of two sizes that do not wrap, as the guards of the code compute them.\<close>

lemma unat_add_no_wrap:
  fixes a b :: "'a::len word"
  assumes "unat a + unat b < 2 ^ LENGTH('a)"
  shows "unat (a + b) = unat a + unat b"
  using assms by (simp add: unat_word_ariths)

lemma unat_sub_no_wrap:
  fixes a b :: "'a::len word"
  assumes "b \<le> a"
  shows "unat (a - b) = unat a - unat b"
  using assms by (rule unat_sub)

lemma unat_Suc_less:
  fixes a b :: "'a::len word"
  assumes "a < b"
  shows "unat (a + 1) = Suc (unat a)"
proof -
  have "unat b < 2 ^ LENGTH('a)" by (rule unsigned_less)
  moreover have "Suc (unat a) \<le> unat b" using assms by (simp add: word_less_nat_alt)
  ultimately have "Suc (unat a) < 2 ^ LENGTH('a)" by (rule le_less_trans [rotated])
  then show ?thesis by (simp add: unat_word_ariths)
qed

lemma unat_of_nat_u64:
  assumes "n < 2 ^ 64"
  shows "unat (of_nat n :: u64) = n"
  using assms by (simp add: unat_of_nat take_bit_nat_eq_self)

lemma unat_two_power: "k < LENGTH('a::len) \<Longrightarrow> unat (2 ^ k :: 'a word) = 2 ^ k"
  using unat_of_nat [of "2 ^ k", where 'a = 'a] by (simp add: take_bit_nat_eq_self)

lemma u64_eq_iff_unat: "(a :: u64) = b \<longleftrightarrow> unat a = unat b"
  by (rule word_unat_eq_iff)

lemma u64_lt: "unat (a :: u64) < 2 ^ 64"
  using unsigned_less [of a] by simp

section \<open>Arrays overwritten in part\<close>

text \<open>The array \<open>xs\<close> after \<^verbatim>\<open>memcpy(xs + off, bs, len)\<close>, in range.\<close>

definition overwrite :: "nat \<Rightarrow> 'a list \<Rightarrow> 'a list \<Rightarrow> 'a list" where
  "overwrite off bs xs = take off xs @ bs @ drop (off + length bs) xs"

lemma length_overwrite [simp]:
  "off + length bs \<le> length xs \<Longrightarrow> length (overwrite off bs xs) = length xs"
  by (simp add: overwrite_def)

lemma nth_overwrite [block_simps]:
  assumes "off + length bs \<le> length xs" and "i < length xs"
  shows "overwrite off bs xs ! i =
    (if i < off then xs ! i else if i < off + length bs then bs ! (i - off) else xs ! i)"
  using assms by (auto simp: overwrite_def nth_append min_def)

lemma take_overwrite_before [block_simps]:
  "n \<le> off \<Longrightarrow> off \<le> length xs \<Longrightarrow> take n (overwrite off bs xs) = take n xs"
  by (simp add: overwrite_def min_def)

lemma drop_overwrite_after [block_simps]:
  "off + length bs \<le> n \<Longrightarrow> off + length bs \<le> length xs \<Longrightarrow>
    drop n (overwrite off bs xs) = drop n xs"
  by (simp add: overwrite_def min_def)

lemma read_overwrite_same [block_simps]:
  "off + length bs \<le> length xs \<Longrightarrow> n = length bs \<Longrightarrow>
    take n (drop off (overwrite off bs xs)) = bs"
  by (simp add: overwrite_def min_def)

lemma read_overwrite_other [block_simps]:
  assumes "off' + n \<le> off \<or> off + length bs \<le> off'" and "off + length bs \<le> length xs"
    and "off' + n \<le> length xs"
  shows "take n (drop off' (overwrite off bs xs)) = take n (drop off' xs)"
  using assms by (intro nth_equalityI) (auto simp: nth_overwrite)

lemma read_list_update_other [block_simps]:
  "i < off \<or> off + n \<le> i \<Longrightarrow> take n (drop off (xs[i := v])) = take n (drop off xs)"
  by (intro nth_equalityI) (auto simp: nth_list_update)

lemma overwrite_single: "i < length xs \<Longrightarrow> overwrite i [v] xs = xs[i := v]"
  by (simp add: overwrite_def upd_conv_take_nth_drop)

section \<open>Byte images of integers\<close>

fun le_bytes :: "nat \<Rightarrow> 'a::len word \<Rightarrow> byte list" where
  "le_bytes 0 w = []"
| "le_bytes (Suc n) w = ucast w # le_bytes n (drop_bit 8 w)"

fun of_le_bytes :: "byte list \<Rightarrow> 'a::len word" where
  "of_le_bytes [] = 0"
| "of_le_bytes (b # bs) = ucast b OR push_bit 8 (of_le_bytes bs)"

lemma length_le_bytes [simp]: "length (le_bytes n w) = n"
  by (induction n arbitrary: w) auto

lemma of_le_bytes_le_bytes: "of_le_bytes (le_bytes n w) = take_bit (8 * n) w"
proof (induction n arbitrary: w)
  case 0
  show ?case by simp
next
  case (Suc n)
  show ?case
    by (rule bit_word_eqI) (auto simp: Suc bit_simps not_less)
qed

text \<open>
  The interface of a fixed-width codec: what a reader of memory relies on when it casts a
  byte range back to the integer that was written there.
\<close>

locale fixed_codec =
  fixes enc :: "'v \<Rightarrow> byte list" and dec :: "byte list \<Rightarrow> 'v" and width :: nat
  assumes length_enc: "length (enc v) = width"
    and dec_enc: "dec (enc v) = v"
begin

lemma enc_inject: "enc v = enc w \<longleftrightarrow> v = w"
  by (metis dec_enc)

lemma dec_read_overwrite:
  "off + width \<le> length xs \<Longrightarrow> dec (take width (drop off (overwrite off (enc v) xs))) = v"
  by (simp add: read_overwrite_same length_enc dec_enc)

lemma dec_take_append: "dec (take width (enc v @ rest)) = v"
  by (simp add: length_enc dec_enc)

lemma drop_append: "drop width (enc v @ rest) = rest"
  by (simp add: length_enc)

end

interpretation u64_codec: fixed_codec "le_bytes 8 :: u64 \<Rightarrow> byte list" of_le_bytes 8
  by unfold_locales (simp_all add: of_le_bytes_le_bytes take_bit_word_eq_self)

interpretation u32_codec: fixed_codec "le_bytes 4 :: u32 \<Rightarrow> byte list" of_le_bytes 4
  by unfold_locales (simp_all add: of_le_bytes_le_bytes take_bit_word_eq_self)

lemmas u64_codec_facts [codec_simps] =
  u64_codec.dec_enc u64_codec.dec_read_overwrite u64_codec.dec_take_append u64_codec.drop_append

lemmas u32_codec_facts [codec_simps] =
  u32_codec.dec_enc u32_codec.dec_read_overwrite u32_codec.dec_take_append u32_codec.drop_append

section \<open>Inductive invariants\<close>

text \<open>
  A state machine of the development is a start predicate and a step relation. A property
  that holds at the start and is kept by every step holds in every reachable state.
\<close>

locale inductive_invariant =
  fixes start :: "'s \<Rightarrow> bool" and step :: "'s \<Rightarrow> 's \<Rightarrow> bool" and inv :: "'s \<Rightarrow> bool"
  assumes inv_start: "start s \<Longrightarrow> inv s"
    and inv_step: "inv s \<Longrightarrow> step s t \<Longrightarrow> inv t"
begin

lemma inv_steps: "step\<^sup>*\<^sup>* s t \<Longrightarrow> inv s \<Longrightarrow> inv t"
  by (induction rule: rtranclp_induct) (auto intro: inv_step)

lemma inv_reachable: "start s \<Longrightarrow> step\<^sup>*\<^sup>* s t \<Longrightarrow> inv t"
  by (rule inv_steps) (auto intro: inv_start)

end

end
