(* ===== verification/Cpp_Memory.thy ===== *)
theory Cpp_Memory
  imports Prelude
begin

text \<open>
  The part of C++ the string class is written in: byte-addressed objects, pointers into them,
  the standard allocator, exceptions and counted loops. A program is a function from a memory
  to an outcome: a value, a thrown exception (with the memory at the throw), or undefined
  behaviour, which is every access outside a live object.

  A pointer is a live object's base address and an offset into it. The allocator answers from
  \<open>next_addr\<close>, a sequence of proposals that any real allocator produces as it goes: a missing
  proposal or one that is null or still in use is an exhausted heap (\<^verbatim>\<open>std::bad_alloc\<close>).
  Fresh memory holds the unspecified bytes of \<open>junk\<close>.
\<close>

named_theorems mem_simps

section \<open>Memory, outcomes, sequencing\<close>

record mem =
  blocks :: "u64 \<Rightarrow> byte list option"
  next_addr :: "nat \<Rightarrow> u64 option"
  tick :: nat
  junk :: "nat \<Rightarrow> byte"

type_synonym ptr = "u64 \<times> nat"

datatype exn = out_of_range | length_error | bad_alloc

datatype 'a outcome = Ok 'a mem | Throw exn mem | UB

type_synonym 'a prog = "mem \<Rightarrow> 'a outcome"

definition ret :: "'a \<Rightarrow> 'a prog" where
  "ret x m = Ok x m"

definition throw :: "exn \<Rightarrow> 'a prog" where
  "throw e m = Throw e m"

definition bindM :: "'a prog \<Rightarrow> ('a \<Rightarrow> 'b prog) \<Rightarrow> 'b prog" where
  "bindM f g m = (case f m of Ok x m' \<Rightarrow> g x m' | Throw e m' \<Rightarrow> Throw e m' | UB \<Rightarrow> UB)"

definition thenM :: "'a prog \<Rightarrow> 'b prog \<Rightarrow> 'b prog" where
  "thenM f g = bindM f (\<lambda>_. g)"

text \<open>\<open>for_up n body\<close> is \<^verbatim>\<open>for (i = 0; i < n; ++i) body(i)\<close>.\<close>

fun for_from :: "nat \<Rightarrow> nat \<Rightarrow> (nat \<Rightarrow> unit prog) \<Rightarrow> unit prog" where
  "for_from i 0 body = ret ()"
| "for_from i (Suc n) body = thenM (body i) (for_from (Suc i) n body)"

definition for_up :: "nat \<Rightarrow> (nat \<Rightarrow> unit prog) \<Rightarrow> unit prog" where
  "for_up n body = for_from 0 n body"

section \<open>Loads, stores, the allocator\<close>

definition ptr_add :: "ptr \<Rightarrow> nat \<Rightarrow> ptr" where
  "ptr_add p k = (fst p, snd p + k)"

definition load :: "ptr \<Rightarrow> byte prog" where
  "load p m = (case blocks m (fst p) of None \<Rightarrow> UB
     | Some bs \<Rightarrow> if snd p < length bs then Ok (bs ! snd p) m else UB)"

definition set_block :: "u64 \<Rightarrow> byte list \<Rightarrow> mem \<Rightarrow> mem" where
  "set_block b bs m = m\<lparr>blocks := (blocks m)(b := Some bs)\<rparr>"

definition store :: "ptr \<Rightarrow> byte \<Rightarrow> unit prog" where
  "store p v m = (case blocks m (fst p) of None \<Rightarrow> UB
     | Some bs \<Rightarrow> if snd p < length bs then Ok () (set_block (fst p) (bs[snd p := v]) m) else UB)"

text \<open>\<^verbatim>\<open>memcpy\<close> between an object and a local variable.\<close>

definition load_bytes :: "ptr \<Rightarrow> nat \<Rightarrow> byte list prog" where
  "load_bytes p n m = (case blocks m (fst p) of None \<Rightarrow> UB
     | Some bs \<Rightarrow> if snd p + n \<le> length bs then Ok (take n (drop (snd p) bs)) m else UB)"

definition store_bytes :: "ptr \<Rightarrow> byte list \<Rightarrow> unit prog" where
  "store_bytes p vs m = (case blocks m (fst p) of None \<Rightarrow> UB
     | Some bs \<Rightarrow> if snd p + length vs \<le> length bs
         then Ok () (set_block (fst p) (overwrite (snd p) vs bs) m) else UB)"

text \<open>\<^verbatim>\<open>std::copy(src, src + n, dst)\<close>: one character after the other, from the front.\<close>

definition copy_chars :: "ptr \<Rightarrow> nat \<Rightarrow> ptr \<Rightarrow> unit prog" where
  "copy_chars src n dst =
     for_up n (\<lambda>i. bindM (load (ptr_add src i)) (\<lambda>c. store (ptr_add dst i) c))"

text \<open>\<^verbatim>\<open>std::allocator<char>::max_size()\<close> is \<^verbatim>\<open>PTRDIFF_MAX\<close>.\<close>

definition alloc_max_size :: u64 where
  "alloc_max_size = 0x7FFFFFFFFFFFFFFF"

definition allocate :: "u64 \<Rightarrow> ptr prog" where
  "allocate n m =
     (if alloc_max_size < n then Throw bad_alloc m
      else case next_addr m (tick m) of
        None \<Rightarrow> Throw bad_alloc (m\<lparr>tick := Suc (tick m)\<rparr>)
      | Some a \<Rightarrow>
          if a = 0 \<or> blocks m a \<noteq> None then Throw bad_alloc (m\<lparr>tick := Suc (tick m)\<rparr>)
          else Ok (a, 0) (set_block a (map (junk m) [0..<unat n]) (m\<lparr>tick := Suc (tick m)\<rparr>)))"

text \<open>The count given to \<^verbatim>\<open>deallocate\<close> is not used by the standard allocator.\<close>

definition deallocate :: "ptr \<Rightarrow> u64 \<Rightarrow> unit prog" where
  "deallocate p n m = (if snd p = 0 \<and> blocks m (fst p) \<noteq> None
     then Ok () (m\<lparr>blocks := (blocks m)(fst p := None)\<rparr>) else UB)"

section \<open>Facts the programs are proved with\<close>

lemma ret_apply [simp]: "ret x m = Ok x m"
  by (simp add: ret_def)

lemma throw_apply [simp]: "throw e m = Throw e m"
  by (simp add: throw_def)

lemma bindM_Ok [simp]: "f m = Ok x m' \<Longrightarrow> bindM f g m = g x m'"
  by (simp add: bindM_def)

lemma bindM_Throw [simp]: "f m = Throw e m' \<Longrightarrow> bindM f g m = Throw e m'"
  by (simp add: bindM_def)

lemma thenM_Ok [simp]: "f m = Ok x m' \<Longrightarrow> thenM f g m = g m'"
  by (simp add: thenM_def)

lemma thenM_Throw [simp]: "f m = Throw e m' \<Longrightarrow> thenM f g m = Throw e m'"
  by (simp add: thenM_def)

lemma thenM_assoc: "thenM (thenM f g) h = thenM f (thenM g h)"
  by (auto simp: thenM_def bindM_def fun_eq_iff split: outcome.splits)

lemma thenM_ret: "thenM f (ret ()) = f"
  by (auto simp: thenM_def bindM_def fun_eq_iff split: outcome.splits)

lemma thenM_bindM_Ok: "f m = Ok x m' \<Longrightarrow> thenM (bindM f g) h m = thenM (g x) h m'"
  by (simp add: thenM_def bindM_def)

lemma blocks_set_block [simp]: "blocks (set_block b bs m) c = (if c = b then Some bs else blocks m c)"
  by (simp add: set_block_def)

lemma set_block_twice [simp]: "set_block b bs (set_block b cs m) = set_block b bs m"
  by (simp add: set_block_def)

lemma set_block_same: "blocks m b = Some bs \<Longrightarrow> set_block b bs m = m"
  by (simp add: set_block_def fun_upd_idem)

lemma set_block_other [simp]:
  "next_addr (set_block b bs m) = next_addr m" "tick (set_block b bs m) = tick m"
  "junk (set_block b bs m) = junk m"
  by (simp_all add: set_block_def)

lemma ptr_add_simps [simp]: "fst (ptr_add p k) = fst p" "snd (ptr_add p k) = snd p + k"
  by (simp_all add: ptr_add_def)

lemma load_Ok [mem_simps]:
  "blocks m (fst p) = Some bs \<Longrightarrow> snd p < length bs \<Longrightarrow> load p m = Ok (bs ! snd p) m"
  by (simp add: load_def)

lemma store_Ok [mem_simps]:
  "blocks m (fst p) = Some bs \<Longrightarrow> snd p < length bs \<Longrightarrow>
    store p v m = Ok () (set_block (fst p) (bs[snd p := v]) m)"
  by (simp add: store_def)

lemma load_bytes_Ok [mem_simps]:
  "blocks m (fst p) = Some bs \<Longrightarrow> snd p + n \<le> length bs \<Longrightarrow>
    load_bytes p n m = Ok (take n (drop (snd p) bs)) m"
  by (simp add: load_bytes_def)

lemma store_bytes_Ok [mem_simps]:
  "blocks m (fst p) = Some bs \<Longrightarrow> snd p + length vs \<le> length bs \<Longrightarrow>
    store_bytes p vs m = Ok () (set_block (fst p) (overwrite (snd p) vs bs) m)"
  by (simp add: store_bytes_def)

text \<open>
  What \<open>allocate\<close> may do: return the base of a new object of the size asked for, distinct from null
  and from every live object, or, if the heap is not ready for it, fail and leave every object as
  it was.
\<close>

definition heap_ready :: "mem \<Rightarrow> nat \<Rightarrow> bool" where
  "heap_ready m n \<longleftrightarrow> n \<le> unat alloc_max_size \<and>
     (case next_addr m (tick m) of None \<Rightarrow> False | Some a \<Rightarrow> a \<noteq> 0 \<and> blocks m a = None)"

lemma heap_ready_cong:
  assumes "dom (blocks m') = dom (blocks m)" "next_addr m' = next_addr m" "tick m' = tick m"
  shows "heap_ready m' n = heap_ready m n"
  using assms by (auto simp: heap_ready_def domIff split: option.splits)

lemma allocate_cases:
  obtains (fail) m' where "allocate n m = Throw bad_alloc m'" "blocks m' = blocks m" "\<not> heap_ready m (unat n)"
  | (ok) a bs m' where "allocate n m = Ok (a, 0) m'" "a \<noteq> 0" "blocks m a = None"
      "length bs = unat n" "blocks m' = (blocks m)(a := Some bs)" "unat n \<le> unat alloc_max_size"
proof (cases "allocate n m")
  case (Ok p m')
  then obtain a where a: "next_addr m (tick m) = Some a" "a \<noteq> 0" "blocks m a = None"
      "\<not> alloc_max_size < n"
    by (auto simp: allocate_def split: if_splits option.splits)
  let ?bs = "map (junk m) [0..<unat n]"
  let ?m = "set_block a ?bs (m\<lparr>tick := Suc (tick m)\<rparr>)"
  have "allocate n m = Ok (a, 0) ?m"
    using a by (simp add: allocate_def)
  moreover have "blocks ?m = (blocks m)(a := Some ?bs)"
    by (auto simp: fun_eq_iff)
  moreover have "unat n \<le> unat alloc_max_size"
    using a(4) by (simp add: word_le_nat_alt not_less)
  ultimately show ?thesis
    using a that(2) [of a ?m ?bs] by simp
next
  case (Throw e m')
  then show ?thesis
    using that(1) [of m']
    by (auto simp: allocate_def heap_ready_def word_less_nat_alt split: if_splits option.splits)
next
  case UB
  then show ?thesis
    by (auto simp: allocate_def split: if_splits option.splits)
qed

text \<open>A counted loop that keeps an invariant in every round runs to its end.\<close>

lemma for_from_invariant:
  assumes "I i m"
    and "\<And>k m. i \<le> k \<Longrightarrow> k < i + n \<Longrightarrow> I k m \<Longrightarrow> \<exists>m'. body k m = Ok () m' \<and> I (Suc k) m'"
  shows "\<exists>m'. for_from i n body m = Ok () m' \<and> I (i + n) m'"
  using assms
proof (induction n arbitrary: i m)
  case 0
  then show ?case by simp
next
  case (Suc n)
  obtain m1 where m1: "body i m = Ok () m1" "I (Suc i) m1"
    using Suc.prems(2) [of i m] Suc.prems(1) by auto
  have "\<exists>m'. for_from (Suc i) n body m1 = Ok () m' \<and> I (Suc i + n) m'"
    by (rule Suc.IH) (use m1 Suc.prems(2) in auto)
  with m1 show ?case by auto
qed

lemma for_up_invariant:
  assumes "I 0 m"
    and "\<And>k m. k < n \<Longrightarrow> I k m \<Longrightarrow> \<exists>m'. body k m = Ok () m' \<and> I (Suc k) m'"
  shows "\<exists>m'. for_up n body m = Ok () m' \<and> I n m'"
  using for_from_invariant [of I 0 m n body] assms by (auto simp: for_up_def)

text \<open>
  The loops of the code write one object, round by round. \<open>upd k bs\<close> is the contents of the
  object after \<open>k\<close> rounds; the lemma turns a loop into its last contents.
\<close>

lemma for_up_block:
  assumes "blocks m b = Some (upd 0)"
    and "\<And>k m'. k < n \<Longrightarrow> m' = set_block b (upd k) m \<Longrightarrow>
      body k m' = Ok () (set_block b (upd (Suc k)) m)"
  shows "for_up n body m = Ok () (set_block b (upd n) m)"
proof -
  have "\<exists>m'. for_up n body m = Ok () m' \<and> m' = set_block b (upd n) m"
    by (rule for_up_invariant [where I = "\<lambda>k m'. m' = set_block b (upd k) m"])
      (use assms in \<open>auto simp: set_block_same\<close>)
  then show ?thesis by simp
qed

lemma overwrite_snoc [block_simps]:
  assumes "off + length vs < length xs"
  shows "(overwrite off vs xs)[off + length vs := v] = overwrite off (vs @ [v]) xs"
  using assms by (intro nth_equalityI) (auto simp: nth_overwrite nth_list_update nth_append)

lemma overwrite_Nil [simp]: "overwrite off [] xs = xs"
  by (simp add: overwrite_def)

text \<open>Filling a range with one character.\<close>

lemma fill_loop:
  assumes "blocks m (fst p) = Some bs" and "snd p + n \<le> length bs"
  shows "for_up n (\<lambda>i. store (ptr_add p i) c) m =
    Ok () (set_block (fst p) (overwrite (snd p) (replicate n c) bs) m)"
proof (rule for_up_block)
  show "blocks m (fst p) = Some (overwrite (snd p) (replicate 0 c) bs)"
    using assms by simp
next
  fix k m'
  assume k: "k < n" and m': "m' = set_block (fst p) (overwrite (snd p) (replicate k c) bs) m"
  have "(overwrite (snd p) (replicate k c) bs)[snd p + k := c] =
      overwrite (snd p) (replicate (Suc k) c) bs"
    using overwrite_snoc [of "snd p" "replicate k c" bs c] k assms(2)
    by (simp add: replicate_append_same)
  then show "store (ptr_add p k) c m' =
      Ok () (set_block (fst p) (overwrite (snd p) (replicate (Suc k) c) bs) m)"
    using k assms m' by (simp add: store_Ok)
qed

text \<open>Copying a range of another object, and of the same object towards its front.\<close>

lemma copy_chars_other:
  assumes "blocks m (fst src) = Some ss" "snd src + n \<le> length ss"
    and "blocks m (fst dst) = Some ds" "snd dst + n \<le> length ds"
    and "fst src \<noteq> fst dst"
  shows "copy_chars src n dst m =
    Ok () (set_block (fst dst) (overwrite (snd dst) (take n (drop (snd src) ss)) ds) m)"
  unfolding copy_chars_def
proof (rule for_up_block)
  show "blocks m (fst dst) = Some (overwrite (snd dst) (take 0 (drop (snd src) ss)) ds)"
    using assms by simp
next
  fix k m'
  let ?U = "\<lambda>k. overwrite (snd dst) (take k (drop (snd src) ss)) ds"
  assume k: "k < n" and m': "m' = set_block (fst dst) (?U k) m"
  have l: "length (take k (drop (snd src) ss)) = k"
    using k assms by simp
  have "(?U k)[snd dst + k := ss ! (snd src + k)] = ?U (Suc k)"
    using overwrite_snoc [of "snd dst" "take k (drop (snd src) ss)" ds "ss ! (snd src + k)"] k assms l
    by (simp add: take_Suc_conv_app_nth)
  then show "bindM (load (ptr_add src k)) (\<lambda>c. store (ptr_add dst k) c) m' =
      Ok () (set_block (fst dst) (?U (Suc k)) m)"
    using k assms m' l by (simp add: load_Ok store_Ok)
qed

lemma copy_chars_down:
  assumes "blocks m b = Some bs" "so + n \<le> length bs" "do \<le> so"
  shows "copy_chars (b, so) n (b, do) m = Ok () (set_block b (overwrite do (take n (drop so bs)) bs) m)"
  unfolding copy_chars_def
proof (rule for_up_block)
  show "blocks m b = Some (overwrite do (take 0 (drop so bs)) bs)"
    using assms by simp
next
  fix k m'
  let ?U = "\<lambda>k. overwrite do (take k (drop so bs)) bs"
  assume k: "k < n" and m': "m' = set_block b (?U k) m"
  have l: "length (take k (drop so bs)) = k"
    using k assms by simp
  have "(?U k)[do + k := bs ! (so + k)] = ?U (Suc k)"
    using overwrite_snoc [of do "take k (drop so bs)" bs "bs ! (so + k)"] k assms l
    by (simp add: take_Suc_conv_app_nth)
  moreover have "?U k ! (so + k) = bs ! (so + k)"
    using k assms l by (simp add: nth_overwrite)
  ultimately show "bindM (load (ptr_add (b, so) k)) (\<lambda>c. store (ptr_add (b, do) k) c) m' =
      Ok () (set_block b (?U (Suc k)) m)"
    using k assms m' l by (simp add: load_Ok store_Ok)
qed

text \<open>Moving a range of an object towards its end, from the back.\<close>

lemma for_from_cong:
  "(\<And>k. i \<le> k \<Longrightarrow> k < i + n \<Longrightarrow> f k = g k) \<Longrightarrow> for_from i n f = for_from i n g"
  by (induction n arbitrary: i) simp_all

lemma for_up_cong: "(\<And>k. k < n \<Longrightarrow> f k = g k) \<Longrightarrow> for_up n f = for_up n g"
  unfolding for_up_def by (rule for_from_cong) simp

lemma overwrite_cons:
  assumes "off + length vs < length xs"
  shows "(overwrite (Suc off) vs xs)[off := v] = overwrite off (v # vs) xs"
  using assms by (intro nth_equalityI) (auto simp: nth_overwrite nth_list_update nth_Cons')

lemma move_up_loop:
  assumes "blocks m b = Some bs" "d + n \<le> length bs" "s \<le> d"
  shows "for_up n (\<lambda>i. bindM (load (b, s + n - 1 - i)) (\<lambda>c. store (b, d + n - 1 - i) c)) m =
    Ok () (set_block b (overwrite d (take n (drop s bs)) bs) m)"
proof -
  let ?U = "\<lambda>k. overwrite (d + n - k) (take k (drop (s + n - k) bs)) bs"
  have "for_up n (\<lambda>i. bindM (load (b, s + n - 1 - i)) (\<lambda>c. store (b, d + n - 1 - i) c)) m =
    Ok () (set_block b (?U n) m)"
  proof (rule for_up_block [where upd = ?U])
    show "blocks m b = Some (?U 0)" using assms by simp
    fix k m'
    assume k: "k < n" and m': "m' = set_block b (?U k) m"
    have l: "length (take k (drop (s + n - k) bs)) = k" "length (?U k) = length bs"
      using k assms by simp_all
    have ld: "?U k ! (s + n - 1 - k) = bs ! (s + n - 1 - k)"
      using k assms l by (simp add: nth_overwrite)
    have "drop (s + n - Suc k) bs = bs ! (s + n - 1 - k) # drop (s + n - k) bs"
      using k assms Cons_nth_drop_Suc [of "s + n - Suc k" bs] by (simp add: Suc_diff_Suc)
    then have t: "take (Suc k) (drop (s + n - Suc k) bs) = bs ! (s + n - 1 - k) # take k (drop (s + n - k) bs)"
      by simp
    have "Suc (d + n - Suc k) = d + n - k" using k by simp
    then have "(?U k)[d + n - 1 - k := bs ! (s + n - 1 - k)] = ?U (Suc k)"
      using overwrite_cons [of "d + n - Suc k" "take k (drop (s + n - k) bs)" bs "bs ! (s + n - 1 - k)"] k assms l(1) t
      by simp
    then show "bindM (load (b, s + n - 1 - k)) (\<lambda>c. store (b, d + n - 1 - k) c) m' =
        Ok () (set_block b (?U (Suc k)) m)"
      using k assms m' l ld by (simp add: load_Ok store_Ok)
  qed
  then show ?thesis by simp
qed

end
