(* ===== verification/Bstring_Rep.thy ===== *)
theory Bstring_Rep
  imports Cpp_Memory
begin

text \<open>
  The representation of \<^verbatim>\<open>crossbow::string\<close> (\<^verbatim>\<open>basic_string<char>\<close> of
  \<^verbatim>\<open>crossbow/string.hpp\<close>): the 32 byte array \<^verbatim>\<open>arr\<close>, whose first byte is the size of a
  string held inside the array or \<open>nullchar\<close> for a string on the heap, with size, capacity
  and data pointer then at offsets 8, 16 and 24. A string object is a live object of 32 bytes
  at its address \<open>this\<close>.

  \<open>hdr\<close> is what the header says; \<open>str_at m this cs\<close> is the representation invariant together
  with the abstract value \<open>cs\<close>; \<open>only_touches\<close> says that an operation frees what it no longer
  owns, owns only what it allocated, and changes no other object.
\<close>

section \<open>Header of a string\<close>

definition ARR_SIZE :: nat where "ARR_SIZE = 32"

definition SIZE_OFFSET :: nat where "SIZE_OFFSET = 8"

definition CAPACITY_OFFSET :: nat where "CAPACITY_OFFSET = 8 + 8"

definition POINTER_OFFSET :: nat where "POINTER_OFFSET = 8 + 2 * 8"

text \<open>\<^verbatim>\<open>std::numeric_limits<char>::max()\<close> of the signed \<^verbatim>\<open>char\<close> of the platform.\<close>

definition nullchar :: byte where "nullchar = 127"

definition npos :: u64 where "npos = - 1"

definition max_in_buffer_size :: u64 where
  "max_in_buffer_size = of_nat (((ARR_SIZE - 1) div 1) - 1)"

definition set_capacity :: "u64 \<Rightarrow> u64 \<Rightarrow> unit prog" where
  "set_capacity this c = store_bytes (this, CAPACITY_OFFSET) (le_bytes 8 c)"

definition get_capacity :: "u64 \<Rightarrow> u64 prog" where
  "get_capacity this = bindM (load (this, 0)) (\<lambda>t.
     if t \<noteq> nullchar then ret max_in_buffer_size
     else bindM (load_bytes (this, CAPACITY_OFFSET) 8) (\<lambda>bs. ret (of_le_bytes bs)))"

definition set_size :: "u64 \<Rightarrow> u64 \<Rightarrow> unit prog" where
  "set_size this count = bindM (load (this, 0)) (\<lambda>t.
     if t \<noteq> nullchar then store (this, 0) (ucast count)
     else store_bytes (this, SIZE_OFFSET) (le_bytes 8 count))"

definition get_size :: "u64 \<Rightarrow> u64 prog" where
  "get_size this = bindM (load (this, 0)) (\<lambda>t.
     if t \<noteq> nullchar then ret (scast t)
     else bindM (load_bytes (this, SIZE_OFFSET) 8) (\<lambda>bs. ret (of_le_bytes bs)))"

definition set_ptr :: "u64 \<Rightarrow> ptr \<Rightarrow> unit prog" where
  "set_ptr this p = store_bytes (this, POINTER_OFFSET) (le_bytes 8 (fst p))"

definition get_ptr :: "u64 \<Rightarrow> ptr prog" where
  "get_ptr this = bindM (load (this, 0)) (\<lambda>t.
     if t \<noteq> nullchar then ret (this, 1)
     else bindM (load_bytes (this, POINTER_OFFSET) 8) (\<lambda>bs. ret (of_le_bytes bs, 0)))"

definition str_size :: "u64 \<Rightarrow> u64 prog" where
  "str_size this = get_size this"

definition str_length :: "u64 \<Rightarrow> u64 prog" where
  "str_length this = str_size this"

definition str_empty :: "u64 \<Rightarrow> bool prog" where
  "str_empty this = bindM (str_size this) (\<lambda>n. ret (n = 0))"

definition max_size :: u64 where
  "max_size = alloc_max_size - 1"

definition capacity :: "u64 \<Rightarrow> u64 prog" where
  "capacity this = bindM (load (this, 0)) (\<lambda>t.
     if t \<noteq> nullchar then ret max_in_buffer_size else get_capacity this)"

definition str_begin :: "u64 \<Rightarrow> ptr prog" where
  "str_begin this = get_ptr this"

definition str_end :: "u64 \<Rightarrow> ptr prog" where
  "str_end this = bindM (get_ptr this) (\<lambda>p. bindM (str_size this) (\<lambda>n. ret (ptr_add p (unat n))))"

definition invariants :: "u64 \<Rightarrow> bool prog" where
  "invariants this = bindM (str_size this) (\<lambda>n. bindM (capacity this) (\<lambda>c. ret (n \<le> c)))"

section \<open>The representation invariant\<close>

definition hdr :: "mem \<Rightarrow> u64 \<Rightarrow> nat \<Rightarrow> nat \<Rightarrow> u64 \<Rightarrow> nat \<Rightarrow> byte list \<Rightarrow> bool" where
  "hdr m this sz cap b off bs \<longleftrightarrow>
     (case blocks m this of None \<Rightarrow> False | Some arr \<Rightarrow>
        length arr = ARR_SIZE \<and> sz \<le> cap \<and>
        (if arr ! 0 \<noteq> nullchar
         then arr ! 0 = of_nat sz \<and> cap = 30 \<and> b = this \<and> off = 1 \<and> bs = arr
         else of_le_bytes (take 8 (drop SIZE_OFFSET arr)) = (of_nat sz :: u64) \<and>
              of_le_bytes (take 8 (drop CAPACITY_OFFSET arr)) = (of_nat cap :: u64) \<and>
              of_le_bytes (take 8 (drop POINTER_OFFSET arr)) = b \<and>
              b \<noteq> this \<and> off = 0 \<and> blocks m b = Some bs \<and> length bs = cap + 1 \<and>
              30 < cap \<and> cap < unat alloc_max_size))"

definition str_at :: "mem \<Rightarrow> u64 \<Rightarrow> byte list \<Rightarrow> bool" where
  "str_at m this cs \<longleftrightarrow>
     (\<exists>cap b off bs. hdr m this (length cs) cap b off bs \<and>
        take (length cs) (drop off bs) = cs \<and> bs ! (off + length cs) = 0)"

text \<open>The objects that belong to the string: itself and, on the heap, its characters.\<close>

definition owned :: "mem \<Rightarrow> u64 \<Rightarrow> u64 set" where
  "owned m this = (case blocks m this of None \<Rightarrow> {} | Some arr \<Rightarrow>
     if arr ! 0 \<noteq> nullchar then {this}
     else {this, of_le_bytes (take 8 (drop POINTER_OFFSET arr))})"

definition only_touches :: "mem \<Rightarrow> u64 \<Rightarrow> mem \<Rightarrow> bool" where
  "only_touches m this m' \<longleftrightarrow>
     (\<forall>b. b \<notin> owned m this \<longrightarrow> b \<notin> owned m' this \<longrightarrow> blocks m' b = blocks m b) \<and>
     owned m' this \<inter> dom (blocks m) \<subseteq> owned m this \<and>
     dom (blocks m') = (dom (blocks m) - owned m this) \<union> owned m' this"

lemmas offset_defs = ARR_SIZE_def SIZE_OFFSET_def CAPACITY_OFFSET_def POINTER_OFFSET_def

section \<open>Facts on headers\<close>

lemma max_in_buffer_size_eq: "max_in_buffer_size = 30" "unat max_in_buffer_size = 30"
  by (simp_all add: max_in_buffer_size_def ARR_SIZE_def)

lemma unat_alloc_max_size: "unat alloc_max_size = 2 ^ 63 - 1"
  by (simp add: alloc_max_size_def)

lemma unat_max_size: "unat max_size = 2 ^ 63 - 2"
  by (simp add: max_size_def alloc_max_size_def)

lemma unat_npos: "unat npos = 2 ^ 64 - 1"
  by (simp add: npos_def unsigned_minus_1_eq_mask mask_eq_exp_minus_1)

lemma small_byte:
  assumes "n \<le> 30"
  shows "(of_nat n :: byte) \<noteq> nullchar" "scast (of_nat n :: byte) = (of_nat n :: u64)"
proof -
  have "n < 31" using assms by simp
  then have n: "n \<in> set [0..<31]" by simp
  have "\<forall>n \<in> set [0..<31]. (of_nat n :: byte) \<noteq> nullchar \<and> scast (of_nat n :: byte) = (of_nat n :: u64)"
    by (simp add: nullchar_def upt_rec)
  with n show "(of_nat n :: byte) \<noteq> nullchar" "scast (of_nat n :: byte) = (of_nat n :: u64)"
    by blast+
qed

lemma hdr_bounds:
  assumes "hdr m this sz cap b off bs"
  shows "blocks m b = Some bs" "off + cap < length bs" "sz \<le> cap" "cap < 2 ^ 63 - 1"
    "30 \<le> cap" "owned m this = {this, b}" "blocks m this \<noteq> None" "off \<le> 1"
  using assms
  by (auto simp: hdr_def owned_def offset_defs unat_alloc_max_size split: option.splits if_splits)

lemma hdr_size [mem_simps]:
  assumes "hdr m this sz cap b off bs"
  shows "get_size this m = Ok (of_nat sz) m"
  using assms
  by (auto simp: hdr_def get_size_def load_Ok load_bytes_Ok offset_defs small_byte
      split: option.splits if_splits)

lemma hdr_str_size [mem_simps]:
  "hdr m this sz cap b off bs \<Longrightarrow> str_size this m = Ok (of_nat sz) m"
  by (simp add: str_size_def hdr_size)

lemma hdr_capacity [mem_simps]:
  assumes "hdr m this sz cap b off bs"
  shows "capacity this m = Ok (of_nat cap) m"
  using assms
  by (auto simp: hdr_def capacity_def get_capacity_def load_Ok load_bytes_Ok offset_defs
      max_in_buffer_size_eq split: option.splits if_splits)

lemma hdr_get_ptr [mem_simps]:
  assumes "hdr m this sz cap b off bs"
  shows "get_ptr this m = Ok (b, off) m"
  using assms
  by (auto simp: hdr_def get_ptr_def load_Ok load_bytes_Ok offset_defs split: option.splits if_splits)

lemma hdr_unat:
  assumes "hdr m this sz cap b off bs"
  shows "unat (of_nat sz :: u64) = sz" "unat (of_nat cap :: u64) = cap"
  using hdr_bounds(3,4) [OF assms] by (simp_all add: unat_of_nat_u64)

lemma hdr_str_end [mem_simps]:
  "hdr m this sz cap b off bs \<Longrightarrow> str_end this m = Ok (b, off + sz) m"
  by (simp add: str_end_def hdr_get_ptr hdr_str_size hdr_unat ptr_add_def)

lemma hdr_str_begin [mem_simps]:
  "hdr m this sz cap b off bs \<Longrightarrow> str_begin this m = Ok (b, off) m"
  by (simp add: str_begin_def hdr_get_ptr)

text \<open>Writing characters leaves the header alone: they start behind its first byte.\<close>

lemma hdr_write:
  assumes "hdr m this sz cap b off bs" and "length bs' = length bs"
    and "\<And>i. i < off \<Longrightarrow> bs' ! i = bs ! i"
  shows "hdr (set_block b bs' m) this sz cap b off bs'"
  using assms by (auto simp: hdr_def split: option.splits if_splits)

lemma hdr_set_size:
  assumes "hdr m this sz cap b off bs" and "unat n \<le> cap"
  obtains m' bs' where "set_size this n m = Ok () m'" "hdr m' this (unat n) cap b off bs'"
    "length bs' = length bs" "drop off bs' = drop off bs"
    "\<And>c. c \<noteq> this \<Longrightarrow> blocks m' c = blocks m c"
proof -
  obtain arr where arr: "blocks m this = Some arr" "length arr = ARR_SIZE"
    using assms(1) by (auto simp: hdr_def split: option.splits)
  show ?thesis
  proof (cases "arr ! 0 = nullchar")
    case False
    let ?arr = "arr[0 := ucast n]"
    have "unat n \<le> 30" using assms False arr by (auto simp: hdr_def)
    then have n: "ucast n = (of_nat (unat n) :: byte)" "(of_nat (unat n) :: byte) \<noteq> nullchar"
      using small_byte(1) [of "unat n"] by (simp_all add: of_nat_unat)
    have "set_size this n m = Ok () (set_block this ?arr m)"
      using False arr by (simp add: set_size_def load_Ok store_Ok offset_defs)
    moreover have "hdr (set_block this ?arr m) this (unat n) cap b off ?arr"
      using assms False arr n by (auto simp: hdr_def offset_defs)
    ultimately show ?thesis
      using that [of "set_block this ?arr m" ?arr] assms(1) False arr
      by (auto simp: hdr_def drop_update_cancel)
  next
    case True
    let ?arr = "overwrite SIZE_OFFSET (le_bytes 8 n) arr"
    have "set_size this n m = Ok () (set_block this ?arr m)"
      using True arr by (simp add: set_size_def load_Ok store_bytes_Ok offset_defs)
    moreover have "hdr (set_block this ?arr m) this (unat n) cap b off bs"
      using assms True arr
      by (auto simp: hdr_def offset_defs block_simps u64_codec.dec_enc)
    ultimately show ?thesis
      using that [of "set_block this ?arr m" bs] by auto
  qed
qed

section \<open>Facts on the abstraction\<close>

lemma str_atE:
  assumes "str_at m this cs"
  obtains cap b off bs where "hdr m this (length cs) cap b off bs"
    "take (length cs) (drop off bs) = cs" "bs ! (off + length cs) = 0"
  using assms by (auto simp: str_at_def)

lemma str_atI:
  assumes "hdr m this (length cs) cap b off bs"
    and "take (length cs) (drop off bs) = cs" and "bs ! (off + length cs) = 0"
  shows "str_at m this cs"
  using assms by (auto simp: str_at_def)

lemma str_at_length: "str_at m this cs \<Longrightarrow> length cs < 2 ^ 63 - 1"
  by (elim str_atE) (rule le_less_trans [OF hdr_bounds(3) hdr_bounds(4)])

lemma str_at_blocks_cong:
  assumes "blocks m' = blocks m"
  shows "str_at m' this cs = str_at m this cs" "hdr m' this sz cap b off bs = hdr m this sz cap b off bs"
    "owned m' this = owned m this"
  unfolding str_at_def hdr_def owned_def assms by (rule refl)+

lemma only_touches_refl:
  assumes "blocks m' = blocks m" and "owned m this \<subseteq> dom (blocks m)"
  shows "only_touches m this m'"
  using assms str_at_blocks_cong(3) [OF assms(1)] by (auto simp: only_touches_def)

lemma str_at_owned: "str_at m this cs \<Longrightarrow> owned m this \<subseteq> dom (blocks m)"
  by (elim str_atE) (use hdr_bounds(1,6,7) in fastforce)

lemma only_touches_trans:
  assumes "only_touches m this m1" and "only_touches m1 this m2"
  shows "only_touches m this m2"
proof -
  have 1: "\<And>b. b \<notin> owned m this \<Longrightarrow> b \<notin> owned m1 this \<Longrightarrow> blocks m1 b = blocks m b"
    and 2: "owned m1 this \<inter> dom (blocks m) \<subseteq> owned m this"
    and 3: "dom (blocks m1) = (dom (blocks m) - owned m this) \<union> owned m1 this"
    using assms(1) unfolding only_touches_def by auto
  have 4: "\<And>b. b \<notin> owned m1 this \<Longrightarrow> b \<notin> owned m2 this \<Longrightarrow> blocks m2 b = blocks m1 b"
    and 5: "owned m2 this \<inter> dom (blocks m1) \<subseteq> owned m1 this"
    and 6: "dom (blocks m2) = (dom (blocks m1) - owned m1 this) \<union> owned m2 this"
    using assms(2) unfolding only_touches_def by auto
  have "blocks m2 b = blocks m b" if b: "b \<notin> owned m this" "b \<notin> owned m2 this" for b
  proof (cases "b \<in> owned m1 this")
    case True
    then have "blocks m b = None" "blocks m2 b = None"
      using 2 6 b by (auto simp: domIff)
    then show ?thesis by simp
  next
    case False
    then show ?thesis using 1 4 b by simp
  qed
  moreover have "owned m2 this \<inter> dom (blocks m) \<subseteq> owned m this"
  proof
    fix x
    assume x: "x \<in> owned m2 this \<inter> dom (blocks m)"
    show "x \<in> owned m this"
    proof (rule ccontr)
      assume n: "x \<notin> owned m this"
      with x have "x \<in> dom (blocks m1)" unfolding 3 by simp
      with x have "x \<in> owned m1 this" using subsetD [OF 5] by simp
      with x have "x \<in> owned m this" using subsetD [OF 2] by simp
      with n show False by simp
    qed
  qed
  moreover have "dom (blocks m2) = (dom (blocks m) - owned m this) \<union> owned m2 this"
  proof -
    have "(dom (blocks m) - owned m this) \<inter> owned m1 this = {}"
      using subsetD [OF 2] by auto
    then have "dom (blocks m1) - owned m1 this = dom (blocks m) - owned m this"
      unfolding 3 by auto
    then show ?thesis unfolding 6 by simp
  qed
  ultimately show ?thesis
    unfolding only_touches_def by simp
qed

text \<open>Writes to the string's own objects.\<close>

lemma only_touches_same_ptr:
  assumes "hdr m this sz cap b off bs" and "hdr m' this sz' cap' b off' bs'"
    and "\<And>c. c \<noteq> this \<Longrightarrow> c \<noteq> b \<Longrightarrow> blocks m' c = blocks m c"
  shows "only_touches m this m'"
proof -
  have o: "owned m this = {this, b}" "owned m' this = {this, b}"
    using hdr_bounds(6) assms by blast+
  have d: "this \<in> dom (blocks m)" "b \<in> dom (blocks m)" "this \<in> dom (blocks m')" "b \<in> dom (blocks m')"
    using hdr_bounds(1,7) [OF assms(1)] hdr_bounds(1,7) [OF assms(2)] by auto
  have "dom (blocks m') - {this, b} = dom (blocks m) - {this, b}"
    using assms(3) by (auto simp: domIff)
  with d assms(3) show ?thesis
    unfolding only_touches_def o by auto
qed

text \<open>Another string whose objects are not those of \<open>this\<close> keeps its value.\<close>

lemma only_touches_other:
  assumes "only_touches m this m'" and "str_at m that cs" and "owned m that \<inter> owned m this = {}"
  shows "str_at m' that cs \<and> owned m' that = owned m that \<and> owned m' that \<inter> owned m' this = {}"
proof -
  obtain cap b off bs where h: "hdr m that (length cs) cap b off bs"
    and t: "take (length cs) (drop off bs) = cs" "bs ! (off + length cs) = 0"
    using assms(2) by (rule str_atE)
  have o: "owned m that = {that, b}" and d: "that \<in> dom (blocks m)" "b \<in> dom (blocks m)"
    using hdr_bounds(1,6,7) [OF h] by auto
  have "that \<notin> owned m' this" "b \<notin> owned m' this"
    using assms(1,3) d unfolding only_touches_def o by auto
  then have e: "blocks m' that = blocks m that" "blocks m' b = blocks m b"
    using assms(1,3) unfolding only_touches_def o by auto
  have h': "hdr m' that (length cs) cap b off bs"
    using h e by (auto simp: hdr_def split: option.splits if_splits)
  show ?thesis
    using str_atI [OF h' t] hdr_bounds(6) [OF h'] o
      \<open>that \<notin> owned m' this\<close> \<open>b \<notin> owned m' this\<close> by auto
qed

end
