(* ===== verification/Bstring_Alloc.thy ===== *)
theory Bstring_Alloc
  imports Bstring_Rep
begin

text \<open>
  Construction, destruction, assignment and capacity management of \<^verbatim>\<open>crossbow::string\<close>. A
  constructor runs on the 32 unspecified bytes of the object (\<open>raw_at\<close>). Iterator arguments
  and \<^verbatim>\<open>const_pointer\<close> arguments are pointers.
\<close>

section \<open>Operations\<close>

text \<open>\<^verbatim>\<open>std::char_traits<char>::length\<close>: the characters before the first zero byte.\<close>

definition traits_length :: "ptr \<Rightarrow> u64 prog" where
  "traits_length p m = (case blocks m (fst p) of None \<Rightarrow> UB
     | Some bs \<Rightarrow> let cs = takeWhile (\<lambda>c. c \<noteq> 0) (drop (snd p) bs)
         in if snd p + length cs < length bs then Ok (of_nat (length cs)) m else UB)"

text \<open>\<^verbatim>\<open>std::distance\<close> of two pointers into one object.\<close>

definition ptr_diff :: "ptr \<Rightarrow> ptr \<Rightarrow> int prog" where
  "ptr_diff first fin m = (if fst first = fst fin then Ok (int (snd fin) - int (snd first)) m else UB)"

text \<open>\<^verbatim>\<open>for (auto & c : arr) c = '\0'\<close>\<close>

definition zero_arr :: "u64 \<Rightarrow> unit prog" where
  "zero_arr this = for_up ARR_SIZE (\<lambda>i. store (this, i) 0)"

text \<open>The assignment of one \<^verbatim>\<open>std::array\<close> to another.\<close>

definition copy_arr :: "u64 \<Rightarrow> u64 \<Rightarrow> unit prog" where
  "copy_arr this other = bindM (load_bytes (other, 0) ARR_SIZE) (\<lambda>bs. store_bytes (this, 0) bs)"

definition init :: "u64 \<Rightarrow> u64 \<Rightarrow> unit prog" where
  "init this count =
     (if count \<le> max_in_buffer_size then
        thenM (store (this, 0) (ucast count))
        (bindM (str_end this) (\<lambda>e. store e 0))
      else
        thenM (store (this, 0) nullchar)
        (thenM (set_size this count)
        (bindM (allocate (count + 1)) (\<lambda>p.
         thenM (set_capacity this count)
        (thenM (set_ptr this p)
        (bindM (str_end this) (\<lambda>e. store e 0)))))))"

definition ctor_default :: "u64 \<Rightarrow> unit prog" where
  "ctor_default this = thenM (zero_arr this) (store (this, 0) 0)"

definition ctor_fill :: "u64 \<Rightarrow> u64 \<Rightarrow> byte \<Rightarrow> unit prog" where
  "ctor_fill this count ch =
     thenM (init this count)
     (bindM (get_ptr this) (\<lambda>p.
      thenM (for_up (unat count) (\<lambda>i. store (ptr_add p i) ch))
      (store (ptr_add p (unat count)) 0)))"

definition ctor_substr :: "u64 \<Rightarrow> u64 \<Rightarrow> u64 \<Rightarrow> u64 \<Rightarrow> unit prog" where
  "ctor_substr this other pos count =
     bindM (str_size other) (\<lambda>osize.
     if osize < pos then throw out_of_range
     else thenM (if pos = osize then zero_arr this else ret ())
       (let cnt = (if osize - pos < count then osize - pos else count) in
        thenM (init this cnt)
        (bindM (get_ptr this) (\<lambda>p.
         bindM (get_ptr other) (\<lambda>o0.
         let optr = ptr_add o0 (unat pos) in
         thenM (copy_chars optr (unat cnt) p)
         (store (ptr_add p (unat cnt)) 0))))))"

definition ctor_ptr_count :: "u64 \<Rightarrow> ptr \<Rightarrow> u64 \<Rightarrow> unit prog" where
  "ctor_ptr_count this s count =
     thenM (init this count)
     (bindM (get_ptr this) (\<lambda>p.
      thenM (copy_chars s (unat count) p)
      (store (ptr_add p (unat count)) 0)))"

definition ctor_cstr :: "u64 \<Rightarrow> ptr \<Rightarrow> unit prog" where
  "ctor_cstr this s =
     bindM (traits_length s) (\<lambda>count.
     thenM (init this count)
     (bindM (get_ptr this) (\<lambda>p. copy_chars s (unat count) p)))"

definition ctor_range :: "u64 \<Rightarrow> ptr \<Rightarrow> ptr \<Rightarrow> unit prog" where
  "ctor_range this first fin =
     bindM (ptr_diff first fin) (\<lambda>count.
     thenM (init this (of_int count))
     (bindM (get_ptr this) (\<lambda>p.
      thenM (copy_chars first (nat count) p)
      (store (ptr_add p (nat count)) 0))))"

definition ctor_copy :: "u64 \<Rightarrow> u64 \<Rightarrow> unit prog" where
  "ctor_copy this other =
     bindM (load (other, 0)) (\<lambda>t.
     if t \<noteq> nullchar then copy_arr this other
     else bindM (str_size other) (\<lambda>count.
       thenM (init this count)
       (bindM (str_begin other) (\<lambda>ob.
        bindM (str_end other) (\<lambda>oe.
        bindM (ptr_diff ob oe) (\<lambda>n.
        bindM (str_begin this) (\<lambda>p.
        thenM (copy_chars ob (nat n) p)
        (bindM (get_ptr this) (\<lambda>q. store (ptr_add q (unat count)) 0)))))))))"

definition ctor_move :: "u64 \<Rightarrow> u64 \<Rightarrow> unit prog" where
  "ctor_move this other = thenM (copy_arr this other) (zero_arr other)"

definition ctor_ilist :: "u64 \<Rightarrow> ptr \<Rightarrow> u64 \<Rightarrow> unit prog" where
  "ctor_ilist this l n =
     thenM (init this n)
     (bindM (str_begin this) (\<lambda>p. copy_chars l (unat n) p))"

text \<open>From a \<^verbatim>\<open>std::string\<close> with the given data pointer and size.\<close>

definition ctor_std :: "u64 \<Rightarrow> ptr \<Rightarrow> u64 \<Rightarrow> unit prog" where
  "ctor_std this other_c_str other_size = ctor_ptr_count this other_c_str other_size"

definition dtor :: "u64 \<Rightarrow> unit prog" where
  "dtor this = bindM (load (this, 0)) (\<lambda>t.
     if t = nullchar then
       bindM (get_ptr this) (\<lambda>p.
       bindM (capacity this) (\<lambda>c.
       thenM (deallocate p c) (store (this, 0) 0)))
     else ret ())"

definition shrink_to_fit :: "u64 \<Rightarrow> unit prog" where
  "shrink_to_fit this =
     bindM (str_size this) (\<lambda>s.
     bindM (capacity this) (\<lambda>c.
     if s = c then ret ()
     else if c \<le> max_in_buffer_size then ret ()
     else if s \<le> max_in_buffer_size then
       bindM (get_ptr this) (\<lambda>p.
       thenM (store (this, 0) (ucast s))
       (thenM (copy_chars p (unat s) (this, 1))
       (thenM (deallocate p c)
       (store (this, 1 + unat s) 0))))
     else
       bindM (allocate (s + 1)) (\<lambda>np.
       bindM (str_begin this) (\<lambda>sb.
       bindM (str_end this) (\<lambda>se.
       bindM (ptr_diff sb se) (\<lambda>n.
       thenM (copy_chars sb (nat n) np)
       (thenM (store (ptr_add np (unat s)) 0)
       (bindM (get_ptr this) (\<lambda>p.
        thenM (deallocate p c)
        (thenM (set_ptr this np)
        (set_capacity this s))))))))))) "

text \<open>
  The part of \<open>reserve\<close> after the allocation: the characters and the terminator are copied, the
  old block is given up (or the buffer turned into a heap header), the new one is installed.
\<close>

definition detach_buffer :: "u64 \<Rightarrow> u64 \<Rightarrow> ptr \<Rightarrow> unit prog" where
  "detach_buffer this sz p =
     bindM (load (this, 0)) (\<lambda>t.
     if t \<noteq> nullchar then thenM (store (this, 0) nullchar) (set_size this sz)
     else bindM (get_capacity this) (\<lambda>oc. deallocate p oc))"

definition reserve_move :: "u64 \<Rightarrow> u64 \<Rightarrow> u64 \<Rightarrow> ptr \<Rightarrow> unit prog" where
  "reserve_move this sz new_cap np =
     bindM (get_ptr this) (\<lambda>p.
     bindM (str_size this) (\<lambda>n.
     thenM (copy_chars p (unat n + 1) np)
     (thenM (detach_buffer this sz p)
     (thenM (set_capacity this new_cap)
     (set_ptr this np)))))"

definition reserve :: "u64 \<Rightarrow> u64 \<Rightarrow> unit prog" where
  "reserve this new_cap0 =
     bindM (capacity this) (\<lambda>cap.
     if new_cap0 \<le> cap then ret ()
     else if max_size < new_cap0 then throw length_error
     else
       bindM (str_size this) (\<lambda>sz.
       bindM (capacity this) (\<lambda>cap.
       let new_cap = max (cap * 2) new_cap0 in
       bindM (allocate (new_cap + 1)) (\<lambda>np. reserve_move this sz new_cap np))))"

definition assign_copy :: "u64 \<Rightarrow> u64 \<Rightarrow> unit prog" where
  "assign_copy this str =
     bindM (str_size str) (\<lambda>n.
     thenM (reserve this n)
     (bindM (str_begin str) (\<lambda>sb.
      bindM (str_end str) (\<lambda>se.
      bindM (ptr_diff sb se) (\<lambda>d.
      bindM (str_begin this) (\<lambda>p.
      thenM (copy_chars sb (nat d) p)
      (bindM (str_size str) (\<lambda>n.
       thenM (set_size this n)
       (bindM (str_end this) (\<lambda>e. store e 0))))))))))"

text \<open>\<^verbatim>\<open>assign(const basic_string&)\<close> has no return statement: flowing off its end is undefined.\<close>

definition assign_str :: "u64 \<Rightarrow> u64 \<Rightarrow> unit prog" where
  "assign_str this str = bindM (assign_copy this str) (\<lambda>_ _. UB)"

definition assign_move :: "u64 \<Rightarrow> u64 \<Rightarrow> unit prog" where
  "assign_move this str =
     bindM (load (this, 0)) (\<lambda>t.
     thenM
       (if t = nullchar then
          bindM (get_ptr this) (\<lambda>p. bindM (str_size this) (\<lambda>n. deallocate p n))
        else ret ())
     (thenM (copy_arr this str) (zero_arr str)))"

text \<open>\<^verbatim>\<open>assign(const_pointer, size_type)\<close>, and the assignments that have the same body.\<close>

definition assign_ptr :: "u64 \<Rightarrow> ptr \<Rightarrow> u64 \<Rightarrow> unit prog" where
  "assign_ptr this s count =
     thenM (reserve this count)
     (bindM (str_begin this) (\<lambda>p.
      thenM (copy_chars s (unat count) p)
      (thenM (set_size this count)
      (bindM (str_end this) (\<lambda>e. store e 0)))))"

definition assign_cstr :: "u64 \<Rightarrow> ptr \<Rightarrow> unit prog" where
  "assign_cstr this s =
     bindM (traits_length s) (\<lambda>n.
     thenM (reserve this n)
     (bindM (str_begin this) (\<lambda>p.
      thenM (copy_chars s (unat n) p)
      (thenM (set_size this n)
      (bindM (str_end this) (\<lambda>e. store e 0))))))"

definition assign_ilist :: "u64 \<Rightarrow> ptr \<Rightarrow> u64 \<Rightarrow> unit prog" where
  "assign_ilist this l n =
     thenM (reserve this n)
     (bindM (str_begin this) (\<lambda>p.
      thenM (copy_chars l (unat n) p)
      (thenM (set_size this n)
      (bindM (str_end this) (\<lambda>e. store e 0)))))"

definition assign_char :: "u64 \<Rightarrow> byte \<Rightarrow> unit prog" where
  "assign_char this ch =
     thenM (reserve this 1)
     (thenM (set_size this 1)
     (bindM (str_begin this) (\<lambda>p.
      thenM (store p ch)
      (bindM (str_end this) (\<lambda>e. store e 0)))))"

definition assign_fill :: "u64 \<Rightarrow> u64 \<Rightarrow> byte \<Rightarrow> unit prog" where
  "assign_fill this count ch =
     thenM (reserve this count)
     (bindM (str_begin this) (\<lambda>iter.
      thenM (for_up (unat count) (\<lambda>i. store (ptr_add iter i) ch))
      (thenM (set_size this count)
      (bindM (str_end this) (\<lambda>e. store e 0)))))"

definition assign_sub :: "u64 \<Rightarrow> u64 \<Rightarrow> u64 \<Rightarrow> u64 \<Rightarrow> unit prog" where
  "assign_sub this str pos count =
     bindM (str_size str) (\<lambda>os.
     if os < pos then throw out_of_range
     else let cnt = (if os < pos + count then os - pos else count) in
       bindM (str_begin str) (\<lambda>c_str. assign_ptr this (ptr_add c_str (unat pos)) cnt))"

definition assign_range :: "u64 \<Rightarrow> ptr \<Rightarrow> ptr \<Rightarrow> unit prog" where
  "assign_range this first fin =
     bindM (ptr_diff first fin) (\<lambda>s.
     thenM (reserve this (of_int s))
     (bindM (str_begin this) (\<lambda>p.
      thenM (copy_chars first (nat s) p)
      (thenM (set_size this (of_int s))
      (bindM (str_end this) (\<lambda>e. store e 0))))))"

definition str_swap :: "u64 \<Rightarrow> u64 \<Rightarrow> unit prog" where
  "str_swap this other =
     bindM (load_bytes (this, 0) ARR_SIZE) (\<lambda>tarr.
     thenM (copy_arr this other)
     (store_bytes (other, 0) tarr))"

section \<open>Growth\<close>

lemma hdr_frame:
  assumes "hdr m this sz cap b off bs" "blocks m' this = blocks m this" "blocks m' b = blocks m b"
  shows "hdr m' this sz cap b off bs"
  using assms by (auto simp: hdr_def split: option.splits if_splits)

lemma hdrE:
  assumes "hdr m this sz cap b off bs"
  obtains (inside) "blocks m this = Some bs" "length bs = ARR_SIZE" "bs ! 0 \<noteq> nullchar" "bs ! 0 = of_nat sz"
      "cap = 30" "b = this" "off = 1"
  | (heap) arr where "blocks m this = Some arr" "length arr = ARR_SIZE" "arr ! 0 = nullchar"
      "of_le_bytes (take 8 (drop SIZE_OFFSET arr)) = (of_nat sz :: u64)"
      "of_le_bytes (take 8 (drop CAPACITY_OFFSET arr)) = (of_nat cap :: u64)"
      "of_le_bytes (take 8 (drop POINTER_OFFSET arr)) = b"
      "b \<noteq> this" "off = 0" "blocks m b = Some bs" "length bs = cap + 1" "30 < cap"
proof (cases "blocks m this")
  case None
  then show ?thesis using assms by (simp add: hdr_def)
next
  case (Some arr)
  then show ?thesis
    using assms inside heap [of arr] by (cases "arr ! 0 = nullchar") (simp_all add: hdr_def)
qed

lemma heap_hdrI:
  assumes "blocks m this = Some arr" "length arr = 32" "arr ! 0 = nullchar"
    "of_le_bytes (take 8 (drop 8 arr)) = (of_nat sz :: u64)"
    "of_le_bytes (take 8 (drop 16 arr)) = (of_nat cap :: u64)"
    "of_le_bytes (take 8 (drop 24 arr)) = b"
    "b \<noteq> this" "blocks m b = Some bs" "length bs = cap + 1" "30 < cap" "cap < unat alloc_max_size"
    "sz \<le> cap"
  shows "hdr m this sz cap b 0 bs"
  using assms by (simp add: hdr_def offset_defs)

text \<open>The last two steps of every growth: capacity and data pointer of a heap string.\<close>

lemma install_ptr:
  assumes "blocks m this = Some arr" "length arr = 32" "arr ! 0 = nullchar"
    "of_le_bytes (take 8 (drop 8 arr)) = (of_nat sz :: u64)"
    "b \<noteq> this" "blocks m b = Some bs" "length bs = unat cap + 1" "30 < unat cap"
    "unat cap < unat alloc_max_size" "sz \<le> unat cap"
  obtains m' where "thenM (set_capacity this cap) (set_ptr this (b, 0)) m = Ok () m'"
    "hdr m' this sz (unat cap) b 0 bs" "\<And>c. c \<noteq> this \<Longrightarrow> blocks m' c = blocks m c"
proof -
  let ?a1 = "overwrite 16 (le_bytes 8 cap) arr"
  let ?a2 = "overwrite 24 (le_bytes 8 b) ?a1"
  have l: "length ?a1 = 32" "length ?a2 = 32"
    using assms(2) by simp_all
  have p: "take 8 (drop 24 ?a2) = le_bytes 8 b"
    using read_overwrite_same [of 24 "le_bytes 8 b" ?a1] l by simp
  have run: "thenM (set_capacity this cap) (set_ptr this (b, 0)) m = Ok () (set_block this ?a2 m)"
    using assms(1,2) l by (simp add: set_capacity_def set_ptr_def store_bytes_Ok offset_defs)
  have "hdr (set_block this ?a2 m) this sz (unat cap) b 0 bs"
    by (rule heap_hdrI [where arr = ?a2])
      (use assms l p in \<open>simp_all only: p u64_codec.dec_enc, simp_all add: block_simps u64_codec.dec_enc\<close>)
  with run show ?thesis
    by (rule that) simp
qed

text \<open>Giving up the old characters: into the buffer goes the heap header, or the block is freed.\<close>

lemma detach_buffer_ok:
  assumes h: "hdr m this sz cap b off bs"
  obtains m' arr where
    "detach_buffer this (of_nat sz) (b, off) m = Ok () m'"
    "blocks m' this = Some arr" "length arr = 32" "arr ! 0 = nullchar"
    "of_le_bytes (take 8 (drop 8 arr)) = (of_nat sz :: u64)"
    "\<And>c. c \<noteq> this \<Longrightarrow> blocks m' c = (if c = b then None else blocks m c)"
  using h
proof (cases rule: hdrE)
  case inside
  let ?arr = "overwrite 8 (le_bytes 8 (of_nat sz :: u64)) (bs[0 := nullchar])"
  have "?arr ! 0 = nullchar"
    using inside by (simp add: nth_overwrite offset_defs)
  then show ?thesis
    using inside
    by (intro that [of "set_block this ?arr m" ?arr])
      (simp_all add: load_Ok store_Ok store_bytes_Ok detach_buffer_def set_size_def offset_defs block_simps u64_codec.dec_enc)
next
  case (heap arr)
  then show ?thesis
    by (intro that [of "m\<lparr>blocks := (blocks m)(b := None)\<rparr>" arr])
      (simp_all add: load_Ok load_bytes_Ok get_capacity_def deallocate_def detach_buffer_def offset_defs)
qed

lemma only_touches_new_ptr:
  assumes "hdr m this sz cap b off bs" and "hdr m' this sz' cap' a off' bs'" and "blocks m a = None"
    and o: "\<And>c. c \<noteq> this \<Longrightarrow> c \<noteq> a \<Longrightarrow> blocks m' c = (if c = b then None else blocks m c)"
  shows "only_touches m this m'"
proof -
  have ow: "owned m this = {this, b}" "owned m' this = {this, a}"
    using hdr_bounds(6) assms by blast+
  have d: "this \<in> dom (blocks m)" "this \<in> dom (blocks m')" "a \<in> dom (blocks m')"
    using hdr_bounds(1,7) [OF assms(1)] hdr_bounds(1,7) [OF assms(2)] by auto
  have "x \<in> dom (blocks m') \<longleftrightarrow> x \<in> (dom (blocks m) - {this, b}) \<union> {this, a}" for x
    using d o [of x] by (cases "x = this \<or> x = a") (auto simp: domIff)
  then have "dom (blocks m') = (dom (blocks m) - {this, b}) \<union> {this, a}" by blast
  then show ?thesis
    using o assms(3) unfolding only_touches_def ow by (auto simp: domIff)
qed

lemma grow_capacity:
  fixes n :: u64
  assumes "cap < 2 ^ 63 - 1" and "unat n \<le> 2 ^ 63 - 2"
  shows "unat (max (of_nat cap * 2) n) = max (2 * cap) (unat n)"
    and "unat (max (of_nat cap * 2) n + 1) = max (2 * cap) (unat n) + 1"
proof -
  have "unat (of_nat cap * 2 :: u64) = 2 * cap"
    using assms(1) unat_of_nat_u64 [of "cap * 2"] by simp
  then show 1: "unat (max (of_nat cap * 2) n) = max (2 * cap) (unat n)"
    by (simp add: max_def word_le_nat_alt)
  show "unat (max (of_nat cap * 2) n + 1) = max (2 * cap) (unat n) + 1"
    using assms by (subst unat_add_no_wrap) (simp_all add: 1)
qed

text \<open>
  Growth, after the allocator has answered with the block \<open>a\<close>: the characters and the terminator
  are copied, the old block is given up, and the header points to the new one.
\<close>

lemma reserve_move_ok:
  assumes h: "hdr m this sz cap b off bs"
    and a: "a \<noteq> this" "a \<noteq> b" "blocks m a = Some fresh" "length fresh = unat nc + 1"
    and nc: "30 < unat nc" "sz \<le> unat nc" "unat nc < unat alloc_max_size"
  obtains m' bs' where "reserve_move this (of_nat sz) nc (a, 0) m = Ok () m'"
    "hdr m' this sz (unat nc) a 0 bs'" "take (sz + 1) bs' = take (sz + 1) (drop off bs)"
    "\<And>c. c \<noteq> this \<Longrightarrow> c \<noteq> a \<Longrightarrow> blocks m' c = (if c = b then None else blocks m c)"
proof -
  note B = hdr_bounds [OF h]
  define bs2 where "bs2 = overwrite 0 (take (sz + 1) (drop off bs)) fresh"
  define m2 where "m2 = set_block a bs2 m"
  have cp: "copy_chars (b, off) (sz + 1) (a, 0) m = Ok () m2"
    using copy_chars_other [of m "(b, off)" bs "sz + 1" "(a, 0)" fresh] a nc B
    by (simp add: m2_def bs2_def)
  have h2: "hdr m2 this sz cap b off bs"
    using h by (rule hdr_frame) (use a m2_def in simp_all)
  have c2: "take (sz + 1) bs2 = take (sz + 1) (drop off bs)" "length bs2 = unat nc + 1"
    using a nc B by (auto simp: bs2_def overwrite_def)
  obtain m3 arr3 where m3: "detach_buffer this (of_nat sz) (b, off) m2 = Ok () m3"
    and arr3: "blocks m3 this = Some arr3" "length arr3 = 32" "arr3 ! 0 = nullchar"
      "of_le_bytes (take 8 (drop 8 arr3)) = (of_nat sz :: u64)"
    and o3: "\<And>c. c \<noteq> this \<Longrightarrow> blocks m3 c = (if c = b then None else blocks m2 c)"
    by (rule detach_buffer_ok [OF h2]) (rule that)
  have a3: "blocks m3 a = Some bs2"
    using o3 [of a] a by (simp add: m2_def)
  obtain m4 where m4: "thenM (set_capacity this nc) (set_ptr this (a, 0)) m3 = Ok () m4"
    and h4: "hdr m4 this sz (unat nc) a 0 bs2"
    and o4: "\<And>c. c \<noteq> this \<Longrightarrow> blocks m4 c = blocks m3 c"
    using install_ptr [OF arr3 a(1) a3 c2(2) nc(1,3,2)] by metis
  have "reserve_move this (of_nat sz) nc (a, 0) m = Ok () m4"
    using cp h hdr_unat(1) [OF h] m3 m4
    by (simp add: reserve_move_def hdr_get_ptr hdr_str_size)
  then show ?thesis
    using h4 c2(1) by (rule that) (use o3 o4 in \<open>simp add: m2_def\<close>)
qed

text \<open>The one reason for an exception: the string has to grow to \<open>n\<close> characters and cannot.\<close>

definition growth_fails :: "mem \<Rightarrow> u64 \<Rightarrow> nat \<Rightarrow> bool" where
  "growth_fails m this n \<longleftrightarrow> (\<exists>cap. capacity this m = Ok cap m \<and> unat cap < n \<and>
     (unat max_size < n \<or> \<not> heap_ready m (max (2 * unat cap) n + 1)))"

lemma reserve_cases:
  assumes h: "hdr m this sz cap b off bs"
  obtains (enough) "unat n \<le> cap" "reserve this n m = Ok () m"
  | (too_long) "growth_fails m this (unat n)" "reserve this n m = Throw length_error m"
  | (no_memory) m' where "growth_fails m this (unat n)" "reserve this n m = Throw bad_alloc m'" "blocks m' = blocks m"
  | (grown) m' b' bs' where "cap < unat n" "reserve this n m = Ok () m'"
      "hdr m' this sz (max (2 * cap) (unat n)) b' 0 bs'"
      "take (sz + 1) bs' = take (sz + 1) (drop off bs)"
      "only_touches m this m'" "blocks m b' = None"
proof -
  note B = hdr_bounds [OF h]
  define nc where "nc = max (of_nat cap * 2) n"
  consider (1) "unat n \<le> cap" | (2) "cap < unat n" "unat max_size < unat n"
    | (3) "cap < unat n" "unat n \<le> unat max_size" by linarith
  then show ?thesis
  proof cases
    case 1
    then have "reserve this n m = Ok () m"
      using h hdr_unat(2) [OF h] by (simp add: reserve_def hdr_capacity word_le_nat_alt)
    with 1 show ?thesis by (rule enough)
  next
    case 2
    then have "reserve this n m = Throw length_error m"
      using h hdr_unat(2) [OF h]
      by (simp add: reserve_def hdr_capacity word_le_nat_alt word_less_nat_alt)
    moreover have "growth_fails m this (unat n)"
      using 2 hdr_capacity [OF h] hdr_unat(2) [OF h] by (simp add: growth_fails_def)
    ultimately show ?thesis by (intro too_long)
  next
    case 3
    have nc: "unat nc = max (2 * cap) (unat n)" and nc1: "unat (nc + 1) = unat nc + 1"
      using grow_capacity [OF B(4), of n] 3 unfolding nc_def unat_max_size by simp_all
    have run: "reserve this n m = bindM (allocate (nc + 1)) (reserve_move this (of_nat sz) nc) m"
      using h 3 hdr_unat(2) [OF h]
      by (simp add: reserve_def hdr_capacity hdr_str_size word_le_nat_alt word_less_nat_alt nc_def
          Let_def)
    show ?thesis
    proof (cases rule: allocate_cases [of "nc + 1" m])
      case (fail m')
      with run have "reserve this n m = Throw bad_alloc m'" by simp
      moreover have "growth_fails m this (unat n)"
        using 3 fail(3) hdr_capacity [OF h] hdr_unat(2) [OF h] unfolding nc1 nc by (simp add: growth_fails_def)
      ultimately show ?thesis using fail(2) by (intro no_memory)
    next
      case (ok a fresh m1)
      have a: "a \<noteq> this" "a \<noteq> b" "blocks m1 a = Some fresh" "length fresh = unat nc + 1"
        using ok(3,4,5) nc1 B(1,7) by auto
      have ge: "30 < unat nc" "sz \<le> unat nc" "unat nc < unat alloc_max_size"
        using 3 B ok(6) unfolding nc1 nc by linarith+
      have h1: "hdr m1 this sz cap b off bs"
        using h by (rule hdr_frame) (use ok a in auto)
      obtain m4 bs4 where m4: "reserve_move this (of_nat sz) nc (a, 0) m1 = Ok () m4"
        and h4: "hdr m4 this sz (unat nc) a 0 bs4" "take (sz + 1) bs4 = take (sz + 1) (drop off bs)"
        and o4: "\<And>c. c \<noteq> this \<Longrightarrow> c \<noteq> a \<Longrightarrow> blocks m4 c = (if c = b then None else blocks m1 c)"
        by (rule reserve_move_ok [OF h1 a ge]) (rule that)
      have "only_touches m this m4"
        by (rule only_touches_new_ptr [OF h h4(1) ok(3)]) (use o4 ok(5) in simp)
      then show ?thesis
        using grown [of m4 a bs4] 3 h4 ok(1,3) m4 run unfolding nc by simp
    qed
  qed
qed

end
