(* ===== verification/Bstring_Construct.thy ===== *)
theory Bstring_Construct
  imports Bstring_Alloc
begin

text \<open>
  Contracts of the constructors, the destructor and the capacity operations of
  \<^verbatim>\<open>crossbow::string\<close>. \<open>constructs\<close> and \<open>updates\<close> are the two contracts: what the memory is after a
  normal return, after an exception, and that there is no undefined behaviour. A constructor runs
  on the bytes of an object that is not yet a string (\<open>raw_at\<close>); an argument range is a run of
  characters of a live object (\<open>reads\<close>), a C string one that ends in a zero byte (\<open>cstr_at\<close>).
\<close>

section \<open>The contracts\<close>

definition raw_at :: "mem \<Rightarrow> u64 \<Rightarrow> bool" where
  "raw_at m this \<longleftrightarrow> (\<exists>arr. blocks m this = Some arr \<and> length arr = ARR_SIZE)"

definition reads :: "mem \<Rightarrow> ptr \<Rightarrow> byte list \<Rightarrow> bool" where
  "reads m p cs \<longleftrightarrow> (\<exists>bs. blocks m (fst p) = Some bs \<and> snd p + length cs \<le> length bs \<and>
     take (length cs) (drop (snd p) bs) = cs)"

definition cstr_at :: "mem \<Rightarrow> ptr \<Rightarrow> byte list \<Rightarrow> bool" where
  "cstr_at m p cs \<longleftrightarrow> reads m p (cs @ [0]) \<and> 0 \<notin> set cs"

text \<open>
  A new string at \<open>this\<close>: what it owns besides itself was free before, and nothing else changed.
\<close>

definition builds :: "mem \<Rightarrow> u64 \<Rightarrow> mem \<Rightarrow> bool" where
  "builds m this m' \<longleftrightarrow>
     (\<forall>b. b \<notin> owned m' this \<longrightarrow> blocks m' b = blocks m b) \<and>
     owned m' this \<inter> dom (blocks m) \<subseteq> {this}"

definition constructs :: "'a prog \<Rightarrow> mem \<Rightarrow> u64 \<Rightarrow> byte list \<Rightarrow> bool" where
  "constructs f m this cs \<longleftrightarrow> (case f m of
     Ok x m' \<Rightarrow> str_at m' this cs \<and> builds m this m'
   | Throw e m' \<Rightarrow> e = bad_alloc \<and> 30 < length cs \<and> \<not> heap_ready m (length cs + 1) \<and> (\<forall>b. b \<noteq> this \<longrightarrow> blocks m' b = blocks m b)
   | UB \<Rightarrow> False)"

text \<open>
  An operation on an existing string: afterwards it holds \<open>cs\<close>, every object that is not its own is
  as before, and what it owned and owns no longer is freed. It throws only when it has to grow to
  the length of \<open>cs\<close> and cannot, and then leaves all objects as they were.
\<close>

definition updates :: "'a prog \<Rightarrow> mem \<Rightarrow> u64 \<Rightarrow> byte list \<Rightarrow> bool" where
  "updates f m this cs \<longleftrightarrow> (case f m of
     Ok x m' \<Rightarrow> str_at m' this cs \<and> only_touches m this m'
   | Throw e m' \<Rightarrow> (e = length_error \<or> e = bad_alloc) \<and> growth_fails m this (length cs) \<and> blocks m' = blocks m
   | UB \<Rightarrow> False)"

section \<open>Argument ranges, initialisation, the last steps of a write\<close>

lemma only_touches_reads:
  assumes "only_touches m this m'" "fst p \<notin> owned m this" "reads m p cs"
  shows "reads m' p cs" "fst p \<notin> owned m' this"
proof -
  have "fst p \<in> dom (blocks m)" using assms(3) by (auto simp: reads_def)
  with assms(1,2) show *: "fst p \<notin> owned m' this" by (auto simp: only_touches_def)
  with assms show "reads m' p cs" by (simp add: only_touches_def reads_def)
qed

lemma copy_reads:
  assumes "reads m s cs" "blocks m (fst dst) = Some ds" "snd dst + length cs \<le> length ds" "fst s \<noteq> fst dst"
  shows "copy_chars s (length cs) dst m = Ok () (set_block (fst dst) (overwrite (snd dst) cs ds) m)"
  using assms copy_chars_other [of m s _ "length cs" dst ds] by (auto simp: reads_def)

lemma init_cases:
  assumes raw: "raw_at m this" and n: "unat n < 2 ^ 64 - 1"
  obtains (no_memory) m' where "init this n m = Throw bad_alloc m'" "30 < unat n" "\<not> heap_ready m (unat n + 1)"
      "\<And>b. b \<noteq> this \<Longrightarrow> blocks m' b = blocks m b"
  | (ok) m' cap b off bs where "init this n m = Ok () m'" "hdr m' this (unat n) cap b off bs"
      "bs ! (off + unat n) = 0" "builds m this m'"
proof -
  obtain arr where arr: "blocks m this = Some arr" "length arr = ARR_SIZE"
    using raw by (auto simp: raw_at_def)
  show ?thesis
  proof (cases "unat n \<le> 30")
    case True
    let ?a1 = "arr[0 := ucast n]"
    have un: "ucast n = (of_nat (unat n) :: byte)" "(of_nat (unat n) :: byte) \<noteq> nullchar"
      using small_byte(1) [OF True] by (simp_all add: of_nat_unat)
    have h1: "hdr (set_block this ?a1 m) this (unat n) 30 this 1 ?a1"
      using True un arr by (simp add: hdr_def offset_defs)
    let ?a2 = "?a1[1 + unat n := 0]" and ?m = "set_block this (?a1[1 + unat n := 0]) m"
    have h2: "hdr ?m this (unat n) 30 this 1 ?a2"
      using hdr_write [OF h1, of ?a2] by simp
    have "init this n m = Ok () ?m"
      using True arr hdr_str_end [OF h1]
      by (simp add: init_def word_le_nat_alt max_in_buffer_size_eq store_Ok offset_defs)
    moreover have "builds m this ?m"
      using hdr_bounds(6) [OF h2] by (simp add: builds_def)
    ultimately show ?thesis
      using ok h2 True arr by (simp add: offset_defs)
  next
    case False
    let ?a1 = "overwrite 8 (le_bytes 8 n) (arr[0 := nullchar])"
    let ?m1 = "set_block this ?a1 m"
    have n1: "unat (n + 1) = unat n + 1"
      using n by (subst unat_add_no_wrap) simp_all
    have a1: "blocks ?m1 this = Some ?a1" "length ?a1 = 32" "?a1 ! 0 = nullchar"
      "of_le_bytes (take 8 (drop 8 ?a1)) = (of_nat (unat n) :: u64)"
      using arr by (simp_all add: offset_defs nth_overwrite block_simps u64_codec.dec_enc)
    have run: "init this n m = bindM (allocate (n + 1)) (\<lambda>p. thenM (set_capacity this n)
        (thenM (set_ptr this p) (bindM (str_end this) (\<lambda>e. store e 0)))) ?m1"
      using False arr by (simp add: init_def word_le_nat_alt max_in_buffer_size_eq store_Ok
          set_size_def load_Ok store_bytes_Ok offset_defs)
    show ?thesis
    proof (cases rule: allocate_cases [of "n + 1" ?m1])
      case (fail m')
      have "dom (blocks ?m1) = dom (blocks m)" using arr by (auto simp: domIff split: if_splits)
      then have "heap_ready ?m1 k = heap_ready m k" for k by (rule heap_ready_cong) simp_all
      then show ?thesis using fail no_memory [of m'] run False n1 by simp
    next
      case (ok a fresh m2)
      have a: "a \<noteq> this" "blocks m2 a = Some fresh" "length fresh = unat n + 1"
        using ok n1 by (auto split: if_splits)
      have m2: "blocks m2 this = Some ?a1"
        using ok a by simp
      obtain m3 where m3: "thenM (set_capacity this n) (set_ptr this (a, 0)) m2 = Ok () m3"
        and h3: "hdr m3 this (unat n) (unat n) a 0 fresh"
        and o3: "\<And>c. c \<noteq> this \<Longrightarrow> blocks m3 c = blocks m2 c"
        using install_ptr [OF m2 a1(2,3,4) a] False ok(6) n1 by auto
      let ?m4 = "set_block a (fresh[unat n := 0]) m3"
      have h4: "hdr ?m4 this (unat n) (unat n) a 0 (fresh[unat n := 0])"
        using hdr_write [OF h3, of "fresh[unat n := 0]"] by simp
      have "init this n m = Ok () ?m4"
        using run ok(1) m3 h3 a o3 hdr_bounds(1) [OF h3]
        by (simp add: thenM_assoc [symmetric] hdr_str_end store_Ok)
      moreover have "builds m this ?m4"
        using hdr_bounds(6) [OF h4] o3 ok(3,5) by (auto simp: builds_def split: if_splits)
      ultimately show ?thesis
        using that(2) [OF _ h4] a by simp
    qed
  qed
qed

text \<open>Writing the size and the terminator behind characters that are in place.\<close>

lemma finish_write:
  assumes h: "hdr m this sz cap b off bs" and cs: "length cs \<le> cap" "take (length cs) (drop off bs) = cs"
  obtains m' bs' where
    "thenM (set_size this (of_nat (length cs))) (bindM (str_end this) (\<lambda>e. store e 0)) m = Ok () m'"
    "hdr m' this (length cs) cap b off bs'" "str_at m' this cs"
    "\<And>c. c \<noteq> this \<Longrightarrow> c \<noteq> b \<Longrightarrow> blocks m' c = blocks m c"
proof -
  note B = hdr_bounds [OF h]
  have u: "unat (of_nat (length cs) :: u64) = length cs"
    using cs B by (simp add: unat_of_nat_u64)
  obtain m1 bs1 where m1: "set_size this (of_nat (length cs)) m = Ok () m1"
    and h1: "hdr m1 this (length cs) cap b off bs1" "length bs1 = length bs" "drop off bs1 = drop off bs"
    and o1: "\<And>c. c \<noteq> this \<Longrightarrow> blocks m1 c = blocks m c"
    using hdr_set_size [OF h, of "of_nat (length cs)"] cs u by metis
  let ?bs = "bs1[off + length cs := 0]"
  have h2: "hdr (set_block b ?bs m1) this (length cs) cap b off ?bs"
    using hdr_write [OF h1(1), of ?bs] by simp
  have "take (length cs) (drop off ?bs) = cs"
    using cs h1 by (simp add: drop_update_swap take_update_cancel)
  then have "str_at (set_block b ?bs m1) this cs"
    using h2 B h1(2) cs by (intro str_atI [OF h2]) simp_all
  moreover have "thenM (set_size this (of_nat (length cs))) (bindM (str_end this) (\<lambda>e. store e 0)) m =
      Ok () (set_block b ?bs m1)"
    using m1 h1 B cs hdr_bounds(1) [OF h1(1)] by (simp add: hdr_str_end store_Ok)
  ultimately show ?thesis
    using that h2 o1 by simp
qed

lemma hdr_overwrite:
  assumes "hdr m this sz cap b off bs" "length cs \<le> cap"
  shows "hdr (set_block b (overwrite off cs bs) m) this sz cap b off (overwrite off cs bs)"
    "take (length cs) (drop off (overwrite off cs bs)) = cs"
  using hdr_write [OF assms(1), of "overwrite off cs bs"] hdr_bounds(2) [OF assms(1)] assms(2)
  by (simp_all add: nth_overwrite read_overwrite_same)

text \<open>\<open>reserve\<close> on a string: room for \<open>n\<close> characters and the same value, or an exception and no change.\<close>

lemma reserve_str:
  assumes s: "str_at m this cs"
  obtains (ok) m' cap b off bs where "reserve this n m = Ok () m'" "hdr m' this (length cs) cap b off bs"
      "take (length cs) (drop off bs) = cs" "bs ! (off + length cs) = 0"
      "unat n \<le> cap" "only_touches m this m'"
  | (fail) e m' where "reserve this n m = Throw e m'" "e = length_error \<or> e = bad_alloc" "blocks m' = blocks m"
      "growth_fails m this (unat n)"
proof -
  obtain cap b off bs where h: "hdr m this (length cs) cap b off bs"
    and c: "take (length cs) (drop off bs) = cs" "bs ! (off + length cs) = 0"
    using s by (rule str_atE)
  show ?thesis
  proof (cases rule: reserve_cases [OF h, of n])
    case 1
    then show ?thesis
      using ok [OF _ h c] only_touches_refl [OF refl str_at_owned [OF s]] by simp
  next
    case 2
    then show ?thesis using fail by blast
  next
    case (3 m')
    then show ?thesis using fail by blast
  next
    case (4 m' b' bs')
    have l: "length cs + 1 \<le> length (drop off bs)" "length cs + 1 \<le> length bs'"
      using hdr_bounds(2,3) [OF h] hdr_bounds(2,3) [OF 4(3)] by simp_all
    have "take (length cs) (drop 0 bs') = take (length cs) (take (length cs + 1) bs')" by simp
    also have "\<dots> = cs" unfolding 4(4) using c(1) by simp
    finally have t: "take (length cs) (drop 0 bs') = cs" .
    have "bs' ! (0 + length cs) = take (length cs + 1) bs' ! length cs" by simp
    also have "\<dots> = 0" unfolding 4(4) using l c(2) by simp
    finally have z: "bs' ! (0 + length cs) = 0" .
    show ?thesis using ok [OF 4(2,3) t z] 4(5) by simp
  qed
qed


section \<open>Constructors\<close>

lemma builds_write:
  assumes "builds m this m1" "hdr m1 this sz cap b off bs" "hdr m2 this sz' cap' b off' bs'"
    and "\<And>c. c \<noteq> this \<Longrightarrow> c \<noteq> b \<Longrightarrow> blocks m2 c = blocks m1 c"
  shows "builds m this m2"
  using assms hdr_bounds(6) [OF assms(2)] hdr_bounds(6) [OF assms(3)] by (simp add: builds_def)

lemma fill_new:
  assumes h: "hdr m1 this (length cs) cap b off bs" "bs ! (off + length cs) = 0" and b: "builds m this m1"
  defines "m2 \<equiv> set_block b (overwrite off cs bs) m1"
  shows "str_at m2 this cs" "builds m this m2" "store (b, off + length cs) 0 m2 = Ok () m2"
proof -
  note B = hdr_bounds [OF h(1)]
  note h2 = hdr_overwrite [OF h(1) B(3), folded m2_def]
  have z: "overwrite off cs bs ! (off + length cs) = 0"
    using B h(2) by (simp add: nth_overwrite)
  show "str_at m2 this cs"
    using h2 z by (rule str_atI)
  show "builds m this m2"
    using b h(1) h2(1) by (rule builds_write) (simp add: m2_def)
  show "store (b, off + length cs) 0 m2 = Ok () m2"
    using B z list_update_id [of "overwrite off cs bs" "off + length cs"]
    by (simp add: m2_def store_Ok)
qed

lemma builds_shift:
  assumes "builds m0 this m'" "str_at m' this cs" and "\<And>x. x \<noteq> this \<Longrightarrow> blocks m0 x = blocks m x"
  shows "builds m this m'"
proof -
  have "this \<in> owned m' this"
    using assms(2) hdr_bounds(6) by (metis insertI1 str_atE)
  then have "blocks m' b = blocks m b" if "b \<notin> owned m' this" for b
    using that assms(1,3) by (cases "b = this") (auto simp: builds_def)
  moreover have "x = this" if "x \<in> owned m' this" "x \<in> dom (blocks m)" for x
    using that assms(1) assms(3) [of x] by (cases "x = this") (auto simp: builds_def domIff)
  ultimately show ?thesis
    unfolding builds_def by blast
qed

lemma constructs_init:
  assumes raw: "raw_at m0 this" and l: "length cs < 2 ^ 64 - 1"
    and init: "f m = thenM (init this (of_nat (length cs))) g m0"
    and same: "m0 = m \<or> raw_at m this \<and> (\<exists>zs. m0 = set_block this zs m)"
    and g: "\<And>m1 cap b off bs. hdr m1 this (length cs) cap b off bs \<Longrightarrow> bs ! (off + length cs) = 0 \<Longrightarrow>
      builds m0 this m1 \<Longrightarrow> \<exists>x. g m1 = Ok x (set_block b (overwrite off cs bs) m1)"
  shows "constructs f m this cs"
proof -
  have m0: "blocks m0 x = blocks m x" if "x \<noteq> this" for x using same that by auto
  have "dom (blocks m0) = dom (blocks m)" using same by (auto simp: raw_at_def domIff split: if_splits)
  then have ready: "heap_ready m0 k = heap_ready m k" for k
    by (rule heap_ready_cong) (use same in auto)
  have u: "unat (of_nat (length cs) :: u64) = length cs"
    using l by (simp add: unat_of_nat_u64)
  have "unat (of_nat (length cs) :: u64) < 2 ^ 64 - 1"
    using l u by simp
  with raw show ?thesis
  proof (cases rule: init_cases)
    case (no_memory m')
    then show ?thesis using init u m0 ready by (simp add: constructs_def)
  next
    case (ok m' cap b off bs)
    note ok' = ok(2,3) [unfolded u]
    obtain x where "g m' = Ok x (set_block b (overwrite off cs bs) m')"
      using g ok' ok(4) by blast
    then show ?thesis
      using init ok(1) fill_new(1,2) [OF ok' ok(4)] builds_shift [OF _ _ m0] by (simp add: constructs_def)
  qed
qed

lemma builds_reads:
  assumes "builds m this m'" "fst p \<noteq> this" "reads m p cs"
  shows "reads m' p cs" "fst p \<notin> owned m' this"
proof -
  have "fst p \<in> dom (blocks m)" using assms(3) by (auto simp: reads_def)
  with assms show n: "fst p \<notin> owned m' this" by (auto simp: builds_def)
  then show "reads m' p cs" using assms by (simp add: builds_def reads_def)
qed

lemma new_copy_reads:
  assumes h: "hdr m1 this (length cs) cap b off bs" and b: "builds m this m1"
    and s: "reads m s cs" "fst s \<noteq> this"
  shows "copy_chars s (length cs) (b, off) m1 = Ok () (set_block b (overwrite off cs bs) m1)"
proof -
  note r = builds_reads [OF b s(2,1)]
  have "fst s \<noteq> b" using r(2) hdr_bounds(6) [OF h] by auto
  with r(1) show ?thesis
    using copy_reads [of m1 s cs "(b, off)" bs] hdr_bounds(1,2,3) [OF h] by simp
qed

lemma reads_length: "reads m p cs \<Longrightarrow> length cs \<le> length (the (blocks m (fst p)))"
  by (auto simp: reads_def)

lemma ctor_ptr_count_constructs:
  assumes "raw_at m this" "reads m s cs" "fst s \<noteq> this" "length cs < 2 ^ 64 - 1"
  shows "constructs (ctor_ptr_count this s (of_nat (length cs))) m this cs"
  using assms(1,4)
proof (rule constructs_init)
  show "m = m \<or> raw_at m this \<and> (\<exists>zs. m = set_block this zs m)" by simp
  show "ctor_ptr_count this s (of_nat (length cs)) m = thenM (init this (of_nat (length cs)))
      (bindM (get_ptr this) (\<lambda>p. thenM (copy_chars s (length cs) p) (store (ptr_add p (length cs)) 0))) m"
    using assms(4) by (simp add: ctor_ptr_count_def unat_of_nat_u64)
  fix m1 cap b off bs
  assume h: "hdr m1 this (length cs) cap b off bs" "bs ! (off + length cs) = 0" "builds m this m1"
  then show "\<exists>x. bindM (get_ptr this) (\<lambda>p. thenM (copy_chars s (length cs) p)
      (store (ptr_add p (length cs)) 0)) m1 = Ok x (set_block b (overwrite off cs bs) m1)"
    using new_copy_reads [OF h(1,3) assms(2,3)] fill_new(3) [OF h]
    by (simp add: hdr_get_ptr ptr_add_def)
qed

lemma ctor_fill_constructs:
  assumes "raw_at m this" "n < 2 ^ 64 - 1"
  shows "constructs (ctor_fill this (of_nat n) c) m this (replicate n c)"
  using assms(1)
proof (rule constructs_init)
  show "m = m \<or> raw_at m this \<and> (\<exists>zs. m = set_block this zs m)" by simp
  show "length (replicate n c) < 2 ^ 64 - 1" using assms(2) by simp
  show "ctor_fill this (of_nat n) c m = thenM (init this (of_nat (length (replicate n c))))
      (bindM (get_ptr this) (\<lambda>p. thenM (for_up n (\<lambda>i. store (ptr_add p i) c)) (store (ptr_add p n) 0))) m"
    using assms(2) by (simp add: ctor_fill_def unat_of_nat_u64)
  fix m1 cap b off bs
  assume h: "hdr m1 this (length (replicate n c)) cap b off bs" "bs ! (off + length (replicate n c)) = 0"
    "builds m this m1"
  then show "\<exists>x. bindM (get_ptr this) (\<lambda>p. thenM (for_up n (\<lambda>i. store (ptr_add p i) c)) (store (ptr_add p n) 0)) m1
      = Ok x (set_block b (overwrite off (replicate n c) bs) m1)"
    using fill_loop [of m1 "(b, off)" bs n c] hdr_bounds(1,2,3) [OF h(1)] fill_new(3) [OF h]
    by (simp add: hdr_get_ptr ptr_add_def)
qed

lemma ctor_ilist_constructs:
  assumes "raw_at m this" "reads m l cs" "fst l \<noteq> this" "length cs < 2 ^ 64 - 1"
  shows "constructs (ctor_ilist this l (of_nat (length cs))) m this cs"
  by (rule constructs_init [OF assms(1,4), where g = "bindM (str_begin this) (\<lambda>p. copy_chars l (length cs) p)"])
    (use assms(4) new_copy_reads [OF _ _ assms(2,3)] in
      \<open>auto simp: ctor_ilist_def unat_of_nat_u64 hdr_str_begin\<close>)

lemma ctor_range_constructs:
  assumes "raw_at m this" "reads m (b, i) cs" "b \<noteq> this" "length cs < 2 ^ 64 - 1"
  shows "constructs (ctor_range this (b, i) (b, i + length cs)) m this cs"
proof -
  have "ctor_range this (b, i) (b, i + length cs) m = ctor_ptr_count this (b, i) (of_nat (length cs)) m"
    using assms(4) by (simp add: ctor_range_def ctor_ptr_count_def ptr_diff_def unat_of_nat_u64)
  then show ?thesis
    using ctor_ptr_count_constructs [of m this "(b, i)" cs] assms by (simp add: constructs_def)
qed


lemma reads_append: "reads m p (xs @ ys) \<longleftrightarrow> reads m p xs \<and> reads m (ptr_add p (length xs)) ys"
proof -
  have "take (length xs + length ys) (drop k bs) = xs @ ys \<longleftrightarrow>
      take (length xs) (drop k bs) = xs \<and> take (length ys) (drop (k + length xs) bs) = ys"
    if "k + (length xs + length ys) \<le> length bs" for k and bs :: "byte list"
    using that by (auto simp: take_add append_eq_conv_conj add.commute)
  then show ?thesis
    by (auto simp: reads_def)
qed

lemma traits_length_cstr [mem_simps]:
  assumes "cstr_at m p cs"
  shows "traits_length p m = Ok (of_nat (length cs)) m"
proof -
  obtain bs where bs: "blocks m (fst p) = Some bs" "snd p + length cs < length bs"
    "take (length cs + 1) (drop (snd p) bs) = cs @ [0]"
    using assms by (auto simp: cstr_at_def reads_def)
  have "drop (snd p) bs = (cs @ [0]) @ drop (length cs + 1) (drop (snd p) bs)"
    using append_take_drop_id [of "length cs + 1" "drop (snd p) bs"] bs(3) by simp
  then have "takeWhile (\<lambda>c. c \<noteq> 0) (drop (snd p) bs) =
      takeWhile (\<lambda>c. c \<noteq> 0) (cs @ [0] @ drop (length cs + 1) (drop (snd p) bs))" by simp
  also have "\<dots> = cs"
    using assms by (subst takeWhile_append2) (auto simp: cstr_at_def)
  finally show ?thesis
    using bs by (simp add: traits_length_def)
qed

lemma ctor_cstr_constructs:
  assumes "raw_at m this" "cstr_at m s cs" "fst s \<noteq> this" "length cs < 2 ^ 64 - 1"
  shows "constructs (ctor_cstr this s) m this cs"
proof (rule constructs_init [OF assms(1,4), where g = "bindM (get_ptr this) (\<lambda>p. copy_chars s (length cs) p)"])
  show "m = m \<or> raw_at m this \<and> (\<exists>zs. m = set_block this zs m)" by simp
  have r: "reads m s cs" using assms(2) by (simp add: cstr_at_def reads_append)
  show "ctor_cstr this s m = thenM (init this (of_nat (length cs)))
      (bindM (get_ptr this) (\<lambda>p. copy_chars s (length cs) p)) m"
    using assms(2,4) by (simp add: ctor_cstr_def traits_length_cstr unat_of_nat_u64)
  show "\<And>m1 cap b off bs. hdr m1 this (length cs) cap b off bs \<Longrightarrow> bs ! (off + length cs) = 0 \<Longrightarrow>
      builds m this m1 \<Longrightarrow> \<exists>x. bindM (get_ptr this) (\<lambda>p. copy_chars s (length cs) p) m1 =
        Ok x (set_block b (overwrite off cs bs) m1)"
    using new_copy_reads [OF _ _ r assms(3)] by (auto simp: hdr_get_ptr)
qed

lemma str_at_reads:
  assumes "hdr m this (length cs) cap b off bs" "take (length cs) (drop off bs) = cs"
  shows "reads m (b, off) cs"
  using assms hdr_bounds(1,2,3) [OF assms(1)] by (simp add: reads_def)

lemma builds_hdr:
  assumes "builds m this m'" "hdr m other sz cap b off bs" "other \<noteq> this" "b \<noteq> this"
  shows "hdr m' other sz cap b off bs"
proof -
  have "other \<notin> owned m' this" "b \<notin> owned m' this"
    using assms(1,3,4) hdr_bounds(1,7) [OF assms(2)] by (auto simp: builds_def)
  then show ?thesis
    using assms(1) by (intro hdr_frame [OF assms(2)]) (auto simp: builds_def)
qed

lemma zero_arr_raw:
  assumes "raw_at m this"
  shows "zero_arr this m = Ok () (set_block this (replicate 32 0) m)"
  using fill_loop [of m "(this, 0)" _ 32 0] assms
  by (auto simp: raw_at_def zero_arr_def offset_defs ptr_add_def overwrite_def)

lemma empty_hdr:
  assumes "blocks m this = Some (replicate 32 0)"
  shows "hdr m this 0 30 this 1 (replicate 32 0)" "str_at m this []"
proof -
  show h: "hdr m this 0 30 this 1 (replicate 32 0)"
    using assms by (simp add: hdr_def offset_defs nullchar_def)
  show "str_at m this []"
  proof (rule str_atI)
    show "hdr m this (length []) 30 this 1 (replicate 32 0)" using h by simp
    show "replicate 32 (0 :: byte) ! (1 + length []) = 0" by (rule nth_replicate) simp
  qed simp
qed

lemma ctor_default_constructs:
  assumes "raw_at m this"
  shows "constructs (ctor_default this) m this []"
proof -
  let ?m = "set_block this (replicate 32 0) m"
  have z: "zero_arr this m = Ok () ?m"
    using assms by (rule zero_arr_raw)
  have h: "hdr ?m this 0 30 this 1 (replicate 32 0)" "str_at ?m this []"
    using empty_hdr [of ?m this] by simp_all
  have "ctor_default this m = Ok () ?m"
    using z by (simp add: ctor_default_def store_Ok list_update_same_conv [THEN iffD2])
  moreover have "builds m this ?m"
    using hdr_bounds(6) [OF h(1)] by (simp add: builds_def)
  ultimately show ?thesis
    using h(2) by (simp add: constructs_def)
qed


lemma copy_arr_Ok:
  assumes "raw_at m this" "blocks m other = Some arr" "length arr = ARR_SIZE"
  shows "copy_arr this other m = Ok () (set_block this arr m)"
  using assms by (auto simp: raw_at_def copy_arr_def load_bytes_Ok store_bytes_Ok overwrite_def)

lemma inside_copy:
  assumes h: "hdr m other sz 30 other 1 arr"
  shows "hdr (set_block this arr m) this sz 30 this 1 arr"
  using assms by (auto simp: hdr_def split: option.splits if_splits)

lemma ctor_copy_constructs:
  assumes raw: "raw_at m this" and o: "str_at m other cs" "this \<notin> owned m other"
  shows "constructs (ctor_copy this other) m this cs"
proof -
  obtain cap b off bs where h: "hdr m other (length cs) cap b off bs"
    and c: "take (length cs) (drop off bs) = cs" "bs ! (off + length cs) = 0"
    using o(1) by (rule str_atE)
  have ne: "this \<noteq> other" "this \<noteq> b" using o(2) hdr_bounds(6) [OF h] by auto
  from h show ?thesis
  proof (cases rule: hdrE)
    case inside
    let ?m = "set_block this bs m"
    have h': "hdr ?m this (length cs) 30 this 1 bs"
      using h inside by (intro inside_copy) simp
    have "ctor_copy this other m = Ok () ?m"
      using inside copy_arr_Ok [OF raw inside(1)] by (simp add: ctor_copy_def load_Ok offset_defs)
    moreover have "builds m this ?m"
      using hdr_bounds(6) [OF h'] by (simp add: builds_def)
    ultimately show ?thesis
      using str_atI [OF h'] c inside by (simp add: constructs_def)
  next
    case (heap arr)
    have lt: "length cs < 2 ^ 64 - 1" using hdr_bounds(3,4) [OF h] by simp
    have u: "unat (of_nat (length cs) :: u64) = length cs" using hdr_unat(1) [OF h] .
    let ?g = "bindM (str_begin other) (\<lambda>ob. bindM (str_end other) (\<lambda>oe. bindM (ptr_diff ob oe) (\<lambda>n.
        bindM (str_begin this) (\<lambda>p. thenM (copy_chars ob (nat n) p)
        (bindM (get_ptr this) (\<lambda>q. store (ptr_add q (length cs)) 0))))))"
    have run: "ctor_copy this other m = thenM (init this (of_nat (length cs))) ?g m"
      using heap h u by (simp add: ctor_copy_def load_Ok offset_defs hdr_str_size)
    have "\<exists>x. ?g m1 = Ok x (set_block b1 (overwrite off1 cs bs1) m1)"
      if h1: "hdr m1 this (length cs) cap1 b1 off1 bs1" "bs1 ! (off1 + length cs) = 0" "builds m this m1"
      for m1 cap1 b1 off1 bs1
    proof -
      have ho: "hdr m1 other (length cs) cap b off bs"
        using builds_hdr [OF h1(3) h] ne by simp
      show ?thesis
        using ho h1 new_copy_reads [OF h1(1,3) str_at_reads [OF h c(1)]] ne fill_new(3) [OF h1]
          hdr_get_ptr [OF hdr_overwrite(1) [OF h1(1) hdr_bounds(3) [OF h1(1)]]]
        by (simp add: hdr_str_begin hdr_str_end ptr_diff_def ptr_add_def)
    qed
    then show ?thesis
      by (intro constructs_init [where g = ?g and m = m, OF raw lt]) (simp_all only: run, simp)
  qed
qed

lemma ctor_substr_out_of_range:
  assumes "str_at m other cs" "length cs < unat pos"
  shows "ctor_substr this other pos count m = Throw out_of_range m"
  using assms(1)
proof (rule str_atE)
  fix cap b off bs
  assume "hdr m other (length cs) cap b off bs"
  then show ?thesis
    using assms(2) by (simp add: ctor_substr_def hdr_str_size word_less_nat_alt hdr_unat(1))
qed

lemma ctor_substr_constructs:
  assumes raw: "raw_at m this" and o: "str_at m other cs" "this \<notin> owned m other" and pos: "unat pos \<le> length cs"
  shows "constructs (ctor_substr this other pos count) m this (take (unat count) (drop (unat pos) cs))"
    (is "constructs _ m this ?cs")
proof -
  obtain cap b off bs where h: "hdr m other (length cs) cap b off bs"
    and c: "take (length cs) (drop off bs) = cs" "bs ! (off + length cs) = 0"
    using o(1) by (rule str_atE)
  have ne: "this \<noteq> other" "this \<noteq> b" using o(2) hdr_bounds(6) [OF h] by auto
  have u: "unat (of_nat (length cs) :: u64) = length cs" using hdr_unat(1) [OF h] .
  define cnt where "cnt = (if of_nat (length cs) - pos < count then of_nat (length cs) - pos else count)"
  have d: "unat (of_nat (length cs) - pos) = length cs - unat pos"
    using pos u by (subst unat_sub_no_wrap) (simp_all add: word_le_nat_alt)
  have cnt: "unat cnt = length ?cs" 
    using d by (auto simp: cnt_def word_less_nat_alt min_def)
  then have cnt': "cnt = of_nat (length ?cs)" by (metis of_nat_unat ucast_id)
  define m0 where "m0 = (if pos = of_nat (length cs) then set_block this (replicate 32 0) m else m)"
  have s0: "m0 = m \<or> raw_at m this \<and> (\<exists>zs. m0 = set_block this zs m)"
    using raw by (auto simp: m0_def)
  have raw0: "raw_at m0 this" and o0: "\<And>x. x \<noteq> this \<Longrightarrow> blocks m0 x = blocks m x"
    using raw by (auto simp: m0_def raw_at_def offset_defs)
  have h0: "hdr m0 other (length cs) cap b off bs"
    using h by (rule hdr_frame) (use ne o0 in auto)
  have lt: "length ?cs < 2 ^ 64 - 1" using hdr_bounds(3,4) [OF h] by simp
  have "reads m0 (b, off) (take (unat pos) cs @ ?cs @ drop (unat count) (drop (unat pos) cs))"
    using str_at_reads [OF h0 c(1)] unfolding append_take_drop_id .
  then have r: "reads m0 (b, off + unat pos) ?cs"
    using pos unfolding reads_append by (simp add: ptr_add_def)
  let ?g = "bindM (get_ptr this) (\<lambda>p. bindM (get_ptr other) (\<lambda>o0.
      let optr = ptr_add o0 (unat pos) in thenM (copy_chars optr (unat cnt) p) (store (ptr_add p (unat cnt)) 0)))"
  have np: "\<not> of_nat (length cs) < pos" using pos u by (simp add: word_less_nat_alt)
  have "ctor_substr this other pos count m = thenM (init this cnt) ?g m0"
    unfolding ctor_substr_def cnt_def m0_def using h np zero_arr_raw [OF raw]
    by (simp add: hdr_str_size Let_def)
  then have run: "ctor_substr this other pos count m = thenM (init this (of_nat (length ?cs))) ?g m0"
    using cnt' by simp
  have "\<exists>x. ?g m1 = Ok x (set_block b1 (overwrite off1 ?cs bs1) m1)"
    if h1: "hdr m1 this (length ?cs) cap1 b1 off1 bs1" "bs1 ! (off1 + length ?cs) = 0" "builds m0 this m1"
    for m1 cap1 b1 off1 bs1
    using builds_hdr [OF h1(3) h0] h1(1) ne new_copy_reads [OF h1(1,3) r] fill_new(3) [OF h1]
    by (simp add: hdr_get_ptr cnt ptr_add_def)
  then show ?thesis
    by - (rule constructs_init [where g = ?g and m = m, OF raw0 lt]; (rule run | rule s0 | blast))
qed


text \<open>The move constructor takes the objects of the other string and leaves it empty.\<close>

lemma moved_hdr:
  assumes h: "hdr m other sz cap b off bs" and ne: "this \<noteq> other" "this \<noteq> b" and arr: "blocks m other = Some arr"
  defines "m' \<equiv> set_block other (replicate 32 0) (set_block this arr m)"
  shows "hdr m' this sz cap (if b = other then this else b) off bs"
  using assms by (auto simp: hdr_def split: if_splits)

lemma ctor_move_ok:
  assumes raw: "raw_at m this" and o: "str_at m other cs" "this \<notin> owned m other"
  obtains m' where "ctor_move this other m = Ok () m'" "str_at m' this cs" "str_at m' other []"
    "owned m' other = {other}" "owned m' this = insert this (owned m other - {other})"
    "\<And>c. c \<noteq> this \<Longrightarrow> c \<noteq> other \<Longrightarrow> blocks m' c = blocks m c"
proof -
  obtain cap b off bs where h: "hdr m other (length cs) cap b off bs"
    and c: "take (length cs) (drop off bs) = cs" "bs ! (off + length cs) = 0"
    using o(1) by (rule str_atE)
  have ne: "this \<noteq> other" "this \<noteq> b" and ob: "owned m other = {other, b}"
    using o(2) hdr_bounds(6) [OF h] by auto
  obtain arr where arr: "blocks m other = Some arr" "length arr = ARR_SIZE"
    using h by (auto simp: hdr_def split: option.splits)
  let ?m1 = "set_block this arr m" and ?m = "set_block other (replicate 32 0) (set_block this arr m)"
  have "raw_at ?m1 other" using arr ne by (simp add: raw_at_def)
  then have "ctor_move this other m = Ok () ?m"
    using copy_arr_Ok [OF raw arr] zero_arr_raw by (simp add: ctor_move_def)
  moreover note h' = moved_hdr [OF h ne arr(1)]
  moreover have "str_at ?m other []" "owned ?m other = {other}"
    using empty_hdr [of ?m other] hdr_bounds(6) by fastforce+
  moreover have "str_at ?m this cs" using h' c by (rule str_atI)
  moreover have "owned ?m this = insert this (owned m other - {other})"
    using hdr_bounds(6) [OF h'] ob by auto
  ultimately show ?thesis
    by (intro that [of ?m]) simp_all
qed

text \<open>The destructor gives back the heap block and nothing else.\<close>

lemma dtor_ok:
  assumes "str_at m this cs"
  obtains m' where "dtor this m = Ok () m'" "raw_at m' this" "owned m' this = {this}"
    "dom (blocks m') = dom (blocks m) - (owned m this - {this})"
    "\<And>c. c \<notin> owned m this \<Longrightarrow> blocks m' c = blocks m c"
proof -
  obtain cap b off bs where h: "hdr m this (length cs) cap b off bs"
    using assms by (rule str_atE)
  from h show ?thesis
  proof (cases rule: hdrE)
    case inside
    then show ?thesis
      using hdr_bounds(6) [OF h] by (intro that [of m]) (auto simp: dtor_def load_Ok offset_defs raw_at_def)
  next
    case (heap arr)
    let ?m = "set_block this (arr[0 := 0]) (m\<lparr>blocks := (blocks m)(b := None)\<rparr>)"
    have "dtor this m = Ok () ?m"
      using heap h by (simp add: dtor_def load_Ok offset_defs hdr_get_ptr hdr_capacity deallocate_def store_Ok)
    moreover have "owned ?m this = {this}"
      using heap by (simp add: owned_def offset_defs nullchar_def)
    ultimately show ?thesis
      using heap hdr_bounds(6) [OF h] by (intro that [of ?m]) (auto simp: raw_at_def split: if_splits)
  qed
qed


section \<open>Capacity\<close>

text \<open>The two operations keep the value; what they may fail at is their own allocation.\<close>

definition keeps :: "'a prog \<Rightarrow> mem \<Rightarrow> u64 \<Rightarrow> byte list \<Rightarrow> bool \<Rightarrow> bool" where
  "keeps f m this cs may_fail \<longleftrightarrow> (case f m of
     Ok x m' \<Rightarrow> str_at m' this cs \<and> only_touches m this m'
   | Throw e m' \<Rightarrow> (e = length_error \<or> e = bad_alloc) \<and> may_fail \<and> blocks m' = blocks m
   | UB \<Rightarrow> False)"

lemma reserve_keeps:
  assumes "str_at m this cs"
  shows "keeps (reserve this n) m this cs (growth_fails m this (unat n))"
  by (cases rule: reserve_str [OF assms, of n]) (auto simp: keeps_def intro: str_atI)

lemma only_touches_free_ptr:
  assumes "hdr m this sz cap b off bs" and "hdr m' this sz' cap' this off' bs'"
    and o: "\<And>c. c \<noteq> this \<Longrightarrow> blocks m' c = (if c = b then None else blocks m c)"
  shows "only_touches m this m'"
proof -
  have ow: "owned m this = {this, b}" "owned m' this = {this}"
    using hdr_bounds(6) [OF assms(1)] hdr_bounds(6) [OF assms(2)] by simp_all
  have d: "this \<in> dom (blocks m)" "this \<in> dom (blocks m')"
    using hdr_bounds(7) [OF assms(1)] hdr_bounds(7) [OF assms(2)] by auto
  have "x \<in> dom (blocks m') \<longleftrightarrow> x \<in> (dom (blocks m) - {this, b}) \<union> {this}" for x
    using d o [of x] by (cases "x = this") (auto simp: domIff)
  then show ?thesis
    using o unfolding only_touches_def ow by auto
qed

lemma shrink_inside:
  assumes h: "hdr m this (length cs) cap b off bs" "take (length cs) (drop off bs) = cs"
    and c: "30 < cap" "length cs \<le> 30"
  obtains m' where "shrink_to_fit this m = Ok () m'" "str_at m' this cs" "capacity this m' = Ok 30 m'"
    "only_touches m this m'"
  using h(1)
proof (cases rule: hdrE)
  case inside
  then show ?thesis using c by simp
next
  case (heap arr)
  note B = hdr_bounds [OF h(1)]
  let ?n = "length cs"
  have u: "unat (of_nat ?n :: u64) = ?n" "unat (of_nat cap :: u64) = cap" using hdr_unat [OF h(1)] .
  let ?a1 = "arr[0 := of_nat ?n]" and ?a2 = "overwrite 1 cs (arr[0 := of_nat ?n])"
  let ?a3 = "?a2[1 + ?n := 0]"
  let ?m1 = "set_block this ?a1 m" and ?m2 = "set_block this ?a2 m"
  let ?m = "set_block this ?a3 (?m2\<lparr>blocks := (blocks ?m2)(b := None)\<rparr>)"
  have l: "length ?a1 = 32" "length ?a2 = 32" using heap c by (simp_all add: offset_defs)
  have cp: "copy_chars (b, 0) ?n (this, 1) ?m1 = Ok () ?m2"
    using copy_reads [of ?m1 "(b, 0)" cs "(this, 1)" ?a1] l c heap h(2) B
    by (simp add: reads_def)
  have nc: "(of_nat ?n :: u64) \<noteq> of_nat cap" using u c by (metis linorder_not_less)
  have uc: "ucast (of_nat ?n :: u64) = (of_nat ?n :: byte)" using u by (metis of_nat_unat)
  have run: "shrink_to_fit this m = Ok () ?m"
    using h(1) heap c u nc cp l
    by (simp add: shrink_to_fit_def hdr_str_size hdr_capacity hdr_get_ptr word_le_nat_alt
        max_in_buffer_size_eq store_Ok uc offset_defs deallocate_def)
  have h': "hdr ?m this ?n 30 this 1 ?a3"
    using c small_byte(1) [of ?n] l by (simp add: hdr_def offset_defs nth_overwrite)
  have "str_at ?m this cs"
    using h' l c by (intro str_atI [OF h']) (simp_all add: drop_update_swap take_update_cancel read_overwrite_same)
  moreover have "capacity this ?m = Ok 30 ?m"
    using hdr_capacity [OF h'] by simp
  moreover have "only_touches m this ?m"
    by (rule only_touches_free_ptr [OF h(1) h']) simp
  ultimately show ?thesis using that run by blast
qed


lemma install_ptr_cap:
  assumes "blocks m this = Some arr" "length arr = 32" "arr ! 0 = nullchar"
    "of_le_bytes (take 8 (drop 8 arr)) = (of_nat sz :: u64)"
    "b \<noteq> this" "blocks m b = Some bs" "length bs = unat cap + 1" "30 < unat cap"
    "unat cap < unat alloc_max_size" "sz \<le> unat cap"
  obtains m' where "thenM (set_ptr this (b, 0)) (set_capacity this cap) m = Ok () m'"
    "hdr m' this sz (unat cap) b 0 bs" "\<And>c. c \<noteq> this \<Longrightarrow> blocks m' c = blocks m c"
proof -
  let ?a1 = "overwrite 24 (le_bytes 8 b) arr"
  let ?a2 = "overwrite 16 (le_bytes 8 cap) ?a1"
  have l: "length ?a1 = 32" "length ?a2 = 32"
    using assms(2) by simp_all
  have "take 8 (drop 24 ?a2) = take 8 (drop 24 ?a1)"
    by (rule read_overwrite_other) (use l in simp_all)
  then have p: "take 8 (drop 24 ?a2) = le_bytes 8 b"
    using read_overwrite_same [of 24 "le_bytes 8 b" arr] assms(2) by simp
  have run: "thenM (set_ptr this (b, 0)) (set_capacity this cap) m = Ok () (set_block this ?a2 m)"
    using assms(1,2) l by (simp add: set_capacity_def set_ptr_def store_bytes_Ok offset_defs)
  have "hdr (set_block this ?a2 m) this sz (unat cap) b 0 bs"
    by (rule heap_hdrI [where arr = ?a2])
      (use assms l p in \<open>simp_all only: p u64_codec.dec_enc, simp_all add: block_simps u64_codec.dec_enc\<close>)
  with run show ?thesis
    by (rule that) simp
qed

lemma shrink_heap:
  assumes h: "hdr m this (length cs) cap b off bs" "take (length cs) (drop off bs) = cs"
    and c: "length cs \<noteq> cap" "30 < length cs"
  obtains (fail) m' where "shrink_to_fit this m = Throw bad_alloc m'" "blocks m' = blocks m"
      "\<not> heap_ready m (length cs + 1)"
  | (ok) m' where "shrink_to_fit this m = Ok () m'" "str_at m' this cs"
    "capacity this m' = Ok (of_nat (length cs)) m'" "only_touches m this m'"
  using h(1)
proof (cases rule: hdrE)
  case inside
  then show ?thesis using c hdr_bounds(3) [OF h(1)] by simp
next
  case (heap arr)
  note B = hdr_bounds [OF h(1)]
  let ?n = "length cs" and ?w = "of_nat (length cs) :: u64"
  have u: "unat ?w = ?n" "unat (of_nat cap :: u64) = cap" using hdr_unat [OF h(1)] .
  have nc: "?w \<noteq> of_nat cap" using u c by metis
  have n1: "unat (?w + 1) = ?n + 1" using B u by (subst unat_add_no_wrap) simp_all
  let ?rest = "\<lambda>np. bindM (str_begin this) (\<lambda>sb. bindM (str_end this) (\<lambda>se. bindM (ptr_diff sb se) (\<lambda>n.
       thenM (copy_chars sb (nat n) np) (thenM (store (ptr_add np ?n) 0) (bindM (get_ptr this) (\<lambda>p.
        thenM (deallocate p (of_nat cap)) (thenM (set_ptr this np) (set_capacity this ?w))))))))"
  have run: "shrink_to_fit this m = bindM (allocate (?w + 1)) ?rest m"
    using h(1) c u nc B
    by (simp add: shrink_to_fit_def hdr_str_size hdr_capacity word_le_nat_alt max_in_buffer_size_eq)
  show ?thesis
  proof (cases rule: allocate_cases [of "?w + 1" m])
    case (fail m')
    then show ?thesis using that(1) run n1 by simp
  next
    case (ok a fresh m1)
    have a: "a \<noteq> this" "a \<noteq> b" "blocks m1 a = Some fresh" "length fresh = ?n + 1"
      using ok(3,4,5) n1 B(1,7) by auto
    have h1: "hdr m1 this ?n cap b off bs"
      using h(1) by (rule hdr_frame) (use ok a in auto)
    let ?f1 = "overwrite 0 cs fresh" and ?f2 = "(overwrite 0 cs fresh)[?n := 0]"
    let ?m2 = "set_block a ?f1 m1" and ?m3 = "set_block a ?f2 m1"
    let ?m4 = "?m3\<lparr>blocks := (blocks ?m3)(b := None)\<rparr>"
    have lf: "length ?f1 = ?n + 1" using a by simp
    have cp: "copy_chars (b, off) ?n (a, 0) m1 = Ok () ?m2"
      using copy_reads [OF str_at_reads [OF h1 h(2)], of "(a, 0)" fresh] a by simp
    have h3: "hdr ?m3 this ?n cap b off bs"
      using h1 by (rule hdr_frame) (use a in simp_all)
    have "blocks ?m4 this = Some arr" "blocks ?m4 a = Some ?f2" "length ?f2 = unat ?w + 1"
      using heap ok(5) a u by auto
    then obtain m5 where m5: "thenM (set_ptr this (a, 0)) (set_capacity this ?w) ?m4 = Ok () m5"
      and h5: "hdr m5 this ?n (unat ?w) a 0 ?f2"
      and o5: "\<And>c. c \<noteq> this \<Longrightarrow> blocks m5 c = blocks ?m4 c"
      using install_ptr_cap [of ?m4 this arr ?n a ?f2 ?w] heap a u c ok(6) n1 by (auto simp: offset_defs)
    have de: "deallocate (b, off) (of_nat cap) ?m3 = Ok () ?m4"
      using heap hdr_bounds(1) [OF h3] by (simp add: deallocate_def)
    have "shrink_to_fit this m = Ok () m5"
      using run ok(1) h1 h3 cp lf m5 a de
      by (simp add: hdr_str_begin hdr_str_end hdr_get_ptr ptr_diff_def store_Ok)
    moreover have "str_at m5 this cs"
    proof (rule str_atI [OF h5])
      show "take ?n (drop 0 ?f2) = cs" using read_overwrite_same [of 0 cs fresh] a by simp
      show "?f2 ! (0 + ?n) = 0" using lf by simp
    qed
    moreover have "only_touches m this m5"
      by (rule only_touches_new_ptr [OF h(1) h5 ok(3)]) (use o5 ok(5) in auto)
    ultimately show ?thesis
      using that(2) hdr_capacity [OF h5] u by simp
  qed
qed

lemma shrink_to_fit_keeps:
  assumes s: "str_at m this cs"
  shows "keeps (shrink_to_fit this) m this cs (\<not> heap_ready m (length cs + 1))"
    and "shrink_to_fit this m = Ok () m' \<Longrightarrow> capacity this m' = Ok (of_nat (max 30 (length cs))) m'"
proof -
  obtain cap b off bs where h: "hdr m this (length cs) cap b off bs"
    and c: "take (length cs) (drop off bs) = cs" "bs ! (off + length cs) = 0"
    using s by (rule str_atE)
  note B = hdr_bounds [OF h]
  consider (same) "length cs = cap \<or> cap = 30" | (inside) "30 < cap" "length cs \<le> 30"
    | (heap) "length cs \<noteq> cap" "30 < length cs" using B by linarith
  then have "keeps (shrink_to_fit this) m this cs (\<not> heap_ready m (length cs + 1)) \<and>
    (\<forall>m'. shrink_to_fit this m = Ok () m' \<longrightarrow> capacity this m' = Ok (of_nat (max 30 (length cs))) m')"
  proof cases
    case same
    then have "shrink_to_fit this m = Ok () m"
      using h by (auto simp: shrink_to_fit_def hdr_str_size hdr_capacity max_in_buffer_size_eq)
    moreover have "max 30 (length cs) = cap" using same B by auto
    ultimately show ?thesis
      using s only_touches_refl [OF refl str_at_owned [OF s]] hdr_capacity [OF h]
      by (simp add: keeps_def)
  next
    case inside
    show ?thesis
      by (rule shrink_inside [OF h c(1) inside]) (use inside in \<open>simp add: keeps_def max_def\<close>)
  next
    case heap
    show ?thesis
      by (rule shrink_heap [OF h c(1) heap]) (use heap in \<open>simp_all add: keeps_def max_def\<close>)
  qed
  then show "keeps (shrink_to_fit this) m this cs (\<not> heap_ready m (length cs + 1))"
    and "shrink_to_fit this m = Ok () m' \<Longrightarrow> capacity this m' = Ok (of_nat (max 30 (length cs))) m'"
    by blast+
qed

end
