(* ===== verification/Bstring_Assign.thy ===== *)
theory Bstring_Assign
  imports Bstring_Construct
begin

text \<open>
  The assignments of \<^verbatim>\<open>crossbow::string\<close> and \<^verbatim>\<open>swap\<close>: each \<open>assign\<close> reserves, copies, and writes size and
  terminator, and keeps the contract \<open>updates\<close>; moves and swaps exchange the 32 bytes of the objects
  and with them the ownership of the heap blocks.
\<close>

section \<open>Operations that reserve first\<close>

text \<open>
  What an operation does after \<open>reserve\<close> is given as a step on the header: it must reach the new
  value and leave every other object alone. The exceptions of \<open>reserve\<close> pass through.
\<close>

lemma updates_reserve:
  assumes s: "str_at m this old"
    and run: "f m = thenM (reserve this n) g m" and n: "unat n = length cs"
    and g: "\<And>m1 cap b off bs. hdr m1 this (length old) cap b off bs \<Longrightarrow>
      take (length old) (drop off bs) = old \<Longrightarrow> bs ! (off + length old) = 0 \<Longrightarrow> unat n \<le> cap \<Longrightarrow>
      only_touches m this m1 \<Longrightarrow>
      \<exists>x m2 bs2. g m1 = Ok x m2 \<and> hdr m2 this (length cs) cap b off bs2 \<and> str_at m2 this cs \<and>
        (\<forall>c. c \<noteq> this \<longrightarrow> c \<noteq> b \<longrightarrow> blocks m2 c = blocks m1 c)"
  shows "updates f m this cs"
  using s
proof (cases rule: reserve_str [of m this old n])
  case (ok m' cap b off bs)
  obtain x m2 bs2 where m2: "g m' = Ok x m2" "hdr m2 this (length cs) cap b off bs2" "str_at m2 this cs"
    "\<forall>c. c \<noteq> this \<longrightarrow> c \<noteq> b \<longrightarrow> blocks m2 c = blocks m' c"
    using g [OF ok(2-6)] by blast
  have "only_touches m' this m2"
    using only_touches_same_ptr [OF ok(2) m2(2)] m2(4) by blast
  then have "only_touches m this m2"
    by (rule only_touches_trans [OF ok(6)])
  with m2 ok(1) run show ?thesis
    by (simp add: updates_def)
next
  case (fail e m')
  then show ?thesis using run n by (auto simp: updates_def)
qed

lemma finish_assign:
  assumes h: "hdr m1 this sz cap b off bs" and l: "length cs \<le> cap"
    and cp: "cp (b, off) m1 = Ok () (set_block b (overwrite off cs bs) m1)"
  shows "\<exists>x m2 bs2. bindM (str_begin this) (\<lambda>p. thenM (cp p) (thenM (set_size this (of_nat (length cs)))
      (bindM (str_end this) (\<lambda>e. store e 0)))) m1 = Ok x m2 \<and>
    hdr m2 this (length cs) cap b off bs2 \<and> str_at m2 this cs \<and>
    (\<forall>c. c \<noteq> this \<longrightarrow> c \<noteq> b \<longrightarrow> blocks m2 c = blocks m1 c)"
proof -
  obtain m2 bs2 where m2: "thenM (set_size this (of_nat (length cs))) (bindM (str_end this) (\<lambda>e. store e 0))
      (set_block b (overwrite off cs bs) m1) = Ok () m2"
    and "hdr m2 this (length cs) cap b off bs2" "str_at m2 this cs"
    and "\<And>c. c \<noteq> this \<Longrightarrow> c \<noteq> b \<Longrightarrow> blocks m2 c = blocks (set_block b (overwrite off cs bs) m1) c"
    by (rule finish_write [OF hdr_overwrite(1) [OF h l] l hdr_overwrite(2) [OF h l]]) (rule that)
  then show ?thesis
    using h cp by (auto simp: hdr_str_begin)
qed

lemma assign_copy_reads:
  assumes h: "hdr m1 this sz cap b off bs" and l: "length cs \<le> cap" and o: "only_touches m this m1"
    and s: "reads m s cs" "fst s \<notin> owned m this"
  shows "copy_chars s (length cs) (b, off) m1 = Ok () (set_block b (overwrite off cs bs) m1)"
proof -
  note r = only_touches_reads [OF o s(2,1)]
  have "fst s \<noteq> b" using r(2) hdr_bounds(6) [OF h] by auto
  then show ?thesis
    using copy_reads [OF r(1), of "(b, off)" bs] hdr_bounds(1,2) [OF h] l by simp
qed

section \<open>Copying assignments\<close>

lemma assign_ptr_updates:
  assumes "str_at m this old" "reads m s cs" "fst s \<notin> owned m this" "length cs < 2 ^ 64"
  shows "updates (assign_ptr this s (of_nat (length cs))) m this cs"
proof (rule updates_reserve [OF assms(1)])
  have u: "unat (of_nat (length cs) :: u64) = length cs" using assms(4) by (simp add: unat_of_nat_u64)
  show "unat (of_nat (length cs) :: u64) = length cs" by (rule u)
  show "assign_ptr this s (of_nat (length cs)) m = thenM (reserve this (of_nat (length cs)))
      (bindM (str_begin this) (\<lambda>p. thenM (copy_chars s (length cs) p) (thenM (set_size this (of_nat (length cs)))
      (bindM (str_end this) (\<lambda>e. store e 0))))) m"
    by (simp add: assign_ptr_def u)
  fix m1 cap b off bs
  assume "hdr m1 this (length old) cap b off bs" "unat (of_nat (length cs) :: u64) \<le> cap" "only_touches m this m1"
  then show "\<exists>x m2 bs2. bindM (str_begin this) (\<lambda>p. thenM (copy_chars s (length cs) p)
      (thenM (set_size this (of_nat (length cs))) (bindM (str_end this) (\<lambda>e. store e 0)))) m1 = Ok x m2 \<and>
    hdr m2 this (length cs) cap b off bs2 \<and> str_at m2 this cs \<and>
    (\<forall>c. c \<noteq> this \<longrightarrow> c \<noteq> b \<longrightarrow> blocks m2 c = blocks m1 c)"
    using assms u by (intro finish_assign assign_copy_reads) simp_all
qed


lemma updates_cong: "f m = g m \<Longrightarrow> updates f m this cs = updates g m this cs"
  by (simp add: updates_def)

lemma assign_ilist_updates:
  assumes "str_at m this old" "reads m l cs" "fst l \<notin> owned m this" "length cs < 2 ^ 64"
  shows "updates (assign_ilist this l (of_nat (length cs))) m this cs"
  using assign_ptr_updates [OF assms]
  by (simp add: assign_ilist_def assign_ptr_def)

lemma cstr_at_reads: "cstr_at m s cs \<Longrightarrow> reads m s cs"
  by (simp add: cstr_at_def reads_append)

lemma assign_cstr_updates:
  assumes "str_at m this old" "cstr_at m s cs" "fst s \<notin> owned m this" "length cs < 2 ^ 64"
  shows "updates (assign_cstr this s) m this cs"
proof -
  have "assign_cstr this s m = assign_ptr this s (of_nat (length cs)) m"
    using assms(2) by (simp add: assign_cstr_def assign_ptr_def traits_length_cstr)
  then show ?thesis
    using assign_ptr_updates [OF assms(1) cstr_at_reads [OF assms(2)] assms(3,4)] by (simp add: updates_def)
qed

lemma assign_range_updates:
  assumes "str_at m this old" "reads m (b, i) cs" "b \<notin> owned m this" "length cs < 2 ^ 64"
  shows "updates (assign_range this (b, i) (b, i + length cs)) m this cs"
proof -
  have "assign_range this (b, i) (b, i + length cs) m = assign_ptr this (b, i) (of_nat (length cs)) m"
    using assms(4) by (simp add: assign_range_def assign_ptr_def ptr_diff_def unat_of_nat_u64)
  then show ?thesis
    using assign_ptr_updates [OF assms(1,2) _ assms(4)] assms(3) by (simp add: updates_def)
qed

lemma assign_fill_updates:
  assumes "str_at m this old" "n < 2 ^ 64"
  shows "updates (assign_fill this (of_nat n) c) m this (replicate n c)"
proof (rule updates_reserve [OF assms(1)])
  have u: "unat (of_nat n :: u64) = n" using assms(2) by (simp add: unat_of_nat_u64)
  show "unat (of_nat n :: u64) = length (replicate n c)" using u by simp
  show "assign_fill this (of_nat n) c m = thenM (reserve this (of_nat n)) (bindM (str_begin this) (\<lambda>p.
      thenM (for_up n (\<lambda>i. store (ptr_add p i) c)) (thenM (set_size this (of_nat (length (replicate n c))))
      (bindM (str_end this) (\<lambda>e. store e 0))))) m"
    by (simp add: assign_fill_def u)
  fix m1 cap b off bs
  assume h: "hdr m1 this (length old) cap b off bs" "unat (of_nat n :: u64) \<le> cap"
  then show "\<exists>x m2 bs2. bindM (str_begin this) (\<lambda>p. thenM (for_up n (\<lambda>i. store (ptr_add p i) c))
      (thenM (set_size this (of_nat (length (replicate n c)))) (bindM (str_end this) (\<lambda>e. store e 0)))) m1 = Ok x m2 \<and>
    hdr m2 this (length (replicate n c)) cap b off bs2 \<and> str_at m2 this (replicate n c) \<and>
    (\<forall>c. c \<noteq> this \<longrightarrow> c \<noteq> b \<longrightarrow> blocks m2 c = blocks m1 c)"
    using fill_loop [of m1 "(b, off)" bs n c] hdr_bounds(1,2) [OF h(1)] u
    by (intro finish_assign) simp_all
qed

lemma assign_sub_out_of_range:
  assumes "str_at m str cs" "length cs < unat pos"
  shows "assign_sub this str pos count m = Throw out_of_range m"
  using assms(1)
proof (rule str_atE)
  fix cap b off bs
  assume "hdr m str (length cs) cap b off bs"
  then show ?thesis
    using assms(2) by (simp add: assign_sub_def hdr_str_size word_less_nat_alt hdr_unat(1))
qed

lemma str_at_sub_reads:
  assumes "hdr m this (length cs) cap b off bs" "take (length cs) (drop off bs) = cs" "i \<le> length cs"
  shows "reads m (b, off + i) (take n (drop i cs))"
proof -
  have "reads m (b, off) (take i cs @ take n (drop i cs) @ drop n (drop i cs))"
    using str_at_reads [OF assms(1,2)] unfolding append_take_drop_id .
  then show ?thesis
    using assms(3) unfolding reads_append by (simp add: ptr_add_def)
qed

lemma assign_sub_updates:
  assumes s: "str_at m this old" and o: "str_at m str cs" "owned m str \<inter> owned m this = {}"
    and pos: "unat pos \<le> length cs" and nw: "unat pos + unat count < 2 ^ 64"
  shows "updates (assign_sub this str pos count) m this (take (unat count) (drop (unat pos) cs))"
    (is "updates _ m this ?cs")
proof -
  obtain cap b off bs where h: "hdr m str (length cs) cap b off bs"
    and c: "take (length cs) (drop off bs) = cs" "bs ! (off + length cs) = 0"
    using o(1) by (rule str_atE)
  have u: "unat (of_nat (length cs) :: u64) = length cs" using hdr_unat(1) [OF h] .
  let ?w = "of_nat (length cs) :: u64"
  have np: "\<not> ?w < pos" using pos u by (simp add: word_less_nat_alt)
  have "(if ?w < pos + count then ?w - pos else count) = of_nat (length ?cs)"
  proof (cases "length cs < unat pos + unat count")
    case True
    then have "?w < pos + count" using u nw by (simp add: word_less_nat_alt unat_add_no_wrap)
    moreover have "?w - pos = of_nat (length cs - unat pos)"
      using pos by (simp add: of_nat_diff)
    ultimately show ?thesis using True by simp
  next
    case False
    then have "\<not> ?w < pos + count" using u nw by (simp add: word_less_nat_alt unat_add_no_wrap)
    then show ?thesis using False pos by simp
  qed
  then have "assign_sub this str pos count m = assign_ptr this (b, off + unat pos) (of_nat (length ?cs)) m"
    using h np by (simp add: assign_sub_def hdr_str_size hdr_str_begin ptr_add_def Let_def)
  moreover have "updates (assign_ptr this (b, off + unat pos) (of_nat (length ?cs))) m this ?cs"
  proof (rule assign_ptr_updates [OF s str_at_sub_reads [OF h c(1) pos]])
    show "fst (b, off + unat pos) \<notin> owned m this" using o(2) hdr_bounds(6) [OF h] by auto
    show "length ?cs < 2 ^ 64" using hdr_bounds(3,4) [OF h] by simp
  qed
  ultimately show ?thesis by (simp add: updates_def)
qed


lemma assign_char_updates:
  assumes "str_at m this old"
  shows "updates (assign_char this c) m this [c]"
proof (rule updates_reserve [OF assms])
  let ?g = "thenM (set_size this 1) (bindM (str_begin this) (\<lambda>p. thenM (store p c)
      (bindM (str_end this) (\<lambda>e. store e 0))))"
  show "unat (1 :: u64) = length [c]" by simp
  show "assign_char this c m = thenM (reserve this 1) ?g m" by (simp add: assign_char_def)
  fix m1 cap b off bs
  assume h: "hdr m1 this (length old) cap b off bs" "unat (1 :: u64) \<le> cap"
  note B = hdr_bounds [OF h(1)]
  obtain m2 bs2 where m2: "set_size this 1 m1 = Ok () m2" "hdr m2 this 1 cap b off bs2"
    "length bs2 = length bs" "\<And>c. c \<noteq> this \<Longrightarrow> blocks m2 c = blocks m1 c"
    by (rule hdr_set_size [OF h]) (use that in simp)
  let ?b3 = "bs2[off := c]" and ?b4 = "bs2[off := c, off + 1 := 0]"
  have h3: "hdr (set_block b ?b3 m2) this 1 cap b off ?b3"
    by (rule hdr_write [OF m2(2)]) simp_all
  have h4: "hdr (set_block b ?b4 m2) this 1 cap b off ?b4"
    by (rule hdr_write [OF m2(2)]) simp_all
  have run: "?g m1 = Ok () (set_block b ?b4 m2)"
    using m2 h3 B hdr_bounds(1) [OF m2(2)] by (simp add: hdr_str_begin hdr_str_end store_Ok)
  have "str_at (set_block b ?b4 m2) this [c]"
    using h4 B m2(3) by (intro str_atI [where bs = ?b4 and off = off])
      (simp_all add: take_Suc_conv_app_nth [of 0])
  with run h4 m2(4) show "\<exists>x m2 bs2. ?g m1 = Ok x m2 \<and> hdr m2 this (length [c]) cap b off bs2 \<and>
      str_at m2 this [c] \<and> (\<forall>c. c \<noteq> this \<longrightarrow> c \<noteq> b \<longrightarrow> blocks m2 c = blocks m1 c)"
    by (intro exI [of _ "()"] exI [of _ "set_block b ?b4 m2"] exI [of _ ?b4]) simp
qed

lemma only_touches_hdr:
  assumes "only_touches m this m'" "hdr m that sz cap b off bs" "owned m that \<inter> owned m this = {}"
  shows "hdr m' that sz cap b off bs"
proof -
  have "that \<notin> owned m' this" "b \<notin> owned m' this" "that \<notin> owned m this" "b \<notin> owned m this"
    using assms(1,3) hdr_bounds(1,6,7) [OF assms(2)] by (auto simp: only_touches_def)
  then show ?thesis
    using assms(1) by (intro hdr_frame [OF assms(2)]) (auto simp: only_touches_def)
qed

lemma hdr_unique:
  assumes h: "hdr m this sz cap b off bs" and h': "hdr m this sz' cap' b' off' bs'"
  shows "sz = sz'" "cap = cap'" "b = b'" "off = off'" "bs = bs'"
proof -
  show "sz = sz'" using hdr_str_size [OF h] hdr_str_size [OF h'] hdr_unat(1) [OF h] hdr_unat(1) [OF h'] by auto
  show "cap = cap'" using hdr_capacity [OF h] hdr_capacity [OF h'] hdr_unat(2) [OF h] hdr_unat(2) [OF h'] by auto
  show b: "b = b'" and "off = off'" using hdr_get_ptr [OF h] hdr_get_ptr [OF h'] by auto
  show "bs = bs'" using hdr_bounds(1) [OF h] hdr_bounds(1) [OF h'] b by simp
qed

lemma str_at_unique: "str_at m this xs \<Longrightarrow> str_at m this ys \<Longrightarrow> xs = ys"
  by (elim str_atE) (metis hdr_unique(1,4,5))

lemma assign_copy_updates:
  assumes s: "str_at m this old" and o: "str_at m str cs"
    and d: "str = this \<or> owned m str \<inter> owned m this = {}"
  shows "updates (assign_copy this str) m this cs"
proof (rule updates_reserve [OF s])
  let ?n = "length cs"
  let ?g = "bindM (str_begin str) (\<lambda>sb. bindM (str_end str) (\<lambda>se. bindM (ptr_diff sb se) (\<lambda>d.
      bindM (str_begin this) (\<lambda>p. thenM (copy_chars sb (nat d) p) (bindM (str_size str) (\<lambda>n.
       thenM (set_size this n) (bindM (str_end this) (\<lambda>e. store e 0))))))))"
  obtain cap b off bs where h: "hdr m str ?n cap b off bs"
    and c: "take ?n (drop off bs) = cs" "bs ! (off + ?n) = 0"
    using o(1) by (rule str_atE)
  have u: "unat (of_nat ?n :: u64) = ?n" using hdr_unat(1) [OF h] .
  show "unat (of_nat ?n :: u64) = ?n" by (rule u)
  show "assign_copy this str m = thenM (reserve this (of_nat ?n)) ?g m"
    using h by (simp add: assign_copy_def hdr_str_size)
  fix m1 cap1 b1 off1 bs1
  assume h1: "hdr m1 this (length old) cap1 b1 off1 bs1" "unat (of_nat ?n :: u64) \<le> cap1" "only_touches m this m1"
    and c1: "take (length old) (drop off1 bs1) = old"
  have l: "?n \<le> cap1" using h1(2) u by simp
  let ?m2 = "set_block b1 (overwrite off1 cs bs1) m1"
  obtain b2 off2 where st: "str_begin str m1 = Ok (b2, off2) m1" "str_end str m1 = Ok (b2, off2 + ?n) m1"
    and cp: "copy_chars (b2, off2) ?n (b1, off1) m1 = Ok () ?m2" and sz: "str_size str ?m2 = Ok (of_nat ?n) ?m2"
  proof (cases "str = this")
    case True
    have "old = cs" using s o True by (simp add: str_at_unique)
    then show ?thesis
      using True h1(1) c1 hdr_overwrite(1) [OF h1(1) l] copy_chars_down [of m1 b1 bs1 off1 ?n off1]
        hdr_bounds(1,2,3) [OF h1(1)]
      by (intro that [of b1 off1]) (simp_all add: hdr_str_begin hdr_str_end hdr_str_size)
  next
    case False
    with d have d: "owned m str \<inter> owned m this = {}" by simp
    have h2: "hdr m1 str ?n cap b off bs" using only_touches_hdr [OF h1(3) h d] .
    have n: "b \<notin> owned m this" "str \<notin> owned m this" using d hdr_bounds(6) [OF h] by auto
    have n1: "b \<noteq> b1" "str \<noteq> b1"
      using only_touches_reads(2) [OF h1(3), of "(b, 0)" "[]"] only_touches_reads(2) [OF h1(3), of "(str, 0)" "[]"]
        n hdr_bounds(1,7) [OF h] hdr_bounds(6) [OF h1(1)] by (auto simp: reads_def)
    have "hdr ?m2 str ?n cap b off bs" using h2 by (rule hdr_frame) (use n1 in simp_all)
    then show ?thesis
      using h2 assign_copy_reads [OF h1(1) l h1(3) str_at_reads [OF h c(1)]] n(1)
      by (intro that [of b off]) (simp_all add: hdr_str_begin hdr_str_end hdr_str_size)
  qed
  have "?g m1 = bindM (str_begin this) (\<lambda>p. thenM (copy_chars (b2, off2) ?n p)
      (thenM (set_size this (of_nat ?n)) (bindM (str_end this) (\<lambda>e. store e 0)))) m1"
    using h1(1) st cp sz by (simp add: hdr_str_begin ptr_diff_def)
  then show "\<exists>x m2 bs2. ?g m1 = Ok x m2 \<and> hdr m2 this ?n cap1 b1 off1 bs2 \<and> str_at m2 this cs \<and>
      (\<forall>c. c \<noteq> this \<longrightarrow> c \<noteq> b1 \<longrightarrow> blocks m2 c = blocks m1 c)"
    using finish_assign [where cp = "copy_chars (b2, off2) ?n", OF h1(1) l cp] by (simp only:)
qed


section \<open>Moves and swap\<close>

lemma hdr_relocate:
  assumes "hdr m other sz cap b off bs" "blocks m other = Some arr" "blocks m' this = Some arr"
    and "b \<noteq> other \<Longrightarrow> b \<noteq> this \<and> blocks m' b = blocks m b"
  shows "hdr m' this sz cap (if b = other then this else b) off bs"
  using assms by (auto simp: hdr_def split: if_splits)

lemma assign_move_ok:
  assumes s: "str_at m this old" and o: "str_at m str cs" and d: "owned m str \<inter> owned m this = {}"
  obtains m' where "assign_move this str m = Ok () m'" "str_at m' this cs" "str_at m' str []"
    "owned m' str = {str}" "owned m' this = insert this (owned m str - {str})"
    "dom (blocks m') = dom (blocks m) - (owned m this - {this})"
    "\<And>c. c \<notin> owned m this \<Longrightarrow> c \<noteq> str \<Longrightarrow> blocks m' c = blocks m c"
proof -
  obtain cap b off bs where h: "hdr m this (length old) cap b off bs"
    using s by (rule str_atE)
  obtain cap2 b2 off2 bs2 where h2: "hdr m str (length cs) cap2 b2 off2 bs2"
    and c2: "take (length cs) (drop off2 bs2) = cs" "bs2 ! (off2 + length cs) = 0"
    using o by (rule str_atE)
  have ow: "owned m this = {this, b}" "owned m str = {str, b2}" using hdr_bounds(6) h h2 by blast+
  define m1 where "m1 = (if b = this then m else m\<lparr>blocks := (blocks m)(b := None)\<rparr>)"
  have b1: "blocks m1 c = (if c = b \<and> b \<noteq> this then None else blocks m c)" for c by (simp add: m1_def)
  have run: "assign_move this str m = ctor_move this str m1"
    using h
  proof (cases rule: hdrE)
    case inside
    then show ?thesis
      using h by (simp add: assign_move_def ctor_move_def m1_def load_Ok offset_defs)
  next
    case (heap arr)
    then show ?thesis
      using h by (simp add: assign_move_def ctor_move_def m1_def load_Ok offset_defs hdr_get_ptr hdr_str_size
          deallocate_def)
  qed
  have h21: "hdr m1 str (length cs) cap2 b2 off2 bs2"
    using h2 by (rule hdr_frame) (use d ow b1 in auto)
  have "raw_at m1 this"
    using h b1 [of this] by (auto simp: raw_at_def hdr_def split: option.splits)
  moreover have "str_at m1 str cs" using h21 c2 by (rule str_atI)
  moreover have o1: "owned m1 str = owned m str" using hdr_bounds(6) [OF h21] ow by simp
  moreover have "this \<notin> owned m1 str" using o1 d ow by auto
  ultimately obtain m' where m': "ctor_move this str m1 = Ok () m'" "str_at m' this cs" "str_at m' str []"
    "owned m' str = {str}" "owned m' this = insert this (owned m str - {str})"
    "\<And>c. c \<noteq> this \<Longrightarrow> c \<noteq> str \<Longrightarrow> blocks m' c = blocks m1 c"
    by (metis ctor_move_ok)
  have live: "this \<in> dom (blocks m')" "str \<in> dom (blocks m')" "this \<in> dom (blocks m)" "str \<in> dom (blocks m)"
    using str_at_owned [OF m'(2)] str_at_owned [OF m'(3)] m'(4,5) hdr_bounds(7) [OF h] hdr_bounds(7) [OF h2] by auto
  have "x \<in> dom (blocks m') \<longleftrightarrow> x \<in> dom (blocks m) - (owned m this - {this})" for x
    using live m'(6) [of x] b1 [of x] ow d by (cases "x = this \<or> x = str") (auto simp: domIff)
  then have "dom (blocks m') = dom (blocks m) - (owned m this - {this})" by blast
  with m' show ?thesis
    using run ow b1 by (intro that [of m']) simp_all
qed

lemma str_swap_ok:
  assumes s: "str_at m this xs" and o: "str_at m other ys" and d: "owned m other \<inter> owned m this = {}"
  obtains m' where "str_swap this other m = Ok () m'" "str_at m' this ys" "str_at m' other xs"
    "\<And>c. c \<noteq> this \<Longrightarrow> c \<noteq> other \<Longrightarrow> blocks m' c = blocks m c"
proof -
  obtain cap b off bs where h: "hdr m this (length xs) cap b off bs"
    and c: "take (length xs) (drop off bs) = xs" "bs ! (off + length xs) = 0"
    using s by (rule str_atE)
  obtain cap2 b2 off2 bs2 where h2: "hdr m other (length ys) cap2 b2 off2 bs2"
    and c2: "take (length ys) (drop off2 bs2) = ys" "bs2 ! (off2 + length ys) = 0"
    using o by (rule str_atE)
  obtain a1 where a1: "blocks m this = Some a1" "length a1 = ARR_SIZE"
    using h by (auto simp: hdr_def split: option.splits)
  obtain a2 where a2: "blocks m other = Some a2" "length a2 = ARR_SIZE"
    using h2 by (auto simp: hdr_def split: option.splits)
  have ne: "this \<noteq> other" "b \<noteq> other" "b2 \<noteq> this" using d hdr_bounds(6) [OF h] hdr_bounds(6) [OF h2] by auto
  let ?m1 = "set_block this a2 m" and ?m = "set_block other a1 (set_block this a2 m)"
  have cp: "copy_arr this other m = Ok () ?m1"
    using a1 a2 by (intro copy_arr_Ok) (simp_all add: raw_at_def)
  have st: "store_bytes (other, 0) a1 ?m1 = Ok () ?m"
    using store_bytes_Ok [of ?m1 "(other, 0)" a2 a1] a1 a2 ne by (simp add: overwrite_def)
  have run: "str_swap this other m = Ok () ?m"
    using a1 cp st by (simp add: str_swap_def load_bytes_Ok)
  have "hdr ?m other (length xs) cap (if b = this then other else b) off bs"
    by (rule hdr_relocate [OF h a1(1)]) (use ne in auto)
  then have "str_at ?m other xs" using c by (rule str_atI)
  moreover have "hdr ?m this (length ys) cap2 (if b2 = other then this else b2) off2 bs2"
    by (rule hdr_relocate [OF h2 a2(1)]) (use ne in auto)
  then have "str_at ?m this ys" using c2 by (rule str_atI)
  ultimately show ?thesis
    using that run by simp
qed

end
