(* ===== verification/Bstring_Edit.thy ===== *)
theory Bstring_Edit
  imports Bstring_Assign
begin

text \<open>
  The operations of \<^verbatim>\<open>crossbow::string\<close> that change the characters in place: clear, insert, erase,
  push and pop, append, replace, resize, and the copies out of a string. Positions are 64-bit
  words and wrap as the code's; iterators are pointers, so an iterator into a block that was given
  back is undefined behaviour when it is used.
\<close>

section \<open>Clear, insert\<close>

definition clear :: "u64 \<Rightarrow> unit prog" where
  "clear this = bindM (get_ptr this) (\<lambda>p. thenM (store p 0) (set_size this 0))"

text \<open>\<^verbatim>\<open>for (i = 0; i < chars_to_move; ++i) ptr[nsize - 1 - i] = ptr[sz - 1 - i]\<close>\<close>

definition move_back :: "ptr \<Rightarrow> u64 \<Rightarrow> u64 \<Rightarrow> u64 \<Rightarrow> unit prog" where
  "move_back p nsize sz chars_to_move =
     for_up (unat chars_to_move) (\<lambda>i.
       bindM (load (ptr_add p (unat (sz - 1 - of_nat i)))) (\<lambda>c.
       store (ptr_add p (unat (nsize - 1 - of_nat i))) c))"

definition insert_fill :: "u64 \<Rightarrow> u64 \<Rightarrow> u64 \<Rightarrow> byte \<Rightarrow> unit prog" where
  "insert_fill this index count ch =
     bindM (str_size this) (\<lambda>sz.
     if sz < index then throw out_of_range
     else bindM (str_size this) (\<lambda>s.
       let nsize = s + count in
       thenM (reserve this nsize)
       (bindM (get_ptr this) (\<lambda>p.
        thenM (store (ptr_add p (unat nsize)) 0)
       (thenM (move_back p nsize sz (sz - index))
       (thenM (for_up (unat count) (\<lambda>i. store (ptr_add p (unat (index + of_nat i))) ch))
       (set_size this nsize)))))))"

definition insert_ptr :: "u64 \<Rightarrow> u64 \<Rightarrow> ptr \<Rightarrow> u64 \<Rightarrow> unit prog" where
  "insert_ptr this index s count =
     bindM (str_size this) (\<lambda>sz.
     if sz < index then throw out_of_range
     else let nsize = sz + count in
       thenM (reserve this nsize)
       (bindM (get_ptr this) (\<lambda>p.
        thenM (store (ptr_add p (unat nsize)) 0)
       (thenM (move_back p nsize sz (sz - index))
       (thenM (for_up (unat count) (\<lambda>i. bindM (load (ptr_add s i)) (\<lambda>c.
                 store (ptr_add p (unat (index + of_nat i))) c)))
       (set_size this nsize))))))"

definition insert_cstr :: "u64 \<Rightarrow> u64 \<Rightarrow> ptr \<Rightarrow> unit prog" where
  "insert_cstr this index s = bindM (traits_length s) (\<lambda>count. insert_ptr this index s count)"

definition insert_str :: "u64 \<Rightarrow> u64 \<Rightarrow> u64 \<Rightarrow> unit prog" where
  "insert_str this index str =
     bindM (get_ptr str) (\<lambda>p. bindM (str_size str) (\<lambda>n. insert_ptr this index p n))"

definition insert_sub :: "u64 \<Rightarrow> u64 \<Rightarrow> u64 \<Rightarrow> u64 \<Rightarrow> u64 \<Rightarrow> unit prog" where
  "insert_sub this index str index_str count =
     bindM (str_size str) (\<lambda>n.
     if n < index_str then throw out_of_range
     else bindM (str_size str) (\<lambda>n. let cnt = min count (n - index_str) in
       bindM (get_ptr str) (\<lambda>p. insert_ptr this index (ptr_add p (unat index_str)) cnt)))"

definition insert_iter_char :: "u64 \<Rightarrow> ptr \<Rightarrow> byte \<Rightarrow> ptr prog" where
  "insert_iter_char this pos ch =
     bindM (str_begin this) (\<lambda>b.
     bindM (ptr_diff b pos) (\<lambda>p.
     thenM (insert_fill this (of_int p) 1 ch)
     (bindM (str_begin this) (\<lambda>b. ret (ptr_add b (nat p))))))"

definition insert_iter_fill :: "u64 \<Rightarrow> ptr \<Rightarrow> u64 \<Rightarrow> byte \<Rightarrow> ptr prog" where
  "insert_iter_fill this pos count ch =
     bindM (str_begin this) (\<lambda>b.
     bindM (ptr_diff b pos) (\<lambda>p.
     thenM (insert_fill this (of_int p) count ch)
     (bindM (str_begin this) (\<lambda>b. ret (ptr_add b (nat p))))))"

definition insert_range :: "u64 \<Rightarrow> ptr \<Rightarrow> ptr \<Rightarrow> ptr \<Rightarrow> ptr prog" where
  "insert_range this pos first fin =
     bindM (str_size this) (\<lambda>sz.
     bindM (str_begin this) (\<lambda>b.
     bindM (ptr_diff b pos) (\<lambda>index.
     bindM (ptr_diff first fin) (\<lambda>count.
     if count < 0 then bindM (str_begin this) (\<lambda>b. ret (ptr_add b (nat index)))
     else let nsize = sz + of_int count in
       thenM (reserve this nsize)
       (bindM (get_ptr this) (\<lambda>p.
        thenM (store (ptr_add p (unat nsize)) 0)
       (thenM (move_back p nsize sz (sz - of_int index))
       (thenM (for_up (nat count) (\<lambda>i. bindM (load (ptr_add first i)) (\<lambda>c.
                 store (ptr_add p (unat (of_int index + of_nat i :: u64))) c)))
       (thenM (set_size this nsize)
       (bindM (str_begin this) (\<lambda>b. ret (ptr_add b (nat index))))))))))))) "

definition insert_ilist :: "u64 \<Rightarrow> ptr \<Rightarrow> ptr \<Rightarrow> u64 \<Rightarrow> ptr prog" where
  "insert_ilist this pos l n = insert_range this pos l (ptr_add l (unat n))"

section \<open>Erase, push, pop, append\<close>

definition erase_range :: "u64 \<Rightarrow> ptr \<Rightarrow> ptr \<Rightarrow> ptr prog" where
  "erase_range this first fin =
     bindM (ptr_diff first fin) (\<lambda>count.
     bindM (str_begin this) (\<lambda>cb.
     bindM (ptr_diff cb first) (\<lambda>index.
     bindM (str_begin this) (\<lambda>b.
     let f = ptr_add b (nat index); l = ptr_add f (nat count) in
     bindM (str_end this) (\<lambda>e.
     bindM (ptr_diff l e) (\<lambda>n.
     if n < 0 \<or> count < 0 \<or> index < 0 then (\<lambda>_. UB)
     else thenM (for_up (nat n) (\<lambda>i. bindM (load (ptr_add l i)) (\<lambda>c. store (ptr_add f i) c)))
       (bindM (str_size this) (\<lambda>sz.
        thenM (set_size this (sz - of_int count))
        (bindM (str_begin this) (\<lambda>b. bindM (str_size this) (\<lambda>sz.
         thenM (store (ptr_add b (unat sz)) 0) (ret f))))))))))))"

definition erase_iter :: "u64 \<Rightarrow> ptr \<Rightarrow> ptr prog" where
  "erase_iter this position = erase_range this position (ptr_add position 1)"

definition erase_pos :: "u64 \<Rightarrow> u64 \<Rightarrow> u64 \<Rightarrow> unit prog" where
  "erase_pos this index count =
     bindM (str_size this) (\<lambda>sz.
     if sz < index then throw out_of_range
     else bindM (str_begin this) (\<lambda>b. let first = ptr_add b (unat index) in
       bindM (str_end this) (\<lambda>e.
       let fin = (if count = npos \<or> sz \<le> count \<or> sz < index + count then e else ptr_add first (unat count)) in
       thenM (erase_range this first fin) (ret ()))))"

definition push_back :: "u64 \<Rightarrow> byte \<Rightarrow> unit prog" where
  "push_back this c =
     bindM (str_size this) (\<lambda>sz.
     bindM (capacity this) (\<lambda>cap.
     thenM (if sz = cap then bindM (str_size this) (\<lambda>sz. reserve this (sz + 1)) else ret ())
     (bindM (str_begin this) (\<lambda>b. bindM (str_size this) (\<lambda>sz.
      thenM (store (ptr_add b (unat sz)) c)
      (bindM (str_size this) (\<lambda>sz.
       thenM (set_size this (sz + 1))
       (bindM (str_begin this) (\<lambda>b. bindM (str_size this) (\<lambda>sz. store (ptr_add b (unat sz)) 0)))))))))) "

definition pop_back :: "u64 \<Rightarrow> unit prog" where
  "pop_back this =
     bindM (str_size this) (\<lambda>sz.
     thenM (set_size this (sz - 1))
     (bindM (str_begin this) (\<lambda>b. bindM (str_size this) (\<lambda>sz. store (ptr_add b (unat sz)) 0))))"

definition append_range :: "u64 \<Rightarrow> ptr \<Rightarrow> ptr \<Rightarrow> unit prog" where
  "append_range this first fin =
     bindM (str_end this) (\<lambda>e. thenM (insert_range this e first fin) (ret ()))"

definition append_fill :: "u64 \<Rightarrow> u64 \<Rightarrow> byte \<Rightarrow> unit prog" where
  "append_fill this count ch = bindM (str_size this) (\<lambda>sz. insert_fill this sz count ch)"

definition append_str :: "u64 \<Rightarrow> u64 \<Rightarrow> unit prog" where
  "append_str this str =
     bindM (str_begin str) (\<lambda>b. bindM (str_end str) (\<lambda>e. append_range this b e))"

text \<open>The code takes both ends of the range from \<^verbatim>\<open>this\<close>; its argument \<open>str\<close> is not used.\<close>

definition append_sub :: "u64 \<Rightarrow> u64 \<Rightarrow> u64 \<Rightarrow> u64 \<Rightarrow> unit prog" where
  "append_sub this str pos count =
     bindM (str_begin this) (\<lambda>b. let first = ptr_add b (unat count) in
     bindM (str_size this) (\<lambda>sz.
     bindM (str_end this) (\<lambda>e.
     let fin = (if sz < pos + count then e else ptr_add first (unat count)) in
     append_range this first fin)))"

definition append_ptr :: "u64 \<Rightarrow> ptr \<Rightarrow> u64 \<Rightarrow> unit prog" where
  "append_ptr this s count = append_range this s (ptr_add s (unat count))"

definition append_cstr :: "u64 \<Rightarrow> ptr \<Rightarrow> unit prog" where
  "append_cstr this s = bindM (traits_length s) (\<lambda>count. append_range this s (ptr_add s (unat count)))"

definition append_ilist :: "u64 \<Rightarrow> ptr \<Rightarrow> u64 \<Rightarrow> unit prog" where
  "append_ilist this l n = append_range this l (ptr_add l (unat n))"

definition plus_eq_str :: "u64 \<Rightarrow> u64 \<Rightarrow> unit prog" where
  "plus_eq_str this str = append_str this str"

definition plus_eq_char :: "u64 \<Rightarrow> byte \<Rightarrow> unit prog" where
  "plus_eq_char this ch = append_fill this 1 ch"

definition plus_eq_cstr :: "u64 \<Rightarrow> ptr \<Rightarrow> unit prog" where
  "plus_eq_cstr this s = append_cstr this s"

definition plus_eq_ilist :: "u64 \<Rightarrow> ptr \<Rightarrow> u64 \<Rightarrow> unit prog" where
  "plus_eq_ilist this l n = append_ilist this l n"

section \<open>Insertion\<close>

lemma move_back_loop:
  assumes "blocks m b = Some bs" "off + unat nsize \<le> length bs" "unat sz \<le> unat nsize" "unat index \<le> unat sz"
  shows "move_back (b, off) nsize sz (sz - index) m = Ok () (set_block b
    (overwrite (off + (unat nsize - unat sz) + unat index) (take (unat sz - unat index) (drop (off + unat index) bs)) bs) m)"
proof -
  let ?n = "unat sz - unat index"
  have n: "unat (sz - index) = ?n" using assms(4) by (subst unat_sub_no_wrap) (simp_all add: word_le_nat_alt)
  have i: "unat (x - 1 - of_nat i) = unat x - 1 - i" if "i < ?n" "unat sz \<le> unat x" for x :: u64 and i
  proof -
    have o: "unat (of_nat i :: u64) = i" using that u64_lt [of sz] by (intro unat_of_nat_u64) linarith
    have 1: "unat (x - 1) = unat x - 1" using that by (subst unat_sub_no_wrap) (auto simp: word_le_nat_alt)
    show ?thesis using that o 1 by (subst unat_sub_no_wrap) (auto simp: word_le_nat_alt)
  qed
  have "move_back (b, off) nsize sz (sz - index) =
      for_up ?n (\<lambda>i. bindM (load (b, (off + unat index) + ?n - 1 - i))
        (\<lambda>c. store (b, (off + (unat nsize - unat sz) + unat index) + ?n - 1 - i) c))"
    unfolding move_back_def n
    by (rule for_up_cong) (use i assms in \<open>simp add: ptr_add_def\<close>)
  then show ?thesis
    using move_up_loop [of m b bs "off + (unat nsize - unat sz) + unat index" ?n "off + unat index"] assms
    by simp
qed

lemma insert_content:
  assumes old: "take sz (drop off bs) = old" "length old = sz" and i: "i \<le> sz" and l: "off + sz + length xs < length bs"
  defines "bs1 \<equiv> bs[off + sz + length xs := 0]"
  defines "bs2 \<equiv> overwrite (off + length xs + i) (take (sz - i) (drop (off + i) bs1)) bs1"
  defines "bs3 \<equiv> overwrite (off + i) xs bs2"
  shows "take (sz + length xs) (drop off bs3) = take i old @ xs @ drop i old"
    "bs3 ! (off + (sz + length xs)) = 0" "length bs3 = length bs" "\<And>k. k < off \<Longrightarrow> bs3 ! k = bs ! k"
proof -
  have l1: "length bs1 = length bs" by (simp add: bs1_def)
  have l2: "length bs2 = length bs" using l l1 i by (simp add: bs2_def)
  show l3: "length bs3 = length bs" using l l2 i by (simp add: bs3_def)
  have o: "bs ! (off + k) = old ! k" if "k < sz" for k
    using that old l by auto
  have n2: "bs2 ! k = (if off + length xs + i \<le> k \<and> k < off + length xs + sz then bs1 ! (k - length xs) else bs1 ! k)" if "k < length bs" for k
    using that l l1 i by (auto simp: bs2_def nth_overwrite intro!: arg_cong [of _ _ "nth bs1"])
  have n3: "bs3 ! k = (if off + i \<le> k \<and> k < off + i + length xs then xs ! (k - (off + i)) else bs2 ! k)" if "k < length bs" for k
    using that l l2 i by (auto simp: bs3_def nth_overwrite)
  show "bs3 ! (off + (sz + length xs)) = 0"
    using l i by (simp add: n3 n2 bs1_def add.assoc)
  show "\<And>k. k < off \<Longrightarrow> bs3 ! k = bs ! k"
    using l i by (simp add: n3 n2 bs1_def)
  show "take (sz + length xs) (drop off bs3) = take i old @ xs @ drop i old"
  proof (rule nth_equalityI)
    show "length (take (sz + length xs) (drop off bs3)) = length (take i old @ xs @ drop i old)"
      using l l3 i old by simp
    fix k
    assume "k < length (take (sz + length xs) (drop off bs3))"
    then have k: "k < sz + length xs" by simp
    then have "take (sz + length xs) (drop off bs3) ! k = bs3 ! (off + k)" using l l3 by simp
    also have "\<dots> = (take i old @ xs @ drop i old) ! k"
      using k l i old o by (auto simp: n3 n2 bs1_def nth_append)
    finally show "take (sz + length xs) (drop off bs3) ! k = (take i old @ xs @ drop i old) ! k" .
  qed
qed


lemma finish_size:
  assumes h: "hdr m this sz cap b off bs" and cs: "length cs \<le> cap" "take (length cs) (drop off bs) = cs"
    "bs ! (off + length cs) = 0"
  obtains m' bs' where "set_size this (of_nat (length cs)) m = Ok () m'"
    "hdr m' this (length cs) cap b off bs'" "str_at m' this cs"
    "\<And>c. c \<noteq> this \<Longrightarrow> c \<noteq> b \<Longrightarrow> blocks m' c = blocks m c"
proof -
  note B = hdr_bounds [OF h]
  have u: "unat (of_nat (length cs) :: u64) = length cs"
    using cs B by (simp add: unat_of_nat_u64)
  obtain m1 bs1 where m1: "set_size this (of_nat (length cs)) m = Ok () m1"
    and h1: "hdr m1 this (length cs) cap b off bs1" "length bs1 = length bs" "drop off bs1 = drop off bs"
    and o1: "\<And>c. c \<noteq> this \<Longrightarrow> blocks m1 c = blocks m c"
    using hdr_set_size [OF h, of "of_nat (length cs)"] cs u by metis
  have "bs1 ! (off + length cs) = drop off bs1 ! length cs" using B h1(2) cs by simp
  also have "\<dots> = 0" unfolding h1(3) using cs B by simp
  finally have "str_at m1 this cs"
    using h1 cs by (intro str_atI [OF h1(1)]) simp_all
  then show ?thesis using that m1 h1(1) o1 by blast
qed

lemma insert_steps:
  assumes h: "hdr m1 this (length old) cap b off bs" "take (length old) (drop off bs) = old"
    and i: "unat index \<le> length old" and n: "length old + length xs \<le> cap"
    and wr: "\<And>bs'. length bs' = length bs \<Longrightarrow>
      wr (set_block b bs' m1) = Ok () (set_block b (overwrite (off + unat index) xs bs') m1)"
  defines "nsize \<equiv> of_nat (length old) + of_nat (length xs)"
  shows "\<exists>x m2 bs2. thenM (store (b, off + unat nsize) 0)
       (thenM (move_back (b, off) nsize (of_nat (length old)) (of_nat (length old) - index))
       (thenM wr (set_size this nsize))) m1 = Ok x m2 \<and>
     hdr m2 this (length (take (unat index) old @ xs @ drop (unat index) old)) cap b off bs2 \<and>
     str_at m2 this (take (unat index) old @ xs @ drop (unat index) old) \<and>
     (\<forall>c. c \<noteq> this \<longrightarrow> c \<noteq> b \<longrightarrow> blocks m2 c = blocks m1 c)"
proof -
  note B = hdr_bounds [OF h(1)]
  let ?sz = "length old" and ?i = "unat index"
  let ?new = "take ?i old @ xs @ drop ?i old"
  have ln: "length ?new = ?sz + length xs" using i by simp
  have us: "unat (of_nat ?sz :: u64) = ?sz" using hdr_unat(1) [OF h(1)] .
  have un: "unat nsize = ?sz + length xs"
    using n B unat_of_nat_u64 [of "?sz + length xs"] by (simp add: nsize_def)
  have nn: "nsize = of_nat (length ?new)" unfolding ln nsize_def by simp
  define bs1 where "bs1 = bs[off + ?sz + length xs := 0]"
  define bs2 where "bs2 = overwrite (off + length xs + ?i) (take (?sz - ?i) (drop (off + ?i) bs1)) bs1"
  define bs3 where "bs3 = overwrite (off + ?i) xs bs2"
  have lb: "off + ?sz + length xs < length bs" using B n by simp
  note C = insert_content [OF h(2) refl i lb, folded bs1_def, folded bs2_def, folded bs3_def]
  have l1: "length bs1 = length bs" by (simp add: bs1_def)
  have l2: "length bs2 = length bs" using lb l1 i by (simp add: bs2_def)
  have s1: "store (b, off + unat nsize) 0 m1 = Ok () (set_block b bs1 m1)"
    using B lb un by (simp add: store_Ok bs1_def add.assoc)
  have s2: "move_back (b, off) nsize (of_nat ?sz) (of_nat ?sz - index) (set_block b bs1 m1) =
      Ok () (set_block b bs2 m1)"
    using move_back_loop [of "set_block b bs1 m1" b bs1 off nsize "of_nat ?sz" index] lb l1 un us i
    by (simp add: bs2_def)
  have s3: "wr (set_block b bs2 m1) = Ok () (set_block b bs3 m1)"
    using wr [OF l2] by (simp add: bs3_def)
  have h3: "hdr (set_block b bs3 m1) this ?sz cap b off bs3"
    using hdr_write [OF h(1) C(3,4)] .
  have F: "length ?new \<le> cap" "take (length ?new) (drop off bs3) = ?new" "bs3 ! (off + length ?new) = 0"
    unfolding ln using n C(1,2) by simp_all
  obtain m2 bs4 where m2: "set_size this (of_nat (length ?new)) (set_block b bs3 m1) = Ok () m2"
    "hdr m2 this (length ?new) cap b off bs4" "str_at m2 this ?new"
    "\<And>c. c \<noteq> this \<Longrightarrow> c \<noteq> b \<Longrightarrow> blocks m2 c = blocks (set_block b bs3 m1) c"
    by (rule finish_size [OF h3 F]) (rule that)
  show ?thesis
    using s1 s2 s3 m2 nn by (intro exI [of _ "()"] exI [of _ m2] exI [of _ bs4]) simp
qed

lemma index_loop:
  fixes index :: u64
  assumes "unat index + n < 2 ^ 64"
  shows "for_up n (\<lambda>i. f i (ptr_add p (unat (index + of_nat i)))) = for_up n (\<lambda>i. f i (ptr_add (ptr_add p (unat index)) i))"
proof (rule for_up_cong)
  fix k
  assume k: "k < n"
  have u: "unat (of_nat k :: u64) = k" using k assms by (simp add: unat_of_nat_u64)
  have "unat (index + of_nat k) = unat index + k" using k assms u by (subst unat_add_no_wrap) simp_all
  then show "f k (ptr_add p (unat (index + of_nat k))) = f k (ptr_add (ptr_add p (unat index)) k)"
    by (simp add: ptr_add_def add.assoc)
qed

text \<open>The three insertions differ in how the gap is filled and in what is returned.\<close>

lemma insert_updates:
  assumes s: "str_at m this old" and i: "unat index \<le> length old" and n: "length old + length xs < 2 ^ 64"
    and run: "f m = thenM (reserve this nsize) (bindM (get_ptr this) (\<lambda>p.
        thenM (store (ptr_add p (unat nsize)) 0)
        (thenM (move_back p nsize (of_nat (length old)) (of_nat (length old) - index))
        (thenM (wr p) (thenM (set_size this nsize) k))))) m"
    and nsize: "nsize = of_nat (length old) + of_nat (length xs)"
    and wr: "\<And>m1 cap b off bs bs'. hdr m1 this (length old) cap b off bs \<Longrightarrow> length old + length xs \<le> cap \<Longrightarrow>
      only_touches m this m1 \<Longrightarrow> length bs' = length bs \<Longrightarrow>
      wr (b, off) (set_block b bs' m1) = Ok () (set_block b (overwrite (off + unat index) xs bs') m1)"
    and k: "\<And>m2 sz cap b off bs. hdr m2 this sz cap b off bs \<Longrightarrow> \<exists>x. k m2 = Ok x m2"
  shows "updates f m this (take (unat index) old @ xs @ drop (unat index) old)" (is "updates f m this ?new")
  using s run
proof (rule updates_reserve)
  obtain cap0 b0 off0 bs0 where h0: "hdr m this (length old) cap0 b0 off0 bs0" using s by (rule str_atE)
  have us: "unat (of_nat (length old) :: u64) = length old" using hdr_unat(1) [OF h0] .
  have un: "unat (of_nat (length xs) :: u64) = length xs" using n by (simp add: unat_of_nat_u64)
  have ns: "unat nsize = length old + length xs"
    unfolding nsize using n us un by (subst unat_add_no_wrap) simp_all
  show "unat nsize = length ?new" using ns i by simp
  fix m1 cap b off bs
  assume h: "hdr m1 this (length old) cap b off bs" "take (length old) (drop off bs) = old" "unat nsize \<le> cap"
    "only_touches m this m1"
  have c: "length old + length xs \<le> cap" using h(3) ns by simp
  obtain x m2 bs2 where m2: "thenM (store (b, off + unat nsize) 0)
       (thenM (move_back (b, off) nsize (of_nat (length old)) (of_nat (length old) - index))
       (thenM (wr (b, off)) (set_size this nsize))) m1 = Ok x m2"
     "hdr m2 this (length ?new) cap b off bs2" "str_at m2 this ?new"
     "\<forall>c. c \<noteq> this \<longrightarrow> c \<noteq> b \<longrightarrow> blocks m2 c = blocks m1 c"
    using insert_steps [OF h(1,2) i c wr [OF h(1) c h(4)]] unfolding nsize by blast
  have "bindM (get_ptr this) (\<lambda>p.
        thenM (store (ptr_add p (unat nsize)) 0)
        (thenM (move_back p nsize (of_nat (length old)) (of_nat (length old) - index))
        (thenM (wr p) (thenM (set_size this nsize) k)))) m1 = k m2"
    using thenM_Ok [where g = k and f = "thenM (store (b, off + unat nsize) 0)
       (thenM (move_back (b, off) nsize (of_nat (length old)) (of_nat (length old) - index))
       (thenM (wr (b, off)) (set_size this nsize)))", OF m2(1)] h(1)
    by (simp add: hdr_get_ptr ptr_add_def thenM_assoc)
  with m2 k [OF m2(2)] show "\<exists>x m2 bs2. bindM (get_ptr this) (\<lambda>p.
        thenM (store (ptr_add p (unat nsize)) 0)
        (thenM (move_back p nsize (of_nat (length old)) (of_nat (length old) - index))
        (thenM (wr p) (thenM (set_size this nsize) k)))) m1 = Ok x m2 \<and>
      hdr m2 this (length ?new) cap b off bs2 \<and> str_at m2 this ?new \<and>
      (\<forall>c. c \<noteq> this \<longrightarrow> c \<noteq> b \<longrightarrow> blocks m2 c = blocks m1 c)"
    by auto
qed

lemma insert_fill_updates:
  assumes s: "str_at m this old" and i: "unat index \<le> length old" and n: "length old + n < 2 ^ 64"
  shows "updates (insert_fill this index (of_nat n) c) m this
    (take (unat index) old @ replicate n c @ drop (unat index) old)"
proof (rule insert_updates [OF s i, where k = "ret ()"
      and wr = "\<lambda>p. for_up n (\<lambda>i. store (ptr_add p (unat (index + of_nat i))) c)"])
  obtain cap0 b0 off0 bs0 where h0: "hdr m this (length old) cap0 b0 off0 bs0" using s by (rule str_atE)
  show "insert_fill this index (of_nat n) c m = thenM (reserve this (of_nat (length old) + of_nat n))
      (bindM (get_ptr this) (\<lambda>p. thenM (store (ptr_add p (unat (of_nat (length old) + of_nat n :: u64))) 0)
      (thenM (move_back p (of_nat (length old) + of_nat n) (of_nat (length old)) (of_nat (length old) - index))
      (thenM (for_up n (\<lambda>i. store (ptr_add p (unat (index + of_nat i))) c))
      (thenM (set_size this (of_nat (length old) + of_nat n)) (ret ())))))) m"
    using h0 i hdr_unat(1) [OF h0] n
    by (simp add: insert_fill_def hdr_str_size word_less_nat_alt Let_def thenM_ret unat_of_nat_u64)
  show "for_up n (\<lambda>i. store (ptr_add (b, off) (unat (index + of_nat i))) c) (set_block b bs' m1) =
      Ok () (set_block b (overwrite (off + unat index) (replicate n c) bs') m1)"
    if "hdr m1 this (length old) cap b off bs" "length old + length (replicate n c) \<le> cap"
      "length bs' = length bs" for m1 cap b off bs bs'
    using index_loop [of index n "\<lambda>i p. store p c" "(b, off)"]
      fill_loop [of "set_block b bs' m1" "(b, off + unat index)" bs' n c]
      that i n hdr_bounds(2) [OF that(1)] by (simp add: ptr_add_def)
qed (use n in simp_all)

lemma insert_source:
  fixes index :: u64
  assumes h: "hdr m1 this sz cap b off bs" "unat index + length cs \<le> cap" "only_touches m this m1" "length bs' = length bs"
    and s: "reads m s cs" "fst s \<notin> owned m this"
  shows "for_up (length cs) (\<lambda>i. bindM (load (ptr_add s i)) (\<lambda>c.
      store (ptr_add (b, off) (unat (index + of_nat i))) c)) (set_block b bs' m1) =
    Ok () (set_block b (overwrite (off + unat index) cs bs') m1)"
proof -
  note r = only_touches_reads [OF h(3) s(2,1)]
  have ne: "fst s \<noteq> b" using r(2) hdr_bounds(6) [OF h(1)] by auto
  have "reads (set_block b bs' m1) s cs" using r(1) ne by (simp add: reads_def)
  then have "copy_chars s (length cs) (b, off + unat index) (set_block b bs' m1) =
      Ok () (set_block b (overwrite (off + unat index) cs bs') m1)"
    using copy_reads [of "set_block b bs' m1" s cs "(b, off + unat index)" bs'] ne h hdr_bounds(2) [OF h(1)] by simp
  moreover have "unat index + length cs < 2 ^ 64" using h(2) hdr_bounds(4) [OF h(1)] by simp
  ultimately show ?thesis
    using index_loop [of index "length cs" "\<lambda>i p. bindM (load (ptr_add s i)) (\<lambda>c. store p c)" "(b, off)"]
    by (simp add: copy_chars_def ptr_add_def)
qed

lemma insert_ptr_updates:
  assumes s: "str_at m this old" and i: "unat index \<le> length old" and n: "length old + length cs < 2 ^ 64"
    and r: "reads m p cs" "fst p \<notin> owned m this"
  shows "updates (insert_ptr this index p (of_nat (length cs))) m this
    (take (unat index) old @ cs @ drop (unat index) old)"
proof (rule insert_updates [OF s i n, where k = "ret ()" and wr = "\<lambda>q. for_up (length cs) (\<lambda>i.
      bindM (load (ptr_add p i)) (\<lambda>c. store (ptr_add q (unat (index + of_nat i))) c))"])
  obtain cap0 b0 off0 bs0 where h0: "hdr m this (length old) cap0 b0 off0 bs0" using s by (rule str_atE)
  let ?N = "of_nat (length old) + of_nat (length cs) :: u64"
  show "insert_ptr this index p (of_nat (length cs)) m = thenM (reserve this ?N)
      (bindM (get_ptr this) (\<lambda>q. thenM (store (ptr_add q (unat ?N)) 0)
      (thenM (move_back q ?N (of_nat (length old)) (of_nat (length old) - index))
      (thenM (for_up (length cs) (\<lambda>i. bindM (load (ptr_add p i)) (\<lambda>c. store (ptr_add q (unat (index + of_nat i))) c)))
      (thenM (set_size this ?N) (ret ())))))) m"
    using h0 i hdr_unat(1) [OF h0] n
    by (simp add: insert_ptr_def hdr_str_size word_less_nat_alt Let_def thenM_ret unat_of_nat_u64)
  show "for_up (length cs) (\<lambda>i. bindM (load (ptr_add p i)) (\<lambda>c.
      store (ptr_add (b, off) (unat (index + of_nat i))) c)) (set_block b bs' m1) =
      Ok () (set_block b (overwrite (off + unat index) cs bs') m1)"
    if "hdr m1 this (length old) cap b off bs" "length old + length cs \<le> cap"
      "only_touches m this m1" "length bs' = length bs" for m1 cap b off bs bs'
    using insert_source [OF that(1) _ that(3,4) r] that(2) i by simp
qed simp_all


lemma insert_out_of_range:
  assumes "str_at m this old" "length old < unat index"
  shows "insert_fill this index n c m = Throw out_of_range m" "insert_ptr this index p n m = Throw out_of_range m"
  using assms(1)
  by (rule str_atE; use assms(2) in \<open>simp add: insert_fill_def insert_ptr_def hdr_str_size word_less_nat_alt hdr_unat(1)\<close>)+

lemma insert_cstr_updates:
  assumes "str_at m this old" "unat index \<le> length old" "length old + length cs < 2 ^ 64"
    and "cstr_at m p cs" "fst p \<notin> owned m this"
  shows "updates (insert_cstr this index p) m this (take (unat index) old @ cs @ drop (unat index) old)"
  using insert_ptr_updates [OF assms(1-3) cstr_at_reads [OF assms(4)] assms(5)] assms(4)
  by (simp add: updates_def insert_cstr_def traits_length_cstr)

lemma insert_str_updates:
  assumes s: "str_at m this old" "unat index \<le> length old"
    and o: "str_at m str cs" "owned m str \<inter> owned m this = {}"
  shows "updates (insert_str this index str) m this (take (unat index) old @ cs @ drop (unat index) old)"
proof -
  obtain cap b off bs where h: "hdr m str (length cs) cap b off bs" and c: "take (length cs) (drop off bs) = cs"
    using o(1) by (rule str_atE)
  have "length old + length cs < 2 ^ 64" using str_at_length [OF s(1)] str_at_length [OF o(1)] by simp
  moreover have "fst (b, off) \<notin> owned m this" using o(2) hdr_bounds(6) [OF h] by auto
  ultimately show ?thesis
    using insert_ptr_updates [OF s _ str_at_reads [OF h c]] h
    by (simp add: updates_def insert_str_def hdr_get_ptr hdr_str_size)
qed

lemma insert_sub_updates:
  assumes s: "str_at m this old" "unat index \<le> length old"
    and o: "str_at m str cs" "owned m str \<inter> owned m this = {}" and pos: "unat pos \<le> length cs"
  shows "updates (insert_sub this index str pos count) m this
    (take (unat index) old @ take (unat count) (drop (unat pos) cs) @ drop (unat index) old)"
    (is "updates _ m this (_ @ ?cs @ _)")
proof -
  obtain cap b off bs where h: "hdr m str (length cs) cap b off bs" and c: "take (length cs) (drop off bs) = cs"
    using o(1) by (rule str_atE)
  have u: "unat (of_nat (length cs) :: u64) = length cs" using hdr_unat(1) [OF h] .
  have d: "unat (of_nat (length cs) - pos) = length cs - unat pos"
    using pos u by (subst unat_sub_no_wrap) (simp_all add: word_le_nat_alt)
  have "unat (min count (of_nat (length cs) - pos)) = length ?cs"
    using d by (auto simp: min_def word_le_nat_alt)
  then have cnt: "min count (of_nat (length cs) - pos) = of_nat (length ?cs)" by (metis of_nat_unat ucast_id)
  have "length old + length ?cs < 2 ^ 64" using str_at_length [OF s(1)] str_at_length [OF o(1)] by simp
  moreover have "fst (b, off + unat pos) \<notin> owned m this" using o(2) hdr_bounds(6) [OF h] by auto
  moreover have "insert_sub this index str pos count m = insert_ptr this index (b, off + unat pos) (of_nat (length ?cs)) m"
    using h pos u unfolding cnt [symmetric]
    by (simp add: insert_sub_def hdr_get_ptr hdr_str_size word_less_nat_alt ptr_add_def Let_def)
  ultimately show ?thesis
    using insert_ptr_updates [OF s _ str_at_sub_reads [OF h c pos]] by (simp add: updates_def)
qed

lemma insert_range_updates:
  assumes s: "str_at m this old" and h0: "hdr m this (length old) cap0 b0 off0 bs0" and i: "i \<le> length old"
    and n: "length old + length cs < 2 ^ 64" and r: "reads m (b1, o1) cs" "b1 \<notin> owned m this"
  shows "updates (insert_range this (b0, off0 + i) (b1, o1) (b1, o1 + length cs)) m this
    (take i old @ cs @ drop i old)"
proof -
  let ?N = "of_nat (length old) + of_nat (length cs) :: u64"
  have ui: "unat (of_nat i :: u64) = i" using i str_at_length [OF s] by (simp add: unat_of_nat_u64)
  have "updates (insert_range this (b0, off0 + i) (b1, o1) (b1, o1 + length cs)) m this
    (take (unat (of_nat i :: u64)) old @ cs @ drop (unat (of_nat i :: u64)) old)"
  proof (rule insert_updates [OF s _ n, where k = "bindM (str_begin this) (\<lambda>b. ret (ptr_add b i))"
        and wr = "\<lambda>q. for_up (length cs) (\<lambda>j. bindM (load (ptr_add (b1, o1) j)) (\<lambda>c.
          store (ptr_add q (unat (of_nat i + of_nat j :: u64))) c))"])
    show "unat (of_nat i :: u64) \<le> length old" using ui i by simp
    show "insert_range this (b0, off0 + i) (b1, o1) (b1, o1 + length cs) m = thenM (reserve this ?N)
      (bindM (get_ptr this) (\<lambda>q. thenM (store (ptr_add q (unat ?N)) 0)
      (thenM (move_back q ?N (of_nat (length old)) (of_nat (length old) - of_nat i))
      (thenM (for_up (length cs) (\<lambda>j. bindM (load (ptr_add (b1, o1) j)) (\<lambda>c.
          store (ptr_add q (unat (of_nat i + of_nat j :: u64))) c)))
      (thenM (set_size this ?N) (bindM (str_begin this) (\<lambda>b. ret (ptr_add b i)))))))) m"
      using h0 by (simp add: insert_range_def hdr_str_size hdr_str_begin ptr_diff_def Let_def)
    show "for_up (length cs) (\<lambda>j. bindM (load (ptr_add (b1, o1) j)) (\<lambda>c.
        store (ptr_add (b, off) (unat (of_nat i + of_nat j :: u64))) c)) (set_block b bs' m1) =
        Ok () (set_block b (overwrite (off + unat (of_nat i :: u64)) cs bs') m1)"
      if "hdr m1 this (length old) cap b off bs" "length old + length cs \<le> cap"
        "only_touches m this m1" "length bs' = length bs" for m1 cap b off bs bs'
      using insert_source [OF that(1) _ that(3,4) r(1), of "of_nat i"] that(2) i r(2) ui by simp
  qed (auto simp: hdr_str_begin)
  then show ?thesis unfolding ui .
qed

lemma append_range_updates:
  assumes s: "str_at m this old" and n: "length old + length cs < 2 ^ 64"
    and r: "reads m (b1, o1) cs" "b1 \<notin> owned m this"
  shows "updates (append_range this (b1, o1) (b1, o1 + length cs)) m this (old @ cs)"
proof -
  obtain cap b off bs where h: "hdr m this (length old) cap b off bs" using s by (rule str_atE)
  have "append_range this (b1, o1) (b1, o1 + length cs) m =
      thenM (insert_range this (b, off + length old) (b1, o1) (b1, o1 + length cs)) (ret ()) m"
    using h by (simp add: append_range_def hdr_str_end)
  then show ?thesis
    using insert_range_updates [OF s h order_refl n r]
    by (auto simp: updates_def thenM_def bindM_def split: outcome.splits)
qed

lemma append_ptr_updates:
  assumes s: "str_at m this old" and n: "length old + length cs < 2 ^ 64"
    and r: "reads m p cs" "fst p \<notin> owned m this"
  shows "updates (append_ptr this p (of_nat (length cs))) m this (old @ cs)"
    "updates (append_ilist this p (of_nat (length cs))) m this (old @ cs)"
  using append_range_updates [OF s n, of "fst p" "snd p"] r n
  by (simp_all add: append_ptr_def append_ilist_def ptr_add_def unat_of_nat_u64)

lemma append_cstr_updates:
  assumes s: "str_at m this old" and n: "length old + length cs < 2 ^ 64"
    and r: "cstr_at m p cs" "fst p \<notin> owned m this"
  shows "updates (append_cstr this p) m this (old @ cs)"
  using append_range_updates [OF s n, of "fst p" "snd p"] cstr_at_reads [OF r(1)] r n
  by (simp add: append_cstr_def traits_length_cstr ptr_add_def unat_of_nat_u64 updates_def)

lemma append_str_updates:
  assumes s: "str_at m this old" and o: "str_at m str cs" "owned m str \<inter> owned m this = {}"
  shows "updates (append_str this str) m this (old @ cs)"
proof -
  obtain cap b off bs where h: "hdr m str (length cs) cap b off bs" and c: "take (length cs) (drop off bs) = cs"
    using o(1) by (rule str_atE)
  have "length old + length cs < 2 ^ 64" using str_at_length [OF s(1)] str_at_length [OF o(1)] by simp
  moreover have "b \<notin> owned m this" using o(2) hdr_bounds(6) [OF h] by auto
  ultimately show ?thesis
    using append_range_updates [OF s _ str_at_reads [OF h c]] h
    by (simp add: updates_def append_str_def hdr_str_begin hdr_str_end)
qed

lemma append_fill_updates:
  assumes s: "str_at m this old" and n: "length old + n < 2 ^ 64"
  shows "updates (append_fill this (of_nat n) c) m this (old @ replicate n c)"
proof -
  obtain cap b off bs where h: "hdr m this (length old) cap b off bs" using s by (rule str_atE)
  show ?thesis
    using insert_fill_updates [OF s, of "of_nat (length old)" n c] n h hdr_unat(1) [OF h]
    by (simp add: updates_def append_fill_def hdr_str_size)
qed


section \<open>Clear, erase, push, pop\<close>

lemma finish_steps:
  assumes h: "hdr m this sz cap b off bs" and cs: "length cs \<le> cap" "take (length cs) (drop off bs) = cs"
  obtains m1 bs1 m' bs' where "set_size this (of_nat (length cs)) m = Ok () m1"
    "hdr m1 this (length cs) cap b off bs1" "store (b, off + length cs) 0 m1 = Ok () m'"
    "hdr m' this (length cs) cap b off bs'" "str_at m' this cs"
    "\<And>c. c \<noteq> this \<Longrightarrow> c \<noteq> b \<Longrightarrow> blocks m' c = blocks m c"
proof -
  note B = hdr_bounds [OF h]
  have u: "unat (of_nat (length cs) :: u64) = length cs"
    using cs B by (simp add: unat_of_nat_u64)
  obtain m1 bs1 where m1: "set_size this (of_nat (length cs)) m = Ok () m1"
    and h1: "hdr m1 this (length cs) cap b off bs1"
    using hdr_set_size [OF h, of "of_nat (length cs)"] cs u by metis
  obtain m' bs' where m': "thenM (set_size this (of_nat (length cs))) (bindM (str_end this) (\<lambda>e. store e 0)) m = Ok () m'"
    "hdr m' this (length cs) cap b off bs'" "str_at m' this cs"
    "\<And>c. c \<noteq> this \<Longrightarrow> c \<noteq> b \<Longrightarrow> blocks m' c = blocks m c"
    by (rule finish_write [OF h cs]) (rule that)
  have "store (b, off + length cs) 0 m1 = Ok () m'"
    using m'(1) m1 h1 by (simp add: hdr_str_end)
  then show ?thesis using that m1 h1 m'(2-4) by blast
qed

lemma updates_same_ptr:
  assumes "f m = Ok x m'" "hdr m this sz cap b off bs" "hdr m' this sz' cap' b off' bs'" "str_at m' this cs"
    and "\<And>c. c \<noteq> this \<Longrightarrow> c \<noteq> b \<Longrightarrow> blocks m' c = blocks m c"
  shows "updates f m this cs"
  using assms only_touches_same_ptr [OF assms(2,3)] by (simp add: updates_def)

lemma clear_updates:
  assumes "str_at m this old"
  shows "updates (clear this) m this []" "\<exists>m'. clear this m = Ok () m'"
proof -
  obtain cap b off bs where h: "hdr m this (length old) cap b off bs" using assms by (rule str_atE)
  note B = hdr_bounds [OF h]
  let ?bs = "bs[off := 0]"
  have h1: "hdr (set_block b ?bs m) this (length old) cap b off ?bs"
    using hdr_write [OF h, of ?bs] by simp
  have F: "length [] \<le> cap" "take (length []) (drop off ?bs) = []" "?bs ! (off + length []) = 0"
    using B by simp_all
  obtain m' bs' where m': "set_size this (of_nat (length ([] :: byte list))) (set_block b ?bs m) = Ok () m'"
    "hdr m' this (length ([] :: byte list)) cap b off bs'" "str_at m' this []"
    "\<And>c. c \<noteq> this \<Longrightarrow> c \<noteq> b \<Longrightarrow> blocks m' c = blocks (set_block b ?bs m) c"
    by (rule finish_size [OF h1 F]) (rule that)
  have run: "clear this m = Ok () m'"
    using h B m'(1) by (simp add: clear_def hdr_get_ptr store_Ok)
  then show "\<exists>m'. clear this m = Ok () m'" ..
  show "updates (clear this) m this []"
    using run h m'(2,3) by (rule updates_same_ptr) (use m'(4) in simp)
qed

lemma erase_content:
  assumes old: "take sz (drop off bs) = old" "length old = sz" and ij: "i \<le> j" "j \<le> sz" and l: "off + sz \<le> length bs"
  shows "take (sz - (j - i)) (drop off (overwrite (off + i) (take (sz - j) (drop (off + j) bs)) bs)) = take i old @ drop j old"
    (is "take ?n (drop off ?bs) = _")
proof (rule nth_equalityI)
  have lb: "length ?bs = length bs" using l ij by simp
  then show "length (take ?n (drop off ?bs)) = length (take i old @ drop j old)" using l ij old(2) by simp
  fix k
  assume "k < length (take ?n (drop off ?bs))"
  then have k: "k < sz - (j - i)" by simp
  have o: "bs ! (off + k) = old ! k" if "k < sz" for k
    using that arg_cong [OF old(1), of "\<lambda>l. l ! k"] l by simp
  have "take ?n (drop off ?bs) ! k = ?bs ! (off + k)" using k l lb by simp
  also have "\<dots> = (if k < i then bs ! (off + k) else bs ! (off + (j + k - i)))"
  proof (cases "k < i")
    case True
    then show ?thesis using k l ij by (simp add: nth_overwrite)
  next
    case False
    then have "off + i \<le> off + k" "off + k < off + i + length (take (sz - j) (drop (off + j) bs))"
      "off + j + (off + k - (off + i)) = off + (j + k - i)" using k l ij by auto
    then show ?thesis using False k l ij by (simp only: nth_overwrite if_True) (simp add: nth_overwrite)
  qed
  also have "\<dots> = (take i old @ drop j old) ! k"
    using k ij o [of k] o [of "j + k - i"] old(2) by (auto simp: nth_append min_def)
  finally show "take ?n (drop off ?bs) ! k = (take i old @ drop j old) ! k" .
qed

lemma erase_range_ok:
  assumes s: "str_at m this old" and h: "hdr m this (length old) cap b off bs" and ij: "i \<le> j" "j \<le> length old"
  obtains m' bs' where "erase_range this (b, off + i) (b, off + j) m = Ok (b, off + i) m'"
    "hdr m' this (length (take i old @ drop j old)) cap b off bs'" "str_at m' this (take i old @ drop j old)"
    "\<And>c. c \<noteq> this \<Longrightarrow> c \<noteq> b \<Longrightarrow> blocks m' c = blocks m c"
proof -
  note B = hdr_bounds [OF h]
  let ?sz = "length old" and ?new = "take i old @ drop j old"
  have c: "take ?sz (drop off bs) = old" using s h by (metis str_atE hdr_unique(4,5))
  have ln: "length ?new = ?sz - (j - i)" using ij by simp
  let ?bs = "overwrite (off + i) (take (?sz - j) (drop (off + j) bs)) bs"
  have cp: "for_up (?sz - j) (\<lambda>k. bindM (load (ptr_add (b, off + j) k)) (\<lambda>c. store (ptr_add (b, off + i) k) c)) m =
      Ok () (set_block b ?bs m)"
    using copy_chars_down [of m b bs "off + j" "?sz - j" "off + i"] B ij by (simp add: copy_chars_def)
  have h1: "hdr (set_block b ?bs m) this ?sz cap b off ?bs"
    using B ij by (intro hdr_write [OF h]) (simp_all add: nth_overwrite)
  have "take (length ?new) (drop off ?bs) = ?new"
    unfolding ln using erase_content [OF c refl ij] B by simp
  moreover have "length ?new \<le> cap" using ln B by simp
  ultimately obtain m1 bs1 m' bs' where
    m1: "set_size this (of_nat (length ?new)) (set_block b ?bs m) = Ok () m1" "hdr m1 this (length ?new) cap b off bs1"
    and m': "store (b, off + length ?new) 0 m1 = Ok () m'" "hdr m' this (length ?new) cap b off bs'" "str_at m' this ?new"
      "\<And>c. c \<noteq> this \<Longrightarrow> c \<noteq> b \<Longrightarrow> blocks m' c = blocks (set_block b ?bs m) c"
    by (metis finish_steps [OF h1])
  define n where "n = length ?new"
  obtain d where d: "j = i + d" using ij by (auto simp: le_iff_add)
  have sub: "(of_nat ?sz :: u64) - of_nat d = of_nat n"
    using ij unfolding n_def ln d by (simp add: of_nat_diff)
  have "nat (int (off + ?sz) - int (off + (i + d))) = ?sz - (i + d)" using ij d by auto
  then have "erase_range this (b, off + i) (b, off + j) m = Ok (b, off + i) m'"
    using h h1 cp m1 m'(1) ij hdr_unat(1) [OF m1(2)] unfolding n_def [symmetric] d
    by (simp add: erase_range_def ptr_diff_def hdr_str_begin hdr_str_end hdr_str_size ptr_add_def Let_def sub add.assoc)
  then show ?thesis using that m'(2-4) by simp
qed


lemma erase_range_updates:
  assumes s: "str_at m this old" and h: "hdr m this (length old) cap b off bs" and ij: "i \<le> j" "j \<le> length old"
  shows "updates (erase_range this (b, off + i) (b, off + j)) m this (take i old @ drop j old)"
proof -
  obtain m' bs' where m': "erase_range this (b, off + i) (b, off + j) m = Ok (b, off + i) m'"
    "hdr m' this (length (take i old @ drop j old)) cap b off bs'" "str_at m' this (take i old @ drop j old)"
    "\<And>c. c \<noteq> this \<Longrightarrow> c \<noteq> b \<Longrightarrow> blocks m' c = blocks m c"
    by (rule erase_range_ok [OF s h ij]) (rule that)
  show ?thesis
    using m'(1) h m'(2,3) by (rule updates_same_ptr) (rule m'(4))
qed

lemma erase_pos_updates:
  assumes s: "str_at m this old" and i: "unat index \<le> length old"
  shows "updates (erase_pos this index count) m this
    (take (unat index) old @ drop (unat index + unat count) old)"
proof -
  obtain cap b off bs where h: "hdr m this (length old) cap b off bs" using s by (rule str_atE)
  note B = hdr_bounds [OF h]
  let ?sz = "length old" and ?w = "of_nat (length old) :: u64"
  have u: "unat ?w = ?sz" using hdr_unat(1) [OF h] .
  define j where "j = min ?sz (unat index + unat count)"
  have np: "\<not> ?w < index" using i u by (simp add: word_less_nat_alt)
  have e: "(if count = npos \<or> ?w \<le> count \<or> ?w < index + count then (b, off + ?sz)
      else (b, off + unat index + unat count)) = (b, off + j)"
  proof (cases "unat count < ?sz")
    case True
    then have "count \<noteq> npos" using B unat_npos by auto
    moreover have "unat (index + count) = unat index + unat count"
      using True i B by (subst unat_add_no_wrap) simp_all
    ultimately show ?thesis using True u by (auto simp: word_le_nat_alt word_less_nat_alt j_def)
  next
    case False
    then show ?thesis using u by (simp add: word_le_nat_alt j_def)
  qed
  have "erase_pos this index count m = thenM (erase_range this (b, off + unat index) (b, off + j)) (ret ()) m"
    using h np e by (cases "count = npos \<or> ?w \<le> count \<or> ?w < index + count")
      (simp_all add: erase_pos_def hdr_str_size hdr_str_begin hdr_str_end Let_def ptr_add_def add.assoc)
  moreover have "drop j old = drop (unat index + unat count) old" by (simp add: j_def min_def)
  ultimately show ?thesis
    using erase_range_updates [OF s h, of "unat index" j] i
    by (auto simp: updates_def thenM_def bindM_def j_def split: outcome.splits)
qed

lemma erase_pos_out_of_range:
  assumes "str_at m this old" "length old < unat index"
  shows "erase_pos this index count m = Throw out_of_range m"
  using assms(1)
  by (rule str_atE) (use assms(2) in \<open>simp add: erase_pos_def hdr_str_size word_less_nat_alt hdr_unat(1)\<close>)

lemma pop_back_updates:
  assumes s: "str_at m this (cs @ [c])"
  shows "updates (pop_back this) m this cs"
proof -
  obtain cap b off bs where h: "hdr m this (length (cs @ [c])) cap b off bs"
    and t: "take (length (cs @ [c])) (drop off bs) = cs @ [c]" using s by (rule str_atE)
  note B = hdr_bounds [OF h]
  have "take (length cs) (drop off bs) = take (length cs) (take (length (cs @ [c])) (drop off bs))" by simp
  also have "\<dots> = cs" unfolding t by simp
  finally have t': "take (length cs) (drop off bs) = cs" .
  have lc: "length cs \<le> cap" using B by simp
  obtain m1 bs1 m' bs' where m1: "set_size this (of_nat (length cs)) m = Ok () m1" "hdr m1 this (length cs) cap b off bs1"
    and m': "store (b, off + length cs) 0 m1 = Ok () m'" "hdr m' this (length cs) cap b off bs'" "str_at m' this cs"
    and o: "\<And>c. c \<noteq> this \<Longrightarrow> c \<noteq> b \<Longrightarrow> blocks m' c = blocks m c"
    by (rule finish_steps [OF h lc t']) (rule that)
  have "pop_back this m = Ok () m'"
    using h m1 m'(1) hdr_unat(1) [OF m1(2)]
    by (simp add: pop_back_def hdr_str_size hdr_str_begin ptr_add_def)
  then show ?thesis
    using h m'(2,3) by (rule updates_same_ptr) (rule o)
qed

lemma push_back_tail:
  assumes h: "hdr m this (length cs) cap b off bs" and t: "take (length cs) (drop off bs) = cs" and lc: "length cs < cap"
  shows "\<exists>x m' bs'. bindM (str_begin this) (\<lambda>b. bindM (str_size this) (\<lambda>sz.
      thenM (store (ptr_add b (unat sz)) c)
      (bindM (str_size this) (\<lambda>sz.
       thenM (set_size this (sz + 1))
       (bindM (str_begin this) (\<lambda>b. bindM (str_size this) (\<lambda>sz. store (ptr_add b (unat sz)) 0))))))) m = Ok x m' \<and>
    hdr m' this (length (cs @ [c])) cap b off bs' \<and> str_at m' this (cs @ [c]) \<and>
    (\<forall>d. d \<noteq> this \<longrightarrow> d \<noteq> b \<longrightarrow> blocks m' d = blocks m d)"
proof -
  note B = hdr_bounds [OF h]
  let ?bs = "bs[off + length cs := c]"
  have h1: "hdr (set_block b ?bs m) this (length cs) cap b off ?bs"
    using hdr_write [OF h, of ?bs] by simp
  have F: "length (cs @ [c]) \<le> cap" "take (length (cs @ [c])) (drop off ?bs) = cs @ [c]"
    using lc B t by (simp_all add: take_Suc_conv_app_nth drop_update_swap take_update_cancel)
  obtain m1 bs1 m' bs' where m1: "set_size this (of_nat (length (cs @ [c]))) (set_block b ?bs m) = Ok () m1"
      "hdr m1 this (length (cs @ [c])) cap b off bs1"
    and m': "store (b, off + length (cs @ [c])) 0 m1 = Ok () m'" "hdr m' this (length (cs @ [c])) cap b off bs'"
      "str_at m' this (cs @ [c])"
    and o: "\<And>d. d \<noteq> this \<Longrightarrow> d \<noteq> b \<Longrightarrow> blocks m' d = blocks (set_block b ?bs m) d"
    by (rule finish_steps [OF h1 F]) (rule that)
  define n where "n = length (cs @ [c])"
  have n: "(of_nat (length cs) + 1 :: u64) = of_nat n" by (simp add: n_def add.commute)
  have "bindM (str_begin this) (\<lambda>b. bindM (str_size this) (\<lambda>sz.
      thenM (store (ptr_add b (unat sz)) c)
      (bindM (str_size this) (\<lambda>sz.
       thenM (set_size this (sz + 1))
       (bindM (str_begin this) (\<lambda>b. bindM (str_size this) (\<lambda>sz. store (ptr_add b (unat sz)) 0))))))) m = Ok () m'"
    using h h1 B m1 m'(1) hdr_unat(1) [OF h] hdr_unat(1) [OF m1(2)] unfolding n_def [symmetric]
    by (simp add: hdr_str_size hdr_str_begin ptr_add_def store_Ok n)
  with m'(2,3) o show ?thesis
    by (intro exI [of _ "()"] exI [of _ m'] exI [of _ bs']) simp
qed

lemma push_back_updates:
  assumes s: "str_at m this cs"
  shows "updates (push_back this c) m this (cs @ [c])"
proof -
  obtain cap b off bs where h: "hdr m this (length cs) cap b off bs" and t: "take (length cs) (drop off bs) = cs"
    using s by (rule str_atE)
  note B = hdr_bounds [OF h]
  have u: "unat (of_nat (length cs) :: u64) = length cs" "unat (of_nat cap :: u64) = cap" using hdr_unat [OF h] .
  let ?tail = "bindM (str_begin this) (\<lambda>b. bindM (str_size this) (\<lambda>sz.
      thenM (store (ptr_add b (unat sz)) c)
      (bindM (str_size this) (\<lambda>sz.
       thenM (set_size this (sz + 1))
       (bindM (str_begin this) (\<lambda>b. bindM (str_size this) (\<lambda>sz. store (ptr_add b (unat sz)) 0)))))))"
  show ?thesis
  proof (cases "length cs = cap")
    case True
    show ?thesis
    proof (rule updates_reserve [OF s])
      show "push_back this c m = thenM (reserve this (of_nat (length cs) + 1)) ?tail m"
        using h True by (simp add: push_back_def hdr_str_size hdr_capacity thenM_bindM_Ok [where m' = m])
      have l1: "unat (of_nat (length cs) + 1 :: u64) = length cs + 1"
        using B u by (subst unat_add_no_wrap) simp_all
      then show "unat (of_nat (length cs) + 1 :: u64) = length (cs @ [c])" by simp
      fix m1 cap1 b1 off1 bs1
      assume h1: "hdr m1 this (length cs) cap1 b1 off1 bs1" "take (length cs) (drop off1 bs1) = cs"
        "unat (of_nat (length cs) + 1 :: u64) \<le> cap1"
      with h1(3) l1 have "length cs < cap1" by simp
      then show "\<exists>x m2 bs2. ?tail m1 = Ok x m2 \<and> hdr m2 this (length (cs @ [c])) cap1 b1 off1 bs2 \<and>
          str_at m2 this (cs @ [c]) \<and> (\<forall>d. d \<noteq> this \<longrightarrow> d \<noteq> b1 \<longrightarrow> blocks m2 d = blocks m1 d)"
        by (rule push_back_tail [OF h1(1,2)])
    qed
  next
    case False
    then have ne: "(of_nat (length cs) :: u64) \<noteq> of_nat cap" using u by metis
    have lc: "length cs < cap" using False B by simp
    obtain x m2 bs2 where m2: "?tail m = Ok x m2" "hdr m2 this (length (cs @ [c])) cap b off bs2"
      "str_at m2 this (cs @ [c])" "\<forall>d. d \<noteq> this \<longrightarrow> d \<noteq> b \<longrightarrow> blocks m2 d = blocks m d"
      using push_back_tail [OF h t lc] by blast
    have "push_back this c m = Ok x m2"
      using h ne m2(1) by (simp add: push_back_def hdr_str_size hdr_capacity)
    then show ?thesis
      using h m2(2,3) by (rule updates_same_ptr) (use m2(4) in blast)
  qed
qed

end
