(* ===== verification/Bstring_Replace.thy ===== *)
theory Bstring_Replace
  imports Bstring_Edit
begin

text \<open>
  Replacement, resizing, element access and the copies out of a \<^verbatim>\<open>crossbow::string\<close>. A replacement
  first overwrites the common part of the two ranges, then erases or inserts the rest, so an
  exception of the insertion leaves the overwritten part behind: the contract \<open>edits\<close> names the
  value after an exception.
\<close>

section \<open>Operations\<close>

definition replace_range :: "u64 \<Rightarrow> ptr \<Rightarrow> ptr \<Rightarrow> ptr \<Rightarrow> ptr \<Rightarrow> unit prog" where
  "replace_range this first fin first2 fin2 =
     bindM (str_begin this) (\<lambda>b.
     bindM (str_begin this) (\<lambda>cb.
     bindM (ptr_diff cb first) (\<lambda>i.
     bindM (ptr_diff first fin) (\<lambda>n1.
     bindM (ptr_diff first2 fin2) (\<lambda>n2.
     if i < 0 \<or> n1 < 0 \<or> n2 < 0 then (\<lambda>_. UB)
     else
       let b0 = ptr_add b (nat i); e = ptr_add b0 (nat n1); k = min (nat n1) (nat n2) in
       thenM (for_up k (\<lambda>j. bindM (load (ptr_add first2 j)) (\<lambda>c. store (ptr_add b0 j) c)))
       (if ptr_add b0 k \<noteq> e then thenM (erase_range this (ptr_add b0 k) e) (ret ())
        else if ptr_add first2 k \<noteq> fin2 then thenM (insert_range this e (ptr_add first2 k) fin2) (ret ())
        else ret ()))))))"

text \<open>The range of a position and a count: to the end, or shorter if the string is longer.\<close>

definition sub_range :: "u64 \<Rightarrow> u64 \<Rightarrow> u64 \<Rightarrow> (ptr \<times> ptr) prog" where
  "sub_range this pos count =
     bindM (str_begin this) (\<lambda>cb. let first = ptr_add cb (unat pos) in
     bindM (str_end this) (\<lambda>ce.
     bindM (str_size this) (\<lambda>sz.
     ret (first, if pos + count < sz then ptr_add first (unat count) else ce))))"

definition replace_str :: "u64 \<Rightarrow> u64 \<Rightarrow> u64 \<Rightarrow> u64 \<Rightarrow> unit prog" where
  "replace_str this pos count str =
     bindM (str_size this) (\<lambda>sz.
     if sz < pos then throw out_of_range
     else bindM (sub_range this pos count) (\<lambda>r.
       bindM (str_begin str) (\<lambda>sb. bindM (str_end str) (\<lambda>se.
       replace_range this (fst r) (snd r) sb se))))"

definition replace_iter_str :: "u64 \<Rightarrow> ptr \<Rightarrow> ptr \<Rightarrow> u64 \<Rightarrow> unit prog" where
  "replace_iter_str this first fin str =
     bindM (str_begin str) (\<lambda>sb. bindM (str_end str) (\<lambda>se. replace_range this first fin sb se))"

definition replace_sub :: "u64 \<Rightarrow> u64 \<Rightarrow> u64 \<Rightarrow> u64 \<Rightarrow> u64 \<Rightarrow> u64 \<Rightarrow> unit prog" where
  "replace_sub this pos count str pos2 count2 =
     bindM (str_size this) (\<lambda>sz.
     bindM (str_size str) (\<lambda>sz2.
     if sz < pos \<or> sz2 < pos2 then throw out_of_range
     else bindM (sub_range this pos count) (\<lambda>r.
       bindM (sub_range str pos2 count2) (\<lambda>r2.
       replace_range this (fst r) (snd r) (fst r2) (snd r2)))))"

text \<open>The code of this overload does not compare \<open>pos\<close> with the size.\<close>

definition replace_ptr :: "u64 \<Rightarrow> u64 \<Rightarrow> u64 \<Rightarrow> ptr \<Rightarrow> u64 \<Rightarrow> unit prog" where
  "replace_ptr this pos count cstr count2 =
     bindM (sub_range this pos count) (\<lambda>r.
     replace_range this (fst r) (snd r) cstr (ptr_add cstr (unat count2)))"

definition replace_iter_ptr :: "u64 \<Rightarrow> ptr \<Rightarrow> ptr \<Rightarrow> ptr \<Rightarrow> u64 \<Rightarrow> unit prog" where
  "replace_iter_ptr this first fin cstr count2 = replace_range this first fin cstr (ptr_add cstr (unat count2))"

definition replace_cstr :: "u64 \<Rightarrow> u64 \<Rightarrow> u64 \<Rightarrow> ptr \<Rightarrow> unit prog" where
  "replace_cstr this pos count cstr = bindM (traits_length cstr) (\<lambda>cnt. replace_ptr this pos count cstr cnt)"

definition replace_iter_cstr :: "u64 \<Rightarrow> ptr \<Rightarrow> ptr \<Rightarrow> ptr \<Rightarrow> unit prog" where
  "replace_iter_cstr this first fin cstr =
     bindM (traits_length cstr) (\<lambda>cnt. replace_iter_ptr this first fin cstr cnt)"

definition replace_iter_ilist :: "u64 \<Rightarrow> ptr \<Rightarrow> ptr \<Rightarrow> ptr \<Rightarrow> u64 \<Rightarrow> unit prog" where
  "replace_iter_ilist this first fin l n = replace_range this first fin l (ptr_add l (unat n))"

definition replace_fill :: "u64 \<Rightarrow> u64 \<Rightarrow> u64 \<Rightarrow> u64 \<Rightarrow> byte \<Rightarrow> unit prog" where
  "replace_fill this pos count count2 ch =
     bindM (str_size this) (\<lambda>sz.
     if sz < pos then throw out_of_range
     else bindM (sub_range this pos count) (\<lambda>r.
       bindM (ptr_diff (fst r) (snd r)) (\<lambda>n1.
       if n1 < 0 then (\<lambda>_. UB)
       else let k = min (unat count2) (nat n1); count2' = count2 - of_nat k; b = ptr_add (fst r) k in
         thenM (for_up k (\<lambda>j. store (ptr_add (fst r) j) ch))
         (if count2' \<noteq> 0 then thenM (insert_iter_fill this b count2' ch) (ret ())
          else if b \<noteq> snd r then thenM (erase_range this b (snd r)) (ret ())
          else ret ()))))"

definition replace_iter_fill :: "u64 \<Rightarrow> ptr \<Rightarrow> ptr \<Rightarrow> u64 \<Rightarrow> byte \<Rightarrow> unit prog" where
  "replace_iter_fill this first fin count2 ch =
     bindM (str_begin this) (\<lambda>cb.
     bindM (ptr_diff cb first) (\<lambda>i.
     bindM (ptr_diff first fin) (\<lambda>n.
     replace_fill this (of_int i) (of_int n) count2 ch)))"

definition substr :: "u64 \<Rightarrow> u64 \<Rightarrow> u64 \<Rightarrow> u64 \<Rightarrow> unit prog" where
  "substr res this pos count = ctor_substr res this pos count"

definition copy_out :: "u64 \<Rightarrow> ptr \<Rightarrow> u64 \<Rightarrow> u64 \<Rightarrow> u64 prog" where
  "copy_out this dest count pos =
     bindM (str_size this) (\<lambda>sz.
     if sz < pos then throw out_of_range
     else bindM (str_begin this) (\<lambda>b. let first = ptr_add b (unat pos) in
       bindM (str_end this) (\<lambda>e.
       bindM (ptr_diff first e) (\<lambda>n.
       let k = min (nat n) (unat count) in
       thenM (for_up k (\<lambda>i. bindM (load (ptr_add first i)) (\<lambda>c. store (ptr_add dest i) c)))
       (ret (of_nat k))))))"

definition resize_fill :: "u64 \<Rightarrow> u64 \<Rightarrow> byte \<Rightarrow> unit prog" where
  "resize_fill this count ch =
     bindM (str_size this) (\<lambda>old_size.
     thenM (reserve this count)
     (bindM (str_begin this) (\<lambda>b.
      thenM (store (ptr_add b (unat count)) 0)
      (bindM (str_end this) (\<lambda>b.
       thenM (set_size this count)
       (if count \<le> old_size then ret ()
        else bindM (str_end this) (\<lambda>e.
          bindM (ptr_diff b e) (\<lambda>n.
          if n < 0 then (\<lambda>_. UB) else for_up (nat n) (\<lambda>i. store (ptr_add b i) ch)))))))))"

definition resize :: "u64 \<Rightarrow> u64 \<Rightarrow> unit prog" where
  "resize this count = resize_fill this count 0"

text \<open>Element access returns a reference; the model returns its address, and \<open>at\<close> checks it.\<close>

definition index_ref :: "u64 \<Rightarrow> u64 \<Rightarrow> ptr prog" where
  "index_ref this pos = bindM (str_begin this) (\<lambda>b. ret (ptr_add b (unat pos)))"

definition at_ref :: "u64 \<Rightarrow> u64 \<Rightarrow> ptr prog" where
  "at_ref this pos =
     bindM (str_size this) (\<lambda>sz.
     if sz \<le> pos then throw out_of_range
     else bindM (str_begin this) (\<lambda>b. ret (ptr_add b (unat pos))))"

definition front_ref :: "u64 \<Rightarrow> ptr prog" where
  "front_ref this = str_begin this"

definition back_ref :: "u64 \<Rightarrow> ptr prog" where
  "back_ref this = bindM (str_end this) (\<lambda>e. if snd e = 0 then (\<lambda>_. UB) else ret (fst e, snd e - 1))"

definition c_str :: "u64 \<Rightarrow> ptr prog" where
  "c_str this = str_begin this"

section \<open>Replacement\<close>

definition edits :: "'a prog \<Rightarrow> mem \<Rightarrow> u64 \<Rightarrow> byte list \<Rightarrow> byte list \<Rightarrow> bool" where
  "edits f m this cs es \<longleftrightarrow> (case f m of
     Ok x m' \<Rightarrow> str_at m' this cs \<and> only_touches m this m'
   | Throw e m' \<Rightarrow> (e = length_error \<or> e = bad_alloc) \<and> growth_fails m this (length cs) \<and>
       str_at m' this es \<and> only_touches m this m'
   | UB \<Rightarrow> False)"

lemma hdr_content: "str_at m this old \<Longrightarrow> hdr m this sz cap b off bs \<Longrightarrow>
    sz = length old \<and> take (length old) (drop off bs) = old \<and> bs ! (off + length old) = 0"
  by (metis str_atE hdr_unique(1,4,5))

lemma overwrite_str:
  assumes s: "str_at m this old" and h: "hdr m this (length old) cap b off bs" and i: "i + length xs \<le> length old"
  defines "m1 \<equiv> set_block b (overwrite (off + i) xs bs) m"
  shows "hdr m1 this (length old) cap b off (overwrite (off + i) xs bs)"
    "str_at m1 this (take i old @ xs @ drop (i + length xs) old)" "only_touches m this m1"
proof -
  note B = hdr_bounds [OF h]
  let ?bs = "overwrite (off + i) xs bs" and ?new = "take i old @ xs @ drop (i + length xs) old"
  show h1: "hdr m1 this (length old) cap b off ?bs"
    unfolding m1_def using B i by (intro hdr_write [OF h]) (simp_all add: nth_overwrite)
  show "only_touches m this m1"
    by (rule only_touches_same_ptr [OF h h1]) (simp add: m1_def)
  have c: "take (length old) (drop off bs) = old" "bs ! (off + length old) = 0"
    using hdr_content [OF s h] by simp_all
  have ln: "length ?new = length old" using i by simp
  have o: "bs ! (off + k) = old ! k" if "k < length old" for k
    using that arg_cong [OF c(1), of "\<lambda>l. l ! k"] B by simp
  have lb: "length ?bs = length bs" using B i by simp
  have "take (length old) (drop off ?bs) = ?new"
  proof (rule nth_equalityI)
    show "length (take (length old) (drop off ?bs)) = length ?new" using B lb ln by simp
    fix k
    assume "k < length (take (length old) (drop off ?bs))"
    then have k: "k < length old" by simp
    then have "take (length old) (drop off ?bs) ! k = ?bs ! (off + k)" using lb B by simp
    also have "\<dots> = ?new ! k"
      using k B i o [OF k] by (auto simp: nth_overwrite nth_append min_def)
    finally show "take (length old) (drop off ?bs) ! k = ?new ! k" .
  qed
  moreover have "?bs ! (off + length old) = 0" using c B i by (simp add: nth_overwrite)
  ultimately show "str_at m1 this ?new"
    using h1 str_atI [of m1 this ?new cap b off ?bs] unfolding ln by simp
qed

lemma growth_fails_set_block:
  assumes h: "hdr m this sz cap b off bs" and h1: "hdr (set_block b bs' m) this sz' cap b off bs'"
  shows "growth_fails (set_block b bs' m) this n = growth_fails m this n"
proof -
  have "dom (blocks (set_block b bs' m)) = dom (blocks m)"
    using hdr_bounds(1) [OF h] by (auto simp: domIff split: if_splits)
  then have "heap_ready (set_block b bs' m) k = heap_ready m k" for k by (rule heap_ready_cong) simp_all
  then show ?thesis
    using hdr_capacity [OF h] hdr_capacity [OF h1] by (auto simp: growth_fails_def)
qed

lemma edits_thenM_ret:
  assumes "updates f m1 this cs" "str_at m1 this es" "only_touches m this m1" "g m = thenM f (ret ()) m1"
    and gf: "\<And>n. growth_fails m1 this n = growth_fails m this n"
  shows "edits g m this cs es"
proof (cases "f m1")
  case (Ok x m')
  then have "str_at m' this cs" "only_touches m1 this m'" using assms(1) by (simp_all add: updates_def)
  then show ?thesis
    using Ok assms(4) only_touches_trans [OF assms(3), of m'] by (simp add: edits_def)
next
  case (Throw e m')
  then have e: "e = length_error \<or> e = bad_alloc" "growth_fails m this (length cs)" and b: "blocks m' = blocks m1"
    using assms(1) gf by (simp_all add: updates_def)
  have "str_at m' this es" "only_touches m1 this m'"
    using assms(2) str_at_blocks_cong(1) [OF b] only_touches_refl [OF b str_at_owned [OF assms(2)]] by simp_all
  then show ?thesis
    using Throw e assms(4) only_touches_trans [OF assms(3), of m'] by (simp add: edits_def)
next
  case UB
  then show ?thesis using assms(1) by (simp add: updates_def)
qed

lemma replace_range_edits:
  assumes s: "str_at m this old" and h: "hdr m this (length old) cap b off bs" and ij: "i \<le> j" "j \<le> length old"
    and n: "length old + length cs < 2 ^ 64" and r: "reads m (b1, o1) cs" "b1 \<notin> owned m this"
  shows "edits (replace_range this (b, off + i) (b, off + j) (b1, o1) (b1, o1 + length cs)) m this
    (take i old @ cs @ drop j old) (take i old @ take (j - i) cs @ drop j old)"
    (is "edits ?f m this ?new ?es")
proof -
  note B = hdr_bounds [OF h]
  define k where "k = min (j - i) (length cs)"
  let ?xs = "take k cs" and ?bs = "overwrite (off + i) (take k cs) bs"
  have lx: "length ?xs = k" by (simp add: k_def)
  let ?m1 = "set_block b ?bs m"
  let ?old1 = "take i old @ ?xs @ drop (i + length ?xs) old"
  have "i + length ?xs \<le> length old" using ij lx by (simp add: k_def)
  note O = overwrite_str [OF s h this]
  have nb: "b1 \<noteq> b" using r(2) B(6) by auto
  have r': "reads m (b1, o1) (?xs @ drop k cs)" using r(1) by simp
  have r1: "reads m (b1, o1) ?xs" "reads ?m1 (b1, o1 + k) (drop k cs)"
    using r' nb unfolding reads_append lx by (auto simp: reads_def ptr_add_def)
  have cp: "copy_chars (b1, o1) k (b, off + i) m = Ok () ?m1"
    using copy_reads [OF r1(1), of "(b, off + i)" bs] B nb ij by (simp add: lx k_def)
  have o1: "length ?old1 = length old" using ij by (simp add: k_def)
  have h1: "hdr ?m1 this (length ?old1) cap b off ?bs" using O(1) o1 by simp
  obtain d where d: "j = i + d" using ij by (auto simp: le_iff_add)
  have kd: "k = min d (length cs)" by (simp add: k_def d)
  have run: "?f m = (if k \<noteq> d then thenM (erase_range this (b, off + (i + k)) (b, off + j)) (ret ())
        else if k \<noteq> length cs then thenM (insert_range this (b, off + j) (b1, o1 + k) (b1, o1 + length cs)) (ret ())
        else ret ()) ?m1"
    using h cp [unfolded copy_chars_def] unfolding d
    by (simp add: replace_range_def hdr_str_begin ptr_diff_def ptr_add_def Let_def kd [symmetric] add.assoc)
  consider (erase) "k < j - i" | (insert) "k = j - i" "k < length cs" | (same) "k = j - i" "k = length cs"
    unfolding k_def by linarith
  then show ?thesis
  proof cases
    case erase
    then have kc: "k = length cs" by (simp add: k_def)
    have "updates (erase_range this (b, off + (i + k)) (b, off + j)) ?m1 this (take (i + k) ?old1 @ drop j ?old1)"
    proof (rule erase_range_updates [OF O(2) h1])
      show "i + k \<le> j" using erase by simp
      show "j \<le> length ?old1" unfolding o1 by (rule ij)
    qed
    moreover have "take (i + k) ?old1 @ drop j ?old1 = ?new"
      using erase ij kc by simp
    moreover have "?f m = thenM (erase_range this (b, off + (i + k)) (b, off + j)) (ret ()) ?m1" using run erase d by simp
    ultimately have "edits ?f m this ?new ?old1"
      using edits_thenM_ret [OF _ O(2,3) _ growth_fails_set_block [OF h h1]] by simp
    moreover obtain p m' where "erase_range this (b, off + (i + k)) (b, off + j) ?m1 = Ok p m'"
    proof (rule erase_range_ok [OF O(2) h1])
      show "i + k \<le> j" using erase by simp
      show "j \<le> length ?old1" unfolding o1 by (rule ij)
    qed
    ultimately show ?thesis using run erase d by (simp add: edits_def)
  next
    case insert
    have "updates (insert_range this (b, off + j) (b1, o1 + k) (b1, o1 + k + length (drop k cs))) ?m1 this
        (take j ?old1 @ drop k cs @ drop j ?old1)"
    proof (rule insert_range_updates [OF O(2) h1 _ _ r1(2)])
      show "j \<le> length ?old1" using ij o1 by simp
      show "length ?old1 + length (drop k cs) < 2 ^ 64" using n o1 by simp
      show "b1 \<notin> owned ?m1 this" using r(2) B(6) hdr_bounds(6) [OF h1] by simp
    qed
    moreover have "take j ?old1 @ drop k cs @ drop j ?old1 = ?new" "?old1 = ?es"
      using insert ij by simp_all
    moreover have "?f m = thenM (insert_range this (b, off + j) (b1, o1 + k) (b1, o1 + length cs)) (ret ()) ?m1"
      using run insert d by simp
    ultimately show ?thesis
      using edits_thenM_ret [OF _ O(2,3) _ growth_fails_set_block [OF h h1]] insert by simp
  next
    case same
    then show ?thesis
      using run O(2,3) ij d by (simp add: edits_def)
  qed
qed


lemma sub_range_Ok:
  assumes h: "hdr m this sz cap b off bs" and p: "unat pos \<le> sz" and nw: "unat pos + unat count < 2 ^ 64"
  shows "sub_range this pos count m = Ok ((b, off + unat pos), (b, off + min sz (unat pos + unat count))) m"
proof -
  have "(pos + count < of_nat sz) = (unat pos + unat count < sz)"
    using nw hdr_unat(1) [OF h] by (simp add: word_less_nat_alt unat_add_no_wrap)
  then show ?thesis
    using h by (simp add: sub_range_def hdr_str_begin hdr_str_end hdr_str_size ptr_add_def min_def add.assoc Let_def)
qed

lemma replace_ptr_edits:
  assumes s: "str_at m this old" and p: "unat pos \<le> length old" "unat pos + unat count < 2 ^ 64"
    and n: "length old + length cs < 2 ^ 64" and r: "reads m q cs" "fst q \<notin> owned m this"
  defines "j \<equiv> min (length old) (unat pos + unat count)"
  shows "edits (replace_ptr this pos count q (of_nat (length cs))) m this
    (take (unat pos) old @ cs @ drop j old) (take (unat pos) old @ take (j - unat pos) cs @ drop j old)"
proof -
  obtain cap b off bs where h: "hdr m this (length old) cap b off bs" using s by (rule str_atE)
  have "replace_ptr this pos count q (of_nat (length cs)) m =
      replace_range this (b, off + unat pos) (b, off + j) (fst q, snd q) (fst q, snd q + length cs) m"
    using sub_range_Ok [OF h p] n by (simp add: replace_ptr_def ptr_add_def unat_of_nat_u64 j_def)
  moreover have "unat pos \<le> j" "j \<le> length old" using p by (simp_all add: j_def)
  ultimately show ?thesis
    using replace_range_edits [OF s h _ _ n, of "unat pos" j "fst q" "snd q"] r by (simp add: edits_def)
qed

lemma replace_cstr_edits:
  assumes s: "str_at m this old" and p: "unat pos \<le> length old" "unat pos + unat count < 2 ^ 64"
    and n: "length old + length cs < 2 ^ 64" and r: "cstr_at m q cs" "fst q \<notin> owned m this"
  defines "j \<equiv> min (length old) (unat pos + unat count)"
  shows "edits (replace_cstr this pos count q) m this
    (take (unat pos) old @ cs @ drop j old) (take (unat pos) old @ take (j - unat pos) cs @ drop j old)"
  using replace_ptr_edits [OF s p n cstr_at_reads [OF r(1)] r(2)] r(1)
  unfolding j_def by (simp add: edits_def replace_cstr_def traits_length_cstr)

lemma replace_sub_edits:
  assumes s: "str_at m this old" and p: "unat pos \<le> length old" "unat pos + unat count < 2 ^ 64"
    and o: "str_at m str cs" "owned m str \<inter> owned m this = {}"
    and p2: "unat pos2 \<le> length cs" "unat pos2 + unat count2 < 2 ^ 64"
  defines "j \<equiv> min (length old) (unat pos + unat count)" and "xs \<equiv> take (unat count2) (drop (unat pos2) cs)"
  shows "edits (replace_sub this pos count str pos2 count2) m this
    (take (unat pos) old @ xs @ drop j old) (take (unat pos) old @ take (j - unat pos) xs @ drop j old)"
proof -
  obtain cap b off bs where h: "hdr m this (length old) cap b off bs" using s by (rule str_atE)
  obtain cap2 b2 off2 bs2 where h2: "hdr m str (length cs) cap2 b2 off2 bs2" and c: "take (length cs) (drop off2 bs2) = cs"
    using o(1) by (rule str_atE)
  have le: "\<not> of_nat (length old) < pos" "\<not> of_nat (length cs) < pos2"
    using p p2 hdr_unat(1) [OF h] hdr_unat(1) [OF h2] by (simp_all add: word_less_nat_alt)
  have "min (length cs) (unat pos2 + unat count2) = unat pos2 + length xs"
    using p2 by (auto simp: xs_def)
  then have "replace_sub this pos count str pos2 count2 m =
      replace_range this (b, off + unat pos) (b, off + j) (b2, off2 + unat pos2) (b2, off2 + unat pos2 + length xs) m"
    using h h2 sub_range_Ok [OF h p] sub_range_Ok [OF h2 p2] le
    by (simp add: replace_sub_def hdr_str_size j_def add.assoc)
  moreover have "unat pos \<le> j" "j \<le> length old" using p by (simp_all add: j_def)
  moreover have "length old + length xs < 2 ^ 64"
    using str_at_length [OF s] str_at_length [OF o(1)] by (simp add: xs_def)
  moreover have "reads m (b2, off2 + unat pos2) xs" unfolding xs_def by (rule str_at_sub_reads [OF h2 c p2(1)])
  moreover have "b2 \<notin> owned m this" using o(2) hdr_bounds(6) [OF h2] by auto
  ultimately show ?thesis
    using replace_range_edits [OF s h, of "unat pos" j xs b2 "off2 + unat pos2"] by (simp add: edits_def)
qed

lemma replace_str_edits:
  assumes s: "str_at m this old" and p: "unat pos \<le> length old" "unat pos + unat count < 2 ^ 64"
    and o: "str_at m str cs" "owned m str \<inter> owned m this = {}"
  defines "j \<equiv> min (length old) (unat pos + unat count)"
  shows "edits (replace_str this pos count str) m this
    (take (unat pos) old @ cs @ drop j old) (take (unat pos) old @ take (j - unat pos) cs @ drop j old)"
proof -
  obtain cap b off bs where h: "hdr m this (length old) cap b off bs" using s by (rule str_atE)
  obtain cap2 b2 off2 bs2 where h2: "hdr m str (length cs) cap2 b2 off2 bs2" and c: "take (length cs) (drop off2 bs2) = cs"
    using o(1) by (rule str_atE)
  have le: "\<not> of_nat (length old) < pos"
    using p hdr_unat(1) [OF h] by (simp add: word_less_nat_alt)
  have "replace_str this pos count str m =
      replace_range this (b, off + unat pos) (b, off + j) (b2, off2) (b2, off2 + length cs) m"
    using h h2 sub_range_Ok [OF h p] le
    by (simp add: replace_str_def hdr_str_size hdr_str_begin hdr_str_end j_def)
  moreover have "unat pos \<le> j" "j \<le> length old" using p by (simp_all add: j_def)
  moreover have "length old + length cs < 2 ^ 64"
    using str_at_length [OF s] str_at_length [OF o(1)] by simp
  moreover have "b2 \<notin> owned m this" using o(2) hdr_bounds(6) [OF h2] by auto
  ultimately show ?thesis
    using replace_range_edits [OF s h, of "unat pos" j cs b2 off2] str_at_reads [OF h2 c] by (simp add: edits_def)
qed

section \<open>Resize, copies out, element access\<close>

lemma nth_drop_eq: "drop off xs = drop off ys \<Longrightarrow> off + k < length xs \<Longrightarrow> length xs = length ys \<Longrightarrow> xs ! (off + k) = ys ! (off + k)"
  by (metis nth_drop add_leD1 less_imp_le_nat)

lemma resize_content:
  fixes c :: byte
  assumes old: "take (length old) (drop off bs) = old" and l: "off + n < length bs" "off + length old < length bs"
    and bs2: "drop off bs2 = drop off (bs[off + n := 0])" "length bs2 = length bs"
  defines "bs3 \<equiv> overwrite (off + length old) (replicate (n - length old) c) bs2"
  shows "take n (drop off bs3) = take n old @ replicate (n - length old) c" "bs3 ! (off + n) = 0" "length bs3 = length bs"
    "\<And>i. i < off \<Longrightarrow> bs3 ! i = bs2 ! i"
proof -
  show l3: "length bs3 = length bs" using l bs2(2) by (cases "n \<le> length old") (simp_all add: bs3_def)
  have n3: "bs3 ! i = (if off + length old \<le> i \<and> i < off + n then c else bs2 ! i)" if "i < length bs" for i
    using that l bs2(2) by (cases "n \<le> length old") (auto simp: bs3_def nth_overwrite)
  have o: "bs ! (off + k) = old ! k" if "k < length old" for k
    using that arg_cong [OF old, of "\<lambda>l. l ! k"] l by simp
  have n2: "bs2 ! (off + k) = (if k = n then 0 else bs ! (off + k))" if "off + k < length bs" for k
    using nth_drop_eq [OF bs2(1), of k] that bs2(2) by (simp add: nth_list_update)
  show "bs3 ! (off + n) = 0" using n3 [OF l(1)] n2 [OF l(1)] by simp
  show "\<And>i. i < off \<Longrightarrow> bs3 ! i = bs2 ! i" using n3 l by simp
  show "take n (drop off bs3) = take n old @ replicate (n - length old) c"
  proof (rule nth_equalityI)
    show "length (take n (drop off bs3)) = length (take n old @ replicate (n - length old) c)" using l l3 by simp
    fix k
    assume "k < length (take n (drop off bs3))"
    then have k: "k < n" by simp
    then have "take n (drop off bs3) ! k = bs3 ! (off + k)" using l l3 by simp
    also have "\<dots> = (take n old @ replicate (n - length old) c) ! k"
      using k l n3 [of "off + k"] n2 [of k] o [of k] by (auto simp: nth_append min_def)
    finally show "take n (drop off bs3) ! k = (take n old @ replicate (n - length old) c) ! k" .
  qed
qed

lemma resize_tail:
  fixes c :: byte
  assumes h: "hdr m1 this (length old) cap b off bs" "take (length old) (drop off bs) = old" "n \<le> cap"
  defines "new \<equiv> take n old @ replicate (n - length old) c"
  shows "\<exists>x m3 bs3. bindM (str_begin this) (\<lambda>b. thenM (store (ptr_add b n) 0) (bindM (str_end this) (\<lambda>b.
       thenM (set_size this (of_nat n))
       (if (of_nat n :: u64) \<le> of_nat (length old) then ret ()
        else bindM (str_end this) (\<lambda>e. bindM (ptr_diff b e) (\<lambda>n.
          if n < 0 then (\<lambda>_. UB) else for_up (nat n) (\<lambda>i. store (ptr_add b i) c))))))) m1 = Ok x m3 \<and>
     hdr m3 this (length new) cap b off bs3 \<and> str_at m3 this new \<and>
     (\<forall>c. c \<noteq> this \<longrightarrow> c \<noteq> b \<longrightarrow> blocks m3 c = blocks m1 c)" (is "\<exists>x m3 bs3. ?g m1 = _ \<and> _")
proof -
  note B = hdr_bounds [OF h(1)]
  let ?sz = "length old" and ?bs = "bs[off + n := 0]"
  have u: "unat (of_nat ?sz :: u64) = ?sz" "unat (of_nat n :: u64) = n"
    using hdr_unat(1) [OF h(1)] B h(3) by (simp_all add: unat_of_nat_u64)
  have h1: "hdr (set_block b ?bs m1) this ?sz cap b off ?bs" using hdr_write [OF h(1), of ?bs] by simp
  obtain m2 bs2 where m2: "set_size this (of_nat n) (set_block b ?bs m1) = Ok () m2" "hdr m2 this n cap b off bs2"
    "length bs2 = length bs" "drop off bs2 = drop off ?bs" "\<And>c. c \<noteq> this \<Longrightarrow> blocks m2 c = blocks (set_block b ?bs m1) c"
    using hdr_set_size [OF h1, of "of_nat n"] h(3) u by (metis length_list_update)
  let ?b3 = "overwrite (off + ?sz) (replicate (n - ?sz) c) bs2"
  let ?m3 = "set_block b ?b3 m2"
  have l: "off + n < length bs" "off + ?sz < length bs" using B h(3) by simp_all
  note C = resize_content [where c = c, OF h(2) l m2(4,3)]
  have h3: "hdr ?m3 this n cap b off ?b3"
    using hdr_write [OF m2(2), of ?b3] C(3,4) m2(3) by simp
  have B2: "blocks m2 b = Some bs2" using hdr_bounds(1) [OF m2(2)] .
  have "?g m1 = Ok () ?m3"
  proof (cases "n \<le> ?sz")
    case True
    then have "?m3 = m2" using set_block_same [OF B2] by simp
    then show ?thesis
      using True h(1) B l h1 m2(1) u by (simp add: hdr_str_begin hdr_str_end store_Ok word_le_nat_alt)
  next
    case False
    have fl: "for_up (n - ?sz) (\<lambda>i. store (ptr_add (b, off + ?sz) i) c) m2 = Ok () ?m3"
      using fill_loop [of m2 "(b, off + ?sz)" bs2 "n - ?sz" c] False l m2(3) B2 by simp
    have d: "nat (int n - int ?sz) = n - ?sz" by simp
    show ?thesis
      using False h(1) B l h1 m2(1,2) u fl
      by (simp add: hdr_str_begin hdr_str_end store_Ok word_le_nat_alt ptr_diff_def d)
  qed
  moreover have ln: "length new = n" by (simp add: new_def)
  moreover have "str_at ?m3 this new"
  proof (rule str_atI)
    show "hdr ?m3 this (length new) cap b off ?b3" unfolding ln by (rule h3)
    show "take (length new) (drop off ?b3) = new" unfolding ln using C(1) by (simp only: new_def)
    show "?b3 ! (off + length new) = 0" unfolding ln by (rule C(2))
  qed
  ultimately show ?thesis
    using h3 m2(5) by (intro exI [of _ "()"] exI [of _ ?m3] exI [of _ ?b3]) simp
qed

lemma resize_updates:
  assumes s: "str_at m this old"
  shows "updates (resize_fill this count c) m this
    (take (unat count) old @ replicate (unat count - length old) c)"
proof -
  obtain cap0 b0 off0 bs0 where h0: "hdr m this (length old) cap0 b0 off0 bs0" using s by (rule str_atE)
  show ?thesis
  proof (rule updates_reserve [OF s, where n = count])
    let ?g = "bindM (str_begin this) (\<lambda>b. thenM (store (ptr_add b (unat count)) 0) (bindM (str_end this) (\<lambda>b.
       thenM (set_size this (of_nat (unat count)))
       (if (of_nat (unat count) :: u64) \<le> of_nat (length old) then ret ()
        else bindM (str_end this) (\<lambda>e. bindM (ptr_diff b e) (\<lambda>n.
          if n < 0 then (\<lambda>_. UB) else for_up (nat n) (\<lambda>i. store (ptr_add b i) c)))))))"
    show "unat count = length (take (unat count) old @ replicate (unat count - length old) c)" by simp
    show "resize_fill this count c m = thenM (reserve this count) ?g m"
      using h0 by (simp add: resize_fill_def hdr_str_size)
    fix m1 cap b off bs
    assume h: "hdr m1 this (length old) cap b off bs" "take (length old) (drop off bs) = old" "unat count \<le> cap"
    let ?new = "take (unat count) old @ replicate (unat count - length old) c"
    show "\<exists>x m2 bs2. ?g m1 = Ok x m2 \<and> hdr m2 this (length ?new) cap b off bs2 \<and> str_at m2 this ?new \<and>
        (\<forall>c. c \<noteq> this \<longrightarrow> c \<noteq> b \<longrightarrow> blocks m2 c = blocks m1 c)"
      by (rule resize_tail [OF h])
  qed
qed

lemma at_ref_spec:
  assumes s: "str_at m this cs"
  shows "unat pos < length cs \<Longrightarrow> bindM (at_ref this pos) load m = Ok (cs ! unat pos) m"
    "length cs \<le> unat pos \<Longrightarrow> at_ref this pos m = Throw out_of_range m"
proof -
  obtain cap b off bs where h: "hdr m this (length cs) cap b off bs" and c: "take (length cs) (drop off bs) = cs"
    using s by (rule str_atE)
  note B = hdr_bounds [OF h]
  show "bindM (at_ref this pos) load m = Ok (cs ! unat pos) m" if "unat pos < length cs"
    using that h B hdr_unat(1) [OF h] arg_cong [OF c, of "\<lambda>l. l ! unat pos"]
    by (simp add: at_ref_def hdr_str_size hdr_str_begin word_le_nat_alt load_Ok)
  show "at_ref this pos m = Throw out_of_range m" if "length cs \<le> unat pos"
    using that h hdr_unat(1) [OF h] by (simp add: at_ref_def hdr_str_size word_le_nat_alt)
qed

lemma copy_out_spec:
  assumes s: "str_at m this cs" and d: "blocks m db = Some ds" "db \<notin> owned m this"
    and p: "unat pos \<le> length cs" and l: "do + unat count \<le> length ds"
  defines "xs \<equiv> take (unat count) (drop (unat pos) cs)"
  shows "copy_out this (db, do) count pos m =
    Ok (of_nat (length xs)) (set_block db (overwrite do xs ds) m)"
proof -
  obtain cap b off bs where h: "hdr m this (length cs) cap b off bs" and c: "take (length cs) (drop off bs) = cs"
    using s by (rule str_atE)
  have r: "reads m (b, off + unat pos) xs" unfolding xs_def by (rule str_at_sub_reads [OF h c p])
  have k: "min (nat (int (length cs) - int (unat pos))) (unat count) = length xs"
    using p by (simp add: xs_def nat_diff_distrib' min.commute)
  have ne: "b \<noteq> db" using d(2) hdr_bounds(6) [OF h] by auto
  have "copy_chars (b, off + unat pos) (length xs) (db, do) m = Ok () (set_block db (overwrite do xs ds) m)"
    using copy_reads [OF r, of "(db, do)" ds] d(1) l ne by (simp add: xs_def)
  then show ?thesis
    using h p hdr_unat(1) [OF h] k
    by (simp add: copy_out_def copy_chars_def hdr_str_size hdr_str_begin hdr_str_end word_less_nat_alt ptr_diff_def
        ptr_add_def Let_def)
qed

end
