(* ===== verification/Bstring_Search.thy ===== *)
theory Bstring_Search
  imports Bstring_Replace
begin

text \<open>
  The searches of \<^verbatim>\<open>crossbow::string\<close>. Their loops read characters through pointers and write
  nothing. \<open>chars_from p\<close> is the rest of the object from \<open>p\<close> on; a loop that reads past it is
  undefined behaviour, the value \<open>None\<close> of the loop functions.
\<close>

section \<open>Loops\<close>

definition chars_from :: "ptr \<Rightarrow> byte list prog" where
  "chars_from p m = (case blocks m (fst p) of None \<Rightarrow> UB
     | Some bs \<Rightarrow> if snd p \<le> length bs then Ok (drop (snd p) bs) m else UB)"

definition lift_UB :: "'a option \<Rightarrow> 'a prog" where
  "lift_UB x m = (case x of None \<Rightarrow> UB | Some v \<Rightarrow> Ok v m)"

text \<open>\<^verbatim>\<open>while (matches < count && *iterA == *iterB)\<close>: the number of matches.\<close>

fun match_len :: "nat \<Rightarrow> byte list \<Rightarrow> byte list \<Rightarrow> nat option" where
  "match_len 0 as bs = Some 0"
| "match_len (Suc n) (a # as) (b # bs) = (if a = b then map_option Suc (match_len n as bs) else Some 0)"
| "match_len (Suc n) as bs = None"

text \<open>
  The outer loop of \<^verbatim>\<open>find\<close>: \<open>bs\<close> are the characters from \<^verbatim>\<open>_begin\<close> on and \<open>d\<close> is \<^verbatim>\<open>_end - _begin\<close>.
\<close>

fun find_loop :: "nat \<Rightarrow> byte list \<Rightarrow> byte list \<Rightarrow> int \<Rightarrow> u64 \<Rightarrow> u64 option" where
  "find_loop count s bs d res =
     (if int count = d then Some npos
      else case match_len count s bs of None \<Rightarrow> None
        | Some k \<Rightarrow> if k = count then Some res
            else (case bs of [] \<Rightarrow> None | b # bs' \<Rightarrow> find_loop count s bs' (d - 1) (res + 1)))"

text \<open>The loop of \<^verbatim>\<open>rfind\<close>: \<open>k\<close> iterators are left, the next one is at index \<open>k - 1\<close>.\<close>

fun rfind_loop :: "nat \<Rightarrow> byte list \<Rightarrow> byte list \<Rightarrow> nat \<Rightarrow> u64 option" where
  "rfind_loop count s bs 0 = Some npos"
| "rfind_loop count s bs (Suc k) =
     (case match_len count s (drop k bs) of None \<Rightarrow> None
      | Some n \<Rightarrow> if n = count then Some (of_nat k) else rfind_loop count s bs k)"

text \<open>The inner loops of the \<^verbatim>\<open>find_..._of\<close> searches: is the character among the first \<open>count\<close>?\<close>

fun any_of :: "nat \<Rightarrow> byte list \<Rightarrow> byte \<Rightarrow> bool option" where
  "any_of 0 s c = Some False"
| "any_of (Suc n) (a # s) c = (if c = a then Some True else any_of n s c)"
| "any_of (Suc n) [] c = None"

text \<open>Forward scan of the \<open>n\<close> characters up to \<^verbatim>\<open>end()\<close> for one that \<open>P\<close> accepts.\<close>

fun scan_up :: "(byte \<Rightarrow> bool option) \<Rightarrow> nat \<Rightarrow> byte list \<Rightarrow> u64 \<Rightarrow> u64 option" where
  "scan_up P 0 bs i = Some npos"
| "scan_up P (Suc n) [] i = None"
| "scan_up P (Suc n) (b # bs) i = (case P b of None \<Rightarrow> None
     | Some True \<Rightarrow> Some i | Some False \<Rightarrow> scan_up P n bs (i + 1))"

text \<open>Backward scan from index \<open>k - 1\<close> down to \<^verbatim>\<open>begin()\<close>.\<close>

fun scan_down :: "(byte \<Rightarrow> bool option) \<Rightarrow> byte list \<Rightarrow> nat \<Rightarrow> u64 option" where
  "scan_down P bs 0 = Some npos"
| "scan_down P bs (Suc k) = (if k < length bs then (case P (bs ! k) of None \<Rightarrow> None
     | Some True \<Rightarrow> Some (of_nat k) | Some False \<Rightarrow> scan_down P bs k) else None)"

section \<open>Searches\<close>

definition find_ptr :: "u64 \<Rightarrow> ptr \<Rightarrow> u64 \<Rightarrow> u64 \<Rightarrow> u64 prog" where
  "find_ptr this s pos count =
     bindM (str_size this) (\<lambda>sz.
     if sz \<le> pos then ret npos
     else bindM (str_begin this) (\<lambda>b.
       bindM (chars_from (ptr_add b (unat pos))) (\<lambda>bs.
       bindM (chars_from s) (\<lambda>ss.
       lift_UB (find_loop (unat count) ss bs (int (unat sz) - int (unat pos)) pos)))))"

definition find_cstr :: "u64 \<Rightarrow> ptr \<Rightarrow> u64 \<Rightarrow> u64 prog" where
  "find_cstr this s pos = bindM (traits_length s) (\<lambda>n. find_ptr this s pos n)"

definition find_str :: "u64 \<Rightarrow> u64 \<Rightarrow> u64 \<Rightarrow> u64 prog" where
  "find_str this str pos = bindM (c_str str) (\<lambda>s. bindM (str_size str) (\<lambda>n. find_ptr this s pos n))"

text \<open>\<^verbatim>\<open>traits_type::find\<close> is the forward scan for one character.\<close>

definition find_char :: "u64 \<Rightarrow> byte \<Rightarrow> u64 \<Rightarrow> u64 prog" where
  "find_char this ch pos =
     bindM (str_size this) (\<lambda>sz.
     if sz \<le> pos then ret npos
     else bindM (c_str this) (\<lambda>p.
       bindM (chars_from (ptr_add p (unat pos))) (\<lambda>bs.
       lift_UB (scan_up (\<lambda>c. Some (c = ch)) (unat (sz - pos)) bs pos))))"

definition rfind_ptr :: "u64 \<Rightarrow> ptr \<Rightarrow> u64 \<Rightarrow> u64 \<Rightarrow> u64 prog" where
  "rfind_ptr this s pos0 count =
     bindM (str_size this) (\<lambda>sz.
     let pos = (if sz \<le> pos0 then sz else pos0) in
     bindM (str_begin this) (\<lambda>b.
     if sz < count then ret npos
     else bindM (chars_from b) (\<lambda>bs.
       bindM (chars_from s) (\<lambda>ss.
       lift_UB (rfind_loop (unat count) ss bs (unat pos + 1))))))"

definition rfind_str :: "u64 \<Rightarrow> u64 \<Rightarrow> u64 \<Rightarrow> u64 prog" where
  "rfind_str this str pos = bindM (c_str str) (\<lambda>s. bindM (str_size str) (\<lambda>n. rfind_ptr this s pos n))"

definition rfind_cstr :: "u64 \<Rightarrow> ptr \<Rightarrow> u64 \<Rightarrow> u64 prog" where
  "rfind_cstr this s pos = bindM (traits_length s) (\<lambda>n. rfind_ptr this s pos n)"

text \<open>The character argument is a local object of one byte, here at \<open>chp\<close>.\<close>

definition rfind_char :: "u64 \<Rightarrow> ptr \<Rightarrow> u64 \<Rightarrow> u64 prog" where
  "rfind_char this chp pos = rfind_ptr this chp pos 1"

definition find_first_of_ptr :: "u64 \<Rightarrow> ptr \<Rightarrow> u64 \<Rightarrow> u64 \<Rightarrow> u64 prog" where
  "find_first_of_ptr this s pos count =
     bindM (str_size this) (\<lambda>sz.
     if sz \<le> pos then ret npos
     else bindM (str_begin this) (\<lambda>b.
       bindM (chars_from (ptr_add b (unat pos))) (\<lambda>bs.
       bindM (chars_from s) (\<lambda>ss.
       lift_UB (scan_up (any_of (unat count) ss) (unat (sz - pos)) bs pos)))))"

definition find_first_of_str :: "u64 \<Rightarrow> u64 \<Rightarrow> u64 \<Rightarrow> u64 prog" where
  "find_first_of_str this str pos =
     bindM (c_str str) (\<lambda>s. bindM (str_size str) (\<lambda>n. find_first_of_ptr this s pos n))"

definition find_first_of_cstr :: "u64 \<Rightarrow> ptr \<Rightarrow> u64 \<Rightarrow> u64 prog" where
  "find_first_of_cstr this s pos = bindM (traits_length s) (\<lambda>n. find_first_of_ptr this s pos n)"

definition find_first_of_char :: "u64 \<Rightarrow> byte \<Rightarrow> u64 \<Rightarrow> u64 prog" where
  "find_first_of_char this ch pos =
     bindM (str_size this) (\<lambda>sz.
     if sz \<le> pos then ret npos
     else bindM (str_begin this) (\<lambda>b.
       bindM (chars_from (ptr_add b (unat pos))) (\<lambda>bs.
       lift_UB (scan_up (\<lambda>c. Some (c = ch)) (unat (sz - pos)) bs pos))))"

definition find_first_not_of_ptr :: "u64 \<Rightarrow> ptr \<Rightarrow> u64 \<Rightarrow> u64 \<Rightarrow> u64 prog" where
  "find_first_not_of_ptr this s pos count =
     bindM (str_size this) (\<lambda>sz.
     if sz \<le> pos then ret npos
     else bindM (str_begin this) (\<lambda>b.
       bindM (chars_from (ptr_add b (unat pos))) (\<lambda>bs.
       bindM (chars_from s) (\<lambda>ss.
       lift_UB (scan_up (\<lambda>c. map_option Not (any_of (unat count) ss c)) (unat (sz - pos)) bs pos)))))"

definition find_first_not_of_str :: "u64 \<Rightarrow> u64 \<Rightarrow> u64 \<Rightarrow> u64 prog" where
  "find_first_not_of_str this str pos =
     bindM (c_str str) (\<lambda>s. bindM (str_size str) (\<lambda>n. find_first_not_of_ptr this s pos n))"

definition find_first_not_of_char :: "u64 \<Rightarrow> byte \<Rightarrow> u64 \<Rightarrow> u64 prog" where
  "find_first_not_of_char this ch pos =
     bindM (str_size this) (\<lambda>sz.
     if sz \<le> pos then ret npos
     else bindM (str_begin this) (\<lambda>b.
       bindM (chars_from (ptr_add b (unat pos))) (\<lambda>bs.
       lift_UB (scan_up (\<lambda>c. Some (c \<noteq> ch)) (unat (sz - pos)) bs pos))))"

text \<open>
  The backward searches start at \<^verbatim>\<open>end() - 1 - pos\<close>, or at \<^verbatim>\<open>end() - 1\<close> for a \<open>pos\<close> beyond the
  string, and stop at \<^verbatim>\<open>begin() - 1\<close>.
\<close>

definition find_last_of_ptr :: "u64 \<Rightarrow> ptr \<Rightarrow> u64 \<Rightarrow> u64 \<Rightarrow> u64 prog" where
  "find_last_of_ptr this s pos count =
     bindM (str_size this) (\<lambda>sz.
     bindM (str_begin this) (\<lambda>b.
     bindM (chars_from b) (\<lambda>bs.
     bindM (chars_from s) (\<lambda>ss.
     lift_UB (scan_down (any_of (unat count) ss) bs (unat sz - (if sz \<le> pos then 0 else unat pos)))))))"

definition find_last_of_str :: "u64 \<Rightarrow> u64 \<Rightarrow> u64 \<Rightarrow> u64 prog" where
  "find_last_of_str this str pos =
     bindM (c_str str) (\<lambda>s. bindM (str_size str) (\<lambda>n. find_last_of_ptr this s pos n))"

definition find_last_of_char :: "u64 \<Rightarrow> ptr \<Rightarrow> u64 \<Rightarrow> u64 prog" where
  "find_last_of_char this chp pos = find_last_of_ptr this chp pos 1"

definition find_last_not_of_ptr :: "u64 \<Rightarrow> ptr \<Rightarrow> u64 \<Rightarrow> u64 \<Rightarrow> u64 prog" where
  "find_last_not_of_ptr this s pos count =
     bindM (str_size this) (\<lambda>sz.
     bindM (str_begin this) (\<lambda>b.
     bindM (chars_from b) (\<lambda>bs.
     bindM (chars_from s) (\<lambda>ss.
     lift_UB (scan_down (\<lambda>c. map_option Not (any_of (unat count) ss c)) bs
       (unat sz - (if sz \<le> pos then 0 else unat pos)))))))"

definition find_last_not_of_str :: "u64 \<Rightarrow> u64 \<Rightarrow> u64 \<Rightarrow> u64 prog" where
  "find_last_not_of_str this str pos =
     bindM (c_str str) (\<lambda>s. bindM (str_size str) (\<lambda>n. find_last_not_of_ptr this s pos n))"

definition find_last_not_of_cstr :: "u64 \<Rightarrow> ptr \<Rightarrow> u64 \<Rightarrow> u64 prog" where
  "find_last_not_of_cstr this s pos = bindM (traits_length s) (\<lambda>n. find_last_not_of_ptr this s pos n)"

definition find_last_not_of_char :: "u64 \<Rightarrow> ptr \<Rightarrow> u64 \<Rightarrow> u64 prog" where
  "find_last_not_of_char this chp pos = find_last_not_of_ptr this chp pos 1"

section \<open>What the searches return\<close>

definition index_of :: "nat option \<Rightarrow> u64" where
  "index_of x = (case x of None \<Rightarrow> npos | Some i \<Rightarrow> of_nat i)"

lemma match_len_spec:
  assumes "length xs = n" "n \<le> length bs"
  shows "\<exists>k. match_len n (xs @ ys) bs = Some k \<and> (k = n \<longleftrightarrow> take n bs = xs)"
  using assms
proof (induction n "xs @ ys" bs arbitrary: xs rule: match_len.induct)
  case (2 n a as b bs)
  then obtain xs' where xs: "xs = a # xs'" "as = xs' @ ys" by (cases xs) auto
  then show ?case using 2 by (cases "a = b") fastforce+
qed auto

text \<open>Without a zero byte in the pattern the comparison stops at the terminator of the string.\<close>

lemma match_len_zero:
  assumes "length xs = n" "length bs < n" "0 \<notin> set xs"
  shows "\<exists>k. match_len n (xs @ ys) (bs @ 0 # zs) = Some k \<and> k < n"
  using assms
proof (induction n "xs @ ys" "bs @ 0 # zs" arbitrary: xs bs rule: match_len.induct)
  case (2 n a as b bs')
  then obtain xs' where xs: "xs = a # xs'" "as = xs' @ ys" by (cases xs) auto
  show ?case
  proof (cases bs)
    case Nil
    then show ?thesis using 2 xs by auto
  next
    case (Cons b' bs2)
    then show ?thesis using 2 xs by (cases "a = b") fastforce+
  qed
qed auto

declare find_loop.simps [simp del]

lemma find_loop_spec:
  assumes n: "length xs = n" and "i + n \<le> length cs"
  shows "find_loop n (xs @ ys) (drop i cs @ zs) (int (length cs) - int i) (of_nat i) =
    Some (index_of (List.find (\<lambda>j. take n (drop j cs) = xs) [i..<length cs - n]))"
  using assms(2)
proof (induction "length cs - n - i" arbitrary: i)
  case 0
  then have "length cs = n + i" by simp
  then show ?case by (simp add: find_loop.simps index_of_def)
next
  case (Suc k)
  then have i: "i + n < length cs" by simp
  then have up: "[i..<length cs - n] = i # [Suc i..<length cs - n]" by (simp add: upt_conv_Cons)
  have d: "drop i cs = cs ! i # drop (Suc i) cs" using i by (simp add: Cons_nth_drop_Suc)
  obtain k' where k': "match_len n (xs @ ys) (drop i cs @ zs) = Some k'"
      "k' = n \<longleftrightarrow> take n (drop i cs @ zs) = xs"
    by (rule match_len_spec [OF n, of "drop i cs @ zs" ys, THEN exE]) (use i in auto)
  have t: "take n (drop i cs @ zs) = take n (drop i cs)" using i by simp
  have IH: "find_loop n (xs @ ys) (drop (Suc i) cs @ zs) (int (length cs) - int (Suc i)) (of_nat (Suc i)) =
      Some (index_of (List.find (\<lambda>j. take n (drop j cs) = xs) [Suc i..<length cs - n]))"
    using Suc.hyps(2) i by (intro Suc.hyps(1)) auto
  have ne: "int n \<noteq> int (length cs) - int i" using i by auto
  show ?case
  proof (cases "take n (drop i cs) = xs")
    case True
    then show ?thesis using k' t ne by (subst find_loop.simps) (simp add: up index_of_def)
  next
    case False
    then have "k' \<noteq> n" using k'(2) unfolding t by simp
    then show ?thesis
      using k'(1) ne IH False by (subst find_loop.simps) (simp add: up d algebra_simps)
  qed
qed

lemma rfind_loop_spec:
  assumes n: "length xs = n" and k: "k \<le> Suc (length cs)" and z: "0 \<notin> set xs"
  shows "rfind_loop n (xs @ ys) (cs @ 0 # zs) k =
    Some (index_of (List.find (\<lambda>j. j + n \<le> length cs \<and> take n (drop j cs) = xs) (rev [0..<k])))"
  using k
proof (induction k)
  case 0
  then show ?case by (simp add: index_of_def)
next
  case (Suc k)
  then have k: "k \<le> length cs" by simp
  have d: "drop k (cs @ 0 # zs) = drop k cs @ 0 # zs" using k by simp
  show ?case
  proof (cases "k + n \<le> length cs")
    case True
    obtain k' where k': "match_len n (xs @ ys) (drop k cs @ 0 # zs) = Some k'"
      "k' = n \<longleftrightarrow> take n (drop k cs @ 0 # zs) = xs"
      by (rule match_len_spec [OF n, of "drop k cs @ 0 # zs" ys, THEN exE]) (use True in auto)
    moreover have "take n (drop k cs @ 0 # zs) = take n (drop k cs)" using True by simp
    ultimately show ?thesis using Suc True d by (auto simp: index_of_def)
  next
    case False
    obtain k' where "match_len n (xs @ ys) (drop k cs @ 0 # zs) = Some k'" "k' < n"
      by (rule match_len_zero [OF n _ z, of "drop k cs" ys zs, THEN exE]) (use False k in auto)
    then show ?thesis using Suc False d by simp
  qed
qed

lemma any_of_spec: "length xs = n \<Longrightarrow> any_of n (xs @ ys) c = Some (c \<in> set xs)"
  by (induction n "xs @ ys" c arbitrary: xs rule: any_of.induct) (auto simp: Cons_eq_append_conv)

lemma scan_up_spec:
  assumes P: "\<And>c. P c = Some (Q c)" and "i \<le> length cs"
  shows "scan_up P (length cs - i) (drop i cs @ zs) (of_nat i) = Some (index_of (List.find (\<lambda>j. Q (cs ! j)) [i..<length cs]))"
  using assms(2)
proof (induction "length cs - i" arbitrary: i)
  case 0
  then show ?case by (simp add: index_of_def)
next
  case (Suc k)
  then have i: "i < length cs" by simp
  have d: "drop i cs = cs ! i # drop (Suc i) cs" using i by (simp add: Cons_nth_drop_Suc)
  have l: "length cs - i = Suc (length cs - Suc i)" using i by simp
  have IH: "scan_up P (length cs - Suc i) (drop (Suc i) cs @ zs) (of_nat (Suc i)) =
      Some (index_of (List.find (\<lambda>j. Q (cs ! j)) [Suc i..<length cs]))"
    using Suc.hyps(2) i by (intro Suc.hyps(1)) auto
  then show ?case
    using i unfolding d l by (auto simp: P upt_conv_Cons index_of_def algebra_simps)
qed

lemma scan_down_spec:
  assumes P: "\<And>c. P c = Some (Q c)" and "k \<le> length cs"
  shows "scan_down P (cs @ zs) k = Some (index_of (List.find (\<lambda>j. Q (cs ! j)) (rev [0..<k])))"
  using assms(2)
proof (induction k)
  case 0
  then show ?case by (simp add: index_of_def)
next
  case (Suc k)
  then show ?case by (auto simp: P index_of_def nth_append)
qed


lemma chars_from_str:
  assumes s: "str_at m this cs"
  obtains b off zs where "str_begin this m = Ok (b, off) m" "str_size this m = Ok (of_nat (length cs)) m"
    "unat (of_nat (length cs) :: u64) = length cs"
    "\<And>i. i \<le> length cs \<Longrightarrow> chars_from (b, off + i) m = Ok (drop i cs @ 0 # zs) m"
proof -
  obtain cap b off bs where h: "hdr m this (length cs) cap b off bs"
    and c: "take (length cs) (drop off bs) = cs" "bs ! (off + length cs) = 0"
    using s by (rule str_atE)
  note B = hdr_bounds [OF h]
  have z: "drop (length cs) (drop off bs) = 0 # drop (Suc (off + length cs)) bs"
    using B c(2) Cons_nth_drop_Suc [of "off + length cs" bs] by (simp add: add.commute)
  have "drop off bs = take (length cs) (drop off bs) @ drop (length cs) (drop off bs)"
    by (rule append_take_drop_id [symmetric])
  also have "\<dots> = cs @ 0 # drop (Suc (off + length cs)) bs" unfolding z c(1) ..
  finally have d: "drop off bs = cs @ 0 # drop (Suc (off + length cs)) bs" .
  have "drop (off + i) bs = drop i cs @ 0 # drop (Suc (off + length cs)) bs" if "i \<le> length cs" for i
    using that arg_cong [OF d, of "drop i"] by (simp add: add.commute)
  then show ?thesis
    using h B hdr_unat(1) [OF h]
    by (intro that [of b off "drop (Suc (off + length cs)) bs"])
      (simp_all add: hdr_str_begin hdr_str_size chars_from_def)
qed

lemma chars_from_reads:
  assumes "reads m p xs"
  obtains ys where "chars_from p m = Ok (xs @ ys) m"
proof -
  obtain bs where bs: "blocks m (fst p) = Some bs" "snd p + length xs \<le> length bs" "take (length xs) (drop (snd p) bs) = xs"
    using assms by (auto simp: reads_def)
  have "drop (snd p) bs = xs @ drop (length xs) (drop (snd p) bs)"
    using append_take_drop_id [of "length xs" "drop (snd p) bs"] bs(3) by simp
  then show ?thesis using bs that by (simp add: chars_from_def)
qed

lemma find_ptr_spec:
  assumes s: "str_at m this cs" and r: "reads m p xs" and l: "unat pos + length xs \<le> length cs"
    and ne: "unat pos < length cs"
  shows "find_ptr this p pos (of_nat (length xs)) m =
    Ok (index_of (List.find (\<lambda>j. take (length xs) (drop j cs) = xs) [unat pos..<length cs - length xs])) m"
proof -
  obtain b off zs where h: "str_begin this m = Ok (b, off) m" "str_size this m = Ok (of_nat (length cs)) m"
    and u: "unat (of_nat (length cs) :: u64) = length cs"
    and c: "\<And>i. i \<le> length cs \<Longrightarrow> chars_from (b, off + i) m = Ok (drop i cs @ 0 # zs) m"
    by (rule chars_from_str [OF s]) (rule that)
  obtain ys where ys: "chars_from p m = Ok (xs @ ys) m" using r by (rule chars_from_reads)
  have ux: "unat (of_nat (length xs) :: u64) = length xs"
    using l str_at_length [OF s] by (simp add: unat_of_nat_u64)
  show ?thesis
    using h u ux ys c [of "unat pos"] ne find_loop_spec [OF refl l, of ys "0 # zs"]
    by (simp add: find_ptr_def ptr_add_def word_le_nat_alt lift_UB_def)
qed

lemma find_ptr_beyond:
  assumes s: "str_at m this cs" and "length cs \<le> unat pos"
  shows "find_ptr this p pos n m = Ok npos m"
  using s by (rule chars_from_str) (use assms(2) in \<open>simp add: find_ptr_def word_le_nat_alt\<close>)

lemma rfind_ptr_spec:
  assumes s: "str_at m this cs" and r: "reads m p xs" and z: "0 \<notin> set xs" and l: "length xs < 2 ^ 64"
  shows "rfind_ptr this p pos (of_nat (length xs)) m =
    Ok (index_of (List.find (\<lambda>j. j + length xs \<le> length cs \<and> take (length xs) (drop j cs) = xs)
      (rev [0..<Suc (min (unat pos) (length cs))]))) m"
proof -
  obtain b off zs where h: "str_begin this m = Ok (b, off) m" "str_size this m = Ok (of_nat (length cs)) m"
    and u: "unat (of_nat (length cs) :: u64) = length cs"
    and c: "\<And>i. i \<le> length cs \<Longrightarrow> chars_from (b, off + i) m = Ok (drop i cs @ 0 # zs) m"
    by (rule chars_from_str [OF s]) (rule that)
  obtain ys where ys: "chars_from p m = Ok (xs @ ys) m" using r by (rule chars_from_reads)
  have ux: "unat (of_nat (length xs) :: u64) = length xs" using l by (simp add: unat_of_nat_u64)
  let ?k = "min (unat pos) (length cs)"
  have k: "unat (if of_nat (length cs) \<le> pos then of_nat (length cs) else pos) = ?k"
    using u by (auto simp: word_le_nat_alt)
  show ?thesis
  proof (cases "length cs < length xs")
    case True
    then have "List.find (\<lambda>j. j + length xs \<le> length cs \<and> take (length xs) (drop j cs) = xs) (rev [0..<Suc ?k]) = None"
      by (auto simp: find_None_iff simp del: upt_Suc)
    then show ?thesis
      using True h u ux by (simp add: rfind_ptr_def word_less_nat_alt index_of_def Let_def del: upt_Suc)
  next
    case False
    then show ?thesis
      using h u ux ys c [of 0] k rfind_loop_spec [OF refl _ z, of "Suc ?k" cs ys zs]
      by (simp add: rfind_ptr_def word_less_nat_alt lift_UB_def Let_def del: upt_Suc rfind_loop.simps)
  qed
qed


lemma find_first_spec:
  assumes s: "str_at m this cs" and r: "reads m p xs" and l: "length xs < 2 ^ 64"
  shows "find_first_of_ptr this p pos (of_nat (length xs)) m =
      Ok (index_of (List.find (\<lambda>j. cs ! j \<in> set xs) [unat pos..<length cs])) m"
    and "find_first_not_of_ptr this p pos (of_nat (length xs)) m =
      Ok (index_of (List.find (\<lambda>j. cs ! j \<notin> set xs) [unat pos..<length cs])) m"
    and "find_char this ch pos m = Ok (index_of (List.find (\<lambda>j. cs ! j = ch) [unat pos..<length cs])) m"
    and "find_first_of_char this ch pos m = Ok (index_of (List.find (\<lambda>j. cs ! j = ch) [unat pos..<length cs])) m"
    and "find_first_not_of_char this ch pos m = Ok (index_of (List.find (\<lambda>j. cs ! j \<noteq> ch) [unat pos..<length cs])) m"
proof -
  obtain b off zs where h: "str_begin this m = Ok (b, off) m" "str_size this m = Ok (of_nat (length cs)) m"
    and u: "unat (of_nat (length cs) :: u64) = length cs"
    and c: "\<And>i. i \<le> length cs \<Longrightarrow> chars_from (b, off + i) m = Ok (drop i cs @ 0 # zs) m"
    by (rule chars_from_str [OF s]) (rule that)
  obtain ys where ys: "chars_from p m = Ok (xs @ ys) m" using r by (rule chars_from_reads)
  have ux: "unat (of_nat (length xs) :: u64) = length xs" using l by (simp add: unat_of_nat_u64)
  have d: "unat (of_nat (length cs) - pos) = length cs - unat pos" if "unat pos \<le> length cs"
    using that u by (subst unat_sub_no_wrap) (simp_all add: word_le_nat_alt)
  have scan: "scan_up P (unat (of_nat (length cs) - pos)) (drop (unat pos) cs @ 0 # zs) pos =
      Some (index_of (List.find (\<lambda>j. Q (cs ! j)) [unat pos..<length cs]))"
    if "unat pos < length cs" "\<And>c. P c = Some (Q c)" for P Q
    using scan_up_spec [of P Q "unat pos" cs "0 # zs", OF that(2)] that(1) d by simp
  note defs = find_first_of_ptr_def find_first_not_of_ptr_def find_char_def find_first_of_char_def
    find_first_not_of_char_def c_str_def
  have any: "any_of (length xs) (xs @ ys) c = Some (c \<in> set xs)" for c by (simp add: any_of_spec)
  show "find_first_of_ptr this p pos (of_nat (length xs)) m =
      Ok (index_of (List.find (\<lambda>j. cs ! j \<in> set xs) [unat pos..<length cs])) m"
    by (cases "unat pos < length cs")
      (use h u ux ys c [of "unat pos"] scan [OF _ any] in
        \<open>simp_all add: defs ptr_add_def word_le_nat_alt lift_UB_def index_of_def\<close>)
  show "find_first_not_of_ptr this p pos (of_nat (length xs)) m =
      Ok (index_of (List.find (\<lambda>j. cs ! j \<notin> set xs) [unat pos..<length cs])) m"
    by (cases "unat pos < length cs")
      (use h u ux ys c [of "unat pos"] scan [of "\<lambda>c. map_option Not (any_of (length xs) (xs @ ys) c)" "\<lambda>c. c \<notin> set xs"] any in
        \<open>simp_all add: defs ptr_add_def word_le_nat_alt lift_UB_def index_of_def\<close>)
  show "find_char this ch pos m = Ok (index_of (List.find (\<lambda>j. cs ! j = ch) [unat pos..<length cs])) m"
    "find_first_of_char this ch pos m = Ok (index_of (List.find (\<lambda>j. cs ! j = ch) [unat pos..<length cs])) m"
    by (cases "unat pos < length cs";
        use h u c [of "unat pos"] scan [of "\<lambda>c. Some (c = ch)" "\<lambda>c. c = ch"] in
        \<open>simp add: defs ptr_add_def word_le_nat_alt lift_UB_def index_of_def\<close>)+
  show "find_first_not_of_char this ch pos m = Ok (index_of (List.find (\<lambda>j. cs ! j \<noteq> ch) [unat pos..<length cs])) m"
    by (cases "unat pos < length cs";
        use h u c [of "unat pos"] scan [of "\<lambda>c. Some (c \<noteq> ch)" "\<lambda>c. c \<noteq> ch"] in
        \<open>simp add: defs ptr_add_def word_le_nat_alt lift_UB_def index_of_def\<close>)
qed

lemma find_last_spec:
  fixes pos :: u64
  assumes s: "str_at m this cs" and r: "reads m p xs" and l: "length xs < 2 ^ 64"
  defines "k \<equiv> length cs - (if length cs \<le> unat pos then 0 else unat pos)"
  shows "find_last_of_ptr this p pos (of_nat (length xs)) m =
      Ok (index_of (List.find (\<lambda>j. cs ! j \<in> set xs) (rev [0..<k]))) m"
    and "find_last_not_of_ptr this p pos (of_nat (length xs)) m =
      Ok (index_of (List.find (\<lambda>j. cs ! j \<notin> set xs) (rev [0..<k]))) m"
proof -
  obtain b off zs where h: "str_begin this m = Ok (b, off) m" "str_size this m = Ok (of_nat (length cs)) m"
    and u: "unat (of_nat (length cs) :: u64) = length cs"
    and c: "\<And>i. i \<le> length cs \<Longrightarrow> chars_from (b, off + i) m = Ok (drop i cs @ 0 # zs) m"
    by (rule chars_from_str [OF s]) (rule that)
  obtain ys where ys: "chars_from p m = Ok (xs @ ys) m" using r by (rule chars_from_reads)
  have ux: "unat (of_nat (length xs) :: u64) = length xs" using l by (simp add: unat_of_nat_u64)
  have k: "unat (of_nat (length cs) :: u64) - (if of_nat (length cs) \<le> pos then 0 else unat pos) = k" "k \<le> length cs"
    using u by (simp_all add: k_def word_le_nat_alt)
  have any: "any_of (length xs) (xs @ ys) c = Some (c \<in> set xs)" for c by (simp add: any_of_spec)
  show "find_last_of_ptr this p pos (of_nat (length xs)) m =
      Ok (index_of (List.find (\<lambda>j. cs ! j \<in> set xs) (rev [0..<k]))) m"
    unfolding find_last_of_ptr_def
    using h ux ys c [of 0] k scan_down_spec [of "any_of (length xs) (xs @ ys)" "\<lambda>c. c \<in> set xs" k cs "0 # zs"] any
    by (simp add: lift_UB_def del: scan_down.simps)
  show "find_last_not_of_ptr this p pos (of_nat (length xs)) m =
      Ok (index_of (List.find (\<lambda>j. cs ! j \<notin> set xs) (rev [0..<k]))) m"
    unfolding find_last_not_of_ptr_def
    using h ux ys c [of 0] k any
      scan_down_spec [of "\<lambda>c. map_option Not (any_of (length xs) (xs @ ys) c)" "\<lambda>c. c \<notin> set xs" k cs "0 # zs"]
    by (simp add: lift_UB_def del: scan_down.simps)
qed

end
