(* ===== verification/Bstring_Compare.thy ===== *)
theory Bstring_Compare
  imports Bstring_Search
begin

text \<open>
  Comparison, the relational operators, concatenation, hashing and stream input of
  \<^verbatim>\<open>crossbow::string\<close>. A comparison returns an \<^verbatim>\<open>int\<close>, here a 32-bit word read with \<open>sint\<close>.
\<close>

unbundle bit_operations_syntax

type_synonym i32 = "32 word"

section \<open>Comparison\<close>

text \<open>\<^verbatim>\<open>std::char_traits<char>::compare\<close>: the first difference, as unsigned characters.\<close>

fun cmp_chars :: "nat \<Rightarrow> byte list \<Rightarrow> byte list \<Rightarrow> int option" where
  "cmp_chars 0 as bs = Some 0"
| "cmp_chars (Suc n) (a # as) (b # bs) = (if a < b then Some (-1) else if b < a then Some 1 else cmp_chars n as bs)"
| "cmp_chars (Suc n) as bs = None"

definition compare_ptr :: "u64 \<Rightarrow> u64 \<Rightarrow> u64 \<Rightarrow> ptr \<Rightarrow> u64 \<Rightarrow> i32 prog" where
  "compare_ptr this pos1 count1 s count2 =
     bindM (str_size this) (\<lambda>ts.
     if ts < pos1 then throw out_of_range
     else let count1 = (if ts < pos1 + count1 then ts - pos1 else count1); ts = count1; rlen = min ts count2 in
       bindM (str_begin this) (\<lambda>data.
       bindM (chars_from (ptr_add data (unat pos1))) (\<lambda>as.
       bindM (chars_from s) (\<lambda>bs.
       bindM (lift_UB (cmp_chars (unat rlen) as bs)) (\<lambda>res.
       ret (ucast (if res = 0 then count1 - count2 else of_int res :: u64)))))))"

definition compare_str :: "u64 \<Rightarrow> u64 \<Rightarrow> i32 prog" where
  "compare_str this str = bindM (c_str str) (\<lambda>s. bindM (str_size str) (\<lambda>n. compare_ptr this 0 npos s n))"

definition compare_pos_str :: "u64 \<Rightarrow> u64 \<Rightarrow> u64 \<Rightarrow> u64 \<Rightarrow> i32 prog" where
  "compare_pos_str this pos count str =
     bindM (c_str str) (\<lambda>s. bindM (str_size str) (\<lambda>n. compare_ptr this pos count s n))"

definition compare_sub :: "u64 \<Rightarrow> u64 \<Rightarrow> u64 \<Rightarrow> u64 \<Rightarrow> u64 \<Rightarrow> u64 \<Rightarrow> i32 prog" where
  "compare_sub this pos1 count1 str pos2 count2 =
     bindM (str_size str) (\<lambda>sz.
     if sz < pos2 then throw out_of_range
     else let cnt2 = (if sz < pos2 + count2 then sz - pos2 else count2) in
       bindM (c_str str) (\<lambda>s. compare_ptr this pos1 count1 (ptr_add s (unat pos2)) cnt2))"

definition compare_cstr :: "u64 \<Rightarrow> ptr \<Rightarrow> i32 prog" where
  "compare_cstr this s = bindM (traits_length s) (\<lambda>n. compare_ptr this 0 npos s n)"

definition compare_pos_cstr :: "u64 \<Rightarrow> u64 \<Rightarrow> u64 \<Rightarrow> ptr \<Rightarrow> i32 prog" where
  "compare_pos_cstr this pos1 count1 s = bindM (traits_length s) (\<lambda>n. compare_ptr this pos1 count1 s n)"

definition str_eq :: "u64 \<Rightarrow> u64 \<Rightarrow> bool prog" where
  "str_eq lhs rhs = bindM (compare_str lhs rhs) (\<lambda>r. ret (r = 0))"

definition str_ne :: "u64 \<Rightarrow> u64 \<Rightarrow> bool prog" where
  "str_ne lhs rhs = bindM (compare_str lhs rhs) (\<lambda>r. ret (r \<noteq> 0))"

definition str_lt :: "u64 \<Rightarrow> u64 \<Rightarrow> bool prog" where
  "str_lt lhs rhs = bindM (compare_str lhs rhs) (\<lambda>r. ret (sint r < 0))"

definition str_le :: "u64 \<Rightarrow> u64 \<Rightarrow> bool prog" where
  "str_le lhs rhs = bindM (compare_str lhs rhs) (\<lambda>r. ret (sint r \<le> 0))"

definition str_gt :: "u64 \<Rightarrow> u64 \<Rightarrow> bool prog" where
  "str_gt lhs rhs = bindM (compare_str lhs rhs) (\<lambda>r. ret (sint r > 0))"

definition str_ge :: "u64 \<Rightarrow> u64 \<Rightarrow> bool prog" where
  "str_ge lhs rhs = bindM (compare_str lhs rhs) (\<lambda>r. ret (sint r \<ge> 0))"

text \<open>Against a C string, on either side.\<close>

definition cstr_str_eq :: "ptr \<Rightarrow> u64 \<Rightarrow> bool prog" where
  "cstr_str_eq lhs rhs = bindM (compare_cstr rhs lhs) (\<lambda>r. ret (r = 0))"

definition str_cstr_eq :: "u64 \<Rightarrow> ptr \<Rightarrow> bool prog" where
  "str_cstr_eq lhs rhs = bindM (compare_cstr lhs rhs) (\<lambda>r. ret (r = 0))"

definition cstr_str_ne :: "ptr \<Rightarrow> u64 \<Rightarrow> bool prog" where
  "cstr_str_ne lhs rhs = bindM (compare_cstr rhs lhs) (\<lambda>r. ret (r \<noteq> 0))"

definition str_cstr_ne :: "u64 \<Rightarrow> ptr \<Rightarrow> bool prog" where
  "str_cstr_ne lhs rhs = bindM (compare_cstr lhs rhs) (\<lambda>r. ret (r \<noteq> 0))"

definition cstr_str_lt :: "ptr \<Rightarrow> u64 \<Rightarrow> bool prog" where
  "cstr_str_lt lhs rhs = bindM (compare_cstr rhs lhs) (\<lambda>r. ret (sint r > 0))"

definition str_cstr_lt :: "u64 \<Rightarrow> ptr \<Rightarrow> bool prog" where
  "str_cstr_lt lhs rhs = bindM (compare_cstr lhs rhs) (\<lambda>r. ret (sint r < 0))"

definition cstr_str_le :: "ptr \<Rightarrow> u64 \<Rightarrow> bool prog" where
  "cstr_str_le lhs rhs = bindM (compare_cstr rhs lhs) (\<lambda>r. ret (sint r \<ge> 0))"

definition str_cstr_le :: "u64 \<Rightarrow> ptr \<Rightarrow> bool prog" where
  "str_cstr_le lhs rhs = bindM (compare_cstr lhs rhs) (\<lambda>r. ret (sint r \<le> 0))"

definition cstr_str_gt :: "ptr \<Rightarrow> u64 \<Rightarrow> bool prog" where
  "cstr_str_gt lhs rhs = bindM (compare_cstr rhs lhs) (\<lambda>r. ret (sint r < 0))"

definition str_cstr_gt :: "u64 \<Rightarrow> ptr \<Rightarrow> bool prog" where
  "str_cstr_gt lhs rhs = bindM (compare_cstr lhs rhs) (\<lambda>r. ret (sint r > 0))"

definition cstr_str_ge :: "ptr \<Rightarrow> u64 \<Rightarrow> bool prog" where
  "cstr_str_ge lhs rhs = bindM (compare_cstr rhs lhs) (\<lambda>r. ret (sint r \<le> 0))"

definition str_cstr_ge :: "u64 \<Rightarrow> ptr \<Rightarrow> bool prog" where
  "str_cstr_ge lhs rhs = bindM (compare_cstr lhs rhs) (\<lambda>r. ret (sint r \<ge> 0))"

section \<open>Hashing\<close>

definition FNV_offset_basis :: u64 where
  "FNV_offset_basis = 14695981039346656037"

fun hash_loop :: "nat \<Rightarrow> byte list \<Rightarrow> u64 \<Rightarrow> u64 option" where
  "hash_loop 0 cs hash = Some hash"
| "hash_loop (Suc n) [] hash = None"
| "hash_loop (Suc n) (c # cs) hash = hash_loop n cs (xor (hash * FNV_offset_basis) (scast c))"

definition hash_value :: "u64 \<Rightarrow> u64 prog" where
  "hash_value str =
     bindM (str_begin str) (\<lambda>b. bindM (str_size str) (\<lambda>n.
     bindM (chars_from b) (\<lambda>cs. lift_UB (hash_loop (unat n) cs FNV_offset_basis))))"

section \<open>Concatenation\<close>

text \<open>
  A local string: constructed, used, and destroyed when the scope is left, also by an exception.
\<close>

definition with_local :: "u64 \<Rightarrow> 'a prog \<Rightarrow> 'a prog" where
  "with_local res body m = (case ctor_default res m of UB \<Rightarrow> UB | Throw e m1 \<Rightarrow> Throw e m1
    | Ok _ m1 \<Rightarrow> (case body m1 of UB \<Rightarrow> UB
        | Ok x m2 \<Rightarrow> thenM (dtor res) (ret x) m2
        | Throw e m2 \<Rightarrow> thenM (dtor res) (throw e) m2))"

text \<open>
  The returned object at \<open>out\<close> is copied from the reference that the last \<^verbatim>\<open>append\<close> returns.
\<close>

definition plus_str_str :: "u64 \<Rightarrow> u64 \<Rightarrow> u64 \<Rightarrow> u64 \<Rightarrow> unit prog" where
  "plus_str_str out res lhs rhs =
     with_local res
       (bindM (str_size lhs) (\<lambda>ls. bindM (str_size rhs) (\<lambda>rs.
        thenM (reserve res (ls + rs))
       (thenM (append_str res lhs)
       (thenM (append_str res rhs)
       (ctor_copy out res))))))"

definition plus_cstr_str :: "u64 \<Rightarrow> u64 \<Rightarrow> ptr \<Rightarrow> u64 \<Rightarrow> unit prog" where
  "plus_cstr_str out res lhs rhs =
     bindM (traits_length lhs) (\<lambda>s.
     with_local res
       (bindM (str_size rhs) (\<lambda>rs.
        thenM (reserve res (s + rs))
       (thenM (append_ptr res lhs s)
       (thenM (append_str res rhs)
       (ctor_copy out res))))))"

definition plus_char_str :: "u64 \<Rightarrow> u64 \<Rightarrow> byte \<Rightarrow> u64 \<Rightarrow> unit prog" where
  "plus_char_str out res lhs rhs =
     with_local res
       (bindM (str_size rhs) (\<lambda>rs.
        thenM (reserve res (1 + rs))
       (thenM (append_fill res 1 lhs)
       (thenM (append_str res rhs)
       (ctor_copy out res)))))"

definition plus_str_cstr :: "u64 \<Rightarrow> u64 \<Rightarrow> u64 \<Rightarrow> ptr \<Rightarrow> unit prog" where
  "plus_str_cstr out res lhs rhs =
     bindM (traits_length rhs) (\<lambda>s.
     with_local res
       (bindM (str_size lhs) (\<lambda>ls.
        thenM (reserve res (s + ls))
       (thenM (append_str res lhs)
       (thenM (append_ptr res rhs s)
       (ctor_copy out res))))))"

definition plus_str_char :: "u64 \<Rightarrow> u64 \<Rightarrow> u64 \<Rightarrow> byte \<Rightarrow> unit prog" where
  "plus_str_char out res lhs rhs =
     with_local res
       (bindM (str_size lhs) (\<lambda>ls.
        thenM (reserve res (1 + ls))
       (thenM (append_str res lhs)
       (thenM (append_fill res 1 rhs)
       (ctor_copy out res)))))"

text \<open>The overloads for an expiring left operand append to it and copy the result.\<close>

definition plus_move_str :: "u64 \<Rightarrow> u64 \<Rightarrow> u64 \<Rightarrow> unit prog" where
  "plus_move_str out lhs rhs = thenM (append_str lhs rhs) (ctor_copy out lhs)"

definition plus_move_cstr :: "u64 \<Rightarrow> u64 \<Rightarrow> ptr \<Rightarrow> unit prog" where
  "plus_move_cstr out lhs rhs = thenM (append_cstr lhs rhs) (ctor_copy out lhs)"

definition plus_move_char :: "u64 \<Rightarrow> u64 \<Rightarrow> byte \<Rightarrow> unit prog" where
  "plus_move_char out lhs rhs = thenM (append_fill lhs 1 rhs) (ctor_copy out lhs)"

section \<open>What the comparisons return\<close>

lemma ucast_of_int_down: "ucast (of_int k :: u64) = (of_int k :: i32)"
  by (simp add: unsigned_of_int word_of_int_eq_iff take_bit_take_bit min_def) 

lemma sint_of_int_small: "- (2 ^ 31) \<le> k \<Longrightarrow> k < 2 ^ 31 \<Longrightarrow> sint (of_int k :: i32) = k"
  by (simp add: signed_of_int signed_take_bit_int_eq_self)

lemma cmp_chars_spec:
  assumes "length as = na" "length bs = nb"
  shows "\<exists>c. cmp_chars (min na nb) (as @ xs) (bs @ ys) = Some c \<and> c \<in> {-1, 0, 1} \<and>
    (ord_class.lexordp as bs \<longleftrightarrow> c = -1 \<or> c = 0 \<and> na < nb) \<and> (as = bs \<longleftrightarrow> c = 0 \<and> na = nb)"
  using assms
proof (induction as arbitrary: bs na nb)
  case Nil
  then show ?case by (cases bs) auto
next
  case (Cons a as)
  note IH = Cons.IH
  show ?case
  proof (cases bs)
    case Nil
    then show ?thesis using Cons.prems by auto
  next
    case (Cons b bs')
    obtain c where c: "cmp_chars (min (length as) (length bs')) (as @ xs) (bs' @ ys) = Some c" "c \<in> {-1, 0, 1}"
      "ord_class.lexordp as bs' \<longleftrightarrow> c = -1 \<or> c = 0 \<and> length as < length bs'" "as = bs' \<longleftrightarrow> c = 0 \<and> length as = length bs'"
      using IH [OF refl refl] by blast
    have m: "min na nb = Suc (min (length as) (length bs'))" using Cons.prems Cons by auto
    consider "a < b" | "b < a" | "a = b" by (metis linorder_neqE)
    then show ?thesis
    proof cases
      case 1
      then show ?thesis using Cons.prems Cons m by auto
    next
      case 2
      then show ?thesis using Cons.prems Cons m by auto
    next
      case 3
      then show ?thesis using Cons.prems Cons m c by auto
    qed
  qed
qed


text \<open>The value of a comparison: its sign is the order, as long as the lengths differ by less than \<open>2\<^sup>3\<^sup>1\<close>.\<close>

definition compares :: "i32 \<Rightarrow> byte list \<Rightarrow> byte list \<Rightarrow> bool" where
  "compares r as bs \<longleftrightarrow> (sint r < 0 \<longleftrightarrow> ord_class.lexordp as bs) \<and> (r = 0 \<longleftrightarrow> as = bs)"

lemma compare_ptr_spec:
  assumes s: "str_at m this cs" and r: "reads m p xs" and l: "length xs < 2 ^ 64" and pos: "unat pos \<le> length cs"
    and count: "count = npos \<and> pos = 0 \<or> unat pos + unat count < 2 ^ 64"
  defines "as \<equiv> take (unat count) (drop (unat pos) cs)"
  assumes d: "\<bar>int (length as) - int (length xs)\<bar> < 2 ^ 31"
  shows "\<exists>v. compare_ptr this pos count p (of_nat (length xs)) m = Ok v m \<and> compares v as xs"
proof -
  obtain b off zs where h: "str_begin this m = Ok (b, off) m" "str_size this m = Ok (of_nat (length cs)) m"
    and u: "unat (of_nat (length cs) :: u64) = length cs"
    and c: "\<And>i. i \<le> length cs \<Longrightarrow> chars_from (b, off + i) m = Ok (drop i cs @ 0 # zs) m"
    by (rule chars_from_str [OF s]) (rule that)
  obtain ys where ys: "chars_from p m = Ok (xs @ ys) m" using r by (rule chars_from_reads)
  have ux: "unat (of_nat (length xs) :: u64) = length xs" using l by (simp add: unat_of_nat_u64)
  let ?w = "of_nat (length cs) :: u64"
  define c1 where "c1 = (if ?w < pos + count then ?w - pos else count)"
  have lt: "length cs < 2 ^ 63" using str_at_length [OF s] by simp
  have np: "\<not> ?w < pos" using pos u by (simp add: word_less_nat_alt)
  have dd: "unat (?w - pos) = length cs - unat pos"
    using pos u by (subst unat_sub_no_wrap) (simp_all add: word_le_nat_alt)
  have c1: "unat c1 = length as"
  proof (cases "count = npos \<and> pos = 0")
    case True
    then show ?thesis using u unat_npos lt by (simp add: c1_def as_def word_less_nat_alt)
  next
    case False
    with count have "unat pos + unat count < 2 ^ 64" by blast
    then have "unat (pos + count) = unat pos + unat count" by (subst unat_add_no_wrap) simp_all
    then show ?thesis using u dd pos by (auto simp: c1_def as_def word_less_nat_alt)
  qed
  then have c1': "c1 = of_nat (length as)" by (metis of_nat_unat ucast_id)
  have rl: "unat (min c1 (of_nat (length xs))) = min (length as) (length xs)"
    using c1 ux by (auto simp: min_def word_le_nat_alt)
  have split: "drop (unat pos) cs @ 0 # zs = as @ (drop (unat count) (drop (unat pos) cs) @ 0 # zs)"
    unfolding as_def append_assoc [symmetric] append_take_drop_id ..
  obtain v where v: "cmp_chars (min (length as) (length xs)) (as @ (drop (unat count) (drop (unat pos) cs) @ 0 # zs)) (xs @ ys) = Some v"
    "v \<in> {-1, 0, 1}" "ord_class.lexordp as xs \<longleftrightarrow> v = -1 \<or> v = 0 \<and> length as < length xs"
    "as = xs \<longleftrightarrow> v = 0 \<and> length as = length xs"
    using cmp_chars_spec [OF refl refl, of as xs] by blast
  define r where "r = (if v = 0 then int (length as) - int (length xs) else v)"
  have "(if v = 0 then c1 - of_nat (length xs) else of_int v :: u64) = of_int r"
    by (simp add: r_def c1')
  then have run: "compare_ptr this pos count p (of_nat (length xs)) m = Ok (of_int r) m"
    using h np ys c [OF pos] v(1) rl split
    by (simp add: compare_ptr_def Let_def c1_def [symmetric] ptr_add_def lift_UB_def ucast_of_int_down
        del: drop_drop)
  have sr: "sint (of_int r :: i32) = r"
    using d v(2) by (intro sint_of_int_small) (auto simp: r_def)
  have "compares (of_int r) as xs"
    unfolding compares_def sr
    using v(2,3,4) sr by (auto simp: r_def split: if_splits)
  with run show ?thesis by blast
qed


lemma lexordp_total: "(as :: byte list) \<noteq> bs \<Longrightarrow> ord_class.lexordp as bs \<longleftrightarrow> \<not> ord_class.lexordp bs as"
  using lexordp_linear [of as bs] lexordp_antisym [of as bs] by auto

lemma compares_ops:
  assumes "compares r as bs"
  shows "(r = 0) = (as = bs)" "(sint r < 0) = ord_class.lexordp as bs" "(sint r \<le> 0) = (\<not> ord_class.lexordp bs as)"
    "(sint r > 0) = ord_class.lexordp bs as" "(sint r \<ge> 0) = (\<not> ord_class.lexordp as bs)"
proof -
  have z: "sint r = 0 \<longleftrightarrow> r = 0" by (metis signed_0 signed_word_eqI)
  show "(r = 0) = (as = bs)" "(sint r < 0) = ord_class.lexordp as bs" "(sint r \<ge> 0) = (\<not> ord_class.lexordp as bs)"
    using assms by (auto simp: compares_def)
  show "(sint r \<le> 0) = (\<not> ord_class.lexordp bs as)" "(sint r > 0) = ord_class.lexordp bs as"
    using assms z lexordp_total [of as bs] lexordp_irreflexive' [of bs]
    by (auto simp: compares_def le_less not_le)
qed

lemma compare_str_spec:
  assumes s: "str_at m lhs as" and o: "str_at m rhs bs" and d: "\<bar>int (length as) - int (length bs)\<bar> < 2 ^ 31"
  shows "\<exists>v. compare_str lhs rhs m = Ok v m \<and> compares v as bs"
proof -
  obtain cap b off cs where h: "hdr m rhs (length bs) cap b off cs" and c: "take (length bs) (drop off cs) = bs"
    using o by (rule str_atE)
  have "length bs < 2 ^ 64" using str_at_length [OF o] by simp
  moreover have "take (unat npos) as = as" using str_at_length [OF s] by (simp add: unat_npos)
  ultimately show ?thesis
    using compare_ptr_spec [OF s str_at_reads [OF h c], of 0 npos] d h
    by (simp add: compare_str_def c_str_def hdr_str_begin hdr_str_size)
qed

lemma relational_spec:
  assumes s: "str_at m lhs as" and o: "str_at m rhs bs" and d: "\<bar>int (length as) - int (length bs)\<bar> < 2 ^ 31"
  shows "str_eq lhs rhs m = Ok (as = bs) m" "str_ne lhs rhs m = Ok (as \<noteq> bs) m"
    "str_lt lhs rhs m = Ok (ord_class.lexordp as bs) m" "str_le lhs rhs m = Ok (\<not> ord_class.lexordp bs as) m"
    "str_gt lhs rhs m = Ok (ord_class.lexordp bs as) m" "str_ge lhs rhs m = Ok (\<not> ord_class.lexordp as bs) m"
proof -
  obtain v where v: "compare_str lhs rhs m = Ok v m" "compares v as bs" using compare_str_spec [OF assms] by blast
  note c = compares_ops [OF v(2)]
  show "str_eq lhs rhs m = Ok (as = bs) m" "str_ne lhs rhs m = Ok (as \<noteq> bs) m"
    "str_lt lhs rhs m = Ok (ord_class.lexordp as bs) m" "str_le lhs rhs m = Ok (\<not> ord_class.lexordp bs as) m"
    "str_gt lhs rhs m = Ok (ord_class.lexordp bs as) m" "str_ge lhs rhs m = Ok (\<not> ord_class.lexordp as bs) m"
    using v(1) c by (simp_all add: str_eq_def str_ne_def str_lt_def str_le_def str_gt_def str_ge_def)
qed

lemma hash_loop_spec: "length cs = n \<Longrightarrow>
    hash_loop n (cs @ zs) h = Some (fold (\<lambda>c h. xor (h * FNV_offset_basis) (scast c)) cs h)"
  by (induction n "cs @ zs" h arbitrary: cs rule: hash_loop.induct) (auto simp: Cons_eq_append_conv)

lemma hash_value_spec:
  assumes "str_at m str cs"
  shows "hash_value str m = Ok (fold (\<lambda>c h. xor (h * FNV_offset_basis) (scast c)) cs FNV_offset_basis) m"
proof -
  obtain b off zs where h: "str_begin str m = Ok (b, off) m" "str_size str m = Ok (of_nat (length cs)) m"
    and u: "unat (of_nat (length cs) :: u64) = length cs"
    and c: "\<And>i. i \<le> length cs \<Longrightarrow> chars_from (b, off + i) m = Ok (drop i cs @ 0 # zs) m"
    by (rule chars_from_str [OF assms]) (rule that)
  then show ?thesis
    using c [of 0] hash_loop_spec [OF refl, of cs "0 # zs"] by (simp add: hash_value_def lift_UB_def)
qed


section \<open>Concatenation builds a new string\<close>

lemma builds_only_touches:
  assumes b: "builds m res m1" and o: "only_touches m1 res m2" and s: "str_at m1 res cs" "str_at m2 res ds"
  shows "builds m res m2"
proof -
  have r: "res \<in> owned m2 res" "res \<in> owned m1 res"
    using s hdr_bounds(6) by (metis insertI1 str_atE)+
  have "blocks m2 c = blocks m c" if c: "c \<notin> owned m2 res" for c
  proof (cases "c \<in> owned m1 res")
    case True
    then have "c \<noteq> res" using r c by blast
    then have "blocks m c = None" using True b by (auto simp: builds_def)
    moreover have "blocks m2 c = None" using True c o by (auto simp: only_touches_def domIff)
    ultimately show ?thesis by simp
  next
    case False
    then show ?thesis using c b o by (simp add: builds_def only_touches_def)
  qed
  moreover have "c = res" if c: "c \<in> owned m2 res" "c \<in> dom (blocks m)" for c
  proof (rule ccontr)
    assume ne: "c \<noteq> res"
    then have n1: "c \<notin> owned m1 res" using b c(2) by (auto simp: builds_def)
    then have "c \<in> dom (blocks m1)" using b c(2) by (auto simp: builds_def domIff)
    then show False using o c(1) n1 by (auto simp: only_touches_def)
  qed
  ultimately show ?thesis by (auto simp: builds_def)
qed

text \<open>A step on the local string \<open>res\<close> inside an expression that started in \<open>m\<close>.\<close>

definition extends :: "mem \<Rightarrow> u64 \<Rightarrow> byte list \<Rightarrow> 'a outcome \<Rightarrow> bool" where
  "extends m res cs out \<longleftrightarrow> (case out of
     Ok x m' \<Rightarrow> str_at m' res cs \<and> builds m res m'
   | Throw e m' \<Rightarrow> (e = length_error \<or> e = bad_alloc) \<and> (\<exists>ds. str_at m' res ds) \<and> builds m res m'
   | UB \<Rightarrow> False)"

lemma extends_keeps:
  assumes k: "keeps f m1 res cs b1" and s: "str_at m1 res cs" and b: "builds m res m1"
  shows "extends m res cs (f m1)"
proof (cases "f m1")
  case (Ok x m2)
  then have "str_at m2 res cs" "only_touches m1 res m2" using k by (simp_all add: keeps_def)
  then show ?thesis using Ok builds_only_touches [OF b _ s] by (simp add: extends_def)
next
  case (Throw e m2)
  then have e: "e = length_error \<or> e = bad_alloc" "blocks m2 = blocks m1" using k by (simp_all add: keeps_def)
  then have "str_at m2 res cs" "owned m2 res = owned m1 res" using s str_at_blocks_cong [OF e(2)] by simp_all
  then show ?thesis using Throw e b by (auto simp: extends_def builds_def)
next
  case UB
  then show ?thesis using k by (simp add: keeps_def)
qed

lemma extends_updates:
  assumes u: "updates f m1 res ds" and s: "str_at m1 res cs" and b: "builds m res m1"
  shows "extends m res ds (f m1)"
proof (cases "f m1")
  case (Ok x m2)
  then have "str_at m2 res ds" "only_touches m1 res m2" using u by (simp_all add: updates_def)
  then show ?thesis using Ok builds_only_touches [OF b _ s] by (simp add: extends_def)
next
  case (Throw e m2)
  then have e: "e = length_error \<or> e = bad_alloc" "blocks m2 = blocks m1" using u by (simp_all add: updates_def)
  then have "str_at m2 res cs" "owned m2 res = owned m1 res" using s str_at_blocks_cong [OF e(2)] by simp_all
  then show ?thesis using Throw e b by (auto simp: extends_def builds_def)
next
  case UB
  then show ?thesis using u by (simp add: updates_def)
qed

lemma extends_thenM:
  assumes f: "extends m res cs (f m1)" and g: "\<And>m2. str_at m2 res cs \<Longrightarrow> builds m res m2 \<Longrightarrow> extends m res ds (g m2)"
  shows "extends m res ds (thenM f g m1)"
  using f g by (cases "f m1") (auto simp: extends_def thenM_def bindM_def)

lemma builds_str:
  assumes b: "builds m res m1" and s: "str_at m lhs cs" "res \<notin> owned m lhs"
  shows "str_at m1 lhs cs" "owned m1 lhs \<inter> owned m1 res = {}"
proof -
  obtain cap b' off bs where h: "hdr m lhs (length cs) cap b' off bs"
    and c: "take (length cs) (drop off bs) = cs" "bs ! (off + length cs) = 0" using s(1) by (rule str_atE)
  note B = hdr_bounds [OF h]
  have ne: "lhs \<noteq> res" "b' \<noteq> res" using s(2) B(6) by auto
  have h1: "hdr m1 lhs (length cs) cap b' off bs" by (rule builds_hdr [OF b h ne])
  then show "str_at m1 lhs cs" using c by (rule str_atI)
  have "lhs \<notin> owned m1 res" "b' \<notin> owned m1 res" using b ne B(1,7) by (auto simp: builds_def)
  then show "owned m1 lhs \<inter> owned m1 res = {}" using hdr_bounds(6) [OF h1] by auto
qed

lemma concat_steps:
  assumes l: "str_at m lhs as" "res \<notin> owned m lhs" and r: "str_at m rhs bs" "res \<notin> owned m rhs"
    and m1: "str_at m1 res []" "builds m res m1"
  shows "extends m res (as @ bs) (thenM (reserve res n) (thenM (append_str res lhs) (append_str res rhs)) m1)"
proof (rule extends_thenM)
  show "extends m res [] (reserve res n m1)"
    by (rule extends_keeps [OF reserve_keeps [OF m1(1)] m1])
next
  fix m2
  assume m2: "str_at m2 res []" "builds m res m2"
  show "extends m res (as @ bs) (thenM (append_str res lhs) (append_str res rhs) m2)"
  proof (rule extends_thenM)
    show "extends m res as (append_str res lhs m2)"
      using extends_updates [OF append_str_updates [OF m2(1) builds_str [OF m2(2) l]] m2] by simp
    fix m3
    assume m3: "str_at m3 res as" "builds m res m3"
    show "extends m res (as @ bs) (append_str res rhs m3)"
      by (rule extends_updates [OF append_str_updates [OF m3(1) builds_str [OF m3(2) r]] m3])
  qed
qed


text \<open>
  What an expression that returns a new string at \<open>out\<close> and used the local string at \<open>res\<close> leaves
  behind: nothing but the new string.
\<close>

definition returns_new :: "mem \<Rightarrow> u64 \<Rightarrow> u64 \<Rightarrow> byte list \<Rightarrow> 'a outcome \<Rightarrow> bool" where
  "returns_new m res out cs r \<longleftrightarrow> (case r of
     Ok x m' \<Rightarrow> str_at m' out cs \<and> owned m' out \<inter> dom (blocks m) \<subseteq> {out} \<and>
       (\<forall>c. c \<notin> owned m' out \<longrightarrow> c \<noteq> res \<longrightarrow> blocks m' c = blocks m c)
   | Throw e m' \<Rightarrow> (e = length_error \<or> e = bad_alloc) \<and> (\<forall>c. c \<noteq> res \<longrightarrow> c \<noteq> out \<longrightarrow> blocks m' c = blocks m c)
   | UB \<Rightarrow> False)"

lemma dtor_builds:
  assumes "str_at m1 res cs" "builds m res m1"
  obtains m2 where "dtor res m1 = Ok () m2" "\<And>c. c \<noteq> res \<Longrightarrow> blocks m2 c = blocks m c"
proof -
  obtain m2 where m2: "dtor res m1 = Ok () m2" "dom (blocks m2) = dom (blocks m1) - (owned m1 res - {res})"
    "\<And>c. c \<notin> owned m1 res \<Longrightarrow> blocks m2 c = blocks m1 c"
    using dtor_ok [OF assms(1)] by metis
  have "blocks m2 c = blocks m c" if c: "c \<noteq> res" for c
  proof (cases "c \<in> owned m1 res")
    case True
    then have "blocks m2 c = None" "blocks m c = None"
      using m2(2) c assms(2) by (auto simp: builds_def domIff)
    then show ?thesis by simp
  next
    case False
    then show ?thesis using m2(3) assms(2) by (simp add: builds_def)
  qed
  with m2(1) show ?thesis by (rule that)
qed

lemma dtor_after_copy:
  assumes s: "str_at m1 res cs" "builds m res m1" and c: "str_at m2 out cs" "builds m1 out m2"
    and out: "out \<notin> owned m1 res" "out \<noteq> res"
  obtains m3 where "dtor res m2 = Ok () m3" "returns_new m res out cs (Ok () m3)"
proof -
  have s2: "str_at m2 res cs" "owned m2 res \<inter> owned m2 out = {}"
    using builds_str [OF c(2) s(1) out(1)] by simp_all
  obtain m3 where m3: "dtor res m2 = Ok () m3" "dom (blocks m3) = dom (blocks m2) - (owned m2 res - {res})"
    "\<And>c. c \<notin> owned m2 res \<Longrightarrow> blocks m3 c = blocks m2 c"
    using dtor_ok [OF s2(1)] by metis
  obtain cap b off bs where h: "hdr m2 out (length cs) cap b off bs"
    and t: "take (length cs) (drop off bs) = cs" "bs ! (off + length cs) = 0" using c(1) by (rule str_atE)
  have ow: "owned m2 out = {out, b}" using hdr_bounds(6) [OF h] .
  have h3: "hdr m3 out (length cs) cap b off bs"
    using h by (rule hdr_frame) (use m3(3) s2(2) ow in auto)
  have o3: "owned m3 out = owned m2 out" using hdr_bounds(6) [OF h3] ow by simp
  obtain cap1 b1 off1 bs1 where hr: "hdr m1 res (length cs) cap1 b1 off1 bs1" using s(1) by (rule str_atE)
  have or1: "owned m1 res = {res, b1}" using hdr_bounds(6) [OF hr] .
  have hr2: "hdr m2 res (length cs) cap1 b1 off1 bs1"
    using builds_hdr [OF c(2) hr] out or1 by auto
  have or2: "owned m2 res = owned m1 res" using hdr_bounds(6) [OF hr2] or1 by simp
  have "blocks m3 x = blocks m x" if x: "x \<notin> owned m3 out" "x \<noteq> res" for x
  proof (cases "x \<in> owned m1 res")
    case True
    then have "blocks m3 x = None" "blocks m x = None"
      using m3(2) or2 x(2) s(2) by (auto simp: builds_def domIff)
    then show ?thesis by simp
  next
    case False
    then have "blocks m3 x = blocks m2 x" "blocks m1 x = blocks m x" using m3(3) or2 s(2) by (auto simp: builds_def)
    moreover have "blocks m2 x = blocks m1 x" using c(2) x(1) o3 by (simp add: builds_def)
    ultimately show ?thesis by simp
  qed
  moreover have "x = out" if x: "x \<in> owned m3 out" "x \<in> dom (blocks m)" for x
  proof (rule ccontr)
    assume ne: "x \<noteq> out"
    then have n: "x \<notin> dom (blocks m1)" using x(1) o3 c(2) by (auto simp: builds_def)
    then have "x \<notin> owned m1 res" using str_at_owned [OF s(1)] by auto
    then have "blocks m1 x = blocks m x" using s(2) by (simp add: builds_def)
    then show False using n x(2) by auto
  qed
  ultimately show ?thesis
    using that m3(1) str_atI [OF h3 t] by (auto simp: returns_new_def)
qed

lemma with_local_returns_new:
  assumes raw: "raw_at m res" "raw_at m out" "out \<noteq> res"
    and steps: "\<And>m1. str_at m1 res [] \<Longrightarrow> builds m res m1 \<Longrightarrow>
      \<exists>f :: unit prog. body m1 = thenM f (ctor_copy out res) m1 \<and> extends m res cs (f m1)"
  shows "returns_new m res out cs (with_local res body m)"
proof -
  obtain m1 where m1: "ctor_default res m = Ok () m1" "str_at m1 res []" "builds m res m1"
    using ctor_default_constructs [OF raw(1)] by (cases "ctor_default res m") (auto simp: constructs_def)
  obtain f :: "unit prog" where f: "body m1 = thenM f (ctor_copy out res) m1" "extends m res cs (f m1)"
    using steps [OF m1(2,3)] by blast
  show ?thesis
  proof (cases "f m1")
    case UB
    then show ?thesis using f by (simp add: extends_def)
  next
    case (Throw e m2)
    then obtain ds where d: "e = length_error \<or> e = bad_alloc" "str_at m2 res ds" "builds m res m2"
      using f by (auto simp: extends_def)
    obtain m3 where "dtor res m2 = Ok () m3" "\<And>c. c \<noteq> res \<Longrightarrow> blocks m3 c = blocks m c"
      using dtor_builds [OF d(2,3)] by metis
    then show ?thesis using m1 f Throw d by (simp add: with_local_def returns_new_def)
  next
    case (Ok x m2)
    then have d: "str_at m2 res cs" "builds m res m2" using f by (simp_all add: extends_def)
    have no: "out \<notin> owned m2 res" using d(2) raw by (auto simp: builds_def raw_at_def)
    then have raw2: "raw_at m2 out" using d(2) raw(2) by (simp add: builds_def raw_at_def)
    have k: "constructs (ctor_copy out res) m2 out cs" by (rule ctor_copy_constructs [OF raw2 d(1) no])
    show ?thesis
    proof (cases "ctor_copy out res m2")
      case UB
      then show ?thesis using k by (simp add: constructs_def)
    next
      case (Throw e m3)
      then have t: "e = bad_alloc" "\<And>b. b \<noteq> out \<Longrightarrow> blocks m3 b = blocks m2 b" using k by (simp_all add: constructs_def)
      obtain cap b off bs where h: "hdr m2 res (length cs) cap b off bs"
        and c: "take (length cs) (drop off bs) = cs" "bs ! (off + length cs) = 0" using d(1) by (rule str_atE)
      have ow: "owned m2 res = {res, b}" using hdr_bounds(6) [OF h] .
      have h3: "hdr m3 res (length cs) cap b off bs"
        using h by (rule hdr_frame) (use t(2) no ow in auto)
      define m' where "m' = m\<lparr>blocks := (blocks m)(out := blocks m3 out)\<rparr>"
      have "builds m' res m3"
        using d(2) t(2) no ow hdr_bounds(6) [OF h3] by (auto simp: builds_def m'_def)
      then obtain m4 where "dtor res m3 = Ok () m4" "\<And>c. c \<noteq> res \<Longrightarrow> blocks m4 c = blocks m' c"
        using dtor_builds [OF str_atI [OF h3 c]] by metis
      then show ?thesis
        using m1 f \<open>f m1 = Ok x m2\<close> Throw t(1) by (simp add: with_local_def returns_new_def m'_def)
    next
      case (Ok y m3)
      then have "str_at m3 out cs" "builds m2 out m3" using k by (simp_all add: constructs_def)
      then obtain m4 where "dtor res m3 = Ok () m4" "returns_new m res out cs (Ok () m4)"
        using dtor_after_copy [OF d _ _ no raw(3)] by metis
      then show ?thesis
        using m1 f \<open>f m1 = Ok x m2\<close> Ok by (simp add: with_local_def)
    qed
  qed
qed


lemma plus_str_str_new:
  assumes raw: "raw_at m res" "raw_at m out" "out \<noteq> res"
    and l: "str_at m lhs as" "res \<notin> owned m lhs" and r: "str_at m rhs bs" "res \<notin> owned m rhs"
  shows "returns_new m res out (as @ bs) (plus_str_str out res lhs rhs m)"
  unfolding plus_str_str_def
proof (rule with_local_returns_new [OF raw])
  fix m1
  assume m1: "str_at m1 res []" "builds m res m1"
  obtain n1 where n1: "str_size lhs m1 = Ok n1 m1" using builds_str(1) [OF m1(2) l] by (metis hdr_str_size str_atE)
  obtain n2 where n2: "str_size rhs m1 = Ok n2 m1" using builds_str(1) [OF m1(2) r] by (metis hdr_str_size str_atE)
  show "\<exists>f :: unit prog. bindM (str_size lhs) (\<lambda>ls. bindM (str_size rhs) (\<lambda>rs. thenM (reserve res (ls + rs))
      (thenM (append_str res lhs) (thenM (append_str res rhs) (ctor_copy out res))))) m1 =
      thenM f (ctor_copy out res) m1 \<and> extends m res (as @ bs) (f m1)"
    using n1 n2 concat_steps [OF l r m1, of "n1 + n2"]
    by (intro exI [of _ "thenM (reserve res (n1 + n2)) (thenM (append_str res lhs) (append_str res rhs))"])
      (simp add: thenM_assoc)
qed

end
