(* ===== verification/Bstring_Stream.thy ===== *)
theory Bstring_Stream
  imports Bstring_Compare
begin

text \<open>
  Reading a \<^verbatim>\<open>crossbow::string\<close> from a stream. The loops use the string only through \<^verbatim>\<open>clear\<close>,
  \<^verbatim>\<open>push_back\<close> and \<^verbatim>\<open>size\<close>: they are verified once against the interface \<open>string_sink\<close>, which the
  string class provides.
\<close>

section \<open>Operations\<close>

text \<open>The part of \<^verbatim>\<open>std::istream\<close> that is used: the characters left, the width and two state bits.\<close>

record istream =
  rdbuf :: "byte list"
  width :: int
  eofbit :: bool
  failbit :: bool

fun extract_loop :: "(byte \<Rightarrow> bool) \<Rightarrow> (byte \<Rightarrow> unit prog) \<Rightarrow> byte list \<Rightarrow> int \<Rightarrow> int \<Rightarrow> (byte list \<times> int \<times> bool) prog" where
  "extract_loop is_space push [] c n = ret ([], c, c < n)"
| "extract_loop is_space push (ch # cs) c n =
     (if c < n then
        (if is_space ch then ret (ch # cs, c, False)
         else thenM (push ch) (extract_loop is_space push cs (c + 1) n))
      else ret (ch # cs, c, False))"

text \<open>
  \<^verbatim>\<open>operator>>\<close>, after the sentry has skipped white space; \<open>sentry\<close> is its verdict and \<open>is_space\<close> the
  classification of the stream's locale.
\<close>

definition stream_extract :: "(byte \<Rightarrow> bool) \<Rightarrow> bool \<Rightarrow> istream \<Rightarrow> u64 \<Rightarrow> istream prog" where
  "stream_extract is_space sentry strm str =
     (if sentry then
        thenM (clear str)
        (let n = width strm; n = (if n \<le> 0 then uint max_size else n) in
         bindM (extract_loop is_space (push_back str) (rdbuf strm) 0 n) (\<lambda>(rest, c, eof).
         ret (strm\<lparr>rdbuf := rest, width := 0, eofbit := eofbit strm \<or> eof, failbit := failbit strm \<or> c = 0\<rparr>)))
      else ret (strm\<lparr>failbit := True\<rparr>))"

text \<open>\<^verbatim>\<open>std::getline\<close>; the line break is its default delimiter.\<close>

fun getline_loop :: "byte \<Rightarrow> (byte \<Rightarrow> unit prog) \<Rightarrow> u64 prog \<Rightarrow> byte list \<Rightarrow> int \<Rightarrow> (byte list \<times> int \<times> bool \<times> bool) prog" where
  "getline_loop dlm push len [] extr = ret ([], extr, True, False)"
| "getline_loop dlm push len (ch # cs) extr =
     (if ch = dlm then ret (cs, extr + 1, False, False)
      else thenM (push ch) (bindM len (\<lambda>sz.
        if sz = max_size then ret (cs, extr + 1, False, True)
        else getline_loop dlm push len cs (extr + 1))))"

definition getline_dlm :: "byte \<Rightarrow> bool \<Rightarrow> istream \<Rightarrow> u64 \<Rightarrow> istream prog" where
  "getline_dlm dlm sentry strm str =
     (if sentry then
        thenM (clear str)
        (bindM (getline_loop dlm (push_back str) (str_size str) (rdbuf strm) 0) (\<lambda>(rest, extr, eof, full).
         ret (strm\<lparr>rdbuf := rest, eofbit := eofbit strm \<or> eof, failbit := failbit strm \<or> full \<or> extr = 0\<rparr>)))
      else ret strm)"

definition getline :: "bool \<Rightarrow> istream \<Rightarrow> u64 \<Rightarrow> istream prog" where
  "getline sentry strm str = getline_dlm 10 sentry strm str"

section \<open>The interface the loops use\<close>

text \<open>
  The loops push characters to a string and ask for its length. What they rely on: a value that a
  push extends by one character, or leaves alone when it throws.
\<close>

locale string_sink =
  fixes val :: "mem \<Rightarrow> byte list \<Rightarrow> bool"
    and push :: "byte \<Rightarrow> unit prog"
    and empty :: "unit prog"
    and len :: "u64 prog"
  assumes push_contract: "val m cs \<Longrightarrow> (case push c m of
        Ok x m' \<Rightarrow> val m' (cs @ [c]) | Throw e m' \<Rightarrow> (e = length_error \<or> e = bad_alloc) \<and> val m' cs | UB \<Rightarrow> False)"
    and empty_contract: "val m cs \<Longrightarrow> \<exists>m'. empty m = Ok () m' \<and> val m' []"
    and len_contract: "val m cs \<Longrightarrow> len m = Ok (of_nat (length cs)) m"
begin

lemma push_cases:
  assumes "val m cs"
  obtains (ok) m' where "push c m = Ok () m'" "val m' (cs @ [c])"
  | (throws) e m' where "push c m = Throw e m'" "e = length_error \<or> e = bad_alloc" "val m' cs"
  using push_contract [OF assms, of c] by (cases "push c m") auto

lemma extract_loop_val:
  assumes "val m cs" "0 \<le> c" "c \<le> n"
  shows "case extract_loop is_space push inp c n m of
      Ok (rest, c', eof) m' \<Rightarrow>
        (let tok = take (nat (n - c)) (takeWhile (\<lambda>ch. \<not> is_space ch) inp) in
         val m' (cs @ tok) \<and> rest = drop (length tok) inp \<and> c' = c + int (length tok) \<and>
         (eof \<longleftrightarrow> rest = [] \<and> c' < n))
    | Throw e m' \<Rightarrow> (e = length_error \<or> e = bad_alloc) \<and> (\<exists>k. val m' (cs @ take k inp))
    | UB \<Rightarrow> False"
  using assms
proof (induction inp arbitrary: m cs c)
  case Nil
  then show ?case by simp
next
  case (Cons ch inp)
  show ?case
  proof (cases "c < n \<and> \<not> is_space ch")
    case False
    then show ?thesis using Cons by (auto simp: Let_def)
  next
    case True
    then have c: "c + 1 \<le> n" "nat (n - c) = Suc (nat (n - (c + 1)))" using Cons by auto
    show ?thesis
    proof (cases rule: push_cases [OF Cons.prems(1), of ch])
      case ok: (1 m')
      have IH: "case extract_loop is_space push inp (c + 1) n m' of
          Ok (rest, c', eof) m'' \<Rightarrow>
            (let tok = take (nat (n - (c + 1))) (takeWhile (\<lambda>ch. \<not> is_space ch) inp) in
             val m'' ((cs @ [ch]) @ tok) \<and> rest = drop (length tok) inp \<and> c' = c + 1 + int (length tok) \<and>
             (eof \<longleftrightarrow> rest = [] \<and> c' < n))
        | Throw e m'' \<Rightarrow> (e = length_error \<or> e = bad_alloc) \<and> (\<exists>k. val m'' ((cs @ [ch]) @ take k inp))
        | UB \<Rightarrow> False"
        by (rule Cons.IH) (use True Cons.prems c ok in auto)
      have "extract_loop is_space push (ch # inp) c n m = extract_loop is_space push inp (c + 1) n m'"
        using True ok by simp
      then show ?thesis
        using IH True c(2) by (auto simp: Let_def split: outcome.splits intro: exI [of _ "Suc _"])
    next
      case throws: (2 e m')
      then show ?thesis using True by (auto intro: exI [of _ 0])
    qed
  qed
qed


lemma getline_loop_val:
  assumes "val m cs"
  shows "case getline_loop dlm push len inp extr m of
      Ok (rest, extr', eof, full) m' \<Rightarrow>
        (let line = takeWhile (\<lambda>ch. ch \<noteq> dlm) inp in
         if full then \<exists>xs. length xs \<le> length line \<and> val m' (cs @ xs) \<and> of_nat (length (cs @ xs)) = max_size
         else val m' (cs @ line) \<and> rest = drop (length line + 1) inp \<and> (eof \<longleftrightarrow> dlm \<notin> set inp) \<and>
           extr' = extr + int (length line) + (if eof then 0 else 1))
    | Throw e m' \<Rightarrow> (e = length_error \<or> e = bad_alloc) \<and> (\<exists>k. val m' (cs @ take k inp))
    | UB \<Rightarrow> False"
  using assms
proof (induction inp arbitrary: m cs extr)
  case Nil
  then show ?case by simp
next
  case (Cons ch inp)
  show ?case
  proof (cases "ch = dlm")
    case True
    then show ?thesis using Cons by simp
  next
    case False
    show ?thesis
    proof (cases rule: push_cases [OF Cons.prems, of ch])
      case ok: (1 m')
      note IH = Cons.IH [OF ok(2), of "extr + 1"]
      have sz: "len m' = Ok (of_nat (length (cs @ [ch]))) m'" using len_contract [OF ok(2)] .
      show ?thesis
      proof (cases "of_nat (length (cs @ [ch])) = max_size")
        case True
        then show ?thesis using ok False sz by (auto simp: Let_def add.commute intro!: exI [of _ "[ch]"])
      next
        case nm: False
        have "getline_loop dlm push len (ch # inp) extr m = getline_loop dlm push len inp (extr + 1) m'"
          using False ok sz nm by simp
        then show ?thesis
          using IH False
          by (cases "getline_loop dlm push len inp (extr + 1) m'")
            (force simp: Let_def ac_simps split: if_splits intro: exI [of _ "ch # _"] exI [of _ "Suc _"])+
      qed
    next
      case throws: (2 e m')
      then show ?thesis using False by (auto intro: exI [of _ 0])
    qed
  qed
qed

end

section \<open>Stream input into a \<^verbatim>\<open>crossbow::string\<close>\<close>

interpretation sink: string_sink "\<lambda>m cs. str_at m str cs \<and> only_touches m0 str m" "push_back str" "clear str" "str_size str"
  for str m0
proof
  fix m cs c
  assume v: "str_at m str cs \<and> only_touches m0 str m"
  show "case push_back str c m of
      Ok x m' \<Rightarrow> str_at m' str (cs @ [c]) \<and> only_touches m0 str m'
    | Throw e m' \<Rightarrow> (e = length_error \<or> e = bad_alloc) \<and> str_at m' str cs \<and> only_touches m0 str m'
    | UB \<Rightarrow> False"
  proof (cases "push_back str c m")
    case (Ok x m')
    then show ?thesis
      using push_back_updates [of m str cs c] v only_touches_trans [of m0 str m m'] by (simp add: updates_def)
  next
    case (Throw e m')
    then have b: "blocks m' = blocks m" and e: "e = length_error \<or> e = bad_alloc"
      using push_back_updates [of m str cs c] v by (simp_all add: updates_def)
    have "only_touches m str m'" using only_touches_refl [OF b] str_at_owned v by blast
    then show ?thesis
      using Throw e v str_at_blocks_cong(1) [OF b] only_touches_trans [of m0 str m m'] by simp
  next
    case UB
    then show ?thesis using push_back_updates [of m str cs c] v by (simp add: updates_def)
  qed
  obtain m' where "clear str m = Ok () m'" using clear_updates(2) v by blast
  then show "\<exists>m'. clear str m = Ok () m' \<and> str_at m' str [] \<and> only_touches m0 str m'"
    using clear_updates(1) [of m str cs] v only_touches_trans [of m0 str m m'] by (simp add: updates_def)
  show "str_size str m = Ok (of_nat (length cs)) m"
    using v by (metis str_atE hdr_str_size)
qed

lemma stream_extract_spec:
  fixes strm :: istream and is_space :: "byte \<Rightarrow> bool"
  assumes s: "str_at m str old"
  defines "n \<equiv> if width strm \<le> 0 then unat max_size else nat (width strm)"
  defines "tok \<equiv> take n (takeWhile (\<lambda>ch. \<not> is_space ch) (rdbuf strm))"
  shows "case stream_extract is_space True strm str m of
      Ok strm' m' \<Rightarrow> str_at m' str tok \<and> only_touches m str m' \<and> rdbuf strm' = drop (length tok) (rdbuf strm) \<and>
        (failbit strm' \<longleftrightarrow> failbit strm \<or> tok = []) \<and>
        (eofbit strm' \<longleftrightarrow> eofbit strm \<or> length tok = length (rdbuf strm) \<and> length tok < n)
    | Throw e m' \<Rightarrow> (e = length_error \<or> e = bad_alloc) \<and> only_touches m str m'
    | UB \<Rightarrow> False"
proof -
  obtain m1 where m1: "clear str m = Ok () m1" "str_at m1 str []" "only_touches m str m1"
    using sink.empty_contract [where m0 = m and m = m and cs = old and str = str] s only_touches_refl [OF refl str_at_owned [OF s]] by blast
  let ?n = "if width strm \<le> 0 then uint max_size else width strm"
  have n: "nat ?n = n" "0 \<le> ?n" by (auto simp: n_def)
  have L: "case extract_loop is_space (push_back str) (rdbuf strm) 0 ?n m1 of
      Ok (rest, c', eof) m' \<Rightarrow>
        (let tok = take (nat (?n - 0)) (takeWhile (\<lambda>ch. \<not> is_space ch) (rdbuf strm)) in
         (str_at m' str ([] @ tok) \<and> only_touches m str m') \<and> rest = drop (length tok) (rdbuf strm) \<and>
         c' = 0 + int (length tok) \<and> (eof \<longleftrightarrow> rest = [] \<and> c' < ?n))
    | Throw e m' \<Rightarrow> (e = length_error \<or> e = bad_alloc) \<and> (\<exists>k. str_at m' str ([] @ take k (rdbuf strm)) \<and> only_touches m str m')
    | UB \<Rightarrow> False"
    by (rule sink.extract_loop_val) (use m1 n in auto)
  have lt: "length tok \<le> length (rdbuf strm)"
    unfolding tok_def using length_takeWhile_le [of "\<lambda>ch. \<not> is_space ch" "rdbuf strm"] by simp
  have nn: "int (length tok) < ?n \<longleftrightarrow> length tok < n" using n by linarith
  have run: "stream_extract is_space True strm str m = bindM (extract_loop is_space (push_back str) (rdbuf strm) 0 ?n)
      (\<lambda>(rest, c, eof). ret (strm\<lparr>rdbuf := rest, width := 0, eofbit := eofbit strm \<or> eof, failbit := failbit strm \<or> c = 0\<rparr>)) m1"
    using m1(1) by (simp add: stream_extract_def Let_def)
  show ?thesis
  proof (cases "extract_loop is_space (push_back str) (rdbuf strm) 0 ?n m1")
    case (Ok r m')
    obtain rest c eof where r: "r = (rest, c, eof)" by (cases r)
    show ?thesis
      unfolding run using Ok L lt nn n(1) r by (auto simp: Let_def tok_def [symmetric])
  next
    case (Throw e m')
    then show ?thesis unfolding run using L by auto
  next
    case UB
    then show ?thesis using L by simp
  qed
qed


lemma getline_spec:
  fixes strm :: istream and dlm :: byte
  assumes s: "str_at m str old"
  defines "line \<equiv> takeWhile (\<lambda>ch. ch \<noteq> dlm) (rdbuf strm)"
  assumes short: "length line < unat max_size"
  shows "case getline_dlm dlm True strm str m of
      Ok strm' m' \<Rightarrow> str_at m' str line \<and> only_touches m str m' \<and>
        rdbuf strm' = drop (length line + 1) (rdbuf strm) \<and>
        (failbit strm' \<longleftrightarrow> failbit strm \<or> rdbuf strm = []) \<and> (eofbit strm' \<longleftrightarrow> eofbit strm \<or> dlm \<notin> set (rdbuf strm))
    | Throw e m' \<Rightarrow> (e = length_error \<or> e = bad_alloc) \<and> only_touches m str m'
    | UB \<Rightarrow> False"
proof -
  obtain m1 where m1: "clear str m = Ok () m1" "str_at m1 str []" "only_touches m str m1"
    using sink.empty_contract [where m0 = m and m = m and cs = old and str = str] s only_touches_refl [OF refl str_at_owned [OF s]] by blast
  let ?loop = "getline_loop dlm (push_back str) (str_size str) (rdbuf strm) 0"
  have L: "case ?loop m1 of
      Ok (rest, extr', eof, full) m' \<Rightarrow>
        (let line = takeWhile (\<lambda>ch. ch \<noteq> dlm) (rdbuf strm) in
         if full then \<exists>xs. length xs \<le> length line \<and> (str_at m' str ([] @ xs) \<and> only_touches m str m') \<and>
             of_nat (length ([] @ xs)) = max_size
         else (str_at m' str ([] @ line) \<and> only_touches m str m') \<and> rest = drop (length line + 1) (rdbuf strm) \<and>
           (eof \<longleftrightarrow> dlm \<notin> set (rdbuf strm)) \<and> extr' = 0 + int (length line) + (if eof then 0 else 1))
    | Throw e m' \<Rightarrow> (e = length_error \<or> e = bad_alloc) \<and> (\<exists>k. str_at m' str ([] @ take k (rdbuf strm)) \<and> only_touches m str m')
    | UB \<Rightarrow> False"
    by (rule sink.getline_loop_val) (use m1 in auto)
  have run: "getline_dlm dlm True strm str m = bindM ?loop (\<lambda>(rest, extr, eof, full).
      ret (strm\<lparr>rdbuf := rest, eofbit := eofbit strm \<or> eof, failbit := failbit strm \<or> full \<or> extr = 0\<rparr>)) m1"
    using m1(1) by (simp add: getline_dlm_def)
  have nf: "of_nat (length xs) \<noteq> max_size" if "length xs \<le> length line" for xs :: "byte list"
  proof
    assume "of_nat (length xs) = max_size"
    then have "length xs = unat max_size"
      using that short unat_max_size unat_of_nat_u64 [of "length xs"] by simp
    then show False using that short by simp
  qed
  show ?thesis
  proof (cases "?loop m1")
    case (Ok r m')
    obtain rest c eof full where r: "r = (rest, c, eof, full)" by (cases r)
    have "\<not> full" using Ok L r nf by (auto simp: Let_def line_def [symmetric])
    moreover have "line = [] \<and> dlm \<notin> set (rdbuf strm) \<longleftrightarrow> rdbuf strm = []"
      by (cases "rdbuf strm") (auto simp: line_def)
    ultimately show ?thesis
      unfolding run using Ok L r by (auto simp: Let_def line_def [symmetric])
  next
    case (Throw e m')
    then show ?thesis unfolding run using L by auto
  next
    case UB
    then show ?thesis using L by simp
  qed
qed

end
