(* ===== verification/Bstring_Spec.thy ===== *)
theory Bstring_Spec
  imports Bstring_Stream
begin

text \<open>
  The properties of \<^verbatim>\<open>crossbow::string\<close>, each with a run on a concrete memory where it applies.
\<close>

section \<open>A concrete memory\<close>

text \<open>
  Two uninitialised objects, a string in its buffer, a string on the heap with its block, and a
  C string. The allocator hands out the addresses from \<open>0x1000\<close> on.
\<close>

definition heap_text :: "byte list" where
  "heap_text = replicate 40 120"

definition ex_blocks :: "(u64 \<times> byte list) list" where
  "ex_blocks =
    [(0x100, replicate 32 7),
     (0x200, [3, 97, 98, 99] @ replicate 28 0),
     (0x300, [127, 0, 0, 0, 0, 0, 0, 0] @ le_bytes 8 (40 :: u64) @ le_bytes 8 (60 :: u64) @ le_bytes 8 (0x400 :: u64)),
     (0x400, heap_text @ replicate 21 0),
     (0x500, [104, 105, 0]),
     (0x600, replicate 32 9)]"

definition ex_mem :: mem where
  "ex_mem = \<lparr>blocks = map_of ex_blocks, next_addr = (\<lambda>n. Some (0x1000 + of_nat n)), tick = 0, junk = (\<lambda>_. 0xAA)\<rparr>"

lemmas ex_defs = ex_mem_def ex_blocks_def heap_text_def

lemma ex_raw: "raw_at ex_mem 0x100"
  by (simp add: raw_at_def ex_defs offset_defs)

lemma ex_raw2: "raw_at ex_mem 0x600"
  by (simp add: raw_at_def ex_defs offset_defs)

lemma ex_small: "hdr ex_mem 0x200 3 30 0x200 1 ([3, 97, 98, 99] @ replicate 28 0)"
  by (simp add: hdr_def ex_defs offset_defs nullchar_def)

lemma ex_small_str: "str_at ex_mem 0x200 [97, 98, 99]" "owned ex_mem 0x200 = {0x200}"
proof -
  show "str_at ex_mem 0x200 [97, 98, 99]"
    by (rule str_atI [where bs = "[3, 97, 98, 99] @ replicate 28 0" and off = 1 and cap = 30 and b = "0x200"])
      (use ex_small in \<open>simp_all add: numeral_3_eq_3\<close>)
  show "owned ex_mem 0x200 = {0x200}" using hdr_bounds(6) [OF ex_small] by simp
qed

lemma ex_heap: "hdr ex_mem 0x300 40 60 0x400 0 (heap_text @ replicate 21 0)"
proof (rule heap_hdrI)
  let ?a = "[127, 0, 0, 0, 0, 0, 0, 0] @ le_bytes 8 (40 :: u64) @ le_bytes 8 (60 :: u64) @ le_bytes 8 (0x400 :: u64) :: byte list"
  show "blocks ex_mem 0x300 = Some ?a" "blocks ex_mem 0x400 = Some (heap_text @ replicate 21 0)"
    by (simp_all add: ex_defs)
  show "length ?a = 32" "?a ! 0 = nullchar" by (simp_all add: nullchar_def)
  show "of_le_bytes (take 8 (drop 8 ?a)) = (of_nat 40 :: u64)" "of_le_bytes (take 8 (drop 16 ?a)) = (of_nat 60 :: u64)"
    "of_le_bytes (take 8 (drop 24 ?a)) = (0x400 :: u64)"
    by code_simp+
qed (simp_all add: heap_text_def unat_alloc_max_size)

lemma ex_heap_str: "str_at ex_mem 0x300 heap_text" "owned ex_mem 0x300 = {0x300, 0x400}"
proof -
  have l: "length heap_text = 40" by (simp add: heap_text_def)
  show "str_at ex_mem 0x300 heap_text"
  proof (rule str_atI)
    show "hdr ex_mem 0x300 (length heap_text) 60 0x400 0 (heap_text @ replicate 21 0)" using ex_heap l by simp
    show "(heap_text @ replicate 21 0) ! (0 + length heap_text) = 0" by (simp add: nth_append)
  qed simp
  show "owned ex_mem 0x300 = {0x300, 0x400}" using hdr_bounds(6) [OF ex_heap] .
qed

lemma ex_cstr: "cstr_at ex_mem (0x500, 0) [104, 105]"
  by (simp add: cstr_at_def reads_def ex_defs)

section \<open>Construction\<close>

text \<open>
  C1: every constructor turns 32 uninitialised bytes into the string it is asked for, in the buffer
  up to 30 characters and otherwise on the heap. It changes no other object, owns what it
  allocated, and may only fail with \<^verbatim>\<open>std::bad_alloc\<close> when it needs the heap.
\<close>

theorem constructors_correct:
  assumes "raw_at m this"
    and "n < 2 ^ 64 - 1"
    and "reads m (b, i) cs" "b \<noteq> this" "length cs < 2 ^ 64 - 1"
    and "cstr_at m z zs" "fst z \<noteq> this" "length zs < 2 ^ 64 - 1"
    and "str_at m other os" "this \<notin> owned m other" "unat pos \<le> length os"
  shows "constructs (ctor_default this) m this [] \<and>
    constructs (ctor_fill this (of_nat n) c) m this (replicate n c) \<and>
    constructs (ctor_ptr_count this (b, i) (of_nat (length cs))) m this cs \<and>
    constructs (ctor_range this (b, i) (b, i + length cs)) m this cs \<and>
    constructs (ctor_ilist this (b, i) (of_nat (length cs))) m this cs \<and>
    constructs (ctor_cstr this z) m this zs \<and>
    constructs (ctor_copy this other) m this os \<and>
    constructs (ctor_substr this other pos count) m this (take (unat count) (drop (unat pos) os))"
  using assms ctor_default_constructs ctor_fill_constructs ctor_ptr_count_constructs [of m this "(b, i)"]
    ctor_range_constructs ctor_ilist_constructs [of m this "(b, i)"] ctor_cstr_constructs ctor_copy_constructs ctor_substr_constructs
  by simp

theorem constructors_correct_witness:
  "constructs (ctor_default 0x100) ex_mem 0x100 [] \<and>
   constructs (ctor_copy 0x100 0x300) ex_mem 0x100 heap_text \<and>
   constructs (ctor_cstr 0x100 (0x500, 0)) ex_mem 0x100 [104, 105]"
proof -
  have "reads ex_mem (0x500, 0) [104]" by (simp add: reads_def ex_defs)
  then show ?thesis
    using constructors_correct [of ex_mem "0x100" 50 "0x500" 0 "[104]" "(0x500, 0)" "[104, 105]" "0x300" heap_text 2 0 "-1"]
      ex_raw ex_cstr ex_heap_str
    by (simp add: heap_text_def)
qed


text \<open>Two strings without a common block can be destroyed one after the other.\<close>

lemma move_destroy:
  assumes "str_at m a as" "str_at m b bs" "owned m a \<inter> owned m b = {}"
  shows "\<exists>m1 m2. dtor a m = Ok () m1 \<and> dtor b m1 = Ok () m2 \<and>
    dom (blocks m2) = dom (blocks m) - (owned m a - {a}) - (owned m b - {b})"
proof -
  obtain m1 where m1: "dtor a m = Ok () m1" "dom (blocks m1) = dom (blocks m) - (owned m a - {a})"
    "\<And>c. c \<notin> owned m a \<Longrightarrow> blocks m1 c = blocks m c"
    using dtor_ok [OF assms(1)] by metis
  obtain cap d off bytes where h: "hdr m b (length bs) cap d off bytes" and c: "take (length bs) (drop off bytes) = bs" "bytes ! (off + length bs) = 0"
    using assms(2) by (rule str_atE)
  have o: "owned m b = {b, d}" using hdr_bounds(6) [OF h] .
  have h1: "hdr m1 b (length bs) cap d off bytes" using h by (rule hdr_frame) (use m1(3) assms(3) o in auto)
  then have "str_at m1 b bs" "owned m1 b = owned m b" using c o hdr_bounds(6) [OF h1] by (auto intro: str_atI)
  then obtain m2 where "dtor b m1 = Ok () m2" "dom (blocks m2) = dom (blocks m1) - (owned m b - {b})"
    using dtor_ok by metis
  then show ?thesis using m1 by blast
qed

text \<open>
  C2: the move constructor hands over the characters and leaves an empty string behind that owns no block.
  When both objects are destroyed afterwards, in either order, the heap block of the string is given back
  exactly once and no other block is freed: a second deallocation would be undefined.
\<close>

theorem move_then_destroy:
  assumes "raw_at m this" "str_at m other cs" "this \<notin> owned m other"
  shows "\<exists>m1. ctor_move this other m = Ok () m1 \<and> str_at m1 this cs \<and> str_at m1 other [] \<and>
    owned m1 this = insert this (owned m other - {other}) \<and> owned m1 other = {other} \<and> dom (blocks m1) = dom (blocks m) \<and>
    (\<exists>m2 m3. dtor this m1 = Ok () m2 \<and> dtor other m2 = Ok () m3 \<and> dom (blocks m3) = dom (blocks m) - (owned m other - {other})) \<and>
    (\<exists>m2 m3. dtor other m1 = Ok () m2 \<and> dtor this m2 = Ok () m3 \<and> dom (blocks m3) = dom (blocks m) - (owned m other - {other}))"
proof -
  obtain m1 where m1: "ctor_move this other m = Ok () m1" "str_at m1 this cs" "str_at m1 other []"
    "owned m1 other = {other}" "owned m1 this = insert this (owned m other - {other})"
    "\<And>c. c \<noteq> this \<Longrightarrow> c \<noteq> other \<Longrightarrow> blocks m1 c = blocks m c"
    by (rule ctor_move_ok [OF assms]) (rule that)
  have "this \<in> dom (blocks m1)" "other \<in> dom (blocks m1)" "this \<in> dom (blocks m)" "other \<in> dom (blocks m)"
    using str_at_owned [OF m1(2)] str_at_owned [OF m1(3)] m1(4,5) assms(1) hdr_bounds(7) str_atE [OF assms(2)]
    by (auto simp: raw_at_def domIff) (metis hdr_bounds(7) str_atE [OF assms(2)] option.distinct(1))
  then have d: "dom (blocks m1) = dom (blocks m)"
    using m1(6) by (auto simp: domIff) metis+
  have ne: "this \<noteq> other" using assms(2,3) by (metis hdr_bounds(6) insertI1 str_atE)
  then have dis: "owned m1 this \<inter> owned m1 other = {}" "owned m1 other \<inter> owned m1 this = {}" using m1(4,5) by auto
  have "\<exists>m2 m3. dtor this m1 = Ok () m2 \<and> dtor other m2 = Ok () m3 \<and> dom (blocks m3) = dom (blocks m) - (owned m other - {other})"
    using move_destroy [OF m1(2,3) dis(1)] m1(4,5) d assms(3) by simp
  moreover have "\<exists>m2 m3. dtor other m1 = Ok () m2 \<and> dtor this m2 = Ok () m3 \<and> dom (blocks m3) = dom (blocks m) - (owned m other - {other})"
    using move_destroy [OF m1(3,2) dis(2)] m1(4,5) d assms(3) by simp
  ultimately show ?thesis using m1(1-5) d by blast
qed

theorem move_then_destroy_witness:
  "\<exists>m1 m2 m3. ctor_move 0x100 0x300 ex_mem = Ok () m1 \<and> str_at m1 0x100 heap_text \<and> str_at m1 0x300 [] \<and>
    dtor 0x100 m1 = Ok () m2 \<and> dtor 0x300 m2 = Ok () m3 \<and> dom (blocks m3) = dom (blocks ex_mem) - {0x400}"
proof -
  have "owned ex_mem 0x300 - {0x300} = {0x400}" using ex_heap_str(2) by auto
  then show ?thesis using move_then_destroy [OF ex_raw ex_heap_str(1)] ex_heap_str(2) by auto
qed

section \<open>Assignment and capacity\<close>

text \<open>
  C3: every assignment stores the assigned characters, touches no object of another string, frees
  what it no longer uses, and leaves everything as it was when memory runs out. Assigning a
  string to itself is allowed. The move assignment frees the old block, takes over the other one and leaves an empty
  string. The assignment of a part of a string is for \<open>pos + count\<close> below \<open>2 ^ 64\<close>; the code adds them
  without a check.
\<close>

theorem assignments_correct:
  assumes "str_at m this old" "n < 2 ^ 64"
    and "reads m (b, i) cs" "b \<notin> owned m this" "length cs < 2 ^ 64"
    and "cstr_at m z zs" "fst z \<notin> owned m this" "length zs < 2 ^ 64"
    and "str_at m other os" "owned m other \<inter> owned m this = {}"
    and "unat pos \<le> length os" "unat pos + unat count < 2 ^ 64"
  shows "updates (assign_copy this other) m this os \<and> updates (assign_copy this this) m this old \<and>
    updates (assign_fill this (of_nat n) c) m this (replicate n c) \<and>
    updates (assign_char this c) m this [c] \<and>
    updates (assign_ptr this (b, i) (of_nat (length cs))) m this cs \<and>
    updates (assign_ilist this (b, i) (of_nat (length cs))) m this cs \<and>
    updates (assign_range this (b, i) (b, i + length cs)) m this cs \<and>
    updates (assign_cstr this z) m this zs \<and>
    updates (assign_sub this other pos count) m this (take (unat count) (drop (unat pos) os)) \<and>
    (\<exists>m'. assign_move this other m = Ok () m' \<and> str_at m' this os \<and> str_at m' other [] \<and> owned m' other = {other} \<and>
      owned m' this = insert this (owned m other - {other}) \<and> dom (blocks m') = dom (blocks m) - (owned m this - {this}) \<and>
      (\<forall>c. c \<notin> insert other (owned m this) \<longrightarrow> blocks m' c = blocks m c))"
proof -
  obtain m' where "assign_move this other m = Ok () m'" "str_at m' this os" "str_at m' other []" "owned m' other = {other}"
    "owned m' this = insert this (owned m other - {other})" "dom (blocks m') = dom (blocks m) - (owned m this - {this})"
    "\<And>c. c \<notin> owned m this \<Longrightarrow> c \<noteq> other \<Longrightarrow> blocks m' c = blocks m c"
    by (rule assign_move_ok [OF assms(1,9,10)]) (rule that)
  then show ?thesis
  using assms assign_copy_updates [OF assms(1,9)] assign_copy_updates [OF assms(1,1)]
    assign_fill_updates [OF assms(1,2)] assign_char_updates [OF assms(1)]
    assign_ptr_updates [OF assms(1,3) _ assms(5)] assign_ilist_updates [OF assms(1,3) _ assms(5)]
    assign_range_updates [OF assms(1,3) _ assms(5)] assign_cstr_updates [OF assms(1,6,7,8)]
    assign_sub_updates [OF assms(1,9,10,11,12)]
  by simp
qed

theorem assignments_correct_witness:
  "updates (assign_copy 0x200 0x300) ex_mem 0x200 heap_text \<and>
   updates (assign_sub 0x200 0x300 2 3) ex_mem 0x200 (replicate 3 120)"
proof -
  have "reads ex_mem (0x500, 0) [104]" by (simp add: reads_def ex_defs)
  then show ?thesis
    using assignments_correct [of ex_mem "0x200" "[97, 98, 99]" 5 "0x500" 0 "[104]" "(0x500, 0)" "[104, 105]" "0x300" heap_text 2 3 0]
      ex_small_str ex_cstr ex_heap_str
    by (simp add: heap_text_def)
qed

text \<open>
  C4: \<^verbatim>\<open>reserve\<close> keeps the string and, when it returns, has made room for the requested number of
  characters; \<^verbatim>\<open>shrink_to_fit\<close> keeps it and leaves the capacity at the larger of the size and the
  30 characters of the buffer.
\<close>

theorem capacity_operations:
  assumes "str_at m this cs"
  shows "keeps (reserve this n) m this cs (growth_fails m this (unat n)) \<and>
    (\<forall>m'. reserve this n m = Ok () m' \<longrightarrow> (\<exists>c. capacity this m' = Ok c m' \<and> n \<le> c)) \<and>
    keeps (shrink_to_fit this) m this cs (\<not> heap_ready m (length cs + 1)) \<and>
    (\<forall>m'. shrink_to_fit this m = Ok () m' \<longrightarrow> capacity this m' = Ok (of_nat (max 30 (length cs))) m')"
proof -
  have "\<exists>c. capacity this m' = Ok c m' \<and> n \<le> c" if "reserve this n m = Ok () m'" for m'
  proof (cases rule: reserve_str [OF assms, of n])
    case (1 m1 cap b off bs)
    then have "m' = m1" using that by simp
    then show ?thesis
      using 1(5) hdr_capacity [OF 1(2)] hdr_unat(2) [OF 1(2)] by (auto simp: word_le_nat_alt)
  next
    case (2 e m1)
    then show ?thesis using that by simp
  qed
  then show ?thesis
    using reserve_keeps [OF assms] shrink_to_fit_keeps [OF assms] by blast
qed

theorem capacity_operations_witness:
  "keeps (reserve 0x200 100) ex_mem 0x200 [97, 98, 99] (growth_fails ex_mem 0x200 (unat (100 :: u64))) \<and>
   keeps (shrink_to_fit 0x300) ex_mem 0x300 heap_text (\<not> heap_ready ex_mem (length heap_text + 1))"
  using capacity_operations [OF ex_small_str(1)] capacity_operations [OF ex_heap_str(1)] by blast

section \<open>Editing\<close>

text \<open>
  C5: an insertion puts the new characters at the index and moves the rest back, whatever the
  overlap of the two ranges; an append is an insertion at the end. Both keep the string when
  memory runs out.
\<close>

theorem insertion_correct:
  assumes "str_at m this old" "unat index \<le> length old" "length old + n < 2 ^ 64"
    and "reads m p cs" "fst p \<notin> owned m this" "length old + length cs < 2 ^ 64"
    and "str_at m str xs" "owned m str \<inter> owned m this = {}" "unat pos \<le> length xs"
  shows "updates (insert_fill this index (of_nat n) c) m this
      (take (unat index) old @ replicate n c @ drop (unat index) old) \<and>
    updates (insert_ptr this index p (of_nat (length cs))) m this
      (take (unat index) old @ cs @ drop (unat index) old) \<and>
    updates (insert_str this index str) m this (take (unat index) old @ xs @ drop (unat index) old) \<and>
    updates (insert_sub this index str pos count) m this
      (take (unat index) old @ take (unat count) (drop (unat pos) xs) @ drop (unat index) old) \<and>
    updates (append_fill this (of_nat n) c) m this (old @ replicate n c) \<and>
    updates (append_ptr this p (of_nat (length cs))) m this (old @ cs) \<and>
    updates (append_str this str) m this (old @ xs)"
  using insert_fill_updates [OF assms(1-3)] insert_ptr_updates [OF assms(1,2,6,4,5)]
    insert_str_updates [OF assms(1,2,7,8)] insert_sub_updates [OF assms(1,2,7-9)]
    append_fill_updates [OF assms(1,3)] append_ptr_updates(1) [OF assms(1,6,4,5)]
    append_str_updates [OF assms(1,7,8)]
  by blast

theorem insertion_correct_witness:
  "updates (insert_fill 0x200 1 (of_nat 2) 33) ex_mem 0x200 ([97] @ replicate 2 33 @ [98, 99]) \<and>
   updates (append_str 0x200 0x300) ex_mem 0x200 ([97, 98, 99] @ heap_text)"
proof -
  have "reads ex_mem (0x500, 0) [104]" by (simp add: reads_def ex_defs)
  then show ?thesis
    using insertion_correct [of ex_mem "0x200" "[97, 98, 99]" 1 2 "(0x500, 0)" "[104]" "0x300" heap_text 0 33]
      ex_small_str ex_heap_str
    by simp
qed

text \<open>
  C6: \<^verbatim>\<open>clear\<close>, \<^verbatim>\<open>erase\<close>, \<^verbatim>\<open>push_back\<close> and, on a string that is not empty, \<^verbatim>\<open>pop_back\<close> compute the string
  they promise. Erasing takes a count beyond the end to mean the rest of the string.
\<close>

theorem erase_push_pop_correct:
  assumes "str_at m this cs" "unat index \<le> length cs"
  shows "updates (clear this) m this [] \<and>
    updates (erase_pos this index count) m this (take (unat index) cs @ drop (unat index + unat count) cs) \<and>
    updates (push_back this c) m this (cs @ [c]) \<and>
    (cs \<noteq> [] \<longrightarrow> updates (pop_back this) m this (butlast cs))"
  using clear_updates(1) [OF assms(1)] erase_pos_updates [OF assms] push_back_updates [OF assms(1), of c]
    pop_back_updates [of m this "butlast cs" "last cs"] assms(1)
  by simp

theorem erase_push_pop_correct_witness:
  "updates (erase_pos 0x200 1 npos) ex_mem 0x200 [97] \<and> updates (push_back 0x200 33) ex_mem 0x200 [97, 98, 99, 33] \<and>
   updates (pop_back 0x200) ex_mem 0x200 [97, 98]"
  using erase_push_pop_correct [of ex_mem "0x200" "[97, 98, 99]" 1 npos 33] ex_small_str(1)
  by (simp add: unat_npos)

text \<open>
  C7: a replacement swaps the characters of a position range for others, also when the lengths
  differ. If it has to grow and cannot, the string keeps its length and holds the part that was
  overwritten before.
\<close>

theorem replacement_correct:
  assumes "str_at m this old" "unat pos \<le> length old" "unat pos + unat count < 2 ^ 64"
    and "reads m q cs" "fst q \<notin> owned m this" "length old + length cs < 2 ^ 64"
    and "str_at m str xs" "owned m str \<inter> owned m this = {}"
  shows "let j = min (length old) (unat pos + unat count) in
    edits (replace_ptr this pos count q (of_nat (length cs))) m this
      (take (unat pos) old @ cs @ drop j old) (take (unat pos) old @ take (j - unat pos) cs @ drop j old) \<and>
    edits (replace_str this pos count str) m this
      (take (unat pos) old @ xs @ drop j old) (take (unat pos) old @ take (j - unat pos) xs @ drop j old) \<and>
    updates (resize_fill this n c) m this (take (unat n) old @ replicate (unat n - length old) c)"
  unfolding Let_def
  using replace_ptr_edits [OF assms(1-3,6,4,5)] replace_str_edits [OF assms(1-3,7,8)] resize_updates [OF assms(1)]
  by blast

theorem replacement_correct_witness:
  "edits (replace_str 0x200 1 1 0x300) ex_mem 0x200 ([97] @ heap_text @ [99]) ([97] @ take 1 heap_text @ [99])"
proof -
  have "reads ex_mem (0x500, 0) [104]" by (simp add: reads_def ex_defs)
  then show ?thesis
    using replacement_correct [of ex_mem "0x200" "[97, 98, 99]" 1 1 "(0x500, 0)" "[104]" "0x300" heap_text 0 0]
      ex_small_str ex_heap_str
    by (simp add: heap_text_def)
qed

text \<open>
  C8: a position beyond the end is reported by \<^verbatim>\<open>std::out_of_range\<close> before anything changes.
\<close>

theorem positions_checked:
  assumes "str_at m this cs" "length cs < unat pos"
  shows "insert_fill this pos n c m = Throw out_of_range m \<and> insert_ptr this pos p n m = Throw out_of_range m \<and>
    erase_pos this pos n m = Throw out_of_range m \<and> at_ref this pos m = Throw out_of_range m \<and>
    ctor_substr out this pos n m = Throw out_of_range m \<and> assign_sub out this pos n m = Throw out_of_range m \<and>
    copy_out this p n pos m = Throw out_of_range m \<and> replace_str this pos n str m = Throw out_of_range m \<and>
    compare_ptr this pos n p k m = Throw out_of_range m"
proof -
  obtain cap b off bs where h: "hdr m this (length cs) cap b off bs" using assms(1) by (rule str_atE)
  show ?thesis
    using insert_out_of_range [OF assms] erase_pos_out_of_range [OF assms] ctor_substr_out_of_range [OF assms]
      at_ref_spec(2) [OF assms(1), of pos] assign_sub_out_of_range [OF assms] assms(2) h hdr_unat(1) [OF h]
    by (simp add: copy_out_def replace_str_def compare_ptr_def hdr_str_size word_less_nat_alt)
qed

theorem positions_checked_witness:
  "insert_fill 0x200 4 7 33 ex_mem = Throw out_of_range ex_mem \<and> erase_pos 0x200 4 7 ex_mem = Throw out_of_range ex_mem"
  using positions_checked [OF ex_small_str(1), of 4 7 33 "(0, 0)" 0 0 0] by simp

section \<open>Searching\<close>

text \<open>
  C9: the searches return the first (last) index where the condition holds and \<open>npos\<close> otherwise, for every
  position. The search for a substring does not look at the last position where it would fit, and is only
  defined when the substring fits behind the position or the position is beyond the end. \<^verbatim>\<open>rfind\<close> may read the
  terminator, so its statement is about a substring without it. \<^verbatim>\<open>find_last_of\<close> and \<^verbatim>\<open>find_last_not_of\<close> leave
  out the last \<open>pos\<close> characters, or none when \<open>pos\<close> is not below the size.
\<close>

theorem searches_correct:
  assumes "str_at m this cs" "reads m p xs" "length xs < 2 ^ 64"
  shows "(length cs \<le> unat pos \<longrightarrow> find_ptr this p pos (of_nat (length xs)) m = Ok npos m) \<and>
    (unat pos < length cs \<and> unat pos + length xs \<le> length cs \<longrightarrow>
      find_ptr this p pos (of_nat (length xs)) m =
        Ok (index_of (List.find (\<lambda>j. take (length xs) (drop j cs) = xs) [unat pos..<length cs - length xs])) m) \<and>
    (0 \<notin> set xs \<longrightarrow> rfind_ptr this p pos (of_nat (length xs)) m =
      Ok (index_of (List.find (\<lambda>j. j + length xs \<le> length cs \<and> take (length xs) (drop j cs) = xs) (rev [0..<Suc (min (unat pos) (length cs))]))) m) \<and>
    find_char this ch pos m = Ok (index_of (List.find (\<lambda>j. cs ! j = ch) [unat pos..<length cs])) m \<and>
    find_first_of_ptr this p pos (of_nat (length xs)) m =
      Ok (index_of (List.find (\<lambda>j. cs ! j \<in> set xs) [unat pos..<length cs])) m \<and>
    find_first_not_of_ptr this p pos (of_nat (length xs)) m =
      Ok (index_of (List.find (\<lambda>j. cs ! j \<notin> set xs) [unat pos..<length cs])) m \<and>
    find_last_of_ptr this p pos (of_nat (length xs)) m =
      Ok (index_of (List.find (\<lambda>j. cs ! j \<in> set xs) (rev [0..<length cs - (if length cs \<le> unat pos then 0 else unat pos)]))) m \<and>
    find_last_not_of_ptr this p pos (of_nat (length xs)) m =
      Ok (index_of (List.find (\<lambda>j. cs ! j \<notin> set xs) (rev [0..<length cs - (if length cs \<le> unat pos then 0 else unat pos)]))) m"
  by (intro conjI impI)
    (use find_ptr_beyond [OF assms(1)] find_ptr_spec [OF assms(1,2)] rfind_ptr_spec [OF assms(1,2) _ assms(3)]
      find_first_spec [OF assms] find_last_spec [OF assms] in blast)+

theorem searches_correct_witness:
  "find_ptr 0x200 (0x200, 2) 0 1 ex_mem = Ok 1 ex_mem \<and> find_char 0x200 99 0 ex_mem = Ok 2 ex_mem"
proof -
  have "reads ex_mem (0x200, 2) [98]" by (simp add: reads_def ex_defs)
  then show ?thesis
    using searches_correct [of ex_mem "0x200" "[97, 98, 99]" "(0x200, 2)" "[98]" 0 99] ex_small_str(1)
    by (simp add: index_of_def upt_rec)
qed

section \<open>Order and concatenation\<close>

text \<open>
  C10: the relational operators are the lexicographic order of the characters, as unsigned bytes,
  for strings whose lengths differ by less than \<open>2\<^sup>3\<^sup>1\<close>.
\<close>

theorem relational_operators_are_lexicographic:
  assumes "str_at m lhs as" "str_at m rhs bs" "\<bar>int (length as) - int (length bs)\<bar> < 2 ^ 31"
  shows "str_eq lhs rhs m = Ok (as = bs) m \<and> str_ne lhs rhs m = Ok (as \<noteq> bs) m \<and>
    str_lt lhs rhs m = Ok (ord_class.lexordp as bs) m \<and> str_le lhs rhs m = Ok (\<not> ord_class.lexordp bs as) m \<and>
    str_gt lhs rhs m = Ok (ord_class.lexordp bs as) m \<and> str_ge lhs rhs m = Ok (\<not> ord_class.lexordp as bs) m"
  using relational_spec [OF assms] by blast

theorem relational_operators_are_lexicographic_witness:
  "str_eq 0x200 0x300 ex_mem = Ok False ex_mem \<and> str_lt 0x200 0x300 ex_mem = Ok True ex_mem"
proof -
  have ne: "[97, 98, 99] \<noteq> heap_text" and r: "heap_text = 120 # replicate 39 120"
    unfolding heap_text_def by (code_simp, simp add: numeral_eq_Suc)
  have "ord_class.lexordp [97, 98, 99] heap_text" unfolding r by simp
  moreover have "\<bar>int (length [97 :: byte, 98, 99]) - int (length heap_text)\<bar> < 2 ^ 31" by (simp add: heap_text_def)
  ultimately show ?thesis
    using relational_operators_are_lexicographic [OF ex_small_str(1) ex_heap_str(1)] ne by simp
qed

text \<open>
  C11: the concatenation of two strings returns a new string and nothing else: its local string is
  destroyed on every path, also when an exception passes through, and the operands are unchanged.
\<close>

theorem concatenation_returns_new:
  assumes "raw_at m res" "raw_at m out" "out \<noteq> res"
    and "str_at m lhs as" "res \<notin> owned m lhs" "str_at m rhs bs" "res \<notin> owned m rhs"
  shows "returns_new m res out (as @ bs) (plus_str_str out res lhs rhs m)"
  using plus_str_str_new [OF assms] .

theorem concatenation_returns_new_witness:
  "returns_new ex_mem 0x100 0x600 ([97, 98, 99] @ heap_text) (plus_str_str 0x600 0x100 0x200 0x300 ex_mem)"
  by (rule concatenation_returns_new)
    (use ex_raw ex_raw2 ex_small_str ex_heap_str in simp_all)

text \<open>
  C12: \<^verbatim>\<open>operator>>\<close> reads the characters up to white space or the width of the stream, or the maximal size
  when the width is not positive; \<^verbatim>\<open>getline\<close> reads those up to the delimiter, which it consumes, for a line that is
  shorter than the maximal size. Both set the failure bit when there was nothing to read,
  and the end bit when the stream ended. They throw only what growing the string throws.
\<close>

theorem stream_input_correct:
  assumes "str_at m str old" "n = (if width strm \<le> 0 then unat max_size else nat (width strm))" "line = takeWhile (\<lambda>ch. ch \<noteq> dlm) (rdbuf strm)" "length line < unat max_size"
    and "tok = take n (takeWhile (\<lambda>ch. \<not> is_space ch) (rdbuf strm))"
  shows "(case stream_extract is_space True strm str m of
        Ok strm' m' \<Rightarrow> str_at m' str tok \<and> only_touches m str m' \<and> rdbuf strm' = drop (length tok) (rdbuf strm) \<and>
          (failbit strm' = (failbit strm \<or> tok = [])) \<and>
          (eofbit strm' = (eofbit strm \<or> length tok = length (rdbuf strm) \<and> length tok < n))
      | Throw e m' \<Rightarrow> (e = length_error \<or> e = bad_alloc) \<and> only_touches m str m'
      | UB \<Rightarrow> False) \<and>
    (case getline_dlm dlm True strm str m of
        Ok strm' m' \<Rightarrow> str_at m' str line \<and> only_touches m str m' \<and> rdbuf strm' = drop (length line + 1) (rdbuf strm) \<and>
          (failbit strm' = (failbit strm \<or> rdbuf strm = [])) \<and> (eofbit strm' = (eofbit strm \<or> dlm \<notin> set (rdbuf strm)))
      | Throw e m' \<Rightarrow> (e = length_error \<or> e = bad_alloc) \<and> only_touches m str m'
      | UB \<Rightarrow> False)"
  using stream_extract_spec [OF assms(1), of strm is_space, folded assms(2), folded assms(5)]
    getline_spec [OF assms(1), of dlm strm, folded assms(3), OF assms(4)] by (rule conjI)

definition ex_stream :: istream where
  "ex_stream = \<lparr>rdbuf = [104, 105, 32, 106, 10, 107], width = 9, eofbit = False, failbit = False\<rparr>"

theorem stream_input_correct_witness:
  "(case stream_extract (\<lambda>c. c = 32) True ex_stream 0x200 ex_mem of
     Ok strm' m' \<Rightarrow> str_at m' 0x200 [104, 105] \<and> rdbuf strm' = [32, 106, 10, 107] \<and> \<not> failbit strm' | _ \<Rightarrow> False) \<and>
   (case getline_dlm 10 True ex_stream 0x200 ex_mem of
     Ok strm' m' \<Rightarrow> str_at m' 0x200 [104, 105, 32, 106] \<and> rdbuf strm' = [107] | _ \<Rightarrow> False)"
proof -
  have e: "rdbuf ex_stream = [104, 105, 32, 106, 10, 107]" "width ex_stream = 9" "\<not> failbit ex_stream"
    by (simp_all add: ex_stream_def)
  have ok: "\<exists>s' m'. stream_extract (\<lambda>c. c = 32) True ex_stream 0x200 ex_mem = Ok s' m'"
    "\<exists>s' m'. getline_dlm 10 True ex_stream 0x200 ex_mem = Ok s' m'"
  proof -
    have "case stream_extract (\<lambda>c. c = 32) True ex_stream 0x200 ex_mem of Ok _ _ \<Rightarrow> True | Throw _ _ \<Rightarrow> False | UB \<Rightarrow> False"
      "case getline_dlm 10 True ex_stream 0x200 ex_mem of Ok _ _ \<Rightarrow> True | Throw _ _ \<Rightarrow> False | UB \<Rightarrow> False"
      by code_simp+
    then show "\<exists>s' m'. stream_extract (\<lambda>c. c = 32) True ex_stream 0x200 ex_mem = Ok s' m'"
      "\<exists>s' m'. getline_dlm 10 True ex_stream 0x200 ex_mem = Ok s' m'"
      by (auto split: outcome.splits)
  qed
  have "length [104 :: byte, 105, 32, 106] < unat max_size" by (simp add: unat_max_size)
  then show ?thesis
    using stream_input_correct [OF ex_small_str(1), of 9 ex_stream "[104, 105, 32, 106]" 10 "[104, 105]" "\<lambda>c. c = 32"] ok e
    by (auto split: outcome.splits)
qed

end
