(* ===== verification/Bstring_Findings.thy ===== *)
theory Bstring_Findings
  imports Bstring_Spec
begin

text \<open>
  Runs of \<^verbatim>\<open>crossbow::string\<close> in which an operation does not do what its interface promises.
\<close>

definition is_UB :: "'a outcome \<Rightarrow> bool" where
  "is_UB r = (case r of UB \<Rightarrow> True | Ok _ _ \<Rightarrow> False | Throw _ _ \<Rightarrow> False)"

definition result_is :: "'a \<Rightarrow> 'a outcome \<Rightarrow> bool" where
  "result_is v r = (case r of Ok x _ \<Rightarrow> x = v | Throw _ _ \<Rightarrow> False | UB \<Rightarrow> False)"

text \<open>\<^verbatim>\<open>find\<close> stops one position early: the last character of \<open>abc\<close> is not found as a substring.\<close>

lemma find_misses_suffix: "result_is npos (find_ptr 0x200 (0x200, 3) 0 1 ex_mem)"
  by code_simp

text \<open>
  With a pattern that is longer than the rest of the string, \<^verbatim>\<open>_begin + count\<close> is never \<^verbatim>\<open>_end\<close>: the
  loop runs past the object.
\<close>

lemma find_runs_past_end: "is_UB (find_ptr 0x200 (0x400, 0) 0 4 ex_mem)"
  by code_simp

text \<open>\<^verbatim>\<open>find_last_of(s, pos)\<close> with \<^verbatim>\<open>pos = 0\<close> may only look at index 0, but returns index 2.\<close>

lemma find_last_of_ignores_pos: "result_is 2 (find_last_of_ptr 0x200 (0x200, 3) 0 1 ex_mem)"
  by code_simp

text \<open>Appending a string to itself reads the block that the growth has freed.\<close>

lemma self_append_undefined: "is_UB (append_str 0x300 0x300 ex_mem)"
  by code_simp

text \<open>
  \<^verbatim>\<open>append(str, pos, count)\<close> never looks at \<open>str\<close>: two different arguments give the same result.
\<close>

lemma append_sub_ignores_argument: "append_sub this str pos count = append_sub this str' pos count"
  by (simp add: append_sub_def)

text \<open>
  \<^verbatim>\<open>assign(str, 1, npos)\<close>: the sum of position and count wraps to zero, the count is not cut to the rest of the
  string, and the length error of \<^verbatim>\<open>reserve\<close> comes instead of the rest.
\<close>

lemma npos_wraps: "1 + npos = 0" "max_size < npos"
  by (simp add: npos_def) (simp add: word_less_nat_alt unat_max_size unat_npos)

lemma assign_sub_wraps: "assign_sub 0x200 0x300 1 npos ex_mem = Throw length_error ex_mem"
proof -
  have "\<not> npos \<le> (30 :: u64)" by (simp add: word_le_nat_alt unat_npos)
  then show ?thesis
    using hdr_str_size [OF ex_heap] hdr_str_begin [OF ex_heap] hdr_capacity [OF ex_small] npos_wraps
    by (simp add: assign_sub_def assign_ptr_def reserve_def Let_def)
qed

text \<open>\<^verbatim>\<open>replace(1, npos, s, 0)\<close>: the sum wraps likewise, and the end of the range is outside the object.\<close>

lemma replace_wraps: "is_UB (replace_ptr 0x200 1 npos (0x500, 0) 0 ex_mem)"
  using hdr_str_begin [OF ex_small] hdr_str_size [OF ex_small] hdr_str_end [OF ex_small] npos_wraps
  by (simp add: is_UB_def replace_ptr_def sub_range_def replace_range_def erase_range_def ptr_add_def ptr_diff_def unat_npos Let_def bindM_def thenM_def for_up_def ret_def)

text \<open>\<^verbatim>\<open>assign(const basic_string&)\<close> never returns.\<close>

lemma assign_str_undefined: "assign_str this str m \<noteq> Ok () m'"
  by (simp add: assign_str_def bindM_def split: outcome.split)

end
