(* ===== verification/Infinio_Ids.thy ===== *)
theory Infinio_Ids
  imports Prelude
begin

text \<open>
  The identifiers and error codes of the Infiniband layer: \<^verbatim>\<open>MessageId\<close> packs a user id and the
  asynchronous flag of a remote call into 64 bits, \<^verbatim>\<open>WorkRequestId\<close> packs user id, buffer id and
  kind of a work request, and \<^verbatim>\<open>std::error_code\<close> pairs a value with the category it belongs to.
  Every packing is undone by the accessors, so the completion of a work request finds the buffer
  it used.
\<close>

unbundle bit_operations_syntax

section \<open>MessageId\<close>

definition msg_buildId :: "u32 \<Rightarrow> bool \<Rightarrow> u64" where
  "msg_buildId userId async = push_bit 32 (ucast userId) OR (if async then 0x1 else 0x0)"

definition msg_userId :: "u64 \<Rightarrow> u32" where
  "msg_userId mId = ucast (drop_bit 32 mId)"

definition msg_isAsync :: "u64 \<Rightarrow> bool" where
  "msg_isAsync mId \<longleftrightarrow> (ucast (mId AND 0xFFFFFFFF) :: u32) \<noteq> 0x0"

section \<open>WorkRequestId\<close>

datatype WorkType = UNKNOWN | RECEIVE | SEND | READ | WRITE

fun WorkType_value :: "WorkType \<Rightarrow> u64" where
  "WorkType_value UNKNOWN = 0x0"
| "WorkType_value RECEIVE = 0x1"
| "WorkType_value SEND = 0x2"
| "WorkType_value READ = 0x3"
| "WorkType_value WRITE = 0x4"

definition WorkType_LAST :: WorkType where
  "WorkType_LAST = WRITE"

definition wr_buildId :: "u32 \<Rightarrow> u16 \<Rightarrow> WorkType \<Rightarrow> u64" where
  "wr_buildId userId bufferId type =
    push_bit 32 (ucast userId) OR push_bit 16 (ucast bufferId) OR WorkType_value type"

definition wr_userId :: "u64 \<Rightarrow> u32" where
  "wr_userId mId = ucast (drop_bit 32 mId)"

definition wr_bufferId :: "u64 \<Rightarrow> u16" where
  "wr_bufferId mId = ucast (drop_bit 16 mId AND 0xFFFF)"

definition wr_workType :: "u64 \<Rightarrow> WorkType" where
  "wr_workType mId =
    (let val = mId AND 0xFFFF
     in if val > WorkType_value WorkType_LAST then UNKNOWN
        else if val = 0x1 then RECEIVE
        else if val = 0x2 then SEND
        else if val = 0x3 then READ
        else if val = 0x4 then WRITE
        else UNKNOWN)"

section \<open>Error codes\<close>

datatype category = generic | infinio_rpc | infinio_network | infinio_wc | future | handler_category

record error_code =
  ec_value :: int
  ec_category :: category

text \<open>The test \<^verbatim>\<open>if (ec)\<close>.\<close>

definition is_error :: "error_code \<Rightarrow> bool" where
  "is_error ec \<longleftrightarrow> ec_value ec \<noteq> 0"

definition no_error :: error_code where
  "no_error = \<lparr>ec_value = 0, ec_category = generic\<rparr>"

datatype rpc_errors = no_response | invalid_message | wrong_type | message_too_big

fun rpc_value :: "rpc_errors \<Rightarrow> int" where
  "rpc_value no_response = 1"
| "rpc_value invalid_message = 2"
| "rpc_value wrong_type = 3"
| "rpc_value message_too_big = 4"

datatype network_errors = already_open | address_resolution | route_resolution | unreachable
  | connection_error | invalid_buffer | range_error

fun network_value :: "network_errors \<Rightarrow> int" where
  "network_value already_open = 1"
| "network_value address_resolution = 2"
| "network_value route_resolution = 3"
| "network_value unreachable = 4"
| "network_value connection_error = 5"
| "network_value invalid_buffer = 6"
| "network_value range_error = 7"

definition rpc_error :: "rpc_errors \<Rightarrow> error_code" where
  "rpc_error e = \<lparr>ec_value = rpc_value e, ec_category = infinio_rpc\<rparr>"

definition network_error :: "network_errors \<Rightarrow> error_code" where
  "network_error e = \<lparr>ec_value = network_value e, ec_category = infinio_network\<rparr>"

definition wc_error :: "int \<Rightarrow> error_code" where
  "wc_error status = \<lparr>ec_value = status, ec_category = infinio_wc\<rparr>"

definition rpc_message :: "int \<Rightarrow> string" where
  "rpc_message value =
    (if value = rpc_value no_response then ''No response received''
     else if value = rpc_value invalid_message then ''Received message is invalid''
     else if value = rpc_value wrong_type then ''Received message of wrong type''
     else if value = rpc_value message_too_big then ''Tried to write a message exceeding the buffer size''
     else ''infinio.rpc error'')"

definition network_message :: "int \<Rightarrow> string" where
  "network_message value =
    (if value = network_value already_open then ''Already open''
     else if value = network_value address_resolution then ''Address resolution failed''
     else if value = network_value route_resolution then ''Route resolution failed''
     else if value = network_value unreachable then ''Remote unreachable''
     else if value = network_value connection_error then ''Connection error''
     else if value = network_value invalid_buffer then ''Buffer is invalid''
     else if value = network_value range_error then ''Memory access out of range''
     else ''infinio.network error'')"

lemma errors_are_errors [simp]:
  "is_error (rpc_error e)" "is_error (network_error f)" "\<not> is_error no_error"
  by (cases e; simp add: is_error_def rpc_error_def)
    ((cases f; simp add: is_error_def network_error_def), simp add: is_error_def no_error_def)

section \<open>Packing and unpacking\<close>

lemma and_mask_word:
  "(w AND 0xFFFFFFFF) = take_bit 32 (w :: u64)" "(w AND 0xFFFF) = take_bit 16 (w :: u64)"
  by (simp_all add: take_bit_eq_mask mask_eq_exp_minus_1)

lemma WorkType_value_small: "take_bit 16 (WorkType_value t) = WorkType_value t"
  by (cases t) simp_all

lemma bit_WorkType_value: "bit (WorkType_value t) n \<Longrightarrow> n < 16"
  by (metis WorkType_value_small bit_take_bit_iff)

lemma wr_parts:
  "drop_bit 32 (wr_buildId u b t) = ucast u"
  "take_bit 16 (drop_bit 16 (wr_buildId u b t)) = ucast b"
  "take_bit 16 (wr_buildId u b t) = WorkType_value t"
proof -
  note bits = bit_simps wr_buildId_def
  show "drop_bit 32 (wr_buildId u b t) = ucast u"
    by (rule bit_word_eqI) (auto simp: bits dest: bit_WorkType_value bit_imp_le_length)
  show "take_bit 16 (drop_bit 16 (wr_buildId u b t)) = ucast b"
    by (rule bit_word_eqI) (auto simp: bits dest: bit_WorkType_value bit_imp_le_length)
  have "take_bit 16 (wr_buildId u b t) = take_bit 16 (WorkType_value t)"
    by (rule bit_word_eqI) (auto simp: bits)
  then show "take_bit 16 (wr_buildId u b t) = WorkType_value t"
    by (simp add: WorkType_value_small)
qed

lemma ucast_ucast_id:
  "LENGTH('a::len) \<le> LENGTH('b::len) \<Longrightarrow> (ucast (ucast (w :: 'a word) :: 'b word) :: 'a word) = w"
  by (rule bit_word_eqI) (auto simp: bit_simps)

lemma wr_workType_build: "wr_workType (wr_buildId u b t) = t"
  unfolding wr_workType_def and_mask_word wr_parts Let_def WorkType_LAST_def
  by (cases t) simp_all

lemma wr_fields [simp]:
  "wr_userId (wr_buildId u b t) = u" "wr_bufferId (wr_buildId u b t) = b"
  "wr_workType (wr_buildId u b t) = t"
  unfolding wr_userId_def wr_bufferId_def and_mask_word wr_parts
  by (simp_all add: ucast_ucast_id wr_workType_build)

lemma msg_fields [simp]:
  "msg_userId (msg_buildId u a) = u" "msg_isAsync (msg_buildId u a) = a"
proof -
  have "drop_bit 32 (msg_buildId u a) = ucast u"
    by (rule bit_word_eqI) (auto simp: bit_simps msg_buildId_def dest: bit_imp_le_length)
  then show "msg_userId (msg_buildId u a) = u" by (simp add: msg_userId_def ucast_ucast_id)
  have "take_bit 32 (msg_buildId u a) = (if a then 1 else 0)"
    by (rule bit_word_eqI) (auto simp: bit_simps msg_buildId_def)
  then show "msg_isAsync (msg_buildId u a) = a" by (simp add: msg_isAsync_def and_mask_word)
qed

lemma wr_build_inject: "wr_buildId u b t = wr_buildId u' b' t' \<longleftrightarrow> u = u' \<and> b = b' \<and> t = t'"
proof
  assume eq: "wr_buildId u b t = wr_buildId u' b' t'"
  show "u = u' \<and> b = b' \<and> t = t'"
    using wr_fields [of u b t] wr_fields [of u' b' t'] unfolding eq by simp
qed simp

lemma msg_build_inject: "msg_buildId u a = msg_buildId u' a' \<longleftrightarrow> u = u' \<and> a = a'"
proof
  assume eq: "msg_buildId u a = msg_buildId u' a'"
  show "u = u' \<and> a = a'"
    using msg_fields [of u a] msg_fields [of u' a'] unfolding eq by simp
qed simp

text \<open>
  C14: the identifiers are packed without loss: from the 64 bits of a work request id the
  accessors get back the user id, the buffer id and the kind it was built from, and from those of
  a message id the user id and the asynchronous flag. Distinct components give distinct ids, and
  a word whose kind field is out of range is unknown work, never mistaken for another kind.
\<close>

theorem ids_round_trip:
  "wr_userId (wr_buildId u b t) = u \<and> wr_bufferId (wr_buildId u b t) = b \<and>
   wr_workType (wr_buildId u b t) = t \<and>
   (wr_buildId u b t = wr_buildId u' b' t' \<longleftrightarrow> u = u' \<and> b = b' \<and> t = t') \<and>
   (wr_workType mId = UNKNOWN \<longleftrightarrow> mId AND 0xFFFF = 0 \<or> mId AND 0xFFFF > 4) \<and>
   msg_userId (msg_buildId u a) = u \<and> msg_isAsync (msg_buildId u a) = a \<and>
   (msg_buildId u a = msg_buildId u' a' \<longleftrightarrow> u = u' \<and> a = a')"
proof -
  note wr_build_inject msg_build_inject
  moreover have "wr_workType mId = UNKNOWN \<longleftrightarrow> mId AND 0xFFFF = 0 \<or> mId AND 0xFFFF > 4"
  proof -
    define v where "v = mId AND 0xFFFF"
    have "unat v = 0 \<or> unat v = 1 \<or> unat v = 2 \<or> unat v = 3 \<or> unat v = 4 \<or> unat v > 4" by arith
    then have "v = 0 \<or> v = 1 \<or> v = 2 \<or> v = 3 \<or> v = 4 \<or> v > 4"
      by (simp add: word_unat_eq_iff word_less_nat_alt)
    then show ?thesis unfolding wr_workType_def Let_def v_def [symmetric] WorkType_LAST_def
      by (elim disjE) simp_all
  qed
  ultimately show ?thesis by simp
qed

end
