(* ===== verification/Infinio_Handles.thy ===== *)
theory Infinio_Handles
  imports Infinio_Ids
begin

text \<open>
  The classes that own one object of the verbs library: \<^verbatim>\<open>ProtectionDomain\<close>, \<^verbatim>\<open>SharedReceiveQueue\<close>,
  \<^verbatim>\<open>CompletionChannel\<close> and \<^verbatim>\<open>CompletionQueue\<close> of \<^verbatim>\<open>DeviceContext\<close>. Each holds a pointer, creates the
  object in its constructor, destroys it in its destructor and hands it over when it is moved.
  The library calls are parameters: \<open>create\<close> gives the new object or an error number, \<open>release\<close> an
  error number or \<open>None\<close>.

  \<open>live\<close> is the list of objects of the library that exist. The invariant of the four classes: no
  object is owned twice, none is used after its release, and none is lost as long as releasing
  does not fail.
\<close>

section \<open>Owning pointers\<close>

definition own_create :: "(int + 'h) \<Rightarrow> 'h list \<Rightarrow> (error_code + 'h option) \<times> 'h list" where
  "own_create result live =
    (case result of
       Inl errno \<Rightarrow> (Inl \<lparr>ec_value = errno, ec_category = generic\<rparr>, live)
     | Inr h \<Rightarrow> (Inr (Some h), h # live))"

definition own_destroy :: "('h \<Rightarrow> int option) \<Rightarrow> 'h option \<Rightarrow> 'h list \<Rightarrow> 'h list" where
  "own_destroy release p live =
    (case p of
       None \<Rightarrow> live
     | Some h \<Rightarrow> (case release h of None \<Rightarrow> remove1 h live | Some errno \<Rightarrow> live))"

definition own_move :: "'h option \<Rightarrow> 'h option \<times> 'h option" where
  "own_move other = (other, None)"

text \<open>Move assignment: the new pointers of the target and of the source, or an exception.\<close>

definition own_move_assign ::
  "('h \<Rightarrow> int option) \<Rightarrow> 'h option \<Rightarrow> 'h option \<Rightarrow> 'h list \<Rightarrow>
    (error_code + 'h option \<times> 'h option) \<times> 'h list" where
  "own_move_assign release this other live =
    (case this of
       None \<Rightarrow> (Inr (other, None), live)
     | Some h \<Rightarrow> (case release h of
           None \<Rightarrow> (Inr (other, None), remove1 h live)
         | Some errno \<Rightarrow> (Inl \<lparr>ec_value = errno, ec_category = generic\<rparr>, live)))"

section \<open>The four classes\<close>

text \<open>Objects of the verbs library, by their addresses.\<close>

type_synonym ibv_pd = u64
type_synonym ibv_srq = u64
type_synonym ibv_comp_channel = u64
type_synonym ibv_cq = u64

record srq_attr =
  max_wr :: u32
  max_sge :: u32

definition ProtectionDomain_create :: "(int + ibv_pd) \<Rightarrow> ibv_pd list \<Rightarrow> (error_code + ibv_pd option) \<times> ibv_pd list" where
  "ProtectionDomain_create ibv_alloc_pd live = own_create ibv_alloc_pd live"

definition ProtectionDomain_destroy :: "(ibv_pd \<Rightarrow> int option) \<Rightarrow> ibv_pd option \<Rightarrow> ibv_pd list \<Rightarrow> ibv_pd list" where
  "ProtectionDomain_destroy ibv_dealloc_pd mDomain live = own_destroy ibv_dealloc_pd mDomain live"

definition ProtectionDomain_move_assign where
  "ProtectionDomain_move_assign ibv_dealloc_pd (this :: ibv_pd option) other live =
    own_move_assign ibv_dealloc_pd this other live"

definition SharedReceiveQueue_create ::
  "(srq_attr \<Rightarrow> int + ibv_srq) \<Rightarrow> u32 \<Rightarrow> ibv_srq list \<Rightarrow> (error_code + ibv_srq option) \<times> ibv_srq list" where
  "SharedReceiveQueue_create ibv_create_srq len live =
    own_create (ibv_create_srq \<lparr>max_wr = len, max_sge = 1\<rparr>) live"

definition SharedReceiveQueue_destroy :: "(ibv_srq \<Rightarrow> int option) \<Rightarrow> ibv_srq option \<Rightarrow> ibv_srq list \<Rightarrow> ibv_srq list" where
  "SharedReceiveQueue_destroy ibv_destroy_srq mQueue live = own_destroy ibv_destroy_srq mQueue live"

definition SharedReceiveQueue_move_assign where
  "SharedReceiveQueue_move_assign ibv_destroy_srq (this :: ibv_srq option) other live =
    own_move_assign ibv_destroy_srq this other live"

definition CompletionChannel_create ::
  "(int + ibv_comp_channel) \<Rightarrow> ibv_comp_channel list \<Rightarrow> (error_code + ibv_comp_channel option) \<times> ibv_comp_channel list" where
  "CompletionChannel_create ibv_create_comp_channel live = own_create ibv_create_comp_channel live"

definition CompletionChannel_destroy ::
  "(ibv_comp_channel \<Rightarrow> int option) \<Rightarrow> ibv_comp_channel option \<Rightarrow> ibv_comp_channel list \<Rightarrow> ibv_comp_channel list" where
  "CompletionChannel_destroy ibv_destroy_comp_channel mChannel live =
    own_destroy ibv_destroy_comp_channel mChannel live"

definition CompletionChannel_move_assign where
  "CompletionChannel_move_assign ibv_destroy_comp_channel (this :: ibv_comp_channel option) other live =
    own_move_assign ibv_destroy_comp_channel this other live"

definition CompletionQueue_create ::
  "(int \<Rightarrow> int + ibv_cq) \<Rightarrow> int \<Rightarrow> ibv_cq list \<Rightarrow> (error_code + ibv_cq option) \<times> ibv_cq list" where
  "CompletionQueue_create ibv_create_cq len live = own_create (ibv_create_cq len) live"

definition CompletionQueue_destroy :: "(ibv_cq \<Rightarrow> int option) \<Rightarrow> ibv_cq option \<Rightarrow> ibv_cq list \<Rightarrow> ibv_cq list" where
  "CompletionQueue_destroy ibv_destroy_cq mQueue live = own_destroy ibv_destroy_cq mQueue live"

definition CompletionQueue_move_assign where
  "CompletionQueue_move_assign ibv_destroy_cq (this :: ibv_cq option) other live =
    own_move_assign ibv_destroy_cq this other live"

section \<open>Programs over owning objects\<close>

text \<open>
  A program that constructs, moves and destroys objects of one of the classes. \<open>objs x\<close> is \<open>None\<close>
  before \<open>x\<close> is constructed and after it is destroyed, and its pointer otherwise.
\<close>

record 'h owners =
  objs :: "nat \<Rightarrow> 'h option option"
  live :: "'h list"

inductive own_step :: "('h \<Rightarrow> int option) \<Rightarrow> 'h owners \<Rightarrow> 'h owners \<Rightarrow> bool"
  for release :: "'h \<Rightarrow> int option"
  where
    construct: "objs s x = None \<Longrightarrow> own_create (Inr h) (live s) = (Inr p, l) \<Longrightarrow> h \<notin> set (live s) \<Longrightarrow>
      own_step release s \<lparr>objs = (objs s)(x \<mapsto> p), live = l\<rparr>"
  | move: "objs s x = Some p \<Longrightarrow> objs s y = None \<Longrightarrow> own_move p = (q, p') \<Longrightarrow>
      own_step release s \<lparr>objs = (objs s)(y \<mapsto> q, x \<mapsto> p'), live = live s\<rparr>"
  | move_assign: "objs s x = Some p \<Longrightarrow> objs s y = Some q \<Longrightarrow> x \<noteq> y \<Longrightarrow>
      own_move_assign release q p (live s) = (Inr (q', p'), l) \<Longrightarrow>
      own_step release s \<lparr>objs = (objs s)(y \<mapsto> q', x \<mapsto> p'), live = l\<rparr>"
  | destroy: "objs s x = Some p \<Longrightarrow>
      own_step release s \<lparr>objs = (objs s)(x := None), live = own_destroy release p (live s)\<rparr>"

definition own_inv :: "'h owners \<Rightarrow> bool" where
  "own_inv s \<longleftrightarrow> distinct (live s) \<and>
    (\<forall>x h. objs s x = Some (Some h) \<longrightarrow> h \<in> set (live s)) \<and>
    (\<forall>x y h. objs s x = Some (Some h) \<longrightarrow> objs s y = Some (Some h) \<longrightarrow> x = y)"

definition own_start :: "'h owners \<Rightarrow> bool" where
  "own_start s \<longleftrightarrow> objs s = (\<lambda>_. None) \<and> live s = []"

lemma own_inv_step: "own_inv s \<Longrightarrow> own_step release s t \<Longrightarrow> own_inv t"
  by (erule own_step.cases)
    (auto simp: own_inv_def own_create_def own_move_def own_move_assign_def own_destroy_def
      split: option.splits if_splits)

lemma own_inv_start: "own_start s \<Longrightarrow> own_inv s"
  by (simp add: own_start_def own_inv_def)

interpretation owning: inductive_invariant own_start "own_step release" own_inv
  by unfold_locales (rule own_inv_start, assumption, rule own_inv_step)

text \<open>When releasing succeeds, no object of the library is without an owner.\<close>

definition own_exact :: "'h owners \<Rightarrow> bool" where
  "own_exact s \<longleftrightarrow> own_inv s \<and> (\<forall>h \<in> set (live s). \<exists>x. objs s x = Some (Some h))"

lemma own_exact_step:
  assumes "own_exact s" and "own_step (\<lambda>_. None) s t"
  shows "own_exact t"
proof -
  have inv: "own_inv s" and all: "\<And>h. h \<in> set (live s) \<Longrightarrow> \<exists>x. objs s x = Some (Some h)"
    using assms(1) by (auto simp: own_exact_def)
  have "\<exists>z. objs t z = Some (Some g)" if g: "g \<in> set (live t)" for g
    using assms(2)
  proof cases
    case (construct x h p l)
    then have t: "objs t = (objs s)(x \<mapsto> Some h)" "live t = h # live s"
      by (auto simp: own_create_def)
    show ?thesis
    proof (cases "g = h")
      case False
      then obtain z where "objs s z = Some (Some g)" using all g t by auto
      then have "objs t z = Some (Some g)" using construct(2) t(1) by (cases "z = x") auto
      then show ?thesis ..
    qed (auto simp: t)
  next
    case (move x p y q p')
    then have t: "objs t = (objs s)(y \<mapsto> p, x \<mapsto> None)" "live t = live s"
      by (auto simp: own_move_def)
    then obtain z where z: "objs s z = Some (Some g)" using all g by auto
    then have "objs t (if z = x then y else z) = Some (Some g)" using move(2,3) t(1) by auto
    then show ?thesis ..
  next
    case (move_assign x p y q q' p' l)
    then have t: "objs t = (objs s)(y \<mapsto> p, x \<mapsto> None)"
      and l: "live t = (case q of None \<Rightarrow> live s | Some h \<Rightarrow> remove1 h (live s))"
      by (auto simp: own_move_assign_def split: option.splits)
    then have gl: "g \<in> set (live s)" and gq: "q \<noteq> Some g"
      using g inv by (auto simp: own_inv_def split: option.splits)
    then obtain z where z: "objs s z = Some (Some g)" using all by auto
    then have "z \<noteq> y" using move_assign(3) gq by auto
    then have "objs t (if z = x then y else z) = Some (Some g)"
      using z move_assign(2,4) t by auto
    then show ?thesis ..
  next
    case (destroy x p)
    then have t: "objs t = (objs s)(x := None)"
      and l: "live t = (case p of None \<Rightarrow> live s | Some h \<Rightarrow> remove1 h (live s))"
      by (auto simp: own_destroy_def split: option.splits)
    then have gl: "g \<in> set (live s)" and gp: "p \<noteq> Some g"
      using g inv by (auto simp: own_inv_def split: option.splits)
    then obtain z where z: "objs s z = Some (Some g)" using all by auto
    then have "objs t z = Some (Some g)" using destroy(2) gp t by auto
    then show ?thesis ..
  qed
  then show ?thesis using own_inv_step [OF inv assms(2)] by (simp add: own_exact_def)
qed

interpretation owning_exact: inductive_invariant own_start "own_step (\<lambda>_. None)" own_exact
  by unfold_locales (simp add: own_exact_def own_start_def own_inv_def, rule own_exact_step)

text \<open>
  C16: the four owning classes never release an object of the verbs library twice and never use a
  released one: in every program that constructs, moves, assigns and destroys them, each pointer
  refers to an existing object and belongs to one owner only. If releasing does not fail, every
  existing object has exactly one owner, so nothing is left once all owners are destroyed. When releasing
  fails, the destructor forgets the pointer and the object stays.
\<close>

theorem handles_owned_once:
  assumes "own_start s" and "(own_step release)\<^sup>*\<^sup>* s t"
  shows "distinct (live t) \<and>
    (\<forall>x h. objs t x = Some (Some h) \<longrightarrow> h \<in> set (live t)) \<and>
    (\<forall>x y h. objs t x = Some (Some h) \<longrightarrow> objs t y = Some (Some h) \<longrightarrow> x = y) \<and>
    (release = (\<lambda>_. None) \<longrightarrow> (\<forall>h \<in> set (live t). \<exists>!x. objs t x = Some (Some h)) \<and> ((\<forall>x. objs t x = None) \<longrightarrow> live t = []))"
proof -
  have inv: "own_inv t" using owning.inv_reachable [OF assms] .
  have "(\<forall>h \<in> set (live t). \<exists>!x. objs t x = Some (Some h)) \<and> ((\<forall>x. objs t x = None) \<longrightarrow> live t = [])" if "release = (\<lambda>_. None)"
  proof -
    have ex: "\<forall>h \<in> set (live t). \<exists>x. objs t x = Some (Some h)"
      using owning_exact.inv_reachable [of s t] assms that by (simp add: own_exact_def)
    moreover have "x = y" if "objs t x = Some (Some h)" "objs t y = Some (Some h)" for x y h
      using inv that unfolding own_inv_def by blast
    ultimately have "\<forall>h \<in> set (live t). \<exists>!x. objs t x = Some (Some h)" by blast
    moreover have "(\<forall>x. objs t x = None) \<longrightarrow> live t = []" using ex by (cases "live t") auto
    ultimately show ?thesis ..
  qed
  then show ?thesis using inv unfolding own_inv_def by blast
qed

theorem handles_owned_once_witness:
  "\<exists>t. (own_step (\<lambda>_. None))\<^sup>*\<^sup>* \<lparr>objs = \<lambda>_. None, live = []\<rparr> t \<and> objs t 1 = Some (Some (7 :: u64)) \<and>
    objs t 0 = Some None \<and> live t = [7] \<and> (\<exists>!x. objs t x = Some (Some 7))"
proof -
  let ?s = "\<lparr>objs = \<lambda>_. None, live = []\<rparr> :: u64 owners"
  let ?s1 = "\<lparr>objs = (objs ?s)(0 \<mapsto> Some 7), live = [7]\<rparr>"
  let ?s2 = "\<lparr>objs = (objs ?s1)(1 \<mapsto> Some 7, 0 \<mapsto> None), live = live ?s1\<rparr>"
  have "own_step (\<lambda>_. None) ?s ?s1"
    by (rule own_step.construct [where h = 7]) (simp_all add: own_create_def)
  moreover have "own_step (\<lambda>_. None) ?s1 ?s2"
    by (rule own_step.move [where p = "Some 7"]) (simp_all add: own_move_def)
  ultimately have steps: "(own_step (\<lambda>_. None))\<^sup>*\<^sup>* ?s ?s2" by simp
  define t where "t = ?s2"
  have t: "objs t 1 = Some (Some 7)" "objs t 0 = Some None" "live t = [7]" "(own_step (\<lambda>_. None))\<^sup>*\<^sup>* ?s t"
    using steps by (simp_all add: t_def)
  have "own_start ?s" by (simp add: own_start_def)
  from handles_owned_once [OF this t(4)] have "\<forall>h \<in> set (live t). \<exists>!x. objs t x = Some (Some h)" by blast
  then have "\<exists>!x. objs t x = Some (Some 7)" unfolding t(3) by (rule bspec) simp
  then show ?thesis using t by blast
qed

end
