(* ===== verification/Infinio_Buffer.thy ===== *)
theory Infinio_Buffer
  imports Infinio_Ids
begin

text \<open>
  The memory the network adapter works on: registered regions, buffers cut from them, and scatter
  gather lists. The adapter and the kernel are not part of the sources: \<open>reg\<close> and \<open>dereg\<close> stand
  for \<^verbatim>\<open>ibv_reg_mr\<close> and \<^verbatim>\<open>ibv_dereg_mr\<close>, \<open>mmap\<close> and \<open>munmap\<close> for the system calls, and the record
  \<open>os\<close> for what is registered and mapped.

  A buffer cut from a region lies inside it; a region that is created and destroyed leaves
  nothing registered or mapped.
\<close>

unbundle bit_operations_syntax

section \<open>InfinibandBuffer\<close>

record ibv_sge =
  sge_addr :: u64
  sge_length :: u32
  sge_lkey :: u32

record InfinibandBuffer =
  mHandle :: ibv_sge
  mId :: u16

definition INVALID_ID :: u16 where
  "INVALID_ID = 0xFFFF"

definition zero_sge :: ibv_sge where
  "zero_sge = \<lparr>sge_addr = 0, sge_length = 0, sge_lkey = 0\<rparr>"

definition new_buffer :: "u16 \<Rightarrow> InfinibandBuffer" where
  "new_buffer bid = \<lparr>mHandle = zero_sge, mId = bid\<rparr>"

text \<open>The new value of the target and what is left of the source.\<close>

definition move_buffer :: "InfinibandBuffer \<Rightarrow> InfinibandBuffer \<times> InfinibandBuffer" where
  "move_buffer other =
    (\<lparr>mHandle = mHandle other, mId = mId other\<rparr>, \<lparr>mHandle = zero_sge, mId = INVALID_ID\<rparr>)"

definition move_assign_buffer :: "InfinibandBuffer \<Rightarrow> InfinibandBuffer \<Rightarrow> InfinibandBuffer \<times> InfinibandBuffer" where
  "move_assign_buffer this other =
    (let this = this\<lparr>mId := mId other\<rparr>; other = other\<lparr>mId := INVALID_ID\<rparr>;
         this = this\<lparr>mHandle := mHandle other\<rparr>; other = other\<lparr>mHandle := zero_sge\<rparr>
     in (this, other))"

definition buffer_valid :: "InfinibandBuffer \<Rightarrow> bool" where
  "buffer_valid b \<longleftrightarrow> mId b \<noteq> INVALID_ID"

definition buffer_length :: "InfinibandBuffer \<Rightarrow> u32" where
  "buffer_length b = sge_length (mHandle b)"

definition buffer_data :: "InfinibandBuffer \<Rightarrow> u64" where
  "buffer_data b = sge_addr (mHandle b)"

definition buffer_lkey :: "InfinibandBuffer \<Rightarrow> u32" where
  "buffer_lkey b = sge_lkey (mHandle b)"

definition shrink :: "u32 \<Rightarrow> InfinibandBuffer \<Rightarrow> InfinibandBuffer" where
  "shrink len b = (if sge_length (mHandle b) \<le> len then b
     else b\<lparr>mHandle := (mHandle b)\<lparr>sge_length := len\<rparr>\<rparr>)"

section \<open>Memory regions\<close>

record ibv_mr =
  mr_addr :: u64
  mr_length :: u64
  mr_lkey :: u32
  mr_rkey :: u32

text \<open>
  What the process has registered with the adapter and mapped, as start and length, and the calls of the
  library and the system in their order.
\<close>

datatype os_call = Call_mmap u64 | Call_munmap u64 u64 | Call_reg_mr u64 u64 | Call_dereg_mr ibv_mr

record os =
  registered :: "ibv_mr list"
  mapped :: "(u64 \<times> u64) list"
  calls :: "os_call list"

definition log_call :: "os_call \<Rightarrow> os \<Rightarrow> os" where
  "log_call c s = s\<lparr>calls := calls s @ [c]\<rparr>"

text \<open>A \<^verbatim>\<open>LocalMemoryRegion\<close> is its pointer \<^verbatim>\<open>mDataRegion\<close>.\<close>

type_synonym region = "ibv_mr option"

definition errno_error :: "int \<Rightarrow> error_code" where
  "errno_error errno = \<lparr>ec_value = errno, ec_category = generic\<rparr>"

definition region_create :: "(u64 \<Rightarrow> u64 \<Rightarrow> int + ibv_mr) \<Rightarrow> u64 \<Rightarrow> u64 \<Rightarrow> os \<Rightarrow> (error_code + region) \<times> os" where
  "region_create reg data len s =
    (case reg data len of
       Inl errno \<Rightarrow> (Inl (errno_error errno), log_call (Call_reg_mr data len) s)
     | Inr mr \<Rightarrow> (Inr (Some mr), log_call (Call_reg_mr data len) (s\<lparr>registered := mr # registered s\<rparr>)))"

text \<open>\<^verbatim>\<open>ibv_dereg_mr\<close>: \<open>None\<close> on success, the error number otherwise.\<close>

definition dereg_mr :: "(ibv_mr \<Rightarrow> int option) \<Rightarrow> ibv_mr \<Rightarrow> os \<Rightarrow> int option \<times> os" where
  "dereg_mr dereg mr s =
    (case dereg mr of
       None \<Rightarrow> (None, log_call (Call_dereg_mr mr) (s\<lparr>registered := remove1 mr (registered s)\<rparr>))
     | Some errno \<Rightarrow> (Some errno, log_call (Call_dereg_mr mr) s))"

definition region_destroy :: "(ibv_mr \<Rightarrow> int option) \<Rightarrow> region \<Rightarrow> os \<Rightarrow> os" where
  "region_destroy dereg region s =
    (case region of None \<Rightarrow> s | Some mr \<Rightarrow> snd (dereg_mr dereg mr s))"

definition region_move :: "region \<Rightarrow> region \<times> region" where
  "region_move other = (other, None)"

definition region_move_assign ::
  "(ibv_mr \<Rightarrow> int option) \<Rightarrow> region \<Rightarrow> region \<Rightarrow> os \<Rightarrow> (error_code + region \<times> region) \<times> os" where
  "region_move_assign dereg this other s =
    (case this of
       None \<Rightarrow> (Inr (other, None), s)
     | Some mr \<Rightarrow> (case dereg_mr dereg mr s of
           (Some errno, s') \<Rightarrow> (Inl (errno_error errno), s')
         | (None, s') \<Rightarrow> (Inr (other, None), s')))"

definition deregisterRegion :: "(ibv_mr \<Rightarrow> int option) \<Rightarrow> region \<Rightarrow> os \<Rightarrow> (error_code + region) \<times> os" where
  "deregisterRegion dereg this s =
    (case this of
       None \<Rightarrow> (Inr None, s)
     | Some mr \<Rightarrow> (case dereg_mr dereg mr s of
           (Some errno, s') \<Rightarrow> (Inl (errno_error errno), s')
         | (None, s') \<Rightarrow> (Inr None, s')))"

definition region_acquireBuffer :: "u16 \<Rightarrow> u64 \<Rightarrow> u32 \<Rightarrow> ibv_mr \<Rightarrow> InfinibandBuffer" where
  "region_acquireBuffer bid offset len mr =
    (if mr_length mr < offset + ucast len then new_buffer INVALID_ID
     else (new_buffer bid)\<lparr>mHandle :=
       \<lparr>sge_addr = mr_addr mr + offset, sge_length = len, sge_lkey = mr_lkey mr\<rparr>\<rparr>)"

definition belongsToRegion :: "ibv_mr \<Rightarrow> InfinibandBuffer \<Rightarrow> bool" where
  "belongsToRegion mr b \<longleftrightarrow> sge_lkey (mHandle b) = mr_lkey mr"

section \<open>AllocatedMemoryRegion\<close>

definition allocateMemory :: "(u64 \<Rightarrow> int + u64) \<Rightarrow> u64 \<Rightarrow> os \<Rightarrow> (error_code + u64) \<times> os" where
  "allocateMemory mmap len s =
    (case mmap len of
       Inl errno \<Rightarrow> (Inl (errno_error errno), log_call (Call_mmap len) s)
     | Inr data \<Rightarrow> (Inr data, log_call (Call_mmap len) (s\<lparr>mapped := (data, len) # mapped s\<rparr>)))"

definition allocated_create ::
  "(u64 \<Rightarrow> int + u64) \<Rightarrow> (u64 \<Rightarrow> u64 \<Rightarrow> int + ibv_mr) \<Rightarrow> u64 \<Rightarrow> os \<Rightarrow> (error_code + region) \<times> os" where
  "allocated_create mmap reg len s =
    (case allocateMemory mmap len s of
       (Inl e, s') \<Rightarrow> (Inl e, s')
     | (Inr data, s') \<Rightarrow> region_create reg data len s')"

definition unmap :: "(u64 \<Rightarrow> u64 \<Rightarrow> int option) \<Rightarrow> u64 \<Rightarrow> u64 \<Rightarrow> os \<Rightarrow> int option \<times> os" where
  "unmap munmap data len s =
    (case munmap data len of
       None \<Rightarrow> (None, log_call (Call_munmap data len) (s\<lparr>mapped := remove1 (data, len) (mapped s)\<rparr>))
     | Some errno \<Rightarrow> (Some errno, log_call (Call_munmap data len) s))"

definition allocated_destroy ::
  "(ibv_mr \<Rightarrow> int option) \<Rightarrow> (u64 \<Rightarrow> u64 \<Rightarrow> int option) \<Rightarrow> region \<Rightarrow> os \<Rightarrow> os" where
  "allocated_destroy dereg munmap region s =
    (case region of
       None \<Rightarrow> s
     | Some mr \<Rightarrow>
        (case deregisterRegion dereg (Some mr) s of
           (Inl e, s') \<Rightarrow>
             \<comment> \<open>the region keeps its pointer, its own destructor runs last\<close>
             region_destroy dereg (Some mr) (snd (unmap munmap (mr_addr mr) (mr_length mr) s'))
         | (Inr _, s') \<Rightarrow> snd (unmap munmap (mr_addr mr) (mr_length mr) s')))"

definition allocated_move_assign ::
  "(ibv_mr \<Rightarrow> int option) \<Rightarrow> (u64 \<Rightarrow> u64 \<Rightarrow> int option) \<Rightarrow> region \<Rightarrow> region \<Rightarrow> os \<Rightarrow>
    (error_code + region \<times> region) \<times> os" where
  "allocated_move_assign dereg munmap this other s =
    (case this of
       None \<Rightarrow> region_move_assign dereg None other s
     | Some mr \<Rightarrow>
        (case region_move_assign dereg (Some mr) other s of
           (Inl e, s') \<Rightarrow> (Inl e, s')
         | (Inr r, s') \<Rightarrow> (case unmap munmap (mr_addr mr) (mr_length mr) s' of
               (Some errno, s'') \<Rightarrow> (Inl (errno_error errno), s'')
             | (None, s'') \<Rightarrow> (Inr r, s''))))"

section \<open>Remote regions and scatter gather lists\<close>

record RemoteMemoryRegion =
  mAddress :: u64
  mLength :: u64
  mKey :: u32

record ScatterGatherBuffer =
  sg_handle :: "ibv_sge list"
  sg_length :: u64
  sg_id :: u16

definition new_sg :: "u16 \<Rightarrow> ScatterGatherBuffer" where
  "new_sg bid = \<lparr>sg_handle = [], sg_length = 0, sg_id = bid\<rparr>"

definition sg_count :: "ScatterGatherBuffer \<Rightarrow> nat" where
  "sg_count b = length (sg_handle b)"

definition sg_push :: "ibv_sge \<Rightarrow> ScatterGatherBuffer \<Rightarrow> ScatterGatherBuffer" where
  "sg_push element b = b\<lparr>sg_handle := sg_handle b @ [element],
     sg_length := sg_length b + ucast (sge_length element)\<rparr>"

definition sg_add_addr :: "ibv_mr \<Rightarrow> u64 \<Rightarrow> u32 \<Rightarrow> ScatterGatherBuffer \<Rightarrow> ScatterGatherBuffer" where
  "sg_add_addr region addr len =
    sg_push \<lparr>sge_addr = addr, sge_length = len, sge_lkey = mr_lkey region\<rparr>"

definition sg_add_offset :: "ibv_mr \<Rightarrow> u64 \<Rightarrow> u32 \<Rightarrow> ScatterGatherBuffer \<Rightarrow> ScatterGatherBuffer" where
  "sg_add_offset region offset len = sg_add_addr region (mr_addr region + offset) len"

definition sg_add_buffer :: "InfinibandBuffer \<Rightarrow> u64 \<Rightarrow> u32 \<Rightarrow> ScatterGatherBuffer \<Rightarrow> ScatterGatherBuffer" where
  "sg_add_buffer buffer offset len b =
    (if ucast (buffer_length buffer) < offset + ucast len then b
     else sg_push \<lparr>sge_addr = buffer_data buffer + offset, sge_length = len,
       sge_lkey = buffer_lkey buffer\<rparr> b)"

definition sg_reset :: "ScatterGatherBuffer \<Rightarrow> ScatterGatherBuffer" where
  "sg_reset b = b\<lparr>sg_handle := [], sg_length := 0\<rparr>"

section \<open>Ranges\<close>

text \<open>The addresses of a buffer, and that a buffer lies in a region.\<close>

definition sge_inside :: "ibv_mr \<Rightarrow> ibv_sge \<Rightarrow> bool" where
  "sge_inside mr e \<longleftrightarrow> sge_lkey e = mr_lkey mr \<and> unat (mr_addr mr) \<le> unat (sge_addr e) \<and>
    unat (sge_addr e) + unat (sge_length e) \<le> unat (mr_addr mr) + unat (mr_length mr)"

text \<open>A region the kernel can hand out: it does not wrap around the address space.\<close>

definition mr_ok :: "ibv_mr \<Rightarrow> bool" where
  "mr_ok mr \<longleftrightarrow> unat (mr_addr mr) + unat (mr_length mr) < 2 ^ 64"

lemma unat_u32_u64 [simp]: "unat (ucast (w :: u32) :: u64) = unat w"
  by (simp add: unsigned_ucast_eq take_bit_nat_eq_self less_trans [OF unsigned_less])

lemma u32_lt: "unat (w :: u32) < 2 ^ 32"
  using unsigned_less [of w] by simp

lemma unat_add_u32:
  assumes "unat (a :: u64) + 2 ^ 32 \<le> 2 ^ 64"
  shows "unat (a + ucast (w :: u32)) = unat a + unat w"
  using assms u32_lt [of w] by (subst unat_add_no_wrap) simp_all

lemma acquireBuffer_fields:
  assumes "offset + ucast len \<le> mr_length mr"
  shows "region_acquireBuffer bid offset len mr =
    \<lparr>mHandle = \<lparr>sge_addr = mr_addr mr + offset, sge_length = len, sge_lkey = mr_lkey mr\<rparr>, mId = bid\<rparr>"
  using assms by (auto simp: region_acquireBuffer_def new_buffer_def)

lemma acquireBuffer_refused:
  "mr_length mr < offset + ucast len \<Longrightarrow>
    \<not> buffer_valid (region_acquireBuffer bid offset len mr)"
  by (simp add: region_acquireBuffer_def new_buffer_def buffer_valid_def)

lemma acquireBuffer_inside:
  assumes "mr_ok mr" and "offset + ucast len \<le> mr_length mr" and "unat offset + unat len < 2 ^ 64"
  shows "sge_inside mr (mHandle (region_acquireBuffer bid offset len mr))"
    and "unat (sge_addr (mHandle (region_acquireBuffer bid offset len mr))) = unat (mr_addr mr) + unat offset"
proof -
  have "unat (offset + ucast len) = unat offset + unat len"
    using assms(3) by (subst unat_add_no_wrap) simp_all
  then have le: "unat offset + unat len \<le> unat (mr_length mr)"
    using assms(2) by (simp add: word_le_nat_alt)
  then have "unat (mr_addr mr + offset) = unat (mr_addr mr) + unat offset"
    using assms(1) by (subst unat_add_no_wrap) (simp_all add: mr_ok_def)
  then show "sge_inside mr (mHandle (region_acquireBuffer bid offset len mr))"
    and "unat (sge_addr (mHandle (region_acquireBuffer bid offset len mr))) = unat (mr_addr mr) + unat offset"
    using le by (simp_all add: acquireBuffer_fields [OF assms(2)] sge_inside_def)
qed

section \<open>Life cycle of an allocated region\<close>

lemma allocated_create_ok:
  assumes "mmap len = Inr data" and "reg data len = Inr mr"
  shows "allocated_create mmap reg len s =
    (Inr (Some mr), s\<lparr>mapped := (data, len) # mapped s, registered := mr # registered s,
      calls := calls s @ [Call_mmap len, Call_reg_mr data len]\<rparr>)"
  using assms by (simp add: allocated_create_def allocateMemory_def region_create_def log_call_def)

lemma allocated_destroy_ok:
  assumes "dereg mr = None" and "munmap (mr_addr mr) (mr_length mr) = None"
  shows "allocated_destroy dereg munmap (Some mr) s =
    s\<lparr>registered := remove1 mr (registered s), mapped := remove1 (mr_addr mr, mr_length mr) (mapped s),
      calls := calls s @ [Call_dereg_mr mr, Call_munmap (mr_addr mr) (mr_length mr)]\<rparr>"
  using assms by (simp add: allocated_destroy_def deregisterRegion_def dereg_mr_def unmap_def log_call_def)



section \<open>Scatter gather lists\<close>

definition sg_ok :: "ScatterGatherBuffer \<Rightarrow> bool" where
  "sg_ok b \<longleftrightarrow> sg_length b = of_nat (sum_list (map (unat \<circ> sge_length) (sg_handle b)))"

lemma sg_push_ok: "sg_ok b \<Longrightarrow> sg_ok (sg_push e b)"
  by (simp add: sg_ok_def sg_push_def)

lemma sg_operations_ok:
  "sg_ok (new_sg bid)" "sg_ok (sg_reset b)" "sg_ok b \<Longrightarrow> sg_ok (sg_add_addr r a n b)"
  "sg_ok b \<Longrightarrow> sg_ok (sg_add_offset r off n b)" "sg_ok b \<Longrightarrow> sg_ok (sg_add_buffer ib off n b)"
  by (simp_all add: sg_ok_def new_sg_def sg_reset_def sg_add_addr_def sg_add_offset_def
      sg_add_buffer_def sg_push_def)

text \<open>A scatter gather list built by the operations of the class.\<close>

datatype sg_op = Add_addr ibv_mr u64 u32 | Add_offset ibv_mr u64 u32
  | Add_buffer InfinibandBuffer u64 u32 | Reset

fun sg_apply :: "sg_op \<Rightarrow> ScatterGatherBuffer \<Rightarrow> ScatterGatherBuffer" where
  "sg_apply (Add_addr r a n) b = sg_add_addr r a n b"
| "sg_apply (Add_offset r off n) b = sg_add_offset r off n b"
| "sg_apply (Add_buffer ib off n) b = sg_add_buffer ib off n b"
| "sg_apply Reset b = sg_reset b"

interpretation sg_steps: inductive_invariant "\<lambda>b. \<exists>i. b = new_sg i" "\<lambda>b b'. \<exists>x. b' = sg_apply x b" sg_ok
proof
  fix b b' assume "sg_ok b" and "\<exists>x. b' = sg_apply x b"
  then obtain x where "b' = sg_apply x b" by blast
  then show "sg_ok b'" using \<open>sg_ok b\<close> by (cases x) (auto intro: sg_operations_ok)
qed (auto intro: sg_operations_ok)

lemma sg_reachable_ok: "sg_ok (fold sg_apply ops (new_sg bid))"
proof -
  have "(\<lambda>b b'. \<exists>x. b' = sg_apply x b)\<^sup>*\<^sup>* b (fold sg_apply ops b)" for b
  proof (induction ops arbitrary: b)
    case (Cons x ops)
    then show ?case by (metis (mono_tags, lifting) converse_rtranclp_into_rtranclp fold_simps(2))
  qed simp
  then show ?thesis using sg_steps.inv_reachable by blast
qed

end
