(* ===== verification/Byte_Buffer.thy ===== *)
theory Byte_Buffer
  imports Prelude
begin

text \<open>
  The cursor classes of \<^verbatim>\<open>crossbow/byte_buffer.hpp\<close> and the alignment function of
  \<^verbatim>\<open>crossbow/alignment.hpp\<close> they use. A cursor is a pair of machine addresses into the flat
  memory the network adapter works on; the cursors check nothing themselves, so the lemmas
  are about the guards \<open>canRead\<close> and \<open>canWrite\<close> their clients ask before every access.
  Addresses are 64-bit words and pointer arithmetic wraps, as the machine's does.

  The main results: \<open>align\<close> rounds up to the next multiple of a power of two; a sequence of
  mixed writes is read back by the same sequence of reads at any address that is congruent to
  the writer's modulo the alignments used.
\<close>

named_theorems flat_simps

section \<open>Alignment\<close>

definition align :: "'a::len word \<Rightarrow> 'a word \<Rightarrow> 'a word" where
  "align value alignment = (value - 1 + alignment) AND (- alignment)"

lemma minus_power_mask: "- (2 ^ k :: 'a::len word) = NOT (mask k)"
  by (simp add: mask_eq_exp_minus_1 minus_eq_not_minus_1)

lemma unat_clear_low_bits:
  "unat ((w :: 'a::len word) AND NOT (mask k)) = unat w div 2 ^ k * 2 ^ k"
proof -
  have "w AND NOT (mask k) = push_bit k (drop_bit k w)"
    by (rule bit_word_eqI) (auto simp: bit_simps)
  also have "\<dots> = w - take_bit k w"
    by (metis add_diff_cancel_right' bits_ident)
  finally have "unat (w AND NOT (mask k)) = unat w - unat (take_bit k w)"
    by (simp add: unat_sub word_le_nat_alt unsigned_take_bit_eq take_bit_nat_less_eq_self)
  also have "unat (take_bit k w) = unat w mod 2 ^ k"
    by (subst unsigned_take_bit_eq) (rule take_bit_eq_mod)
  finally show ?thesis by (simp only: minus_mod_eq_div_mult)
qed

text \<open>Rounding up, on natural numbers.\<close>

definition round_up :: "nat \<Rightarrow> nat \<Rightarrow> nat" where
  "round_up n a = (n + (a - 1)) div a * a"

lemma round_up_least:
  assumes "0 < a"
  shows "n \<le> round_up n a" and "a dvd round_up n a" and "round_up n a < n + a"
    and "a dvd m \<Longrightarrow> n \<le> m \<Longrightarrow> round_up n a \<le> m"
proof -
  have split: "n + (a - 1) = round_up n a + (n + (a - 1)) mod a"
    unfolding round_up_def by simp
  have rest: "(n + (a - 1)) mod a < a" using assms by simp
  show "n \<le> round_up n a" "round_up n a < n + a" using split rest assms by linarith+
  show "a dvd round_up n a" by (simp add: round_up_def)
  assume "a dvd m" and "n \<le> m"
  then obtain k where "m = a * k" by blast
  then have "(n + (a - 1)) div a \<le> (a * k + (a - 1)) div a"
    using \<open>n \<le> m\<close> by (intro div_le_mono) simp
  also have "\<dots> = k"
    using assms div_mult_self4 [where b = a and c = k and a = "a - 1"] div_less [of "a - 1" a]
    by simp
  finally show "round_up n a \<le> m"
    unfolding round_up_def \<open>m = a * k\<close> by (subst mult.commute) (rule mult_le_mono2)
qed

lemma round_up_shift: "a dvd b \<Longrightarrow> 0 < a \<Longrightarrow> round_up (b + n) a = b + round_up n a"
  unfolding round_up_def dvd_def
  using div_mult_self4 [where b = a and a = "n + (a - 1)"]
  by (auto simp only: add.assoc distrib_left mult.commute)

lemma round_up_cong_offset:
  assumes "0 < a" and "b mod a = c mod a"
  shows "round_up (b + n) a - b = round_up (c + n) a - c"
proof -
  have off: "round_up (b + n) a - b = round_up (b mod a + n) a - b mod a" for b
  proof -
    have "round_up (b div a * a + (b mod a + n)) a = b div a * a + round_up (b mod a + n) a"
      by (rule round_up_shift) (simp_all add: assms(1))
    then have "round_up (b + n) a - b
        = (b div a * a + round_up (b mod a + n) a) - (b div a * a + b mod a)"
      by (simp add: add.assoc [symmetric])
    then show ?thesis by (simp only: Nat.diff_cancel)
  qed
  show ?thesis using off [of b] off [of c] assms(2) by simp
qed

lemma unat_align:
  fixes v :: "'a::len word"
  assumes "k < LENGTH('a)" and "unat v + 2 ^ k \<le> 2 ^ LENGTH('a)"
  shows "unat (align v (2 ^ k)) = round_up (unat v) (2 ^ k)"
proof -
  have one: "unat (2 ^ k - 1 :: 'a word) = 2 ^ k - 1"
    using assms(1) by (simp add: unat_sub word_le_nat_alt unat_two_power)
  have "v - 1 + 2 ^ k = v + (2 ^ k - 1)" by simp
  also have "unat (v + (2 ^ k - 1)) = unat v + (2 ^ k - 1)"
    using assms(2) zero_less_power [of "2 :: nat" k]
    by (subst unat_add_no_wrap) (simp_all only: one, linarith)
  finally have "unat (v - 1 + 2 ^ k) = unat v + (2 ^ k - 1)" .
  then show ?thesis by (simp add: align_def minus_power_mask unat_clear_low_bits round_up_def)
qed

section \<open>Flat memory\<close>

text \<open>
  The memory under the buffers, as a total function of the address; \<open>put_bytes\<close> is a
  \<^verbatim>\<open>memcpy\<close> to an address and \<open>get_bytes\<close> the bytes found from an address on.
\<close>

type_synonym flat = "u64 \<Rightarrow> byte"

definition get_bytes :: "flat \<Rightarrow> u64 \<Rightarrow> nat \<Rightarrow> byte list" where
  "get_bytes m a n = map (\<lambda>i. m (a + of_nat i)) [0..<n]"

definition put_bytes :: "flat \<Rightarrow> u64 \<Rightarrow> byte list \<Rightarrow> flat" where
  "put_bytes m a bs = (\<lambda>x. if unat (x - a) < length bs then bs ! unat (x - a) else m x)"

lemma length_get_bytes [simp]: "length (get_bytes m a n) = n"
  by (simp add: get_bytes_def)

lemma nth_get_bytes [flat_simps]: "i < n \<Longrightarrow> get_bytes m a n ! i = m (a + of_nat i)"
  by (simp add: get_bytes_def)

lemma get_bytes_append: "get_bytes m a (n + k) = get_bytes m a n @ get_bytes m (a + of_nat n) k"
  by (rule nth_equalityI) (auto simp: nth_append nth_get_bytes algebra_simps of_nat_diff)

lemma get_bytes_sub:
  "j + k \<le> n \<Longrightarrow> get_bytes m (a + of_nat j) k = take k (drop j (get_bytes m a n))"
  by (rule nth_equalityI) (auto simp: nth_get_bytes algebra_simps)

lemma get_bytes_eq_iff:
  "get_bytes m a n = get_bytes m' b n \<longleftrightarrow> (\<forall>i < n. m (a + of_nat i) = m' (b + of_nat i))"
  by (auto simp: get_bytes_def)

lemma put_bytes_inside [flat_simps]:
  "i < length bs \<Longrightarrow> length bs \<le> 2 ^ 64 \<Longrightarrow> put_bytes m a bs (a + of_nat i) = bs ! i"
  by (simp add: put_bytes_def unat_of_nat_u64)

lemma get_put_same [flat_simps]:
  "length bs \<le> 2 ^ 64 \<Longrightarrow> n = length bs \<Longrightarrow> get_bytes (put_bytes m a bs) a n = bs"
  by (rule nth_equalityI) (simp_all add: nth_get_bytes put_bytes_inside)

text \<open>An address outside the range that is written keeps its byte.\<close>

lemma put_bytes_outside:
  assumes "unat x < unat a \<or> unat a + length bs \<le> unat x" and "unat a + length bs \<le> 2 ^ 64"
  shows "put_bytes m a bs x = m x"
proof -
  have "\<not> unat (x - a) < length bs"
  proof (cases "unat x < unat a")
    case True
    then have "unat (x - a) = 2 ^ 64 + unat x - unat a"
      using u64_lt [of a] by (simp add: unat_sub_if')
    then show ?thesis using assms(2) True by simp
  next
    case False
    then have "unat (x - a) = unat x - unat a" by (simp add: unat_sub word_le_nat_alt)
    then show ?thesis using assms(1) False by simp
  qed
  then show ?thesis by (simp add: put_bytes_def)
qed

text \<open>Two writes one behind the other.\<close>

lemma put_bytes_append:
  assumes "length xs + length ys \<le> 2 ^ 64"
  shows "put_bytes (put_bytes m a xs) (a + of_nat (length xs)) ys = put_bytes m a (xs @ ys)"
proof
  fix x
  let ?d = "unat (x - a)" and ?k = "length xs"
  show "put_bytes (put_bytes m a xs) (a + of_nat ?k) ys x = put_bytes m a (xs @ ys) x"
  proof (cases "ys = []")
    case False
    then have k: "?k < 2 ^ 64" using assms by (cases ys) auto
    have eq: "x - (a + of_nat ?k) = (x - a) - of_nat ?k" by simp
    have "unat (x - (a + of_nat ?k)) = (if ?k \<le> ?d then ?d - ?k else ?d + 2 ^ 64 - ?k)"
      unfolding eq using k unat_sub_if' [of "x - a" "of_nat ?k"] by (simp add: unat_of_nat_u64 del: unat_sub_if')
    then show ?thesis using assms k by (auto simp: put_bytes_def nth_append)
  qed (simp add: put_bytes_def)
qed

text \<open>Two memories that agree on a range of addresses.\<close>

definition agree_on :: "flat \<Rightarrow> flat \<Rightarrow> nat \<Rightarrow> nat \<Rightarrow> bool" where
  "agree_on m m' lo hi \<longleftrightarrow> (\<forall>x. lo \<le> unat x \<and> unat x < hi \<longrightarrow> m x = m' x)"

lemma agree_on_refl [simp]: "agree_on m m lo hi"
  by (simp add: agree_on_def)

lemma agree_on_trans: "agree_on m m' lo hi \<Longrightarrow> agree_on m' m'' lo hi \<Longrightarrow> agree_on m m'' lo hi"
  by (simp add: agree_on_def)

lemma agree_on_subset: "agree_on m m' lo hi \<Longrightarrow> lo \<le> lo' \<Longrightarrow> hi' \<le> hi \<Longrightarrow> agree_on m m' lo' hi'"
  by (simp add: agree_on_def)

lemma agree_on_put_before: "unat a + length bs \<le> 2 ^ 64 \<Longrightarrow> agree_on m (put_bytes m a bs) 0 (unat a)"
  by (simp add: agree_on_def put_bytes_outside)

lemma agree_on_put_after:
  "unat a + length bs \<le> lo \<Longrightarrow> lo \<le> 2 ^ 64 \<Longrightarrow> agree_on m (put_bytes m a bs) lo hi"
  by (simp add: agree_on_def put_bytes_outside)

lemma agree_on_get_bytes:
  assumes "agree_on m m' lo hi" and "lo \<le> unat a" and "unat a + n \<le> hi" and "hi \<le> 2 ^ 64"
  shows "get_bytes m a n = get_bytes m' a n"
  unfolding get_bytes_eq_iff
proof (intro allI impI)
  fix i assume "i < n"
  then have "unat (a + of_nat i :: u64) = unat a + i"
    using assms by (subst unat_add_no_wrap) (simp_all add: unat_of_nat_u64)
  then show "m (a + of_nat i) = m' (a + of_nat i)"
    using assms \<open>i < n\<close> by (simp add: agree_on_def)
qed

section \<open>buffer\_reader\<close>

record buffer_reader =
  rd_mPos :: u64
  rd_mEnd :: u64

definition new_reader :: "u64 \<Rightarrow> u64 \<Rightarrow> buffer_reader" where
  "new_reader pos len = \<lparr>rd_mPos = pos, rd_mEnd = pos + len\<rparr>"

definition reader_move_assign :: "buffer_reader \<Rightarrow> buffer_reader \<times> buffer_reader" where
  "reader_move_assign other =
    (\<lparr>rd_mPos = rd_mPos other, rd_mEnd = rd_mEnd other\<rparr>, \<lparr>rd_mPos = 0, rd_mEnd = 0\<rparr>)"

definition reader_exhausted :: "buffer_reader \<Rightarrow> bool" where
  "reader_exhausted r \<longleftrightarrow> rd_mEnd r \<le> rd_mPos r"

definition canRead :: "u64 \<Rightarrow> buffer_reader \<Rightarrow> bool" where
  "canRead len r \<longleftrightarrow> rd_mPos r + len \<le> rd_mEnd r"

definition reader_advance :: "u64 \<Rightarrow> buffer_reader \<Rightarrow> buffer_reader" where
  "reader_advance len r = r\<lparr>rd_mPos := rd_mPos r + len\<rparr>"

definition reader_read :: "flat \<Rightarrow> buffer_reader \<Rightarrow> 'a::len word \<times> buffer_reader" where
  "reader_read m r =
    (let size_T = LENGTH('a) div 8
     in (of_le_bytes (get_bytes m (rd_mPos r) size_T), reader_advance (of_nat size_T) r))"

definition reader_read_ptr :: "u64 \<Rightarrow> buffer_reader \<Rightarrow> u64 \<times> buffer_reader" where
  "reader_read_ptr len r = (rd_mPos r, reader_advance len r)"

definition reader_align :: "u64 \<Rightarrow> buffer_reader \<Rightarrow> buffer_reader" where
  "reader_align alignment r = r\<lparr>rd_mPos := align (rd_mPos r) alignment\<rparr>"

definition reader_extract :: "u64 \<Rightarrow> buffer_reader \<Rightarrow> buffer_reader \<times> buffer_reader" where
  "reader_extract len r = (new_reader (rd_mPos r) len, reader_advance len r)"

section \<open>buffer\_writer\<close>

record buffer_writer =
  wr_mPos :: u64
  wr_mEnd :: u64

definition new_writer :: "u64 \<Rightarrow> u64 \<Rightarrow> buffer_writer" where
  "new_writer pos len = \<lparr>wr_mPos = pos, wr_mEnd = pos + len\<rparr>"

definition writer_move_assign :: "buffer_writer \<Rightarrow> buffer_writer \<times> buffer_writer" where
  "writer_move_assign other =
    (\<lparr>wr_mPos = wr_mPos other, wr_mEnd = wr_mEnd other\<rparr>, \<lparr>wr_mPos = 0, wr_mEnd = 0\<rparr>)"

definition writer_exhausted :: "buffer_writer \<Rightarrow> bool" where
  "writer_exhausted w \<longleftrightarrow> wr_mEnd w \<le> wr_mPos w"

definition canWrite :: "u64 \<Rightarrow> buffer_writer \<Rightarrow> bool" where
  "canWrite len w \<longleftrightarrow> wr_mPos w + len \<le> wr_mEnd w"

definition writer_advance :: "u64 \<Rightarrow> buffer_writer \<Rightarrow> buffer_writer" where
  "writer_advance len w = w\<lparr>wr_mPos := wr_mPos w + len\<rparr>"

definition writer_write :: "'a::len word \<Rightarrow> buffer_writer \<Rightarrow> flat \<Rightarrow> buffer_writer \<times> flat" where
  "writer_write value w m =
    (let size_T = LENGTH('a) div 8
     in (writer_advance (of_nat size_T) w, put_bytes m (wr_mPos w) (le_bytes size_T value)))"

definition writer_write_ptr :: "byte list \<Rightarrow> buffer_writer \<Rightarrow> flat \<Rightarrow> buffer_writer \<times> flat" where
  "writer_write_ptr value w m =
    (writer_advance (of_nat (length value)) w, put_bytes m (wr_mPos w) value)"

definition writer_set :: "byte \<Rightarrow> u64 \<Rightarrow> buffer_writer \<Rightarrow> flat \<Rightarrow> buffer_writer \<times> flat" where
  "writer_set value len w m =
    (writer_advance len w, put_bytes m (wr_mPos w) (replicate (unat len) value))"

definition writer_align :: "u64 \<Rightarrow> buffer_writer \<Rightarrow> buffer_writer" where
  "writer_align alignment w = w\<lparr>wr_mPos := align (wr_mPos w) alignment\<rparr>"

definition writer_extract :: "u64 \<Rightarrow> buffer_writer \<Rightarrow> buffer_writer \<times> buffer_writer" where
  "writer_extract len w = (new_writer (wr_mPos w) len, writer_advance len w)"

lemmas reader_defs = reader_move_assign_def reader_exhausted_def canRead_def reader_advance_def
  reader_read_def reader_read_ptr_def reader_align_def reader_extract_def new_reader_def

lemmas writer_defs = writer_move_assign_def writer_exhausted_def canWrite_def writer_advance_def
  writer_write_def writer_write_ptr_def writer_set_def writer_align_def writer_extract_def
  new_writer_def

section \<open>What is written is read back\<close>

text \<open>
  A client's use of the cursors: values of the four integer widths, byte ranges, fills and
  alignments, in any order. \<open>seen\<close> is what the reader gets for each; a fill is read as bytes.
\<close>

datatype item =
  Item8 byte | Item16 u16 | Item32 u32 | Item64 u64 | Raw "byte list" | Fill byte nat | Pad nat

fun write_item :: "item \<Rightarrow> buffer_writer \<times> flat \<Rightarrow> buffer_writer \<times> flat" where
  "write_item (Item8 v) (w, m) = writer_write v w m"
| "write_item (Item16 v) (w, m) = writer_write v w m"
| "write_item (Item32 v) (w, m) = writer_write v w m"
| "write_item (Item64 v) (w, m) = writer_write v w m"
| "write_item (Raw bs) (w, m) = writer_write_ptr bs w m"
| "write_item (Fill v n) (w, m) = writer_set v (of_nat n) w m"
| "write_item (Pad k) (w, m) = (writer_align (2 ^ k) w, m)"

fun read_item :: "item \<Rightarrow> flat \<Rightarrow> buffer_reader \<Rightarrow> item \<times> buffer_reader" where
  "read_item (Item8 _) m r = map_prod Item8 id (reader_read m r)"
| "read_item (Item16 _) m r = map_prod Item16 id (reader_read m r)"
| "read_item (Item32 _) m r = map_prod Item32 id (reader_read m r)"
| "read_item (Item64 _) m r = map_prod Item64 id (reader_read m r)"
| "read_item (Raw bs) m r =
    map_prod (\<lambda>p. Raw (get_bytes m p (length bs))) id (reader_read_ptr (of_nat (length bs)) r)"
| "read_item (Fill _ n) m r =
    map_prod (\<lambda>p. Raw (get_bytes m p n)) id (reader_read_ptr (of_nat n) r)"
| "read_item (Pad k) m r = (Pad k, reader_align (2 ^ k) r)"

fun read_items :: "item list \<Rightarrow> flat \<Rightarrow> buffer_reader \<Rightarrow> item list \<times> buffer_reader" where
  "read_items [] m r = ([], r)"
| "read_items (it # its) m r =
    (let (v, r') = read_item it m r; (vs, r'') = read_items its m r' in (v # vs, r''))"

fun seen :: "item \<Rightarrow> item" where
  "seen (Fill v n) = Raw (replicate n v)"
| "seen it = it"

fun item_bytes :: "item \<Rightarrow> byte list" where
  "item_bytes (Item8 v) = le_bytes 1 v"
| "item_bytes (Item16 v) = le_bytes 2 v"
| "item_bytes (Item32 v) = le_bytes 4 v"
| "item_bytes (Item64 v) = le_bytes 8 v"
| "item_bytes (Raw bs) = bs"
| "item_bytes (Fill v n) = replicate n v"
| "item_bytes (Pad k) = []"

text \<open>Where an item that starts at address \<open>p\<close> ends.\<close>

fun item_end :: "nat \<Rightarrow> item \<Rightarrow> nat" where
  "item_end p (Pad k) = round_up p (2 ^ k)"
| "item_end p it = p + length (item_bytes it)"

definition items_end :: "nat \<Rightarrow> item list \<Rightarrow> nat" where
  "items_end p its = fold (\<lambda>it p. item_end p it) its p"

lemma items_end_simps [simp]:
  "items_end p [] = p" "items_end p (it # its) = items_end (item_end p it) its"
  by (simp_all add: items_end_def)

lemma item_end_ge: "p + length (item_bytes it) \<le> item_end p it"
  by (cases it) (auto simp: round_up_least)

lemma items_end_ge: "p \<le> items_end p its"
proof (induction its arbitrary: p)
  case (Cons it its)
  then show ?case using item_end_ge [of p it] by (metis add_leD1 items_end_simps(2) le_trans)
qed simp

lemma round_up_room:
  assumes "round_up p (2 ^ k) < 2 ^ n" and "k \<le> n"
  shows "p + 2 ^ k \<le> (2 ^ n :: nat)"
proof -
  have "(2 :: nat) ^ k dvd 2 ^ n" using assms(2) by (rule le_imp_power_dvd)
  moreover have dvd: "2 ^ k dvd round_up p (2 ^ k)" by (rule round_up_least) simp
  ultimately have "2 ^ k dvd 2 ^ n - round_up p (2 ^ k)" by (rule dvd_diff_nat)
  then have "2 ^ k \<le> 2 ^ n - round_up p (2 ^ k)" by (rule dvd_imp_le) (use assms in simp)
  then show ?thesis using round_up_least(1) [of "2 ^ k" p] assms(1) by simp
qed

text \<open>The alignments of the code are powers of two an address can hold.\<close>

fun pads_ok :: "item \<Rightarrow> bool" where
  "pads_ok (Pad k) \<longleftrightarrow> k < 64"
| "pads_ok _ \<longleftrightarrow> True"

lemma align_u64:
  assumes "k < 64" and "round_up (unat p) (2 ^ k) < 2 ^ 64"
  shows "align (p :: u64) (2 ^ k) = of_nat (round_up (unat p) (2 ^ k))"
proof -
  have "unat p + 2 ^ k \<le> 2 ^ 64" by (rule round_up_room) (use assms in simp_all)
  then have "unat (align p (2 ^ k)) = round_up (unat p) (2 ^ k)"
    using unat_align [of k p] assms(1) by simp
  then show ?thesis using assms(2) by (simp add: u64_eq_iff_unat unat_of_nat_u64)
qed

lemma write_item_effect:
  assumes "item_end (unat (wr_mPos w)) it < 2 ^ 64" and "pads_ok it"
  shows "write_item it (w, m) =
    (w\<lparr>wr_mPos := of_nat (item_end (unat (wr_mPos w)) it)\<rparr>, put_bytes m (wr_mPos w) (item_bytes it))"
proof (cases it)
  case (Fill v n)
  then show ?thesis using assms
    by (simp add: writer_set_def writer_advance_def unat_of_nat_u64)
next
  case (Pad k)
  then show ?thesis using assms
    by (simp add: writer_align_def align_u64 put_bytes_def)
qed (simp_all add: writer_write_def writer_write_ptr_def writer_advance_def)

lemma reader_read_value:
  assumes "get_bytes m (rd_mPos r) (LENGTH('a) div 8) = le_bytes (LENGTH('a) div 8) v"
    and "8 dvd LENGTH('a)"
  shows "reader_read m r = (v :: 'a::len word, reader_advance (of_nat (LENGTH('a) div 8)) r)"
  using assms by (simp add: reader_read_def of_le_bytes_le_bytes take_bit_word_eq_self)

lemma read_item_value:
  assumes "item_end (unat (rd_mPos r)) it < 2 ^ 64" and "pads_ok it"
    and "get_bytes m (rd_mPos r) (length (item_bytes it)) = item_bytes it"
  shows "read_item it m r = (seen it, r\<lparr>rd_mPos := of_nat (item_end (unat (rd_mPos r)) it)\<rparr>)"
proof (cases it)
  case (Pad k)
  then show ?thesis using assms by (simp add: reader_align_def align_u64)
next
  case (Item8 v)
  then show ?thesis using assms reader_read_value [of m r v]
    by (simp add: reader_advance_def)
next
  case (Item16 v)
  then show ?thesis using assms reader_read_value [of m r v]
    by (simp add: reader_advance_def)
next
  case (Item32 v)
  then show ?thesis using assms reader_read_value [of m r v]
    by (simp add: reader_advance_def)
next
  case (Item64 v)
  then show ?thesis using assms reader_read_value [of m r v]
    by (simp add: reader_advance_def)
qed (use assms in \<open>simp_all add: reader_read_ptr_def reader_advance_def\<close>)

lemma write_items_effect:
  assumes "items_end (unat (wr_mPos w)) its < 2 ^ 64" and "\<forall>it \<in> set its. pads_ok it"
  shows "\<exists>m'. fold write_item its (w, m) =
      (w\<lparr>wr_mPos := of_nat (items_end (unat (wr_mPos w)) its)\<rparr>, m')
    \<and> agree_on m m' 0 (unat (wr_mPos w))
    \<and> agree_on m m' (items_end (unat (wr_mPos w)) its) (2 ^ 64)"
  using assms
proof (induction its arbitrary: w m)
  case Nil
  show ?case by simp
next
  case (Cons it its)
  let ?p = "unat (wr_mPos w)" and ?e = "item_end (unat (wr_mPos w)) it"
  let ?m = "put_bytes m (wr_mPos w) (item_bytes it)"
  let ?w = "w\<lparr>wr_mPos := of_nat ?e\<rparr>"
  have e: "?e < 2 ^ 64" using Cons.prems items_end_ge [of ?e its] by simp
  then have we: "unat (wr_mPos ?w) = ?e" by (simp add: unat_of_nat_u64)
  have one: "write_item it (w, m) = (?w, ?m)"
    by (rule write_item_effect) (use e Cons.prems in simp_all)
  have le: "?p + length (item_bytes it) \<le> ?e" by (rule item_end_ge)
  obtain m' where m': "fold write_item its (?w, ?m) = (?w\<lparr>wr_mPos := of_nat (items_end ?e its)\<rparr>, m')"
    "agree_on ?m m' 0 ?e" "agree_on ?m m' (items_end ?e its) (2 ^ 64)"
    using Cons.IH [of ?w ?m, unfolded we] Cons.prems by auto
  have before: "agree_on m ?m 0 ?p" by (rule agree_on_put_before) (use le e in linarith)
  have after: "agree_on m ?m ?e (2 ^ 64)" by (rule agree_on_put_after) (use le e in linarith)+
  have "agree_on m m' 0 ?p"
    by (rule agree_on_trans [OF before agree_on_subset [OF m'(2)]]) (use le in simp_all)
  moreover have "agree_on m m' (items_end ?e its) (2 ^ 64)"
    using agree_on_subset [OF after items_end_ge order_refl] m'(3) by (rule agree_on_trans)
  ultimately show ?case unfolding fold_simps one items_end_simps
    using m'(1) by (auto simp: buffer_writer.update_convs)
qed

lemma round_up_cong:
  assumes "0 < a" and "b mod a = c mod a"
  shows "round_up b a - b = round_up c a - c"
  using round_up_cong_offset [OF assms, of 0] by simp

text \<open>The items occupy as much room at every congruent start.\<close>

definition congruent_for :: "item list \<Rightarrow> nat \<Rightarrow> nat \<Rightarrow> bool" where
  "congruent_for its p q \<longleftrightarrow> (\<forall>k. Pad k \<in> set its \<longrightarrow> p mod 2 ^ k = q mod 2 ^ k)"

lemma congruent_add: "(p :: nat) mod a = q mod a \<Longrightarrow> (p + n) mod a = (q + n) mod a"
  by (metis mod_add_left_eq)

lemma item_end_congruent:
  assumes "congruent_for (it # its) p q"
  obtains n where "item_end p it = p + n" and "item_end q it = q + n"
    and "congruent_for its (p + n) (q + n)"
proof -
  have "item_end p it - p = item_end q it - q"
  proof (cases it)
    case (Pad k)
    then have "p mod 2 ^ k = q mod 2 ^ k" using assms by (simp add: congruent_for_def)
    then show ?thesis using round_up_cong [of "2 ^ k" p q] Pad by simp
  qed simp_all
  then have q: "item_end q it = q + (item_end p it - p)"
    using item_end_ge [of q it] by simp
  have p: "item_end p it = p + (item_end p it - p)" using item_end_ge [of p it] by simp
  have "congruent_for its (p + n) (q + n)" for n
    using assms by (auto simp: congruent_for_def intro: congruent_add)
  then show thesis by (rule that [OF p q])
qed

lemma items_end_congruent:
  assumes "congruent_for its p q"
  shows "items_end p its - p = items_end q its - q"
  using assms
proof (induction its arbitrary: p q)
  case (Cons it its)
  obtain n where n: "item_end p it = p + n" "item_end q it = q + n"
    and c: "congruent_for its (p + n) (q + n)"
    using item_end_congruent [OF Cons.prems] .
  have "items_end (p + n) its - (p + n) = items_end (q + n) its - (q + n)"
    by (rule Cons.IH [OF c])
  moreover have "p + n \<le> items_end (p + n) its" "q + n \<le> items_end (q + n) its"
    by (rule items_end_ge)+
  ultimately show ?case by (simp add: n)
qed simp

lemma read_items_values:
  assumes "items_end (unat (wr_mPos w)) its < 2 ^ 64" and "\<forall>it \<in> set its. pads_ok it"
    and "fold write_item its (w, m) = (w', m')"
    and "items_end (unat (rd_mPos r)) its < 2 ^ 64"
    and "congruent_for its (unat (wr_mPos w)) (unat (rd_mPos r))"
    and "get_bytes rm (rd_mPos r) n = get_bytes m' (wr_mPos w) n"
    and "n = items_end (unat (wr_mPos w)) its - unat (wr_mPos w)"
  shows "read_items its rm r = (map seen its, r\<lparr>rd_mPos := of_nat (items_end (unat (rd_mPos r)) its)\<rparr>)"
  using assms
proof (induction its arbitrary: w m r n)
  case Nil
  show ?case by simp
next
  case (Cons it its)
  let ?p = "unat (wr_mPos w)" and ?q = "unat (rd_mPos r)"
  obtain k where k: "item_end ?p it = ?p + k" "item_end ?q it = ?q + k"
    and c: "congruent_for its (?p + k) (?q + k)"
    using item_end_congruent [OF Cons.prems(5)] .
  let ?w = "w\<lparr>wr_mPos := of_nat (?p + k)\<rparr>" and ?r = "r\<lparr>rd_mPos := of_nat (?q + k)\<rparr>"
  let ?m = "put_bytes m (wr_mPos w) (item_bytes it)"
  let ?l = "length (item_bytes it)"
  have ends: "items_end (?p + k) its < 2 ^ 64" "items_end (?q + k) its < 2 ^ 64"
    using Cons.prems(1,4) by (simp_all add: k)
  then have pk: "?p + k < 2 ^ 64" and qk: "?q + k < 2 ^ 64"
    using items_end_ge [of "?p + k" its] items_end_ge [of "?q + k" its] by linarith+
  have wp: "unat (wr_mPos ?w) = ?p + k" and rp: "unat (rd_mPos ?r) = ?q + k"
    using unat_of_nat_u64 [OF pk] unat_of_nat_u64 [OF qk] by (simp_all del: of_nat_add)
  have lk: "?l \<le> k" using item_end_ge [of ?p it] by (simp add: k)
  have one: "write_item it (w, m) = (?w, ?m)"
    using write_item_effect [of w it m] Cons.prems(2) pk by (simp add: k)
  then have rest: "fold write_item its (?w, ?m) = (w', m')" using Cons.prems(3) by simp
  have n: "n = k + (items_end (?p + k) its - (?p + k))"
    using Cons.prems(7) items_end_ge [of "?p + k" its] by (simp add: k)
  have split: "get_bytes x a n = get_bytes x a k @ get_bytes x (a + of_nat k) (n - k)" for x a
    using get_bytes_append [of x a k "n - k"] n by simp
  have low: "get_bytes rm (rd_mPos r) k = get_bytes m' (wr_mPos w) k"
    and high: "get_bytes rm (rd_mPos r + of_nat k) (n - k) = get_bytes m' (wr_mPos w + of_nat k) (n - k)"
    using Cons.prems(6) unfolding split by auto
  obtain m'' where "fold write_item its (?w, ?m) = (?w\<lparr>wr_mPos := of_nat (items_end (?p + k) its)\<rparr>, m'')"
    and m'': "agree_on ?m m'' 0 (?p + k)"
    using write_items_effect [of ?w its ?m, unfolded wp] Cons.prems(2) ends by auto
  then have "m'' = m'" using rest by simp
  have "get_bytes m' (wr_mPos w) ?l = get_bytes ?m (wr_mPos w) ?l"
    using agree_on_get_bytes [OF m'', of "wr_mPos w" ?l] lk pk \<open>m'' = m'\<close> by simp
  also have "\<dots> = item_bytes it" using lk pk by (intro get_put_same) simp_all
  finally have "get_bytes m' (wr_mPos w) ?l = item_bytes it" .
  moreover have "get_bytes x a ?l = take ?l (get_bytes x a k)" for x a
    using get_bytes_append [of x a ?l "k - ?l"] lk by simp
  ultimately have "get_bytes rm (rd_mPos r) ?l = item_bytes it" using low by metis
  then have "read_item it rm r = (seen it, ?r)"
    using read_item_value [of r it rm] Cons.prems(2) qk by (simp add: k)
  moreover have "get_bytes rm (rd_mPos ?r) (n - k) = get_bytes m' (wr_mPos ?w) (n - k)"
    using high by simp
  then have "read_items its rm ?r
      = (map seen its, ?r\<lparr>rd_mPos := of_nat (items_end (?q + k) its)\<rparr>)"
    using Cons.IH [of ?w ?m ?r "n - k", unfolded wp rp] Cons.prems(2) ends rest c n by simp
  ultimately show ?case by (simp add: k del: of_nat_add)
qed

text \<open>
  C13: what a writer puts into a buffer, a reader of a copy of the buffer gets back: after any
  sequence of integers, byte ranges, fills and alignments written at \<open>w\<close>, the same sequence of
  reads from a copy at \<open>r\<close> returns the same values and ends at the same distance from the start.
  The start of the copy has to agree with the original's modulo every alignment used, since the
  cursors align addresses and not offsets. The writer changes no byte outside the range.
\<close>

theorem buffer_round_trip:
  assumes "items_end (unat (wr_mPos w)) its < 2 ^ 64" and "items_end (unat (rd_mPos r)) its < 2 ^ 64"
    and "\<forall>it \<in> set its. pads_ok it"
    and "congruent_for its (unat (wr_mPos w)) (unat (rd_mPos r))"
  shows "\<exists>m'. fold write_item its (w, m) =
      (w\<lparr>wr_mPos := of_nat (items_end (unat (wr_mPos w)) its)\<rparr>, m') \<and>
    agree_on m m' 0 (unat (wr_mPos w)) \<and> agree_on m m' (items_end (unat (wr_mPos w)) its) (2 ^ 64) \<and>
    (let n = items_end (unat (wr_mPos w)) its - unat (wr_mPos w) in
      \<forall>rm. get_bytes rm (rd_mPos r) n = get_bytes m' (wr_mPos w) n \<longrightarrow>
        read_items its rm r = (map seen its, r\<lparr>rd_mPos := of_nat (unat (rd_mPos r) + n)\<rparr>))"
proof -
  obtain m' where m': "fold write_item its (w, m) =
      (w\<lparr>wr_mPos := of_nat (items_end (unat (wr_mPos w)) its)\<rparr>, m')"
    "agree_on m m' 0 (unat (wr_mPos w))" "agree_on m m' (items_end (unat (wr_mPos w)) its) (2 ^ 64)"
    using write_items_effect [OF assms(1,3)] by blast
  have "items_end (unat (rd_mPos r)) its
      = unat (rd_mPos r) + (items_end (unat (wr_mPos w)) its - unat (wr_mPos w))"
    using items_end_congruent [OF assms(4)] items_end_ge [of "unat (rd_mPos r)" its] by simp
  then show ?thesis
    using m' read_items_values [OF assms(1,3) m'(1) assms(2,4) _ refl] by (auto simp: Let_def)
qed

theorem buffer_round_trip_witness:
  "\<exists>m'. fold write_item [Item8 7, Pad 3, Item64 9, Raw [1, 2]] (new_writer 0x1000 64, \<lambda>_. 0) =
      (new_writer 0x1000 64\<lparr>wr_mPos := 0x1012\<rparr>, m') \<and>
    (\<forall>rm. get_bytes rm 0x2008 18 = get_bytes m' 0x1000 18 \<longrightarrow>
      read_items [Item8 7, Pad 3, Item64 9, Raw [1, 2]] rm (new_reader 0x2008 64) =
        ([Item8 7, Pad 3, Item64 9, Raw [1, 2]], new_reader 0x2008 64\<lparr>rd_mPos := 0x201A\<rparr>))"
proof -
  let ?its = "[Item8 7, Pad 3, Item64 9, Raw [1, 2]]"
  have w: "wr_mPos (new_writer 0x1000 64) = 0x1000" and r: "rd_mPos (new_reader 0x2008 64) = 0x2008"
    by (simp_all add: new_writer_def new_reader_def)
  have e: "items_end (unat (0x1000 :: u64)) ?its = 0x1012" "items_end (unat (0x2008 :: u64)) ?its = 0x201A"
    by (simp_all add: round_up_def)
  have "congruent_for ?its (unat (0x1000 :: u64)) (unat (0x2008 :: u64))"
    by (simp add: congruent_for_def)
  then show ?thesis
    using buffer_round_trip [of "new_writer 0x1000 64" ?its "new_reader 0x2008 64" "\<lambda>_. 0"]
    unfolding w r e by (auto simp: Let_def)
qed

end
