(* ===== verification/Infinio_Context.thy ===== *)
theory Infinio_Context
  imports Infinio_Buffer Byte_Buffer
begin

text \<open>
  The completion context and the device context (\<^verbatim>\<open>DeviceContext.cpp\<close>): the pool of send buffers, the
  shared receive buffers, the sockets by queue pair number, and the dispatch of work completions
  to the sockets.

  The adapter is external. \<open>adapter\<close> collects the calls the code makes to it; the number given to
  \<open>post_send\<close>, \<open>post_recv\<close> and \<open>create_qp\<close> counts the calls made before, so that their result may
  change from call to call; \<open>create_qp\<close> also gets the numbers of the queue pairs that exist and the queue
  pair that the connection already has. A socket's handler is virtual: the dispatch takes it as an argument, and
  a handler may end with an exception, which the first component of its result names. The code is that of
  a release build, in which \<^verbatim>\<open>LOG_ASSERT\<close> is empty.
\<close>

unbundle bit_operations_syntax

section \<open>Effects\<close>

text \<open>A void function on the state that may raise \<^verbatim>\<open>std::system_error\<close>.\<close>

type_synonym 'w eff = "'w \<Rightarrow> error_code option \<times> 'w"

definition finish :: "'w eff" where
  "finish w = (None, w)"

definition raise :: "error_code \<Rightarrow> 'w eff" where
  "raise e w = (Some e, w)"

definition andthen :: "'w eff \<Rightarrow> 'w eff \<Rightarrow> 'w eff" where
  "andthen f g w = (case f w of (None, w') \<Rightarrow> g w' | (Some e, w') \<Rightarrow> (Some e, w'))"

fun each :: "('a \<Rightarrow> 'w eff) \<Rightarrow> 'a list \<Rightarrow> 'w eff" where
  "each f [] = finish"
| "each f (x # xs) = andthen (f x) (each f xs)"

section \<open>The adapter\<close>

datatype wr_opcode = WR_SEND | WR_RDMA_READ | WR_RDMA_WRITE | WR_RDMA_WRITE_WITH_IMM

record ibv_send_wr =
  wr_id :: u64
  wr_opcode :: wr_opcode
  wr_sg_list :: "ibv_sge list"
  wr_signaled :: bool
  wr_imm_data :: u32
  wr_remote_addr :: u64
  wr_rkey :: u32

record ibv_recv_wr =
  rwr_id :: u64
  rwr_sg_list :: "ibv_sge list"

datatype wc_opcode = WC_SEND | WC_RDMA_WRITE | WC_RDMA_READ | WC_RECV | WC_RECV_RDMA_WITH_IMM

record ibv_wc =
  wc_wr_id :: u64
  wc_qp_num :: u32
  wc_status :: int
  wc_opcode :: wc_opcode
  wc_byte_len :: u32
  wc_imm_data :: u32

datatype cm_call = CM_CREATE_ID | CM_DESTROY_ID | CM_BIND | CM_LISTEN | CM_RESOLVE_ADDR
  | CM_RESOLVE_ROUTE | CM_CONNECT | CM_ACCEPT | CM_REJECT | CM_DISCONNECT

type_synonym sid = nat

record adapter =
  post_send :: "nat \<Rightarrow> u32 option \<Rightarrow> ibv_send_wr \<Rightarrow> int"
  post_recv :: "nat \<Rightarrow> ibv_recv_wr \<Rightarrow> int"
  create_qp :: "nat \<Rightarrow> u32 list \<Rightarrow> u32 option \<Rightarrow> int + u32"
  cm :: "sid \<Rightarrow> cm_call \<Rightarrow> int"

section \<open>State\<close>

record InfinibandLimits =
  receiveBufferCount :: u16
  sendBufferCount :: u16
  bufferLength :: u32
  sendQueueLength :: u32
  maxScatterGather :: u32
  completionQueueLength :: u32
  pollCycles :: u64
  fiberCacheSize :: u64

definition default_limits :: InfinibandLimits where
  "default_limits = \<lparr>receiveBufferCount = 64, sendBufferCount = 64, bufferLength = 256,
     sendQueueLength = 64, maxScatterGather = 1, completionQueueLength = 128,
     pollCycles = 1000000, fiberCacheSize = 50\<rparr>"

record DeviceContext =
  mReceiveBufferCount :: u16
  mReceiveBufferLength :: u32
  mReceiveData :: ibv_mr
  mReceiveQueue :: "ibv_recv_wr list"
  dev_shutdown :: bool

record CompletionContext =
  mSendBufferCount :: u16
  mSendBufferLength :: u32
  mSendQueueLength :: u32
  mMaxScatterGather :: u32
  mCompletionQueueLength :: u32
  mSendData :: ibv_mr
  mSendBufferQueue :: "u16 list"
  mSocketMap :: "u32 \<rightharpoonup> sid"
  mDrainingQueue :: "sid list"
  mSleeping :: bool
  mShutdown :: bool

text \<open>
  A socket object: whether its \<^verbatim>\<open>rdma_cm_id\<close> exists, the number of its queue pair if there is one,
  whether a processor is attached, the private data sent when connecting, and its reference count.
\<close>

record socket =
  sk_open :: bool
  sk_qp :: "u32 option"
  sk_processor :: bool
  sk_data :: "byte list"
  sk_refs :: u64

datatype task =
    Task_AddressResolved sid
  | Task_RouteResolved sid
  | Task_ResolutionError sid network_errors
  | Task_ConnectionError sid network_errors
  | Task_ConnectionRejected sid "byte list"
  | Task_ConnectionEstablished sid "byte list"
  | Task_Disconnected sid
  | Task_TimewaitExit sid
  | Task_Flush sid
  | Task_RemoveConnection sid
  | Task_Resume nat
  | Task_DeleteFiber nat

text \<open>
  The process: the two contexts, memory, sockets, the two task queues of the poll thread, the
  requests posted so far with the bytes they send, and those of them that are not yet completed.
\<close>

record world =
  w_dev :: DeviceContext
  w_ctx :: CompletionContext
  w_mem :: flat
  w_sockets :: "sid \<Rightarrow> socket"
  w_local :: "task list"
  w_remote :: "task list"
  w_outstanding :: "(sid \<times> ibv_send_wr \<times> byte list) list"
  w_posted :: "(sid \<times> ibv_send_wr \<times> byte list) list"
  w_recvs :: nat
  w_qp_calls :: nat
  w_qps :: "u32 list"

datatype callback =
    onConnected "byte list" error_code
  | onReceive u64 u32 error_code
  | onSend u32 error_code
  | onRead u32 u16 error_code
  | onWrite u32 u16 error_code
  | onImmediate u32
  | onDisconnect
  | onDisconnected

type_synonym 'a handler = "sid \<Rightarrow> callback \<Rightarrow> 'a world_scheme eff"

section \<open>Receive buffers\<close>

definition postBuffer :: "adapter \<Rightarrow> InfinibandBuffer \<Rightarrow> 'a world_scheme \<Rightarrow> error_code \<times> 'a world_scheme" where
  "postBuffer A buffer w =
    (if \<not> buffer_valid buffer then (network_error invalid_buffer, w)
     else let wr = \<lparr>rwr_id = wr_buildId 0x0 (mId buffer) RECEIVE, rwr_sg_list = [mHandle buffer]\<rparr>;
              errno = post_recv A (w_recvs w) wr; w = w\<lparr>w_recvs := Suc (w_recvs w)\<rparr>
          in if errno \<noteq> 0 then (errno_error errno, w)
             else (no_error, w\<lparr>w_dev := (w_dev w)\<lparr>mReceiveQueue := mReceiveQueue (w_dev w) @ [wr]\<rparr>\<rparr>))"

definition acquireReceiveBuffer :: "u16 \<Rightarrow> DeviceContext \<Rightarrow> InfinibandBuffer" where
  "acquireReceiveBuffer bid d =
    (let offset = ucast bid * ucast (mReceiveBufferLength d)
     in region_acquireBuffer bid offset (mReceiveBufferLength d) (mReceiveData d))"

definition postReceiveBuffer :: "adapter \<Rightarrow> InfinibandBuffer \<Rightarrow> 'a world_scheme \<Rightarrow> 'a world_scheme" where
  "postReceiveBuffer A buffer w = snd (postBuffer A buffer w)"

definition postReceiveBuffer_id :: "adapter \<Rightarrow> u16 \<Rightarrow> 'a world_scheme \<Rightarrow> 'a world_scheme" where
  "postReceiveBuffer_id A bid w = postReceiveBuffer A (acquireReceiveBuffer bid (w_dev w)) w"

lemma postBuffer_count:
  "(ec, w') = postBuffer A b w \<Longrightarrow> mReceiveBufferCount (w_dev w') = mReceiveBufferCount (w_dev w)"
  by (auto simp: postBuffer_def Let_def split: if_splits)

text \<open>The loop of the device's constructor, from \<open>bid\<close> on.\<close>

function post_all :: "adapter \<Rightarrow> u16 \<Rightarrow> 'a world_scheme eff" where
  "post_all A bid w =
    (if bid < mReceiveBufferCount (w_dev w) then
       (case postBuffer A (acquireReceiveBuffer bid (w_dev w)) w of (ec, w') \<Rightarrow>
          if is_error ec then (Some ec, w') else post_all A (bid + 1) w')
     else (None, w))"
  by pat_completeness auto
termination
  by (relation "measure (\<lambda>(A, bid, w). unat (mReceiveBufferCount (w_dev w)) - unat bid)")
    (auto simp: unat_Suc_less word_less_nat_alt dest!: postBuffer_count)

declare post_all.simps [simp del]

definition device_create :: "adapter \<Rightarrow> 'a world_scheme eff" where
  "device_create A = post_all A 0"

definition device_shutdown :: "DeviceContext \<Rightarrow> DeviceContext" where
  "device_shutdown d = (if dev_shutdown d then d else d\<lparr>dev_shutdown := True\<rparr>)"

section \<open>Send buffers\<close>

text \<open>The loop that fills the stack of the constructor.\<close>

function push_ids :: "u16 \<Rightarrow> u16 \<Rightarrow> u16 list \<Rightarrow> u16 list" where
  "push_ids bid count stack = (if bid < count then push_ids (bid + 1) count (bid # stack) else stack)"
  by pat_completeness auto
termination
  by (relation "measure (\<lambda>(bid, count, stack). unat count - unat bid)")
    (simp_all add: unat_Suc_less word_less_nat_alt)

declare push_ids.simps [simp del]

definition new_context :: "InfinibandLimits \<Rightarrow> ibv_mr \<Rightarrow> CompletionContext" where
  "new_context limits sendData =
    \<lparr>mSendBufferCount = sendBufferCount limits, mSendBufferLength = bufferLength limits,
     mSendQueueLength = sendQueueLength limits, mMaxScatterGather = maxScatterGather limits,
     mCompletionQueueLength = completionQueueLength limits, mSendData = sendData,
     mSendBufferQueue = push_ids 0 (sendBufferCount limits) [], mSocketMap = Map.empty,
     mDrainingQueue = [], mSleeping = False, mShutdown = False\<rparr>"

text \<open>The length of the region the constructor allocates.\<close>

definition send_region_length :: "InfinibandLimits \<Rightarrow> u64" where
  "send_region_length limits = ucast (sendBufferCount limits) * ucast (bufferLength limits)"

definition acquireSendBuffer_len :: "u32 \<Rightarrow> CompletionContext \<Rightarrow> InfinibandBuffer \<times> CompletionContext" where
  "acquireSendBuffer_len len c =
    (case mSendBufferQueue c of
       [] \<Rightarrow> (new_buffer INVALID_ID, c)
     | bid # rest \<Rightarrow>
        if mSendBufferLength c < len then (new_buffer INVALID_ID, c)
        else let c = c\<lparr>mSendBufferQueue := rest\<rparr>;
                 offset = ucast bid * ucast (mSendBufferLength c)
             in (region_acquireBuffer bid offset len (mSendData c), c))"

definition acquireSendBuffer :: "CompletionContext \<Rightarrow> InfinibandBuffer \<times> CompletionContext" where
  "acquireSendBuffer c = acquireSendBuffer_len (mSendBufferLength c) c"

definition releaseSendBuffer_id :: "u16 \<Rightarrow> CompletionContext \<Rightarrow> CompletionContext" where
  "releaseSendBuffer_id bid c =
    (if bid = INVALID_ID then c else c\<lparr>mSendBufferQueue := bid # mSendBufferQueue c\<rparr>)"

definition releaseSendBuffer :: "InfinibandBuffer \<Rightarrow> CompletionContext \<Rightarrow> CompletionContext" where
  "releaseSendBuffer buffer c =
    (if \<not> belongsToRegion (mSendData c) buffer then c else releaseSendBuffer_id (mId buffer) c)"

section \<open>Connections\<close>

definition context_shutdown :: "CompletionContext \<Rightarrow> CompletionContext" where
  "context_shutdown c = c\<lparr>mShutdown := True\<rparr>"

definition set_ctx :: "CompletionContext \<Rightarrow> 'a world_scheme \<Rightarrow> 'a world_scheme" where
  "set_ctx c w = w\<lparr>w_ctx := c\<rparr>"

definition set_socket :: "sid \<Rightarrow> socket \<Rightarrow> 'a world_scheme \<Rightarrow> 'a world_scheme" where
  "set_socket sk s w = w\<lparr>w_sockets := (w_sockets w)(sk := s)\<rparr>"

definition addConnection :: "adapter \<Rightarrow> sid \<Rightarrow> 'a world_scheme eff" where
  "addConnection A sk w =
    (case create_qp A (w_qp_calls w) (w_qps w) (sk_qp (w_sockets w sk)) of
       Inl errno \<Rightarrow> (Some (errno_error errno), w\<lparr>w_qp_calls := Suc (w_qp_calls w)\<rparr>)
     | Inr qp_num \<Rightarrow>
        let w = w\<lparr>w_qp_calls := Suc (w_qp_calls w), w_qps := qp_num # w_qps w\<rparr>; w = set_socket sk ((w_sockets w sk)\<lparr>sk_qp := Some qp_num\<rparr>) w; c = w_ctx w
        in if mSocketMap c qp_num = None
           then (None, set_ctx (c\<lparr>mSocketMap := (mSocketMap c)(qp_num \<mapsto> sk)\<rparr>) w)
           else (None, w))"

definition drainConnection :: "sid \<Rightarrow> 'a world_scheme \<Rightarrow> 'a world_scheme" where
  "drainConnection sk w =
    set_ctx ((w_ctx w)\<lparr>mDrainingQueue := mDrainingQueue (w_ctx w) @ [sk]\<rparr>) w"

definition removeConnection :: "sid \<Rightarrow> 'a world_scheme \<Rightarrow> 'a world_scheme" where
  "removeConnection sk w =
    (case sk_qp (w_sockets w sk) of
       None \<Rightarrow> w
     | Some qp_num \<Rightarrow>
        set_socket sk ((w_sockets w sk)\<lparr>sk_qp := None\<rparr>)
          (set_ctx ((w_ctx w)\<lparr>mSocketMap := (mSocketMap (w_ctx w))(qp_num := None)\<rparr>) (w\<lparr>w_qps := remove1 qp_num (w_qps w)\<rparr>)))"

section \<open>Completions\<close>

definition wc_code :: "ibv_wc \<Rightarrow> error_code" where
  "wc_code wc = (if wc_status wc \<noteq> 0 then wc_error (wc_status wc) else no_error)"

definition ntohl :: "u32 \<Rightarrow> u32" where
  "ntohl x = push_bit 24 (x AND 0xFF) OR push_bit 8 (x AND 0xFF00) OR
     (drop_bit 8 x AND 0xFF00) OR drop_bit 24 x"

definition processWorkComplete :: "adapter \<Rightarrow> 'a handler \<Rightarrow> ibv_wc \<Rightarrow> 'a world_scheme eff" where
  "processWorkComplete A h wc w =
    (let workId = wc_wr_id wc; ec = wc_code wc in
     case mSocketMap (w_ctx w) (wc_qp_num wc) of
       None \<Rightarrow>
        (case wr_workType workId of
           RECEIVE \<Rightarrow> (None, postReceiveBuffer_id A (wr_bufferId workId) w)
         | SEND \<Rightarrow> (None, set_ctx (releaseSendBuffer_id (wr_bufferId workId) (w_ctx w)) w)
         | _ \<Rightarrow> (None, w))
     | Some sk \<Rightarrow>
        (case wr_workType workId of
           RECEIVE \<Rightarrow>
             let buffer = acquireReceiveBuffer (wr_bufferId workId) (w_dev w) in
             if \<not> buffer_valid buffer then h sk (onReceive 0 0x0 (network_error invalid_buffer)) w
             else andthen
               (if wc_opcode wc = WC_RECV_RDMA_WITH_IMM then h sk (onImmediate (ntohl (wc_imm_data wc)))
                else h sk (onReceive (buffer_data buffer) (wc_byte_len wc) ec))
               (\<lambda>w. (None, postReceiveBuffer A buffer w)) w
         | SEND \<Rightarrow>
             andthen (h sk (onSend (wr_userId workId) ec))
               (\<lambda>w. (None, set_ctx (releaseSendBuffer_id (wr_bufferId workId) (w_ctx w)) w)) w
         | READ \<Rightarrow> h sk (onRead (wr_userId workId) (wr_bufferId workId) ec) w
         | WRITE \<Rightarrow> h sk (onWrite (wr_userId workId) (wr_bufferId workId) ec) w
         | UNKNOWN \<Rightarrow> (None, w)))"

definition onDrained :: "'a handler \<Rightarrow> sid \<Rightarrow> 'a world_scheme eff" where
  "onDrained h sk w = h sk onDisconnected (removeConnection sk w)"

text \<open>
  \<open>polled\<close> are the completions \<^verbatim>\<open>ibv_poll_cq\<close> returns, at most as many as asked for; \<open>None\<close> is its
  failure, which is only logged. The result is whether anything was processed.
\<close>

definition poll :: "adapter \<Rightarrow> 'a handler \<Rightarrow> (nat \<Rightarrow> ibv_wc list option) \<Rightarrow> 'a world_scheme \<Rightarrow> (error_code option \<times> bool) \<times> 'a world_scheme" where
  "poll A h polled w =
    (let draining = mDrainingQueue (w_ctx w);
         w = set_ctx ((w_ctx w)\<lparr>mDrainingQueue := []\<rparr>) w;
         wcs = (case polled (unat (mCompletionQueueLength (w_ctx w))) of None \<Rightarrow> [] | Some wcs \<Rightarrow> wcs);
         (e, w) = andthen (each (processWorkComplete A h) wcs) (each (onDrained h) draining) w
     in ((e, wcs \<noteq> []), w))"

text \<open>\<open>notify\<close> is \<^verbatim>\<open>ibv_req_notify_cq\<close>; its failure terminates the program, the result \<open>None\<close>.\<close>

definition prepareSleep :: "adapter \<Rightarrow> 'a handler \<Rightarrow> bool \<Rightarrow> (nat \<Rightarrow> ibv_wc list option) \<Rightarrow> 'a world_scheme \<Rightarrow> (error_code option \<times> 'a world_scheme) option" where
  "prepareSleep A h notify polled w =
    (if mSleeping (w_ctx w) then Some (None, w)
     else if \<not> notify then None
     else let (r, w) = poll A h polled (set_ctx ((w_ctx w)\<lparr>mSleeping := True\<rparr>) w) in Some (fst r, w))"

text \<open>The events of the completion channel are taken until there is none or an unknown one; they are acknowledged.\<close>

definition wakeup :: "bool list \<Rightarrow> CompletionContext \<Rightarrow> nat \<times> CompletionContext" where
  "wakeup own_events c = (length (takeWhile (\<lambda>own. own) own_events), c\<lparr>mSleeping := False\<rparr>)"

section \<open>Effects compose\<close>

lemma andthen_simps [simp]:
  "f w = (None, w') \<Longrightarrow> andthen f g w = g w'"
  "f w = (Some e, w') \<Longrightarrow> andthen f g w = (Some e, w')"
  by (simp_all add: andthen_def)

lemma finish_apply [simp]: "finish w = (None, w)" and raise_apply [simp]: "raise e w = (Some e, w)"
  by (simp_all add: finish_def raise_def)

text \<open>A property of the state that no part of a sequence of effects breaks.\<close>

lemma andthen_keeps:
  assumes "P w" and "\<And>w. P w \<Longrightarrow> P (snd (f w))" and "\<And>w. P w \<Longrightarrow> P (snd (g w))"
  shows "P (snd (andthen f g w))"
  using assms(1) assms(2) [of w] assms(3) [of "snd (f w)"]
  by (cases "f w") (auto simp: andthen_def split: option.splits)

lemma each_keeps:
  assumes "P w" and "\<And>x w. x \<in> set xs \<Longrightarrow> P w \<Longrightarrow> P (snd (f x w))"
  shows "P (snd (each f xs w))"
  using assms
proof (induction xs arbitrary: w)
  case (Cons x xs)
  show ?case
    unfolding each.simps
    by (cases "f x w" rule: prod.exhaust, rule andthen_keeps)
      (use Cons in auto)
qed simp

section \<open>The pool of send buffers\<close>

lemma push_ids_spec:
  "set (push_ids bid count stack) = set stack \<union> {i. bid \<le> i \<and> i < count}"
  "distinct stack \<Longrightarrow> \<forall>i \<in> set stack. i < bid \<Longrightarrow> distinct (push_ids bid count stack)"
proof (induction bid count stack rule: push_ids.induct)
  case (1 bid count stack)
  have step: "bid < count \<Longrightarrow> i < bid + 1 \<longleftrightarrow> i \<le> bid" for i
    by (simp add: word_less_nat_alt word_le_nat_alt unat_Suc_less less_Suc_eq_le)
  have step': "bid < count \<Longrightarrow> bid + 1 \<le> i \<longleftrightarrow> bid < i" for i
    by (simp add: word_less_nat_alt word_le_nat_alt unat_Suc_less Suc_le_eq)
  {
    case 1
    show ?case
    proof (cases "bid < count")
      case True
      then have "set (push_ids bid count stack) = insert bid (set stack) \<union> {i. bid < i \<and> i < count}"
        using "1.IH"(1) by (subst push_ids.simps) (simp add: step')
      then show ?thesis using True by (auto simp: order_le_less)
    qed (auto simp: push_ids.simps)
  next
    case 2
    then show ?case
      using "1.IH"(2) by (subst push_ids.simps) (auto simp: step dest: order_less_imp_le)
  }
qed

text \<open>The invariant of the pool: the free ids are distinct, and every one names a part of the region.\<close>

definition pool_ok :: "CompletionContext \<Rightarrow> bool" where
  "pool_ok c \<longleftrightarrow> mr_ok (mSendData c) \<and>
    unat (mr_length (mSendData c)) = unat (mSendBufferCount c) * unat (mSendBufferLength c) \<and>
    distinct (mSendBufferQueue c) \<and> (\<forall>i \<in> set (mSendBufferQueue c). i < mSendBufferCount c)"

text \<open>The addresses of the send buffer with the given id.\<close>

definition buffer_range :: "CompletionContext \<Rightarrow> u16 \<Rightarrow> nat set" where
  "buffer_range c bid =
    (let start = unat (mr_addr (mSendData c)) + unat bid * unat (mSendBufferLength c)
     in {start..<start + unat (mSendBufferLength c)})"

definition sge_range :: "ibv_sge \<Rightarrow> nat set" where
  "sge_range e = {unat (sge_addr e)..<unat (sge_addr e) + unat (sge_length e)}"

lemma unat_u16_u64 [simp]: "unat (ucast (w :: u16) :: u64) = unat w"
  by (simp add: unsigned_ucast_eq take_bit_nat_eq_self less_trans [OF unsigned_less])

lemma u16_lt: "unat (w :: u16) < 2 ^ 16"
  using unsigned_less [of w] by simp

lemma unat_offset: "unat (ucast (bid :: u16) * ucast (len :: u32) :: u64) = unat bid * unat len"
proof -
  have "unat bid * unat len < 2 ^ 16 * 2 ^ 32"
    using u16_lt [of bid] u32_lt [of len] by (intro mult_strict_mono) simp_all
  then show ?thesis by (simp add: unat_word_ariths)
qed

lemma buffer_ranges_disjoint: "bid \<noteq> bid' \<Longrightarrow> buffer_range c bid \<inter> buffer_range c bid' = {}"
proof -
  have less: "buffer_range c bid \<inter> buffer_range c bid' = {}" if "unat bid < unat bid'" for bid bid'
  proof -
    have "Suc (unat bid) * unat (mSendBufferLength c) \<le> unat bid' * unat (mSendBufferLength c)"
      using that by (intro mult_le_mono1) simp
    then show ?thesis by (auto simp: buffer_range_def Let_def)
  qed
  assume "bid \<noteq> bid'"
  then show ?thesis using less [of bid bid'] less [of bid' bid] by (auto simp: word_unat_eq_iff neq_iff)
qed

lemma new_context_ok:
  assumes "mr_ok mr" and "mr_length mr = send_region_length limits"
  shows "pool_ok (new_context limits mr)"
    and "set (mSendBufferQueue (new_context limits mr)) = {i. i < sendBufferCount limits}"
  using assms push_ids_spec(1) [of 0 "sendBufferCount limits" "[]"]
    push_ids_spec(2) [of "[]" 0 "sendBufferCount limits"]
  by (auto simp: pool_ok_def new_context_def send_region_length_def unat_offset)

lemma acquire_empty [simp]: "mSendBufferQueue c = [] \<Longrightarrow> acquireSendBuffer c = (new_buffer INVALID_ID, c)"
  by (simp add: acquireSendBuffer_def acquireSendBuffer_len_def)

lemma acquire_nonempty:
  assumes "pool_ok c" and "mSendBufferQueue c = bid # rest" and "len \<le> mSendBufferLength c"
  obtains b where "acquireSendBuffer_len len c = (b, c\<lparr>mSendBufferQueue := rest\<rparr>)"
    and "mId b = bid" and "buffer_valid b" and "sge_inside (mSendData c) (mHandle b)"
    and "buffer_length b = len" and "belongsToRegion (mSendData c) b"
    and "unat (buffer_data b) = unat (mr_addr (mSendData c)) + unat bid * unat (mSendBufferLength c)"
    and "sge_range (mHandle b) \<subseteq> buffer_range c bid"
proof -
  let ?off = "ucast bid * ucast (mSendBufferLength c) :: u64"
  let ?b = "region_acquireBuffer bid ?off len (mSendData c)"
  have bid: "bid < mSendBufferCount c" and ok: "mr_ok (mSendData c)"
    and size: "unat (mr_length (mSendData c)) = unat (mSendBufferCount c) * unat (mSendBufferLength c)"
    using assms by (auto simp: pool_ok_def)
  have "Suc (unat bid) * unat (mSendBufferLength c) \<le> unat (mSendBufferCount c) * unat (mSendBufferLength c)"
    using bid by (intro mult_le_mono1) (simp add: word_less_nat_alt)
  then have fits: "unat ?off + unat len \<le> unat (mr_length (mSendData c))"
    using assms(3) size by (simp add: unat_offset word_le_nat_alt)
  then have nowrap: "unat ?off + unat len < 2 ^ 64" using u64_lt [of "mr_length (mSendData c)"] by linarith
  then have le: "?off + ucast len \<le> mr_length (mSendData c)"
    using fits by (simp add: word_le_nat_alt unat_add_no_wrap)
  note inside = acquireBuffer_inside [OF ok le nowrap, of bid]
  have "bid \<noteq> INVALID_ID"
  proof
    assume "bid = INVALID_ID"
    then show False using bid u16_lt [of "mSendBufferCount c"] by (simp add: INVALID_ID_def word_less_nat_alt)
  qed
  then show thesis
    using assms(2,3) inside
    by (intro that [of ?b])
      (auto simp: acquireSendBuffer_len_def acquireBuffer_fields [OF le] buffer_valid_def buffer_length_def
        belongsToRegion_def buffer_data_def Let_def unat_offset sge_range_def buffer_range_def
        word_le_nat_alt word_less_nat_alt)
qed

lemma pool_ok_tail: "pool_ok c \<Longrightarrow> mSendBufferQueue c = bid # rest \<Longrightarrow> pool_ok (c\<lparr>mSendBufferQueue := rest\<rparr>)"
  by (simp add: pool_ok_def)

lemma pool_ok_release:
  "pool_ok c \<Longrightarrow> bid \<notin> set (mSendBufferQueue c) \<Longrightarrow> bid < mSendBufferCount c \<Longrightarrow>
    pool_ok (releaseSendBuffer_id bid c)"
  by (simp add: pool_ok_def releaseSendBuffer_id_def)

text \<open>
  C17: the pool of send buffers. While ids are free and the request fits, acquiring returns a valid
  buffer that lies in the registered region, inside its own slot, disjoint from the slot of every
  other id; releasing it restores the pool. With no free id, or for a request longer than a buffer,
  the result is an invalid buffer and the pool is unchanged. The context starts with every id free.
\<close>

theorem send_buffer_pool:
  assumes "pool_ok c"
  shows "(case mSendBufferQueue c of
      [] \<Rightarrow> acquireSendBuffer_len len c = (new_buffer INVALID_ID, c)
    | bid # rest \<Rightarrow>
        if mSendBufferLength c < len then acquireSendBuffer_len len c = (new_buffer INVALID_ID, c)
        else \<exists>b c'. acquireSendBuffer_len len c = (b, c') \<and> buffer_valid b \<and> mId b = bid \<and>
          buffer_length b = len \<and> sge_inside (mSendData c) (mHandle b) \<and>
          sge_range (mHandle b) \<subseteq> buffer_range c bid \<and>
          (\<forall>bid'. bid' \<noteq> bid \<longrightarrow> sge_range (mHandle b) \<inter> buffer_range c bid' = {}) \<and>
          pool_ok c' \<and> bid \<notin> set (mSendBufferQueue c') \<and> releaseSendBuffer b c' = c)"
proof (cases "mSendBufferQueue c")
  case Nil
  then show ?thesis by (simp add: acquireSendBuffer_len_def)
next
  case (Cons bid rest)
  show ?thesis
  proof (cases "mSendBufferLength c < len")
    case True
    then show ?thesis using Cons by (simp add: acquireSendBuffer_len_def)
  next
    case False
    then have "len \<le> mSendBufferLength c" by simp
    from acquire_nonempty [OF assms Cons this] obtain b where
      b: "acquireSendBuffer_len len c = (b, c\<lparr>mSendBufferQueue := rest\<rparr>)" "mId b = bid" "buffer_valid b"
        "sge_inside (mSendData c) (mHandle b)" "buffer_length b = len" "belongsToRegion (mSendData c) b"
        "sge_range (mHandle b) \<subseteq> buffer_range c bid" by metis
    have "releaseSendBuffer b (c\<lparr>mSendBufferQueue := rest\<rparr>) = c"
      using b Cons by (simp add: releaseSendBuffer_def releaseSendBuffer_id_def buffer_valid_def)
    moreover have "bid \<notin> set rest" using assms Cons by (simp add: pool_ok_def)
    moreover have "sge_range (mHandle b) \<inter> buffer_range c bid' = {}" if "bid' \<noteq> bid" for bid'
      using b(7) buffer_ranges_disjoint [of bid bid' c] that by blast
    ultimately show ?thesis
      using False Cons b pool_ok_tail [OF assms Cons] by (simp add: Cons)
  qed
qed

theorem send_buffer_pool_witness:
  "\<exists>b c'. acquireSendBuffer_len 128
      (new_context default_limits \<lparr>mr_addr = 0x10000, mr_length = 16384, mr_lkey = 7, mr_rkey = 8\<rparr>) = (b, c') \<and>
    buffer_valid b \<and> mId b = 63 \<and> buffer_length b = 128"
proof -
  let ?mr = "\<lparr>mr_addr = 0x10000, mr_length = 16384, mr_lkey = 7, mr_rkey = 8\<rparr> :: ibv_mr"
  have "pool_ok (new_context default_limits ?mr)"
    by (rule new_context_ok) (simp_all add: mr_ok_def send_region_length_def default_limits_def)
  moreover have "mSendBufferQueue (new_context default_limits ?mr) = rev (map of_nat [0..<64])"
    by (simp add: new_context_def default_limits_def) code_simp
  then have "\<exists>rest. mSendBufferQueue (new_context default_limits ?mr) = 63 # rest" by (simp add: upt_rec)
  ultimately show ?thesis
    using send_buffer_pool [of "new_context default_limits ?mr" 128]
    by (auto simp: new_context_def [of _ ?mr] default_limits_def)
qed

section \<open>The shared receive buffers\<close>

definition dev_ok :: "DeviceContext \<Rightarrow> bool" where
  "dev_ok d \<longleftrightarrow> mr_ok (mReceiveData d) \<and>
    unat (mr_length (mReceiveData d)) = unat (mReceiveBufferCount d) * unat (mReceiveBufferLength d)"

text \<open>The request that posts the receive buffer \<open>bid\<close>.\<close>

definition recv_wr :: "DeviceContext \<Rightarrow> u16 \<Rightarrow> ibv_recv_wr" where
  "recv_wr d bid = \<lparr>rwr_id = wr_buildId 0x0 bid RECEIVE, rwr_sg_list = [mHandle (acquireReceiveBuffer bid d)]\<rparr>"

text \<open>Every receive buffer is posted, and none twice.\<close>

definition recv_inv :: "'a world_scheme \<Rightarrow> bool" where
  "recv_inv w \<longleftrightarrow> (\<exists>bids. mReceiveQueue (w_dev w) = map (recv_wr (w_dev w)) bids \<and>
    distinct bids \<and> set bids = {i. i < mReceiveBufferCount (w_dev w)})"

lemma acquireReceiveBuffer_valid:
  assumes "dev_ok d" and "bid < mReceiveBufferCount d"
  shows "buffer_valid (acquireReceiveBuffer bid d)" and "mId (acquireReceiveBuffer bid d) = bid"
proof -
  let ?off = "ucast bid * ucast (mReceiveBufferLength d) :: u64"
  have "Suc (unat bid) * unat (mReceiveBufferLength d) \<le> unat (mReceiveBufferCount d) * unat (mReceiveBufferLength d)"
    using assms(2) by (intro mult_le_mono1) (simp add: word_less_nat_alt)
  then have fits: "unat ?off + unat (mReceiveBufferLength d) \<le> unat (mr_length (mReceiveData d))"
    using assms(1) by (simp add: unat_offset dev_ok_def)
  then have "unat ?off + unat (mReceiveBufferLength d) < 2 ^ 64" using u64_lt [of "mr_length (mReceiveData d)"] by linarith
  then have "?off + ucast (mReceiveBufferLength d) \<le> mr_length (mReceiveData d)"
    using fits by (simp add: word_le_nat_alt unat_add_no_wrap)
  then have eq: "acquireReceiveBuffer bid d = \<lparr>mHandle = \<lparr>sge_addr = mr_addr (mReceiveData d) + ?off,
      sge_length = mReceiveBufferLength d, sge_lkey = mr_lkey (mReceiveData d)\<rparr>, mId = bid\<rparr>"
    by (simp add: acquireReceiveBuffer_def acquireBuffer_fields)
  show "mId (acquireReceiveBuffer bid d) = bid" by (simp add: eq)
  show "buffer_valid (acquireReceiveBuffer bid d)"
    using assms(2) u16_lt [of "mReceiveBufferCount d"]
    by (auto simp: eq buffer_valid_def INVALID_ID_def word_less_nat_alt)
qed

lemma recv_wr_inject: "recv_wr d i = recv_wr d j \<longleftrightarrow> i = j"
  by (auto simp: recv_wr_def wr_build_inject)

text \<open>What posting leaves alone.\<close>

lemma acquireReceiveBuffer_queue [simp]:
  "acquireReceiveBuffer bid (d\<lparr>mReceiveQueue := q\<rparr>) = acquireReceiveBuffer bid d"
  "recv_wr (d\<lparr>mReceiveQueue := q\<rparr>) bid = recv_wr d bid"
  "dev_ok (d\<lparr>mReceiveQueue := q\<rparr>) = dev_ok d"
  by (simp_all add: acquireReceiveBuffer_def recv_wr_def dev_ok_def)

lemma postBuffer_ok:
  assumes "dev_ok (w_dev w)" and "bid < mReceiveBufferCount (w_dev w)" and "\<And>n wr. post_recv A n wr = 0"
  shows "postBuffer A (acquireReceiveBuffer bid (w_dev w)) w = (no_error, w\<lparr>w_recvs := Suc (w_recvs w),
    w_dev := (w_dev w)\<lparr>mReceiveQueue := mReceiveQueue (w_dev w) @ [recv_wr (w_dev w) bid]\<rparr>\<rparr>)"
  using acquireReceiveBuffer_valid [OF assms(1,2)] assms(3)
  by (simp add: postBuffer_def recv_wr_def Let_def)

lemma post_all_ok:
  assumes "dev_ok (w_dev w)" and "\<And>n wr. post_recv A n wr = 0"
    and "mReceiveQueue (w_dev w) = map (recv_wr (w_dev w)) bids" and "distinct bids"
    and "set bids = {i. i < bid}" and "bid \<le> mReceiveBufferCount (w_dev w)"
  shows "\<exists>w'. post_all A bid w = (None, w') \<and> recv_inv w' \<and> dev_ok (w_dev w')"
  using assms
proof (induction A bid w arbitrary: bids rule: post_all.induct)
  case (1 A bid w)
  show ?case
  proof (cases "bid < mReceiveBufferCount (w_dev w)")
    case True
    let ?w = "w\<lparr>w_recvs := Suc (w_recvs w),
      w_dev := (w_dev w)\<lparr>mReceiveQueue := mReceiveQueue (w_dev w) @ [recv_wr (w_dev w) bid]\<rparr>\<rparr>"
    have p: "postBuffer A (acquireReceiveBuffer bid (w_dev w)) w = (no_error, ?w)"
      by (rule postBuffer_ok) (use True 1 in simp_all)
    have le: "i < bid + 1 \<longleftrightarrow> i < bid \<or> i = bid" for i
      using unat_Suc_less [OF True] by (auto simp: word_less_nat_alt less_Suc_eq word_unat_eq_iff)
    then have ids: "set (bids @ [bid]) = {i. i < bid + 1}" using "1.prems"(5) by auto
    have "bid + 1 \<le> mReceiveBufferCount (w_dev ?w)"
      using True unat_Suc_less [OF True] by (simp add: word_le_nat_alt word_less_nat_alt)
    then have "\<exists>w'. post_all A (bid + 1) ?w = (None, w') \<and> recv_inv w' \<and> dev_ok (w_dev w')"
      using "1.IH" [OF True p [symmetric] _ _ _ _ _ ids] "1.prems" by simp
    then show ?thesis by (subst post_all.simps) (simp add: True p)
  next
    case False
    then have "bid = mReceiveBufferCount (w_dev w)" using 1 by simp
    then show ?thesis using 1 False by (subst post_all.simps) (auto simp: recv_inv_def)
  qed
qed

text \<open>
  A receive completes: the adapter takes a posted request, fills its buffer and reports the
  completion, which is dispatched to the end.
\<close>

inductive recv_step :: "adapter \<Rightarrow> 'a handler \<Rightarrow> 'a world_scheme \<Rightarrow> 'a world_scheme \<Rightarrow> bool"
  for A h where
    "wr \<in> set (mReceiveQueue (w_dev w)) \<Longrightarrow> wc_wr_id wc = rwr_id wr \<Longrightarrow>
     processWorkComplete A h wc
       (w\<lparr>w_dev := (w_dev w)\<lparr>mReceiveQueue := remove1 wr (mReceiveQueue (w_dev w))\<rparr>\<rparr>) = (None, w') \<Longrightarrow>
     recv_step A h w w'"

text \<open>Handlers do not touch the device: it is private to the context.\<close>

definition keeps_device :: "'a handler \<Rightarrow> bool" where
  "keeps_device h \<longleftrightarrow> (\<forall>sk cb w. w_dev (snd (h sk cb w)) = w_dev w)"

lemma keeps_device_result: "keeps_device h \<Longrightarrow> h sk cb w = (e, w') \<Longrightarrow> w_dev w' = w_dev w"
  unfolding keeps_device_def by (metis snd_conv)

lemma recv_inv_step:
  assumes h: "keeps_device h" and A: "\<And>n wr. post_recv A n wr = 0"
    and inv: "recv_inv w \<and> dev_ok (w_dev w)" and step: "recv_step A h w w'"
  shows "recv_inv w' \<and> dev_ok (w_dev w')"
  using step
proof cases
  case (1 wr wc)
  let ?d = "(w_dev w)\<lparr>mReceiveQueue := remove1 wr (mReceiveQueue (w_dev w))\<rparr>"
  obtain bids where bids: "mReceiveQueue (w_dev w) = map (recv_wr (w_dev w)) bids" "distinct bids"
    "set bids = {i. i < mReceiveBufferCount (w_dev w)}" using inv by (auto simp: recv_inv_def)
  then obtain bid where bid: "wr = recv_wr (w_dev w) bid" "bid \<in> set bids" using 1(1) by auto
  have lt: "bid < mReceiveBufferCount ?d" and dev: "dev_ok ?d" using bid bids inv by auto
  have rest: "remove1 wr (mReceiveQueue (w_dev w)) = map (recv_wr (w_dev w)) (remove1 bid bids)"
    unfolding bids(1) bid(1) by (induction bids) (auto simp: recv_wr_inject)
  have id: "wr_workType (wc_wr_id wc) = RECEIVE" "wr_bufferId (wc_wr_id wc) = bid"
    using 1(2) bid(1) by (simp_all add: recv_wr_def)
  have repost: "w_dev (postReceiveBuffer A (acquireReceiveBuffer bid ?d) v) =
      ?d\<lparr>mReceiveQueue := mReceiveQueue ?d @ [recv_wr (w_dev w) bid]\<rparr>" if "w_dev v = ?d" for v
    using postBuffer_ok [of v bid A] dev lt A that by (simp add: postReceiveBuffer_def)
  have "w_dev w' = ?d\<lparr>mReceiveQueue := mReceiveQueue ?d @ [recv_wr (w_dev w) bid]\<rparr>"
  proof (cases "mSocketMap (w_ctx w) (wc_qp_num wc)")
    case None
    then show ?thesis
      using 1(3) repost [of "w\<lparr>w_dev := ?d\<rparr>"]
      by (auto simp: processWorkComplete_def id Let_def postReceiveBuffer_id_def)
  next
    case (Some sk)
    define cb where "cb = (if wc_opcode wc = WC_RECV_RDMA_WITH_IMM then onImmediate (ntohl (wc_imm_data wc))
      else onReceive (buffer_data (acquireReceiveBuffer bid ?d)) (wc_byte_len wc) (wc_code wc))"
    have "andthen (h sk cb) (\<lambda>w. (None, postReceiveBuffer A (acquireReceiveBuffer bid ?d) w)) (w\<lparr>w_dev := ?d\<rparr>)
        = (None, w')"
      using 1(3) Some acquireReceiveBuffer_valid [OF dev lt]
      by (cases "wc_opcode wc = WC_RECV_RDMA_WITH_IMM") (simp_all add: processWorkComplete_def id Let_def cb_def)
    then obtain v where v: "h sk cb (w\<lparr>w_dev := ?d\<rparr>) = (None, v)"
      "w' = postReceiveBuffer A (acquireReceiveBuffer bid ?d) v"
      by (auto simp: andthen_def split: prod.splits option.splits)
    then show ?thesis using repost [of v] keeps_device_result [OF h v(1)] by simp
  qed
  then have "mReceiveQueue (w_dev w') = map (recv_wr (w_dev w')) (remove1 bid bids @ [bid])"
    and "mReceiveBufferCount (w_dev w') = mReceiveBufferCount (w_dev w)" and "dev_ok (w_dev w')"
    using inv by (simp_all add: rest)
  moreover have "distinct (remove1 bid bids @ [bid])" "set (remove1 bid bids @ [bid]) = set bids"
    using bids(2) bid(2) by auto
  ultimately show ?thesis using bids(3) unfolding recv_inv_def by metis
qed

text \<open>
  C18: the device posts every receive buffer when it is created, and the dispatch of completions
  keeps all of them posted: after any number of completed receives, for known and unknown queue
  pairs, with or without an error status, each buffer is posted exactly once again. This holds as
  long as posting succeeds and the handlers return; handlers do not touch the device.
\<close>

theorem receive_buffers_stay_posted:
  assumes "dev_ok (w_dev w)" and "mReceiveQueue (w_dev w) = []"
    and "\<forall>n wr. post_recv A n wr = 0" and "keeps_device h"
  shows "\<exists>w0. device_create A w = (None, w0) \<and>
    (\<forall>w'. (recv_step A h)\<^sup>*\<^sup>* w0 w' \<longrightarrow>
      (\<exists>bids. mReceiveQueue (w_dev w') = map (recv_wr (w_dev w')) bids \<and> distinct bids \<and>
        set bids = {i. i < mReceiveBufferCount (w_dev w')}))"
proof -
  have post: "\<And>n wr. post_recv A n wr = 0" using assms(3) by simp
  obtain w0 where w0: "device_create A w = (None, w0)" "recv_inv w0" "dev_ok (w_dev w0)"
    using post_all_ok [OF assms(1) post, of "[]" 0] assms(2) by (auto simp: device_create_def)
  have ind: "inductive_invariant (\<lambda>v. v = w0) (recv_step A h) (\<lambda>v. recv_inv v \<and> dev_ok (w_dev v))"
    by (rule inductive_invariant.intro) (simp add: w0, rule recv_inv_step [OF assms(4) post])
  have "recv_inv w'" if "(recv_step A h)\<^sup>*\<^sup>* w0 w'" for w'
    using inductive_invariant.inv_steps [OF ind that] w0 by simp
  then show ?thesis using w0(1) unfolding recv_inv_def by (intro exI [of _ w0] conjI allI impI) simp_all
qed

definition ex_adapter :: adapter where
  "ex_adapter = \<lparr>post_send = \<lambda>_ _ _. 0, post_recv = \<lambda>_ _. 0, create_qp = \<lambda>n existing q. if q = None \<and> of_nat n \<notin> set existing then Inr (of_nat n) else Inl 22, cm = \<lambda>_ _. 0\<rparr>"

definition ex_device :: DeviceContext where
  "ex_device = \<lparr>mReceiveBufferCount = 2, mReceiveBufferLength = 64,
     mReceiveData = \<lparr>mr_addr = 0x2000, mr_length = 128, mr_lkey = 5, mr_rkey = 6\<rparr>,
     mReceiveQueue = [], dev_shutdown = False\<rparr>"

definition ex_world :: world where
  "ex_world = \<lparr>w_dev = ex_device,
     w_ctx = new_context (default_limits\<lparr>sendBufferCount := 2, bufferLength := 64\<rparr>)
       \<lparr>mr_addr = 0x1000, mr_length = 128, mr_lkey = 7, mr_rkey = 8\<rparr>,
     w_mem = (\<lambda>_. 0), w_sockets = (\<lambda>_. \<lparr>sk_open = True, sk_qp = None, sk_processor = True, sk_data = [], sk_refs = 1\<rparr>),
     w_local = [], w_remote = [], w_outstanding = [], w_posted = [], w_recvs = 0, w_qp_calls = 0, w_qps = []\<rparr>"

theorem receive_buffers_stay_posted_witness:
  "\<exists>w0. device_create ex_adapter ex_world = (None, w0) \<and>
    (\<exists>bids. mReceiveQueue (w_dev w0) = map (recv_wr (w_dev w0)) bids \<and> distinct bids \<and>
      set bids = {i. i < mReceiveBufferCount (w_dev w0)})"
proof -
  have "dev_ok (w_dev ex_world)" "mReceiveQueue (w_dev ex_world) = []"
    "\<forall>n wr. post_recv ex_adapter n wr = 0" "keeps_device (\<lambda>_ _. finish :: world eff)"
    by (simp_all add: dev_ok_def ex_world_def ex_device_def mr_ok_def ex_adapter_def keeps_device_def)
  then obtain w0 where "device_create ex_adapter ex_world = (None, w0)"
    and "\<And>w'. (recv_step ex_adapter (\<lambda>_ _. finish))\<^sup>*\<^sup>* w0 w' \<Longrightarrow>
      \<exists>bids. mReceiveQueue (w_dev w') = map (recv_wr (w_dev w')) bids \<and> distinct bids \<and>
        set bids = {i. i < mReceiveBufferCount (w_dev w')}"
    using receive_buffers_stay_posted [of ex_world ex_adapter "\<lambda>_ _. finish"] by metis
  then show ?thesis using rtranclp.rtrancl_refl by metis
qed

end
