(* ===== verification/Infinio_Socket.thy ===== *)
theory Infinio_Socket
  imports Infinio_Context
begin

text \<open>
  The sockets of \<^verbatim>\<open>InfinibandSocket.cpp\<close>: opening and closing, connection management, the send, read
  and write requests, and the events of the connection manager, which run as tasks of the poll
  thread. A function with an error parameter takes the code on entry and returns the code on exit
  beside the exception it may raise.

  Shown here: a remote access that is posted stays inside the remote region, and the map from queue
  pair numbers to sockets is exactly the relation of the sockets to their queue pairs, so that a
  completion reaches the socket it belongs to.
\<close>

unbundle bit_operations_syntax

type_synonym 'w ec_eff = "error_code \<Rightarrow> 'w \<Rightarrow> (error_code option \<times> error_code) \<times> 'w"

section \<open>System errors\<close>

definition bad_file_descriptor :: error_code where
  "bad_file_descriptor = errno_error 9"

definition already_connected :: error_code where
  "already_connected = errno_error 106"

definition not_connected :: error_code where
  "not_connected = errno_error 107"

definition connection_aborted :: error_code where
  "connection_aborted = errno_error 103"

definition connection_refused :: error_code where
  "connection_refused = errno_error 111"

section \<open>Opening and closing\<close>

definition socket_open :: "adapter \<Rightarrow> sid \<Rightarrow> 'a world_scheme eff" where
  "socket_open A sk w =
    (let s = w_sockets w sk in
     if sk_open s then (Some (network_error already_open), w)
     else if cm A sk CM_CREATE_ID \<noteq> 0 then (Some (errno_error (cm A sk CM_CREATE_ID)), w)
     else (None, set_socket sk (s\<lparr>sk_open := True, sk_refs := sk_refs s + 1\<rparr>) w))"

text \<open>\<^verbatim>\<open>close\<close> spins while the queue pair exists; \<open>None\<close> is that it has not returned.\<close>

definition socket_close :: "adapter \<Rightarrow> sid \<Rightarrow> 'a world_scheme \<Rightarrow> (error_code option \<times> 'a world_scheme) option" where
  "socket_close A sk w =
    (let s = w_sockets w sk in
     if \<not> sk_open s then Some (None, w)
     else if sk_qp s \<noteq> None then None
     else if cm A sk CM_DESTROY_ID \<noteq> 0 then Some (Some (errno_error (cm A sk CM_DESTROY_ID)), w)
     else Some (None, set_socket sk (s\<lparr>sk_open := False, sk_refs := sk_refs s - 1\<rparr>) w))"

definition socket_bind :: "adapter \<Rightarrow> sid \<Rightarrow> 'a world_scheme eff" where
  "socket_bind A sk w =
    (if \<not> sk_open (w_sockets w sk) then (Some bad_file_descriptor, w)
     else if cm A sk CM_BIND \<noteq> 0 then (Some (errno_error (cm A sk CM_BIND)), w)
     else (None, w))"

definition socket_listen :: "adapter \<Rightarrow> sid \<Rightarrow> 'a world_scheme eff" where
  "socket_listen A sk w =
    (if \<not> sk_open (w_sockets w sk) then (Some bad_file_descriptor, w)
     else if cm A sk CM_LISTEN \<noteq> 0 then (Some (errno_error (cm A sk CM_LISTEN)), w)
     else (None, w))"

section \<open>Connecting\<close>

definition socket_connect :: "adapter \<Rightarrow> sid \<Rightarrow> 'a world_scheme eff" where
  "socket_connect A sk w =
    (if \<not> sk_open (w_sockets w sk) then (Some bad_file_descriptor, w)
     else if cm A sk CM_RESOLVE_ADDR \<noteq> 0 then (Some (errno_error (cm A sk CM_RESOLVE_ADDR)), w)
     else (None, w))"

definition socket_connect_data :: "adapter \<Rightarrow> sid \<Rightarrow> byte list \<Rightarrow> 'a world_scheme eff" where
  "socket_connect_data A sk data w =
    socket_connect A sk (set_socket sk ((w_sockets w sk)\<lparr>sk_data := data\<rparr>) w)"

definition socket_disconnect :: "adapter \<Rightarrow> sid \<Rightarrow> 'a world_scheme eff" where
  "socket_disconnect A sk w =
    (if \<not> sk_open (w_sockets w sk) then (Some bad_file_descriptor, w)
     else if cm A sk CM_DISCONNECT \<noteq> 0 then (Some (errno_error (cm A sk CM_DISCONNECT)), w)
     else (None, w))"

definition socket_accept :: "adapter \<Rightarrow> sid \<Rightarrow> 'a world_scheme eff" where
  "socket_accept A sk w =
    (if sk_processor (w_sockets w sk) then (Some already_connected, w)
     else andthen (addConnection A sk)
       (\<lambda>w. if cm A sk CM_ACCEPT \<noteq> 0
            then (Some (errno_error (cm A sk CM_ACCEPT)), removeConnection sk w)
            else (None, w))
       (set_socket sk ((w_sockets w sk)\<lparr>sk_processor := True\<rparr>) w))"

definition socket_reject :: "adapter \<Rightarrow> sid \<Rightarrow> 'a world_scheme eff" where
  "socket_reject A sk w =
    (if cm A sk CM_REJECT \<noteq> 0 then (Some (errno_error (cm A sk CM_REJECT)), w) else (None, w))"

text \<open>The default reaction to a connection request: reject it and close the socket, logging errors.\<close>

definition acceptor_onConnection :: "adapter \<Rightarrow> sid \<Rightarrow> 'a world_scheme \<Rightarrow> 'a world_scheme option" where
  "acceptor_onConnection A sk w =
    map_option snd (socket_close A sk (snd (socket_reject A sk w)))"

section \<open>Posting requests\<close>

definition gather :: "flat \<Rightarrow> ibv_sge list \<Rightarrow> byte list" where
  "gather m es = concat (map (\<lambda>e. get_bytes m (sge_addr e) (unat (sge_length e))) es)"

definition doSend :: "adapter \<Rightarrow> sid \<Rightarrow> ibv_send_wr \<Rightarrow> 'a world_scheme ec_eff" where
  "doSend A sk wr ec w =
    (if \<not> sk_open (w_sockets w sk) then ((Some bad_file_descriptor, ec), w)
     else let res = post_send A (length (w_posted w)) (sk_qp (w_sockets w sk)) wr in
       if res \<noteq> 0 then ((None, errno_error res), w)
       else ((None, ec), w\<lparr>w_posted := w_posted w @ [(sk, wr, gather (w_mem w) (wr_sg_list wr))],
         w_outstanding := (if wr_signaled wr then w_outstanding w @ [(sk, wr, gather (w_mem w) (wr_sg_list wr))] else w_outstanding w)\<rparr>))"

definition socket_send :: "adapter \<Rightarrow> sid \<Rightarrow> InfinibandBuffer \<Rightarrow> u32 \<Rightarrow> 'a world_scheme ec_eff" where
  "socket_send A sk buffer userId =
    doSend A sk \<lparr>wr_id = wr_buildId userId (mId buffer) SEND, wr_opcode = WR_SEND,
      wr_sg_list = [mHandle buffer], wr_signaled = True, wr_imm_data = 0,
      wr_remote_addr = 0, wr_rkey = 0\<rparr>"

text \<open>What the template parameter \<^verbatim>\<open>Buffer\<close> of the requests offers.\<close>

record dma_buffer =
  dma_length :: u64
  dma_id :: u16
  dma_handle :: "ibv_sge list"

definition of_buffer :: "InfinibandBuffer \<Rightarrow> dma_buffer" where
  "of_buffer b = \<lparr>dma_length = ucast (buffer_length b), dma_id = mId b, dma_handle = [mHandle b]\<rparr>"

definition of_sg :: "ScatterGatherBuffer \<Rightarrow> dma_buffer" where
  "of_sg b = \<lparr>dma_length = sg_length b, dma_id = sg_id b, dma_handle = sg_handle b\<rparr>"

definition doRead :: "adapter \<Rightarrow> sid \<Rightarrow> RemoteMemoryRegion \<Rightarrow> u64 \<Rightarrow> dma_buffer \<Rightarrow> u32 \<Rightarrow> bool \<Rightarrow> 'a world_scheme ec_eff" where
  "doRead A sk src offset dst userId signaled ec w =
    (if mLength src < offset + dma_length dst then ((None, network_error range_error), w)
     else doSend A sk \<lparr>wr_id = wr_buildId userId (dma_id dst) READ, wr_opcode = WR_RDMA_READ,
       wr_sg_list = dma_handle dst, wr_signaled = signaled, wr_imm_data = 0,
       wr_remote_addr = mAddress src + offset, wr_rkey = mKey src\<rparr> ec w)"

definition doWrite :: "adapter \<Rightarrow> sid \<Rightarrow> dma_buffer \<Rightarrow> RemoteMemoryRegion \<Rightarrow> u64 \<Rightarrow> u32 \<Rightarrow> bool \<Rightarrow> 'a world_scheme ec_eff" where
  "doWrite A sk src dst offset userId signaled ec w =
    (if mLength dst < offset + dma_length src then ((None, network_error range_error), w)
     else doSend A sk \<lparr>wr_id = wr_buildId userId (dma_id src) WRITE, wr_opcode = WR_RDMA_WRITE,
       wr_sg_list = dma_handle src, wr_signaled = signaled, wr_imm_data = 0,
       wr_remote_addr = mAddress dst + offset, wr_rkey = mKey dst\<rparr> ec w)"

definition htonl :: "u32 \<Rightarrow> u32" where
  "htonl x = push_bit 24 (x AND 0xFF) OR push_bit 8 (x AND 0xFF00) OR
     (drop_bit 8 x AND 0xFF00) OR drop_bit 24 x"

definition doWrite_imm :: "adapter \<Rightarrow> sid \<Rightarrow> dma_buffer \<Rightarrow> RemoteMemoryRegion \<Rightarrow> u64 \<Rightarrow> u32 \<Rightarrow> u32 \<Rightarrow> bool \<Rightarrow> 'a world_scheme ec_eff" where
  "doWrite_imm A sk src dst offset userId immediate signaled ec w =
    (if mLength dst < offset + dma_length src then ((None, network_error range_error), w)
     else doSend A sk \<lparr>wr_id = wr_buildId userId (dma_id src) WRITE, wr_opcode = WR_RDMA_WRITE_WITH_IMM,
       wr_sg_list = dma_handle src, wr_signaled = signaled, wr_imm_data = htonl immediate,
       wr_remote_addr = mAddress dst + offset, wr_rkey = mKey dst\<rparr> ec w)"

definition read_buffer where
  "read_buffer A sk src offset dst userId = doRead A sk src offset (of_buffer dst) userId True"

definition read_sg where
  "read_sg A sk src offset dst userId = doRead A sk src offset (of_sg dst) userId True"

definition readUnsignaled_buffer where
  "readUnsignaled_buffer A sk src offset dst userId = doRead A sk src offset (of_buffer dst) userId False"

definition readUnsignaled_sg where
  "readUnsignaled_sg A sk src offset dst userId = doRead A sk src offset (of_sg dst) userId False"

definition write_buffer where
  "write_buffer A sk src dst offset userId = doWrite A sk (of_buffer src) dst offset userId True"

definition write_sg where
  "write_sg A sk src dst offset userId = doWrite A sk (of_sg src) dst offset userId True"

definition write_buffer_imm where
  "write_buffer_imm A sk src dst offset userId immediate =
    doWrite_imm A sk (of_buffer src) dst offset userId immediate True"

definition write_sg_imm where
  "write_sg_imm A sk src dst offset userId immediate =
    doWrite_imm A sk (of_sg src) dst offset userId immediate True"

definition writeUnsignaled_buffer where
  "writeUnsignaled_buffer A sk src dst offset userId = doWrite A sk (of_buffer src) dst offset userId False"

definition writeUnsignaled_sg where
  "writeUnsignaled_sg A sk src dst offset userId = doWrite A sk (of_sg src) dst offset userId False"

definition writeUnsignaled_buffer_imm where
  "writeUnsignaled_buffer_imm A sk src dst offset userId immediate =
    doWrite_imm A sk (of_buffer src) dst offset userId immediate False"

definition writeUnsignaled_sg_imm where
  "writeUnsignaled_sg_imm A sk src dst offset userId immediate =
    doWrite_imm A sk (of_sg src) dst offset userId immediate False"

definition socket_acquireSendBuffer :: "'a world_scheme \<Rightarrow> InfinibandBuffer \<times> 'a world_scheme" where
  "socket_acquireSendBuffer w = (let (b, c) = acquireSendBuffer (w_ctx w) in (b, set_ctx c w))"

definition socket_acquireSendBuffer_len :: "u32 \<Rightarrow> 'a world_scheme \<Rightarrow> InfinibandBuffer \<times> 'a world_scheme" where
  "socket_acquireSendBuffer_len len w = (let (b, c) = acquireSendBuffer_len len (w_ctx w) in (b, set_ctx c w))"

definition socket_releaseSendBuffer :: "InfinibandBuffer \<Rightarrow> 'a world_scheme \<Rightarrow> 'a world_scheme" where
  "socket_releaseSendBuffer buffer w = set_ctx (releaseSendBuffer buffer (w_ctx w)) w"

definition socket_bufferLength :: "'a world_scheme \<Rightarrow> u32" where
  "socket_bufferLength w = mSendBufferLength (w_ctx w)"

section \<open>Events of the connection manager\<close>

text \<open>
  The events arrive on a thread of their own; each method only hands a task to the poll thread.
  The tasks follow, one definition for the body of each.
\<close>

definition execute :: "task \<Rightarrow> 'a world_scheme \<Rightarrow> 'a world_scheme" where
  "execute t w = w\<lparr>w_remote := w_remote w @ [t]\<rparr>"

definition onAddressResolved :: "sid \<Rightarrow> 'a world_scheme \<Rightarrow> 'a world_scheme" where
  "onAddressResolved sk = execute (Task_AddressResolved sk)"

definition onRouteResolved :: "sid \<Rightarrow> 'a world_scheme \<Rightarrow> 'a world_scheme" where
  "onRouteResolved sk = execute (Task_RouteResolved sk)"

definition onResolutionError :: "sid \<Rightarrow> network_errors \<Rightarrow> 'a world_scheme \<Rightarrow> 'a world_scheme" where
  "onResolutionError sk err = execute (Task_ResolutionError sk err)"

definition onConnectionError :: "sid \<Rightarrow> network_errors \<Rightarrow> 'a world_scheme \<Rightarrow> 'a world_scheme" where
  "onConnectionError sk err = execute (Task_ConnectionError sk err)"

definition onConnectionRejected :: "sid \<Rightarrow> byte list \<Rightarrow> 'a world_scheme \<Rightarrow> 'a world_scheme" where
  "onConnectionRejected sk data = execute (Task_ConnectionRejected sk data)"

definition onConnectionEstablished :: "sid \<Rightarrow> byte list \<Rightarrow> 'a world_scheme \<Rightarrow> 'a world_scheme" where
  "onConnectionEstablished sk data = execute (Task_ConnectionEstablished sk data)"

definition socket_onDisconnected :: "sid \<Rightarrow> 'a world_scheme \<Rightarrow> 'a world_scheme" where
  "socket_onDisconnected sk = execute (Task_Disconnected sk)"

definition onTimewaitExit :: "sid \<Rightarrow> 'a world_scheme \<Rightarrow> 'a world_scheme" where
  "onTimewaitExit sk = execute (Task_TimewaitExit sk)"

definition task_AddressResolved :: "adapter \<Rightarrow> 'a handler \<Rightarrow> sid \<Rightarrow> 'a world_scheme eff" where
  "task_AddressResolved A h sk w =
    (if cm A sk CM_RESOLVE_ROUTE \<noteq> 0
     then h sk (onConnected [] (errno_error (cm A sk CM_RESOLVE_ROUTE))) w else (None, w))"

definition task_RouteResolved :: "adapter \<Rightarrow> 'a handler \<Rightarrow> sid \<Rightarrow> 'a world_scheme eff" where
  "task_RouteResolved A h sk w =
    (case addConnection A sk w of
       (Some e, w) \<Rightarrow> h sk (onConnected [] e) w
     | (None, w) \<Rightarrow>
        if cm A sk CM_CONNECT \<noteq> 0
        then h sk (onConnected [] (errno_error (cm A sk CM_CONNECT))) (removeConnection sk w)
        else (None, w))"

definition task_ResolutionError :: "'a handler \<Rightarrow> sid \<Rightarrow> network_errors \<Rightarrow> 'a world_scheme eff" where
  "task_ResolutionError h sk err = h sk (onConnected [] (network_error err))"

definition task_ConnectionError :: "'a handler \<Rightarrow> sid \<Rightarrow> network_errors \<Rightarrow> 'a world_scheme eff" where
  "task_ConnectionError h sk err w = h sk (onConnected [] (network_error err)) (removeConnection sk w)"

definition task_ConnectionRejected :: "'a handler \<Rightarrow> sid \<Rightarrow> byte list \<Rightarrow> 'a world_scheme eff" where
  "task_ConnectionRejected h sk data w = h sk (onConnected data connection_refused) (removeConnection sk w)"

definition task_ConnectionEstablished :: "'a handler \<Rightarrow> sid \<Rightarrow> byte list \<Rightarrow> 'a world_scheme eff" where
  "task_ConnectionEstablished h sk data = h sk (onConnected data no_error)"

definition task_Disconnected :: "'a handler \<Rightarrow> sid \<Rightarrow> 'a world_scheme eff" where
  "task_Disconnected h sk = h sk onDisconnect"

definition task_TimewaitExit :: "sid \<Rightarrow> 'a world_scheme eff" where
  "task_TimewaitExit sk w = (None, drainConnection sk w)"

text \<open>The tasks of the sockets; \<open>other\<close> runs those of the layers above.\<close>

fun run_task :: "adapter \<Rightarrow> 'a handler \<Rightarrow> (task \<Rightarrow> 'a world_scheme eff) \<Rightarrow> task \<Rightarrow> 'a world_scheme eff" where
  "run_task A h other (Task_AddressResolved sk) = task_AddressResolved A h sk"
| "run_task A h other (Task_RouteResolved sk) = task_RouteResolved A h sk"
| "run_task A h other (Task_ResolutionError sk err) = task_ResolutionError h sk err"
| "run_task A h other (Task_ConnectionError sk err) = task_ConnectionError h sk err"
| "run_task A h other (Task_ConnectionRejected sk data) = task_ConnectionRejected h sk data"
| "run_task A h other (Task_ConnectionEstablished sk data) = task_ConnectionEstablished h sk data"
| "run_task A h other (Task_Disconnected sk) = task_Disconnected h sk"
| "run_task A h other (Task_TimewaitExit sk) = task_TimewaitExit sk"
| "run_task A h other t = other t"

datatype cm_event =
    ADDR_RESOLVED | ADDR_ERROR | ROUTE_RESOLVED | ROUTE_ERROR
  | CONNECT_REQUEST sid "byte list" | CONNECT_ERROR | UNREACHABLE
  | REJECTED "byte list" | ESTABLISHED "byte list" | DISCONNECTED_EVENT | TIMEWAIT_EXIT | OTHER_EVENT

text \<open>
  \<^verbatim>\<open>InfinibandService::processEvent\<close>. The socket made for a connection request gets the name in the
  event; \<open>listener\<close> is the handler of the acceptor.
\<close>

fun processEvent :: "(sid \<Rightarrow> byte list \<Rightarrow> 'a world_scheme eff) \<Rightarrow> sid \<Rightarrow> cm_event \<Rightarrow> 'a world_scheme eff" where
  "processEvent listener sk ADDR_RESOLVED w = (None, onAddressResolved sk w)"
| "processEvent listener sk ADDR_ERROR w = (None, onResolutionError sk address_resolution w)"
| "processEvent listener sk ROUTE_RESOLVED w = (None, onRouteResolved sk w)"
| "processEvent listener sk ROUTE_ERROR w = (None, onResolutionError sk route_resolution w)"
| "processEvent listener sk (CONNECT_REQUEST new data) w =
    listener new data (set_socket new
      \<lparr>sk_open = True, sk_qp = None, sk_processor = False, sk_data = [], sk_refs = 1\<rparr> w)"
| "processEvent listener sk CONNECT_ERROR w = (None, onConnectionError sk connection_error w)"
| "processEvent listener sk UNREACHABLE w = (None, onConnectionError sk unreachable w)"
| "processEvent listener sk (REJECTED data) w = (None, onConnectionRejected sk data w)"
| "processEvent listener sk (ESTABLISHED data) w = (None, onConnectionEstablished sk data w)"
| "processEvent listener sk DISCONNECTED_EVENT w = (None, socket_onDisconnected sk w)"
| "processEvent listener sk TIMEWAIT_EXIT w = (None, onTimewaitExit sk w)"
| "processEvent listener sk OTHER_EVENT w = (None, w)"

section \<open>Remote accesses stay in range\<close>

lemma doSend_cases:
  assumes "sk_open (w_sockets w sk)"
  shows "doSend A sk wr ec w =
    (let res = post_send A (length (w_posted w)) (sk_qp (w_sockets w sk)) wr in
     if res \<noteq> 0 then ((None, errno_error res), w)
     else ((None, ec), w\<lparr>w_posted := w_posted w @ [(sk, wr, gather (w_mem w) (wr_sg_list wr))],
       w_outstanding := (if wr_signaled wr then w_outstanding w @ [(sk, wr, gather (w_mem w) (wr_sg_list wr))] else w_outstanding w)\<rparr>))"
  using assms by (simp add: doSend_def)

definition remote_inside :: "RemoteMemoryRegion \<Rightarrow> u64 \<Rightarrow> nat \<Rightarrow> bool" where
  "remote_inside r addr n \<longleftrightarrow> unat (mAddress r) \<le> unat addr \<and>
    unat addr + n \<le> unat (mAddress r) + unat (mLength r)"

lemma remote_inside_offset:
  assumes "offset + len \<le> mLength r" and "unat offset + unat len < 2 ^ 64"
    and "unat (mAddress r) + unat (mLength r) < 2 ^ 64"
  shows "remote_inside r (mAddress r + offset) (unat len)"
proof -
  have "unat offset + unat len \<le> unat (mLength r)"
    using assms(1,2) by (simp add: word_le_nat_alt unat_add_no_wrap)
  then show ?thesis using assms(3) by (simp add: remote_inside_def unat_add_no_wrap)
qed

text \<open>
  C19: a remote read or write is checked against the remote region. A request that does not fit
  is refused with an error code, nothing is posted and nothing changes; a request that is posted
  addresses only bytes inside the region, carries its key, and its id leads back to the caller's
  user id and buffer. The sum of offset and length must not wrap around 64 bits.
\<close>

theorem remote_access_in_range:
  assumes "unat offset + unat (dma_length b) < 2 ^ 64" and "unat (mAddress r) + unat (mLength r) < 2 ^ 64"
    and "f \<in> {doRead A sk r offset b userId sig, doWrite A sk b r offset userId sig,
              doWrite_imm A sk b r offset userId immediate sig}"
  shows "if unat (mLength r) < unat offset + unat (dma_length b)
    then f ec w = ((None, network_error range_error), w)
    else \<exists>wr. f ec w = doSend A sk wr ec w \<and>
      remote_inside r (wr_remote_addr wr) (unat (dma_length b)) \<and> wr_rkey wr = mKey r \<and>
      wr_sg_list wr = dma_handle b \<and> wr_signaled wr = sig \<and> wr_userId (wr_id wr) = userId \<and>
      wr_bufferId (wr_id wr) = dma_id b \<and> wr_workType (wr_id wr) \<in> {READ, WRITE}"
proof -
  have sum: "unat (offset + dma_length b) = unat offset + unat (dma_length b)"
    using assms(1) by (simp add: unat_add_no_wrap)
  show ?thesis
  proof (cases "unat (mLength r) < unat offset + unat (dma_length b)")
    case True
    then show ?thesis
      using assms(3) by (auto simp: doRead_def doWrite_def doWrite_imm_def word_less_nat_alt sum)
  next
    case False
    then have "offset + dma_length b \<le> mLength r" by (simp add: word_le_nat_alt sum)
    note inside = remote_inside_offset [OF this assms(1,2)]
    consider "f = doRead A sk r offset b userId sig" | "f = doWrite A sk b r offset userId sig"
      | "f = doWrite_imm A sk b r offset userId immediate sig" using assms(3) by blast
    then show ?thesis
    proof cases
      case 1
      show ?thesis using False inside unfolding 1 doRead_def
        by (simp add: word_less_nat_alt sum) (rule exI, rule conjI, rule refl, simp)
    next
      case 2
      show ?thesis using False inside unfolding 2 doWrite_def
        by (simp add: word_less_nat_alt sum) (rule exI, rule conjI, rule refl, simp)
    next
      case 3
      show ?thesis using False inside unfolding 3 doWrite_imm_def
        by (simp add: word_less_nat_alt sum) (rule exI, rule conjI, rule refl, simp)
    qed
  qed
qed

theorem remote_access_in_range_witness:
  "doRead ex_adapter 0 \<lparr>mAddress = 0x5000, mLength = 100, mKey = 9\<rparr> 90
     (of_buffer \<lparr>mHandle = \<lparr>sge_addr = 0x1000, sge_length = 20, sge_lkey = 7\<rparr>, mId = 1\<rparr>) 3 True no_error ex_world
   = ((None, network_error range_error), ex_world)"
  using remote_access_in_range [of 90
      "of_buffer \<lparr>mHandle = \<lparr>sge_addr = 0x1000, sge_length = 20, sge_lkey = 7\<rparr>, mId = 1\<rparr>"
      "\<lparr>mAddress = 0x5000, mLength = 100, mKey = 9\<rparr>"
      "doRead ex_adapter 0 \<lparr>mAddress = 0x5000, mLength = 100, mKey = 9\<rparr> 90
        (of_buffer \<lparr>mHandle = \<lparr>sge_addr = 0x1000, sge_length = 20, sge_lkey = 7\<rparr>, mId = 1\<rparr>) 3 True"
      ex_adapter 0 3 True 0 no_error ex_world]
  by (simp add: of_buffer_def buffer_length_def)

section \<open>Completions reach their socket\<close>

definition conns :: "'a world_scheme \<Rightarrow> (sid \<Rightarrow> u32 option) \<times> (u32 \<Rightarrow> sid option) \<times> u32 list" where
  "conns w = (\<lambda>sk. sk_qp (w_sockets w sk), mSocketMap (w_ctx w), w_qps w)"

text \<open>
  What the code relies on of \<^verbatim>\<open>rdma_create_qp\<close>: it fails for a connection that has a queue pair, and
  the number of a new queue pair is different from those of the queue pairs that exist. The number of a queue pair
  that was destroyed may be used again.
\<close>

definition verbs_ok :: "adapter \<Rightarrow> bool" where
  "verbs_ok A \<longleftrightarrow> (\<forall>n qs q q'. create_qp A n qs (Some q) \<noteq> Inr q') \<and>
    (\<forall>n qs q. create_qp A n qs None = Inr q \<longrightarrow> q \<notin> set qs)"

fun conn_rel :: "(sid \<Rightarrow> u32 option) \<times> (u32 \<Rightarrow> sid option) \<times> u32 list \<Rightarrow> bool" where
  "conn_rel (f, g, qs) \<longleftrightarrow> (\<forall>sk q. f sk = Some q \<longleftrightarrow> g q = Some sk) \<and> (\<forall>sk q. f sk = Some q \<longrightarrow> q \<in> set qs)"

lemma conn_rel_add:
  assumes "conn_rel (f, g, qs)" and "f sk = None" and "q \<notin> set qs"
  shows "g q = None" and "conn_rel (f(sk \<mapsto> q), g(q \<mapsto> sk), q # qs)"
proof -
  have iff: "f sk' = Some q' \<longleftrightarrow> g q' = Some sk'" and mem: "f sk' = Some q' \<Longrightarrow> q' \<in> set qs" for sk' q' using assms(1) by auto
  have new: "f sk' \<noteq> Some q" for sk' using mem assms(3) by blast
  then show "g q = None" using iff by (metis option.exhaust)
  have "(f(sk \<mapsto> q)) sk' = Some q' \<longleftrightarrow> (g(q \<mapsto> sk)) q' = Some sk'" for sk' q'
    using iff [of sk' q'] assms(2) new by auto
  moreover have "q' \<in> set (q # qs)" if "(f(sk \<mapsto> q)) sk' = Some q'" for sk' q'
    using that mem by (auto split: if_splits)
  ultimately show "conn_rel (f(sk \<mapsto> q), g(q \<mapsto> sk), q # qs)" by simp
qed

lemma conn_rel_remove:
  assumes "conn_rel (f, g, qs)" and "f sk = Some q"
  shows "conn_rel (f(sk := None), g(q := None), remove1 q qs)"
proof -
  have iff: "f sk' = Some q' \<longleftrightarrow> g q' = Some sk'" and mem: "f sk' = Some q' \<Longrightarrow> q' \<in> set qs" for sk' q' using assms(1) by auto
  have rel: "(f(sk := None)) sk' = Some q' \<longleftrightarrow> (g(q := None)) q' = Some sk'" for sk' q'
    using iff [of sk' q'] iff [of sk q] iff [of sk q'] iff [of sk' q] assms(2) by auto
  moreover have "q' \<in> set (remove1 q qs)" if "(f(sk := None)) sk' = Some q'" for sk' q'
  proof -
    have "q' \<noteq> q" using rel [of sk' q'] that by auto
    then show ?thesis using that mem [of sk' q'] by (auto split: if_splits)
  qed
  ultimately show ?thesis by simp
qed

definition conn_inv :: "'a world_scheme \<Rightarrow> bool" where
  "conn_inv w \<longleftrightarrow> conn_rel (conns w)"

definition keeps_conns :: "'a handler \<Rightarrow> bool" where
  "keeps_conns h \<longleftrightarrow> (\<forall>sk cb w. conns (snd (h sk cb w)) = conns w)"

lemma conn_inv_cong: "conns w = conns w' \<Longrightarrow> conn_inv w = conn_inv w'"
  by (simp add: conn_inv_def)

lemma conn_inv_handler: "keeps_conns h \<Longrightarrow> conn_inv w \<Longrightarrow> conn_inv (snd (h sk cb w))"
  unfolding keeps_conns_def by (metis conn_inv_cong)

lemma conns_simps [simp]:
  "conns (w\<lparr>w_dev := d\<rparr>) = conns w" "conns (w\<lparr>w_recvs := n\<rparr>) = conns w"
  "conns (w\<lparr>w_remote := ts\<rparr>) = conns w" "conns (w\<lparr>w_local := ts\<rparr>) = conns w"
  "conns (set_ctx (c\<lparr>mDrainingQueue := q\<rparr>) w) = conns (set_ctx c w)"
  "conns (set_ctx (releaseSendBuffer_id bid c) w) = conns (set_ctx c w)"
  "conns (set_ctx (w_ctx w) w) = conns w"
  by (simp_all add: conns_def set_ctx_def releaseSendBuffer_id_def)

lemma conns_post [simp]: "conns (postReceiveBuffer A b w) = conns w"
  by (simp add: postReceiveBuffer_def postBuffer_def Let_def)

lemma conns_set_socket: "sk_qp s = sk_qp (w_sockets w sk) \<Longrightarrow> conns (set_socket sk s w) = conns w"
  by (auto simp: conns_def set_socket_def)

lemma conn_inv_set_socket:
  "sk_qp s = sk_qp (w_sockets w sk) \<Longrightarrow> conn_inv (set_socket sk s w) = conn_inv w"
  by (rule conn_inv_cong) (rule conns_set_socket)

lemma conn_inv_add:
  assumes "verbs_ok A" and "conn_inv w"
  shows "conn_inv (snd (addConnection A sk w))"
proof (cases "create_qp A (w_qp_calls w) (w_qps w) (sk_qp (w_sockets w sk))")
  case (Inl e)
  then show ?thesis using assms by (simp add: addConnection_def conn_inv_def conns_def)
next
  case (Inr q)
  then have none: "sk_qp (w_sockets w sk) = None" and new: "q \<notin> set (w_qps w)"
    using assms(1) by (auto simp: verbs_ok_def split: option.splits) (metis option.exhaust)+
  have rel: "conn_rel (\<lambda>sk. sk_qp (w_sockets w sk), mSocketMap (w_ctx w), w_qps w)"
    using assms(2) by (simp add: conn_inv_def conns_def)
  note add = conn_rel_add [OF rel none new]
  have "conns (snd (addConnection A sk w)) =
      ((\<lambda>sk. sk_qp (w_sockets w sk))(sk \<mapsto> q), (mSocketMap (w_ctx w))(q \<mapsto> sk), q # w_qps w)"
    using Inr add(1) by (auto simp: addConnection_def conns_def set_socket_def set_ctx_def Let_def)
  then show ?thesis using add(2) by (simp only: conn_inv_def)
qed

lemma conn_inv_remove:
  assumes "conn_inv w"
  shows "conn_inv (removeConnection sk w)"
proof (cases "sk_qp (w_sockets w sk)")
  case None
  then show ?thesis using assms by (simp add: removeConnection_def)
next
  case (Some q)
  have "conns (removeConnection sk w) =
      ((\<lambda>sk. sk_qp (w_sockets w sk))(sk := None), (mSocketMap (w_ctx w))(q := None), remove1 q (w_qps w))"
    using Some by (auto simp: removeConnection_def conns_def set_socket_def set_ctx_def)
  then show ?thesis
    using assms Some conn_rel_remove [of "\<lambda>sk. sk_qp (w_sockets w sk)" "mSocketMap (w_ctx w)" "w_qps w" sk q]
    unfolding conn_inv_def conns_def by simp
qed

lemma conn_inv_complete:
  assumes "keeps_conns h" and "conn_inv w"
  shows "conn_inv (snd (processWorkComplete A h wc w))"
proof -
  have same: "conn_inv v'" if "conn_inv v" "conns v' = conns v" for v v' :: "'a world_scheme"
    using that conn_inv_cong by metis
  have post: "conn_inv (postReceiveBuffer A b v)" and rel: "conn_inv (set_ctx (releaseSendBuffer_id i (w_ctx v)) v)"
    if "conn_inv v" for b i and v :: "'a world_scheme"
    using same [OF that] by simp_all
  have then_post: "conn_inv (snd (andthen (h sk cb) (\<lambda>w. (None, postReceiveBuffer A b w)) w))"
    and then_rel: "conn_inv (snd (andthen (h sk cb) (\<lambda>w. (None, set_ctx (releaseSendBuffer_id i (w_ctx w)) w)) w))"
    for sk cb b i
    by (rule andthen_keeps; use assms conn_inv_handler post rel in fastforce)+
  show ?thesis
    using assms conn_inv_handler [OF assms] then_post then_rel post [OF assms(2)] rel [OF assms(2)]
    by (auto simp: processWorkComplete_def Let_def postReceiveBuffer_id_def
        split: option.splits WorkType.splits)
qed

lemma conn_inv_drained:
  assumes "keeps_conns h" and "conn_inv w"
  shows "conn_inv (snd (onDrained h sk w))"
  using conn_inv_handler [OF assms(1) conn_inv_remove [OF assms(2)]] by (simp add: onDrained_def)

lemma conn_inv_poll:
  assumes "keeps_conns h" and "conn_inv w"
  shows "conn_inv (snd (poll A h polled w))"
proof -
  let ?w = "set_ctx ((w_ctx w)\<lparr>mDrainingQueue := []\<rparr>) w"
  have w: "conn_inv ?w" using assms(2) conn_inv_cong [of ?w w] by simp
  have "conn_inv (snd (andthen (each (processWorkComplete A h) wcs) (each (onDrained h) ds) ?w))" for wcs ds
    by (rule andthen_keeps [where P = conn_inv]; (rule w | rule each_keeps [where P = conn_inv]))
      (simp_all add: conn_inv_complete [OF assms(1)] conn_inv_drained [OF assms(1)])
  then show ?thesis by (simp add: poll_def Let_def case_prod_beta)
qed

text \<open>What can happen to the connections of a process.\<close>

inductive conn_step :: "adapter \<Rightarrow> 'a handler \<Rightarrow> 'a world_scheme \<Rightarrow> 'a world_scheme \<Rightarrow> bool" for A h where
    task: "conn_step A h w (snd (run_task A h (\<lambda>_. finish) t w))"
  | accept: "conn_step A h w (snd (socket_accept A sk w))"
  | opened: "conn_step A h w (snd (socket_open A sk w))"
  | closed: "socket_close A sk w = Some r \<Longrightarrow> conn_step A h w (snd r)"
  | connect: "conn_step A h w (snd (socket_connect_data A sk data w))"
  | event: "\<forall>new data. ev = CONNECT_REQUEST new data \<longrightarrow> sk_qp (w_sockets w new) = None \<Longrightarrow>
      conn_step A h w (snd (processEvent (\<lambda>_ _. finish) sk ev w))"
  | completed: "conn_step A h w (snd (processWorkComplete A h wc w))"
  | drained: "conn_step A h w (snd (onDrained h sk w))"
  | polled: "conn_step A h w (snd (poll A h polled w))"

lemma conn_inv_task:
  assumes "verbs_ok A" and "keeps_conns h" and "conn_inv w"
  shows "conn_inv (snd (run_task A h (\<lambda>_. finish) t w))"
proof -
  note H = conn_inv_handler [OF assms(2)]
  have route: "conn_inv (snd (task_RouteResolved A h sk w))" for sk
  proof (cases "addConnection A sk w")
    case (Pair e v)
    then have "conn_inv v" using conn_inv_add [OF assms(1,3), of sk] by simp
    then have "conn_inv (snd (h sk cb v))" "conn_inv (snd (h sk cb (removeConnection sk v)))" "conn_inv v" for cb
      by (simp_all add: H conn_inv_remove)
    then show ?thesis using Pair by (auto simp: task_RouteResolved_def split: option.splits)
  qed
  have drain: "conn_inv (drainConnection sk w)" for sk
    using assms(3) conn_inv_cong [of "drainConnection sk w" w] by (simp add: drainConnection_def)
  show ?thesis
    using assms(3) H [OF assms(3)] H [OF conn_inv_remove [OF assms(3)]] route drain
    by (cases t) (simp_all add: task_AddressResolved_def task_ResolutionError_def task_ConnectionError_def
      task_ConnectionRejected_def task_ConnectionEstablished_def task_Disconnected_def task_TimewaitExit_def)
qed

lemma conn_inv_step:
  assumes "verbs_ok A" and "keeps_conns h" and "conn_inv w" and "conn_step A h w w'"
  shows "conn_inv w'"
  using assms(4)
proof cases
  case (task t)
  then show ?thesis using conn_inv_task [OF assms(1-3)] by simp
next
  case (accept sk)
  let ?w = "set_socket sk ((w_sockets w sk)\<lparr>sk_processor := True\<rparr>) w"
  have w: "conn_inv ?w" using assms(3) conn_inv_cong [of ?w w] by (simp add: conns_set_socket)
  have "conn_inv (snd (andthen (addConnection A sk)
      (\<lambda>w. if cm A sk CM_ACCEPT \<noteq> 0 then (Some (errno_error (cm A sk CM_ACCEPT)), removeConnection sk w) else (None, w)) ?w))"
    by (rule andthen_keeps) (simp_all add: w conn_inv_add [OF assms(1)] conn_inv_remove)
  then show ?thesis using accept assms(3) by (simp add: socket_accept_def)
next
  case (opened sk)
  then show ?thesis
    using assms(3) by (auto simp: socket_open_def Let_def conn_inv_set_socket)
next
  case (closed sk r)
  then show ?thesis
    using assms(3) by (auto simp: socket_close_def Let_def conn_inv_set_socket split: if_splits)
next
  case (connect sk data)
  then show ?thesis
    using assms(3) by (auto simp: socket_connect_data_def socket_connect_def conn_inv_set_socket)
next
  case (event ev sk)
  have ex: "conn_inv (execute t w)" for t
    using assms(3) conn_inv_cong [of "execute t w" w] by (simp add: execute_def)
  show ?thesis
    using event ex assms(3)
    by (cases ev) (auto simp: conn_inv_set_socket onAddressResolved_def onResolutionError_def onRouteResolved_def
      onConnectionError_def onConnectionRejected_def onConnectionEstablished_def
      socket_onDisconnected_def onTimewaitExit_def)
next
  case (completed wc)
  then show ?thesis using conn_inv_complete [OF assms(2,3)] by simp
next
  case (drained sk)
  then show ?thesis
    using conn_inv_drained [OF assms(2,3)] by simp
next
  case (polled polled)
  then show ?thesis using conn_inv_poll [OF assms(2,3)] by simp
qed

text \<open>
  C20: completions reach the socket they belong to. Whatever sequence of connection events, tasks,
  accepts, opens, closes, polls, completions and drained connections a process goes through, starting
  without connections, its map sends a queue pair number to a socket exactly if that socket's queue
  pair has this number; so no two sockets share a number and no entry outlives its queue pair. The
  handlers of the sockets do not change the queue pairs, and the library gives a new queue pair a number that no
  existing one has; numbers of destroyed queue pairs may come back.
\<close>

theorem socket_map_exact:
  assumes "verbs_ok A" and "keeps_conns h"
    and "\<forall>sk. sk_qp (w_sockets w sk) = None" and "mSocketMap (w_ctx w) = Map.empty"
    and "(conn_step A h)\<^sup>*\<^sup>* w w'"
  shows "(mSocketMap (w_ctx w') q = Some sk \<longleftrightarrow> sk_qp (w_sockets w' sk) = Some q) \<and>
    (sk_qp (w_sockets w' sk) = Some q \<longrightarrow> sk_qp (w_sockets w' sk') = Some q \<longrightarrow> sk = sk')"
proof -
  have "inductive_invariant (\<lambda>v. v = w) (conn_step A h) conn_inv"
    by (rule inductive_invariant.intro)
      (use assms(3,4) in \<open>simp add: conn_inv_def conns_def\<close>, rule conn_inv_step [OF assms(1,2)])
  then have "conn_inv w'"
    using inductive_invariant.inv_steps [OF _ assms(5), of "\<lambda>v. v = w" conn_inv] assms(3,4)
    by (simp add: conn_inv_def conns_def)
  then have iff: "sk_qp (w_sockets w' sk) = Some q \<longleftrightarrow> mSocketMap (w_ctx w') q = Some sk" for sk q
    by (simp add: conn_inv_def conns_def)
  show ?thesis using iff [of sk q] iff [of sk' q] by auto
qed

theorem socket_map_exact_witness:
  "mSocketMap (w_ctx (snd (task_RouteResolved ex_adapter (\<lambda>_ _. finish) 4 ex_world))) 0 = Some 4 \<and>
   sk_qp (w_sockets (snd (task_RouteResolved ex_adapter (\<lambda>_ _. finish) 4 ex_world)) 4) = Some 0"
proof -
  let ?w' = "snd (task_RouteResolved ex_adapter (\<lambda>_ _. finish) 4 ex_world)"
  have ok: "verbs_ok ex_adapter"
    by (auto simp: verbs_ok_def ex_adapter_def split: if_splits)
  have start: "\<forall>sk. sk_qp (w_sockets ex_world sk) = None" "mSocketMap (w_ctx ex_world) = Map.empty"
    by (simp_all add: ex_world_def new_context_def)
  have "(conn_step ex_adapter (\<lambda>_ _. finish))\<^sup>*\<^sup>* ex_world ?w'"
    using conn_step.task [of ex_adapter "\<lambda>_ _. finish" ex_world "Task_RouteResolved 4"] by auto
  moreover have "sk_qp (w_sockets ?w' 4) = Some 0"
    by (simp add: task_RouteResolved_def addConnection_def ex_adapter_def ex_world_def set_socket_def set_ctx_def Let_def new_context_def)
  ultimately show ?thesis
    using socket_map_exact [OF ok _ start, of "\<lambda>_ _. finish" ?w' 0 4 4] by (simp add: keeps_conns_def)
qed

end
