(* ===== verification/Infinio_Batching.thy ===== *)
theory Infinio_Batching
  imports Infinio_Socket
begin

text \<open>
  \<^verbatim>\<open>BatchingMessageSocket\<close>: messages are written one after the other into a send buffer, each with a
  header and padded to eight bytes, and the buffer is sent when it is full or when the poll round
  ends. The receiving side takes a buffer apart again.

  The function that writes a message's content is the caller's: an argument that gets the part of
  the buffer reserved for the message, and returns the memory after it and an error code. The class
  that derives from the socket is an argument too, called for connections, messages and
  disconnections.
\<close>

unbundle bit_operations_syntax

section \<open>State\<close>

datatype ConnectionState = DISCONNECTED | SHUTDOWN | CONNECTING | CONNECTED

record bms =
  mMaxBatchSize :: u64
  mBuffer :: InfinibandBuffer
  mSendBuffer :: buffer_writer
  mBatchSize :: u64
  mState :: ConnectionState
  mFlush :: bool

record bworld = world +
  b_socks :: "sid \<Rightarrow> bms"

definition HEADER_SIZE :: u32 where
  "HEADER_SIZE = 8 + 2 * 4"

definition null_writer :: buffer_writer where
  "null_writer = new_writer 0 0"

definition new_bms :: "u64 \<Rightarrow> bms" where
  "new_bms maxBatchSize = \<lparr>mMaxBatchSize = maxBatchSize, mBuffer = new_buffer INVALID_ID,
     mSendBuffer = null_writer, mBatchSize = 0, mState = DISCONNECTED, mFlush = False\<rparr>"

definition set_bms :: "sid \<Rightarrow> bms \<Rightarrow> 'a bworld_scheme \<Rightarrow> 'a bworld_scheme" where
  "set_bms sk b w = w\<lparr>b_socks := (b_socks w)(sk := b)\<rparr>"

text \<open>The constructor: the socket is opened unless it is open already.\<close>

definition bms_create :: "adapter \<Rightarrow> sid \<Rightarrow> u64 \<Rightarrow> 'a bworld_scheme eff" where
  "bms_create A sk maxBatchSize w =
    (let w = set_bms sk (new_bms maxBatchSize) w
     in if sk_open (w_sockets w sk) then (None, w) else socket_open A sk w)"

definition isConnected :: "bms \<Rightarrow> bool" where
  "isConnected b \<longleftrightarrow> mState b = CONNECTED"

text \<open>Messages, and what the derived class is called for.\<close>

datatype app_call =
    App_connected "byte list"
  | App_message u64 u32 buffer_reader
  | App_disconnected

type_synonym 'a app = "sid \<Rightarrow> app_call \<Rightarrow> 'a bworld_scheme eff"

type_synonym content = "buffer_writer \<Rightarrow> flat \<Rightarrow> flat \<times> error_code"

section \<open>Connection state\<close>

definition bms_connect :: "adapter \<Rightarrow> sid \<Rightarrow> byte list \<Rightarrow> 'a bworld_scheme eff" where
  "bms_connect A sk data w =
    (if mState (b_socks w sk) \<noteq> DISCONNECTED then (Some already_connected, w)
     else andthen (socket_connect_data A sk data)
       (\<lambda>w. (None, set_bms sk ((b_socks w sk)\<lparr>mState := CONNECTING\<rparr>) w)) w)"

definition bms_accept :: "adapter \<Rightarrow> sid \<Rightarrow> 'a bworld_scheme eff" where
  "bms_accept A sk w =
    (if mState (b_socks w sk) \<noteq> DISCONNECTED then (Some already_connected, w)
     else andthen (socket_accept A sk)
       (\<lambda>w. (None, set_bms sk ((b_socks w sk)\<lparr>mState := CONNECTING\<rparr>) w)) w)"

text \<open>An exception of \<^verbatim>\<open>disconnect\<close> is caught and logged.\<close>

definition shutdown :: "adapter \<Rightarrow> sid \<Rightarrow> 'a bworld_scheme eff" where
  "shutdown A sk w =
    (if mState (b_socks w sk) \<noteq> CONNECTED then (Some not_connected, w)
     else let w = set_bms sk ((b_socks w sk)\<lparr>mState := SHUTDOWN\<rparr>) w
          in (None, snd (socket_disconnect A sk w)))"

definition handleSocketError :: "adapter \<Rightarrow> sid \<Rightarrow> error_code \<Rightarrow> 'a bworld_scheme eff" where
  "handleSocketError A sk ec = shutdown A sk"

section \<open>Sending\<close>

text \<open>A call with an error parameter, followed by more code unless it raises.\<close>

definition ec_then ::
  "(error_code option \<times> error_code) \<times> 'w \<Rightarrow> (error_code \<Rightarrow> 'w \<Rightarrow> (error_code option \<times> error_code) \<times> 'w) \<Rightarrow>
    (error_code option \<times> error_code) \<times> 'w" where
  "ec_then r g = (case r of ((Some e, ec), w) \<Rightarrow> ((Some e, ec), w) | ((None, ec), w) \<Rightarrow> g ec w)"

definition drop_buffer :: "bms \<Rightarrow> bms" where
  "drop_buffer b = b\<lparr>mBuffer := new_buffer INVALID_ID, mSendBuffer := null_writer\<rparr>"

definition sendCurrentBuffer :: "adapter \<Rightarrow> sid \<Rightarrow> 'a bworld_scheme ec_eff" where
  "sendCurrentBuffer A sk ec w =
    (let b = b_socks w sk in
     if \<not> buffer_valid (mBuffer b) then ((None, ec), w)
     else
       let bytesWritten = wr_mPos (mSendBuffer b) - buffer_data (mBuffer b);
           b = b\<lparr>mBuffer := shrink (ucast bytesWritten) (mBuffer b)\<rparr>;
           w = set_bms sk b w
       in ec_then (socket_send A sk (mBuffer b) 0 ec w)
         (\<lambda>ec w.
            let w = (if is_error ec then socket_releaseSendBuffer (mBuffer b) w else w)
            in ((None, ec), set_bms sk (drop_buffer ((b_socks w sk)\<lparr>mBatchSize := 0\<rparr>)) w)))"

definition executeLocal :: "task \<Rightarrow> 'a world_scheme \<Rightarrow> 'a world_scheme" where
  "executeLocal t w = w\<lparr>w_local := w_local w @ [t]\<rparr>"

definition scheduleFlush :: "sid \<Rightarrow> 'a bworld_scheme \<Rightarrow> 'a bworld_scheme" where
  "scheduleFlush sk w =
    (if mFlush (b_socks w sk) then w
     else set_bms sk ((b_socks w sk)\<lparr>mFlush := True\<rparr>) (executeLocal (Task_Flush sk) w))"

text \<open>The task that \<open>scheduleFlush\<close> queues.\<close>

definition task_Flush :: "adapter \<Rightarrow> sid \<Rightarrow> 'a bworld_scheme eff" where
  "task_Flush A sk w =
    (let w = set_bms sk ((b_socks w sk)\<lparr>mFlush := False\<rparr>) w; b = b_socks w sk in
     if \<not> buffer_valid (mBuffer b) then (None, w)
     else if wr_mPos (mSendBuffer b) = buffer_data (mBuffer b) then
       (None, set_bms sk (drop_buffer b) (socket_releaseSendBuffer (mBuffer b) w))
     else
       (case sendCurrentBuffer A sk no_error w of
          ((Some e, ec), w) \<Rightarrow> (Some e, w)
        | ((None, ec), w) \<Rightarrow> if is_error ec then handleSocketError A sk ec w else (None, w)))"

text \<open>Header, reserved content and padding, once the message fits.\<close>

definition append_message :: "sid \<Rightarrow> u64 \<Rightarrow> u32 \<Rightarrow> u32 \<Rightarrow> content \<Rightarrow> 'a bworld_scheme \<Rightarrow> error_code \<times> 'a bworld_scheme" where
  "append_message sk messageId messageType messageLength fn w =
    (let b = b_socks w sk;
         oldOffset = ucast (wr_mPos (mSendBuffer b) - buffer_data (mBuffer b)) :: u32;
         (s, m) = writer_write messageId (mSendBuffer b) (w_mem w);
         (s, m) = writer_write messageType s m;
         (s, m) = writer_write messageLength s m;
         (message, s) = writer_extract (ucast messageLength) s;
         s = writer_align 8 s;
         (m, ec) = fn message m;
         w = w\<lparr>w_mem := m\<rparr>
     in if is_error ec
        then (ec, set_bms sk (b\<lparr>mSendBuffer := new_writer (buffer_data (mBuffer b) + ucast oldOffset)
               (ucast (buffer_length (mBuffer b) - oldOffset))\<rparr>) w)
        else (ec, set_bms sk (b\<lparr>mSendBuffer := s, mBatchSize := mBatchSize b + 1\<rparr>) w))"

text \<open>A new buffer after the last one was sent; the result is whether the pool had one.\<close>

definition next_buffer :: "sid \<Rightarrow> 'a bworld_scheme \<Rightarrow> bool \<times> 'a bworld_scheme" where
  "next_buffer sk w =
    (let w = set_bms sk ((b_socks w sk)\<lparr>mBatchSize := 0\<rparr>) w;
         (buffer, w) = socket_acquireSendBuffer w;
         w = set_bms sk ((b_socks w sk)\<lparr>mBuffer := buffer\<rparr>) w
     in if \<not> buffer_valid buffer
        then (False, set_bms sk ((b_socks w sk)\<lparr>mSendBuffer := null_writer\<rparr>) w)
        else (True, scheduleFlush sk (set_bms sk ((b_socks w sk)\<lparr>mSendBuffer :=
               new_writer (buffer_data buffer) (ucast (buffer_length buffer))\<rparr>) w)))"

definition writeMessage ::
  "adapter \<Rightarrow> sid \<Rightarrow> u64 \<Rightarrow> u32 \<Rightarrow> u32 \<Rightarrow> content \<Rightarrow> 'a bworld_scheme ec_eff" where
  "writeMessage A sk messageId messageType messageLength fn ec w =
    (let len = HEADER_SIZE + messageLength; b = b_socks w sk;
         append = (\<lambda>w. let (ec, w) = append_message sk messageId messageType messageLength fn w in ((None, ec), w))
     in
     if \<not> canWrite (ucast len) (mSendBuffer b) \<or> mMaxBatchSize b \<le> mBatchSize b then
       if buffer_valid (mBuffer b) \<and> wr_mPos (mSendBuffer b) = buffer_data (mBuffer b)
       then ((None, rpc_error message_too_big), w)
       else ec_then (sendCurrentBuffer A sk ec w)
         (\<lambda>ec w.
            if is_error ec then ((None, ec), w)
            else
              let (acquired, w) = next_buffer sk w
              in if \<not> acquired then ((None, network_error invalid_buffer), w)
                 else if \<not> canWrite (ucast len) (mSendBuffer (b_socks w sk))
                 then ((None, rpc_error message_too_big), w)
                 else append w)
     else append w)"

section \<open>Receiving\<close>

text \<open>
  The loop over the messages of a received buffer. \<open>None\<close> is that the loop has not ended after
  \<open>fuel\<close> rounds; a buffer that does not wrap around the address space has room for at most one
  message in sixteen bytes.
\<close>

fun receive_loop :: "adapter \<Rightarrow> 'a app \<Rightarrow> sid \<Rightarrow> nat \<Rightarrow> buffer_reader \<Rightarrow> 'a bworld_scheme \<Rightarrow> (error_code option \<times> 'a bworld_scheme) option" where
  "receive_loop A app sk 0 r w = None"
| "receive_loop A app sk (Suc fuel) r w =
    (if \<not> canRead (ucast HEADER_SIZE) r then Some (None, w)
     else
       let (messageId, r) = reader_read (w_mem w) r;
           (messageType, r) = reader_read (w_mem w) r;
           (messageLength, r) = (reader_read (w_mem w) r :: u32 \<times> buffer_reader)
       in if \<not> canRead (ucast messageLength) r
          then Some (handleSocketError A sk (rpc_error invalid_message) w)
          else
            let (message, r) = reader_extract (ucast messageLength) r
            in (case app sk (App_message messageId messageType message) w of
                  (Some e, w) \<Rightarrow> Some (Some e, w)
                | (None, w) \<Rightarrow> receive_loop A app sk fuel (reader_align 8 r) w))"

definition bms_onReceive :: "adapter \<Rightarrow> 'a app \<Rightarrow> sid \<Rightarrow> u64 \<Rightarrow> u32 \<Rightarrow> error_code \<Rightarrow> 'a bworld_scheme \<Rightarrow> (error_code option \<times> 'a bworld_scheme) option" where
  "bms_onReceive A app sk buffer len ec w =
    (if is_error ec then Some (handleSocketError A sk ec w)
     else receive_loop A app sk (Suc (unat len div 16)) (new_reader buffer (ucast len)) w)"

definition bms_onConnected :: "adapter \<Rightarrow> 'a app \<Rightarrow> sid \<Rightarrow> byte list \<Rightarrow> error_code \<Rightarrow> 'a bworld_scheme eff" where
  "bms_onConnected A app sk data ec w =
    (if is_error ec then
       handleSocketError A sk ec (set_bms sk ((b_socks w sk)\<lparr>mState := DISCONNECTED\<rparr>) w)
     else app sk (App_connected data) (set_bms sk ((b_socks w sk)\<lparr>mState := CONNECTED\<rparr>) w))"

definition bms_onSend :: "adapter \<Rightarrow> sid \<Rightarrow> u32 \<Rightarrow> error_code \<Rightarrow> 'a bworld_scheme eff" where
  "bms_onSend A sk userId ec w = (if is_error ec then handleSocketError A sk ec w else (None, w))"

definition bms_onDisconnect :: "adapter \<Rightarrow> sid \<Rightarrow> 'a bworld_scheme eff" where
  "bms_onDisconnect A sk = shutdown A sk"

definition bms_onDisconnected :: "'a app \<Rightarrow> sid \<Rightarrow> 'a bworld_scheme eff" where
  "bms_onDisconnected app sk w =
    app sk App_disconnected (set_bms sk ((b_socks w sk)\<lparr>mState := DISCONNECTED\<rparr>) w)"

text \<open>The callbacks of the socket; those the class does not override do nothing.\<close>

fun bms_handler :: "adapter \<Rightarrow> 'a app \<Rightarrow> 'a bworld_ext handler" where
  "bms_handler A app sk (onConnected data ec) w = bms_onConnected A app sk data ec w"
| "bms_handler A app sk (onReceive buffer len ec) w =
    (case bms_onReceive A app sk buffer len ec w of None \<Rightarrow> (None, w) | Some r \<Rightarrow> r)"
| "bms_handler A app sk (onSend userId ec) w = bms_onSend A sk userId ec w"
| "bms_handler A app sk onDisconnect w = bms_onDisconnect A sk w"
| "bms_handler A app sk onDisconnected w = bms_onDisconnected app sk w"
| "bms_handler A app sk _ w = (None, w)"

end
