(* ===== verification/Infinio_Framing.thy ===== *)
theory Infinio_Framing
  imports Infinio_Batching
begin

text \<open>
  The wire format of a batch, and that the receiving loop takes it apart: a buffer that holds a
  batch is delivered to the application message by message, in order, each with its id, its type
  and a reader over exactly its content.
\<close>

type_synonym msg = "u64 \<times> u32 \<times> byte list"

definition pad_to :: "nat \<Rightarrow> nat" where
  "pad_to n = round_up n 8 - n"

lemma round_up_8: "round_up n 8 = n + pad_to n" and pad_to_less: "pad_to n < 8" and dvd_pad: "8 dvd n + pad_to n"
  using round_up_least [of 8 n] by (auto simp: pad_to_def)

lemma pad_to_shift: "8 dvd p \<Longrightarrow> pad_to (p + n) = pad_to n"
  by (simp add: pad_to_def round_up_shift)

definition header :: "u64 \<Rightarrow> u32 \<Rightarrow> nat \<Rightarrow> byte list" where
  "header i t n = le_bytes 8 i @ le_bytes 4 t @ le_bytes 4 (of_nat n :: u32)"

lemma length_header [simp]: "length (header i t n) = 16"
  by (simp add: header_def)

text \<open>The bytes of a batch; those of the padding are arbitrary.\<close>

fun batch :: "byte list \<Rightarrow> msg list \<Rightarrow> bool" where
  "batch bs [] \<longleftrightarrow> bs = []"
| "batch bs ((i, t, c) # ms) \<longleftrightarrow> (\<exists>pad rest. bs = header i t (length c) @ c @ pad @ rest \<and>
    length pad = pad_to (length c) \<and> length c < 2 ^ 32 \<and> batch rest ms)"

lemma pad_to_16: "pad_to (16 + n) = pad_to n"
  by (rule pad_to_shift) simp

lemma batch_aligned: "batch bs ms \<Longrightarrow> 8 dvd length bs"
proof (induction bs ms rule: batch.induct)
  case (2 bs i t c ms)
  then obtain pad rest where bs: "bs = header i t (length c) @ c @ pad @ rest"
    and pad: "length pad = pad_to (length c)" and rest: "batch rest ms" by auto
  have "8 dvd length rest" by (rule "2.IH" [OF rest])
  moreover have "8 dvd 16 + (length c + length pad)" using dvd_pad [of "length c"] pad by simp
  ultimately have "8 dvd (16 + (length c + length pad)) + length rest" by (rule dvd_add [rotated])
  then show ?case by (simp add: bs add.assoc)
qed simp

lemma batch_snoc:
  assumes "batch bs ms" and "length pad = pad_to (length c)" and "length c < 2 ^ 32"
  shows "batch (bs @ header i t (length c) @ c @ pad) (ms @ [(i, t, c)])"
  using assms(1)
proof (induction bs ms rule: batch.induct)
  case (1 bs)
  then show ?case using assms(2,3) by auto
next
  case (2 bs i' t' c' ms)
  then obtain pad' rest where bs: "bs = header i' t' (length c') @ c' @ pad' @ rest"
    and pad: "length pad' = pad_to (length c')" "length c' < 2 ^ 32" and rest: "batch rest ms" by auto
  have "batch (rest @ header i t (length c) @ c @ pad) (ms @ [(i, t, c)])" by (rule "2.IH" [OF rest])
  then show ?case using bs pad by auto
qed

text \<open>The readers the application gets, for a batch at address \<open>p\<close>.\<close>

fun readers :: "nat \<Rightarrow> msg list \<Rightarrow> (u64 \<times> u32 \<times> buffer_reader) list" where
  "readers p [] = []"
| "readers p ((i, t, c) # ms) =
    (i, t, \<lparr>rd_mPos = of_nat (p + 16), rd_mEnd = of_nat (p + 16 + length c)\<rparr>) #
    readers (p + 16 + length c + pad_to (length c)) ms"

definition deliver :: "'a app \<Rightarrow> sid \<Rightarrow> u64 \<times> u32 \<times> buffer_reader \<Rightarrow> 'a bworld_scheme eff" where
  "deliver app sk = (\<lambda>(i, t, r). app sk (App_message i t r))"

text \<open>The application leaves the received bytes alone.\<close>

definition keeps_bytes :: "'a app \<Rightarrow> u64 \<Rightarrow> nat \<Rightarrow> bool" where
  "keeps_bytes app a n \<longleftrightarrow> (\<forall>sk c w. get_bytes (w_mem (snd (app sk c w))) a n = get_bytes (w_mem w) a n)"

lemma keeps_bytes_sub:
  assumes "keeps_bytes app a n" and "j + k \<le> n"
  shows "keeps_bytes app (a + of_nat j) k"
  using assms unfolding keeps_bytes_def by (metis get_bytes_sub)

lemma canRead_nat:
  assumes "p \<le> e" and "e + 2 ^ 32 \<le> 2 ^ 64" and "unat n < 2 ^ 32"
  shows "canRead n \<lparr>rd_mPos = of_nat p, rd_mEnd = of_nat e\<rparr> \<longleftrightarrow> p + unat n \<le> e"
proof -
  have "unat (of_nat p + n :: u64) = p + unat n"
    using assms by (subst unat_add_no_wrap) (simp_all add: unat_of_nat_u64)
  then show ?thesis using assms by (simp add: canRead_def word_le_nat_alt unat_of_nat_u64)
qed

lemma align_8_nat: "n + 8 \<le> 2 ^ 64 \<Longrightarrow> align (of_nat n :: u64) 8 = of_nat (n + pad_to n)"
proof -
  assume n: "n + 8 \<le> 2 ^ 64"
  have "round_up n (2 ^ 3) < 2 ^ 64" using n round_up_least(3) [of 8 n] by simp
  then have "align (of_nat n :: u64) (2 ^ 3) = of_nat (round_up n (2 ^ 3))"
    using align_u64 [of 3 "of_nat n"] n by (simp add: unat_of_nat_u64)
  then show ?thesis by (simp add: round_up_8)
qed

lemma HEADER_SIZE_16: "HEADER_SIZE = 16"
  by (simp add: HEADER_SIZE_def)

lemma read_u64: "get_bytes m (of_nat p) 8 = le_bytes 8 i \<Longrightarrow>
    reader_read m \<lparr>rd_mPos = of_nat p, rd_mEnd = e\<rparr> = (i :: u64, \<lparr>rd_mPos = of_nat (p + 8), rd_mEnd = e\<rparr>)"
  using reader_read_value [of m "\<lparr>rd_mPos = of_nat p, rd_mEnd = e\<rparr>" i]
  by (simp add: reader_advance_def)

lemma read_u32: "get_bytes m (of_nat p) 4 = le_bytes 4 i \<Longrightarrow>
    reader_read m \<lparr>rd_mPos = of_nat p, rd_mEnd = e\<rparr> = (i :: u32, \<lparr>rd_mPos = of_nat (p + 4), rd_mEnd = e\<rparr>)"
  using reader_read_value [of m "\<lparr>rd_mPos = of_nat p, rd_mEnd = e\<rparr>" i]
  by (simp add: reader_advance_def)

text \<open>One round of the loop.\<close>

lemma receive_round:
  assumes m: "get_bytes (w_mem w) (of_nat p) (16 + length c + n) = header i t (length c) @ c @ rest"
    and p: "8 dvd p" and e: "p + (16 + length c + n) = e" "e + 2 ^ 32 \<le> 2 ^ 64"
    and c: "length c < 2 ^ 32" and n: "pad_to (length c) \<le> n"
  shows "receive_loop A app sk (Suc fuel) \<lparr>rd_mPos = of_nat p, rd_mEnd = of_nat e\<rparr> w =
    (case deliver app sk (i, t, \<lparr>rd_mPos = of_nat (p + 16), rd_mEnd = of_nat (p + 16 + length c)\<rparr>) w of
       (Some x, w) \<Rightarrow> Some (Some x, w)
     | (None, w) \<Rightarrow> receive_loop A app sk fuel
         \<lparr>rd_mPos = of_nat (p + 16 + length c + pad_to (length c)), rd_mEnd = of_nat e\<rparr> w)"
proof -
  let ?r = "\<lambda>k. \<lparr>rd_mPos = of_nat (p + k), rd_mEnd = of_nat e\<rparr>"
  have sub: "get_bytes (w_mem w) (of_nat (p + j)) k = take k (drop j (header i t (length c) @ c @ rest))"
    if "j + k \<le> 16 + length c + n" for j k
    using get_bytes_sub [OF that, of "w_mem w" "of_nat p"] m by simp
  have h1: "reader_read (w_mem w) (?r 0) = (i, ?r 8)"
    using sub [of 0 8] read_u64 [of "w_mem w" p i "of_nat e"] by (simp add: header_def)
  have h2: "reader_read (w_mem w) (?r 8) = (t, ?r 12)"
    using sub [of 8 4] read_u32 [of "w_mem w" "p + 8" t "of_nat e"] by (simp add: header_def)
  have h3: "reader_read (w_mem w) (?r 12) = (of_nat (length c) :: u32, ?r 16)"
    using sub [of 12 4] read_u32 [of "w_mem w" "p + 12" "of_nat (length c)" "of_nat e"] by (simp add: header_def)
  have len: "unat (ucast (of_nat (length c) :: u32) :: u64) = length c"
    using c by (simp add: unat_of_nat take_bit_nat_eq_self)
  then have len': "ucast (of_nat (length c) :: u32) = (of_nat (length c) :: u64)"
    using c by (simp add: u64_eq_iff_unat unat_of_nat_u64)
  have can1: "canRead (ucast HEADER_SIZE) (?r 0)"
    using canRead_nat [of p e "ucast HEADER_SIZE"] e by (simp add: HEADER_SIZE_16)
  have can2: "canRead (ucast (of_nat (length c) :: u32)) (?r 16)"
    using canRead_nat [of "p + 16" e "ucast (of_nat (length c) :: u32)"] e c len by simp
  have "pad_to (p + 16 + length c) = pad_to (length c)"
    using pad_to_shift [of "p + 16" "length c"] p by simp
  then have al: "align (of_nat (p + 16 + length c)) (8 :: u64) = of_nat (p + 16 + length c + pad_to (length c))"
    using align_8_nat [of "p + 16 + length c"] e pad_to_less [of "length c"] by simp
  show ?thesis
    using can1 h1 h2 h3 can2 al
    by (simp add: Let_def deliver_def reader_extract_def new_reader_def reader_advance_def
        reader_align_def len' add.assoc split: prod.split option.split)
qed

lemma receive_done:
  "p \<le> e \<Longrightarrow> e < p + 16 \<Longrightarrow> e + 2 ^ 32 \<le> 2 ^ 64 \<Longrightarrow>
    receive_loop A app sk (Suc fuel) \<lparr>rd_mPos = of_nat p, rd_mEnd = of_nat e\<rparr> w = Some (None, w)"
  using canRead_nat [of p e "ucast HEADER_SIZE"] by (simp add: HEADER_SIZE_16)

text \<open>
  A buffer that starts with a batch: its messages are delivered, and unless the application raises
  an exception the loop goes on behind them.
\<close>

lemma receive_prefix:
  assumes "batch bs ms" and "get_bytes (w_mem w) (of_nat p) (length bs + k) = bs @ rest" and "8 dvd p"
    and "p + length bs + k = e" and "e + 2 ^ 32 \<le> 2 ^ 64" and "keeps_bytes app (of_nat p) (length bs + k)"
  shows "receive_loop A app sk (length ms + fuel) \<lparr>rd_mPos = of_nat p, rd_mEnd = of_nat e\<rparr> w =
    (case each (deliver app sk) (readers p ms) w of
       (Some x, w) \<Rightarrow> Some (Some x, w)
     | (None, w) \<Rightarrow> receive_loop A app sk fuel \<lparr>rd_mPos = of_nat (p + length bs), rd_mEnd = of_nat e\<rparr> w)"
  using assms
proof (induction bs ms arbitrary: p w rule: batch.induct)
  case (1 bs)
  then show ?case by simp
next
  case (2 bs i t c ms)
  obtain pad tl where bs: "bs = header i t (length c) @ c @ pad @ tl"
    and pad: "length pad = pad_to (length c)" "length c < 2 ^ 32" and tl: "batch tl ms" using "2.prems"(1) by auto
  let ?k = "16 + length c + pad_to (length c)"
  let ?q = "p + ?k"
  have k: "length bs = ?k + length tl" using bs pad by simp
  have r: "length rest = k" using arg_cong [OF "2.prems"(2), of length] by simp
  have round: "receive_loop A app sk (Suc (length ms + fuel)) \<lparr>rd_mPos = of_nat p, rd_mEnd = of_nat e\<rparr> w =
    (case deliver app sk (i, t, \<lparr>rd_mPos = of_nat (p + 16), rd_mEnd = of_nat (p + 16 + length c)\<rparr>) w of
       (Some x, w) \<Rightarrow> Some (Some x, w)
     | (None, w) \<Rightarrow> receive_loop A app sk (length ms + fuel)
         \<lparr>rd_mPos = of_nat (p + 16 + length c + pad_to (length c)), rd_mEnd = of_nat e\<rparr> w)"
    by (rule receive_round [where n = "pad_to (length c) + length tl + k" and rest = "pad @ tl @ rest"])
      (use "2.prems" bs pad k in \<open>simp_all add: add.assoc\<close>)
  have tail: "receive_loop A app sk (length ms + fuel) \<lparr>rd_mPos = of_nat ?q, rd_mEnd = of_nat e\<rparr> w' =
    (case each (deliver app sk) (readers ?q ms) w' of
       (Some x, w) \<Rightarrow> Some (Some x, w)
     | (None, w) \<Rightarrow> receive_loop A app sk fuel \<lparr>rd_mPos = of_nat (?q + length tl), rd_mEnd = of_nat e\<rparr> w)"
    if "deliver app sk x w = (None, w')" for x w'
  proof (rule "2.IH" [OF tl])
    have "get_bytes (w_mem w') (of_nat p) (length bs + k) = bs @ rest"
      using "2.prems"(2,6) that by (auto simp: keeps_bytes_def deliver_def split: prod.splits) (metis snd_conv)
    then show "get_bytes (w_mem w') (of_nat ?q) (length tl + k) = tl @ rest"
      using get_bytes_sub [of ?k "length tl + k" "length bs + k" "w_mem w'" "of_nat p"] bs pad k r by simp
    show "keeps_bytes app (of_nat ?q) (length tl + k)"
      using keeps_bytes_sub [OF "2.prems"(6), of ?k "length tl + k"] k by simp
    show "8 dvd ?q" using "2.prems"(3) dvd_pad [of "length c"] by (simp add: add.assoc)
    show "?q + length tl + k = e" using "2.prems"(4) k by simp
  qed (rule "2.prems")
  have e: "p + length bs = ?q + length tl" using k by simp
  show ?case
    unfolding list.size(4) add_Suc_right add_Suc add_0_right round e using tail
    by (auto simp: andthen_def add.assoc split: prod.splits option.splits)
qed

lemma receive_batch:
  assumes "batch bs ms" and "get_bytes (w_mem w) (of_nat p) (length bs) = bs" and "8 dvd p"
    and "p + length bs + 2 ^ 32 \<le> 2 ^ 64" and "keeps_bytes app (of_nat p) (length bs)" and "length ms < fuel"
  shows "receive_loop A app sk fuel \<lparr>rd_mPos = of_nat p, rd_mEnd = of_nat (p + length bs)\<rparr> w =
    Some (each (deliver app sk) (readers p ms) w)"
proof -
  obtain f where f: "fuel = length ms + Suc f" using assms(6) less_iff_Suc_add by auto
  have loop: "receive_loop A app sk fuel \<lparr>rd_mPos = of_nat p, rd_mEnd = of_nat (p + length bs)\<rparr> w =
    (case each (deliver app sk) (readers p ms) w of
       (Some x, w) \<Rightarrow> Some (Some x, w)
     | (None, w) \<Rightarrow> receive_loop A app sk (Suc f) \<lparr>rd_mPos = of_nat (p + length bs), rd_mEnd = of_nat (p + length bs)\<rparr> w)"
    unfolding f by (rule receive_prefix [where k = 0 and rest = "[]"]) (use assms in simp_all)
  have "receive_loop A app sk (Suc f) \<lparr>rd_mPos = of_nat (p + length bs), rd_mEnd = of_nat (p + length bs)\<rparr> w' =
      Some (None, w')" for w'
    by (rule receive_done) (use assms(4) in simp_all)
  then show ?thesis unfolding loop by (simp del: receive_loop.simps of_nat_add split: prod.split option.split)
qed

text \<open>A process whose sockets are new.\<close>

definition ex_bworld :: bworld where
  "ex_bworld = world.extend ex_world \<lparr>b_socks = \<lambda>_. new_bms (- 1)\<rparr>"

end
