(* ===== verification/Infinio_Rpc.thy ===== *)
theory Infinio_Rpc
  imports Infinio_Framing
begin

text \<open>
  The RPC layer: pending responses (\<^verbatim>\<open>RpcResponse\<close>, \<^verbatim>\<open>RpcResponseResult\<close>), the client socket that
  matches responses to requests, the condition variable of the requests that wait for the
  connection, and the server's sockets and their manager.

  A fiber runs the caller's code. Resuming it runs that code up to the point where it waits again;
  this is the argument \<open>K\<close>, a function of the fiber and the state, and it does not raise, since an
  exception inside a fiber ends the program. A function that may wait says so in its result; the
  caller runs it again when the fiber is resumed, as the loops around \<^verbatim>\<open>wait\<close> in the code do. The
  virtual \<^verbatim>\<open>processResponse\<close> of a response is the argument \<open>P\<close>.
\<close>

unbundle bit_operations_syntax

section \<open>State\<close>

type_synonym fid = nat
type_synonym rid = nat

datatype RpcResponseState = UNSET | SET | ERROR

text \<open>
  A response: its fiber, the two flags of the base class, and the result. \<open>r_void\<close> is the
  specialization for requests without a result, \<open>r_type\<close> and \<open>r_category\<close> are the static members
  \<^verbatim>\<open>MessageType\<close> and \<^verbatim>\<open>errorCategory\<close> of the class that derives from it. A result is kept as the
  bytes it was made from.
\<close>

record response =
  r_fiber :: fid
  r_mPending :: bool
  r_mWaiting :: bool
  r_mState :: RpcResponseState
  r_mRetrieved :: bool
  r_value :: "byte list"
  r_error :: error_code
  r_void :: bool
  r_type :: u32
  r_category :: category

record rpc =
  mUserId :: u32
  mMaxPendingResponses :: u64
  mSyncResponses :: "(u32 \<times> rid) list"
  mAsyncResponses :: "(u64 \<times> rid) list"
  mWaitingRequests :: "fid list"

record rworld = bworld +
  r_resp :: "rid \<Rightarrow> response"
  r_rpc :: "sid \<Rightarrow> rpc"
  r_sockets :: "sid list"
  r_deleted :: "sid list"

type_synonym 'a fibers = "fid \<Rightarrow> 'a rworld_scheme \<Rightarrow> 'a rworld_scheme"
type_synonym 'a processor = "rid \<Rightarrow> buffer_reader \<Rightarrow> 'a rworld_scheme eff"

definition set_resp :: "rid \<Rightarrow> response \<Rightarrow> 'a rworld_scheme \<Rightarrow> 'a rworld_scheme" where
  "set_resp r x w = w\<lparr>r_resp := (r_resp w)(r := x)\<rparr>"

definition set_rpc :: "sid \<Rightarrow> rpc \<Rightarrow> 'a rworld_scheme \<Rightarrow> 'a rworld_scheme" where
  "set_rpc sk x w = w\<lparr>r_rpc := (r_rpc w)(sk := x)\<rparr>"

text \<open>The codes of \<^verbatim>\<open>std::future_errc\<close>.\<close>

definition future_error :: "int \<Rightarrow> error_code" where
  "future_error v = \<lparr>ec_value = v, ec_category = future\<rparr>"

definition future_already_retrieved :: error_code where
  "future_already_retrieved = future_error 1"

definition promise_already_satisfied :: error_code where
  "promise_already_satisfied = future_error 2"

definition broken_promise :: error_code where
  "broken_promise = future_error 4"

section \<open>Condition variables\<close>

definition cv_wait :: "sid \<Rightarrow> fid \<Rightarrow> 'a rworld_scheme \<Rightarrow> 'a rworld_scheme" where
  "cv_wait sk f w = set_rpc sk ((r_rpc w sk)\<lparr>mWaitingRequests := mWaitingRequests (r_rpc w sk) @ [f]\<rparr>) w"

definition notify_one :: "'a fibers \<Rightarrow> sid \<Rightarrow> 'a rworld_scheme \<Rightarrow> 'a rworld_scheme" where
  "notify_one K sk w =
    (case mWaitingRequests (r_rpc w sk) of
       [] \<Rightarrow> w
     | f # fs \<Rightarrow> K f (set_rpc sk ((r_rpc w sk)\<lparr>mWaitingRequests := fs\<rparr>) w))"

definition notify_all :: "'a fibers \<Rightarrow> sid \<Rightarrow> 'a rworld_scheme \<Rightarrow> 'a rworld_scheme" where
  "notify_all K sk w =
    fold K (mWaitingRequests (r_rpc w sk)) (set_rpc sk ((r_rpc w sk)\<lparr>mWaitingRequests := []\<rparr>) w)"

section \<open>Responses\<close>

datatype 'b waiting = Suspended | Returned 'b

definition new_response :: "fid \<Rightarrow> bool \<Rightarrow> u32 \<Rightarrow> category \<Rightarrow> response" where
  "new_response f void ty cat = \<lparr>r_fiber = f, r_mPending = True, r_mWaiting = False, r_mState = UNSET,
     r_mRetrieved = False, r_value = [], r_error = no_error, r_void = void, r_type = ty, r_category = cat\<rparr>"

definition response_done :: "response \<Rightarrow> bool" where
  "response_done x \<longleftrightarrow> \<not> r_mPending x"

text \<open>\<^verbatim>\<open>wait\<close> up to the suspension of the fiber, and the part that runs when it is resumed.\<close>

definition response_wait :: "rid \<Rightarrow> 'a rworld_scheme \<Rightarrow> bool waiting \<times> 'a rworld_scheme" where
  "response_wait r w =
    (if r_mPending (r_resp w r) then (Suspended, set_resp r ((r_resp w r)\<lparr>r_mWaiting := True\<rparr>) w)
     else (Returned True, w))"

definition response_resumed :: "rid \<Rightarrow> 'a rworld_scheme \<Rightarrow> bool \<times> 'a rworld_scheme" where
  "response_resumed r w = (\<not> r_mPending (r_resp w r), set_resp r ((r_resp w r)\<lparr>r_mWaiting := False\<rparr>) w)"

definition notify :: "'a fibers \<Rightarrow> rid \<Rightarrow> 'a rworld_scheme \<Rightarrow> 'a rworld_scheme" where
  "notify K r w = (if r_mWaiting (r_resp w r) then K (r_fiber (r_resp w r)) w else w)"

definition complete :: "'a fibers \<Rightarrow> rid \<Rightarrow> 'a rworld_scheme \<Rightarrow> 'a rworld_scheme" where
  "complete K r w = notify K r (set_resp r ((r_resp w r)\<lparr>r_mPending := False\<rparr>) w)"

text \<open>The loop of \<^verbatim>\<open>waitForResult\<close>, one turn: it suspends, or returns whether the result is valid.\<close>

definition waitForResult :: "rid \<Rightarrow> 'a rworld_scheme \<Rightarrow> bool waiting \<times> 'a rworld_scheme" where
  "waitForResult r w =
    (case response_wait r w of
       (Suspended, w) \<Rightarrow> (Suspended, w)
     | (Returned _, w) \<Rightarrow>
        (Returned (if r_void (r_resp w r) then \<not> is_error (r_error (r_resp w r))
                   else r_mState (r_resp w r) \<noteq> ERROR), w))"

definition response_get :: "rid \<Rightarrow> 'a rworld_scheme \<Rightarrow> (error_code + byte list) waiting \<times> 'a rworld_scheme" where
  "response_get r w =
    (case waitForResult r w of
       (Suspended, w) \<Rightarrow> (Suspended, w)
     | (Returned valid, w) \<Rightarrow>
        if \<not> valid then (Returned (Inl (r_error (r_resp w r))), w)
        else if r_mRetrieved (r_resp w r) then (Returned (Inl future_already_retrieved), w)
        else (Returned (Inr (r_value (r_resp w r))), set_resp r ((r_resp w r)\<lparr>r_mRetrieved := True\<rparr>) w))"

definition response_error :: "rid \<Rightarrow> 'a rworld_scheme \<Rightarrow> error_code waiting \<times> 'a rworld_scheme" where
  "response_error r w =
    (case waitForResult r w of
       (Suspended, w) \<Rightarrow> (Suspended, w)
     | (Returned valid, w) \<Rightarrow>
        (Returned (if valid \<and> \<not> r_void (r_resp w r) then no_error else r_error (r_resp w r)), w))"

definition setInternalResult :: "'a fibers \<Rightarrow> rid \<Rightarrow> (response \<Rightarrow> response) \<Rightarrow> RpcResponseState \<Rightarrow> 'a rworld_scheme eff" where
  "setInternalResult K r build st w =
    (if response_done (r_resp w r) then (Some promise_already_satisfied, w)
     else (None, complete K r (set_resp r ((build (r_resp w r))\<lparr>r_mState := st\<rparr>) w)))"

definition setResult :: "'a fibers \<Rightarrow> rid \<Rightarrow> byte list \<Rightarrow> 'a rworld_scheme eff" where
  "setResult K r v = setInternalResult K r (\<lambda>x. x\<lparr>r_value := v\<rparr>) SET"

definition setError :: "'a fibers \<Rightarrow> rid \<Rightarrow> error_code \<Rightarrow> 'a rworld_scheme eff" where
  "setError K r e = setInternalResult K r (\<lambda>x. x\<lparr>r_error := e\<rparr>) ERROR"

text \<open>What \<^verbatim>\<open>processResponse\<close> may call in the specialization without a result.\<close>

definition void_setError :: "rid \<Rightarrow> error_code \<Rightarrow> 'a rworld_scheme \<Rightarrow> 'a rworld_scheme" where
  "void_setError r e w = set_resp r ((r_resp w r)\<lparr>r_error := e\<rparr>) w"

text \<open>In the specialization without a result an abort sets the error and completes.\<close>

definition void_onAbort :: "'a fibers \<Rightarrow> rid \<Rightarrow> error_code \<Rightarrow> 'a rworld_scheme eff" where
  "void_onAbort K r e w = (None, complete K r (set_resp r ((r_resp w r)\<lparr>r_error := e\<rparr>) w))"

definition onAbort :: "'a fibers \<Rightarrow> rid \<Rightarrow> error_code \<Rightarrow> 'a rworld_scheme eff" where
  "onAbort K r e w = (if r_void (r_resp w r) then void_onAbort K r e w else setError K r e w)"

text \<open>The message type that marks an error, and the error code built from what such a message holds.\<close>

definition ERROR_TYPE :: u32 where
  "ERROR_TYPE = 0xFFFFFFFF"

definition handler_error :: "category \<Rightarrow> u64 \<Rightarrow> error_code" where
  "handler_error cat v = \<lparr>ec_value = sint (ucast v :: u32), ec_category = cat\<rparr>"

definition void_onResponse :: "'a fibers \<Rightarrow> 'a processor \<Rightarrow> rid \<Rightarrow> u32 \<Rightarrow> buffer_reader \<Rightarrow> 'a rworld_scheme eff" where
  "void_onResponse K P r messageType message w =
    (if messageType = ERROR_TYPE then
       void_onAbort K r (handler_error (r_category (r_resp w r)) (fst (reader_read (w_mem w) message))) w
     else if messageType \<noteq> r_type (r_resp w r) then void_onAbort K r (rpc_error wrong_type) w
     else andthen (P r message) (\<lambda>w. (None, complete K r w)) w)"

definition result_onResponse :: "'a fibers \<Rightarrow> 'a processor \<Rightarrow> rid \<Rightarrow> u32 \<Rightarrow> buffer_reader \<Rightarrow> 'a rworld_scheme eff" where
  "result_onResponse K P r messageType message w =
    (if messageType = ERROR_TYPE then
       setError K r (handler_error (r_category (r_resp w r)) (fst (reader_read (w_mem w) message))) w
     else if messageType \<noteq> r_type (r_resp w r) then setError K r (rpc_error wrong_type) w
     else andthen (P r message)
       (\<lambda>w. if r_mState (r_resp w r) = UNSET then setError K r broken_promise w else (None, w)) w)"

definition onResponse :: "'a fibers \<Rightarrow> 'a processor \<Rightarrow> rid \<Rightarrow> u32 \<Rightarrow> buffer_reader \<Rightarrow> 'a rworld_scheme eff" where
  "onResponse K P r messageType message w =
    (if r_void (r_resp w r) then void_onResponse K P r messageType message w
     else result_onResponse K P r messageType message w)"

section \<open>The client socket\<close>

definition new_rpc :: "u64 \<Rightarrow> rpc" where
  "new_rpc maxPendingResponses = \<lparr>mUserId = 0x0, mMaxPendingResponses = maxPendingResponses,
     mSyncResponses = [], mAsyncResponses = [], mWaitingRequests = []\<rparr>"

definition invalid_argument :: error_code where
  "invalid_argument = errno_error 22"

definition rpc_create :: "adapter \<Rightarrow> sid \<Rightarrow> u64 \<Rightarrow> u64 \<Rightarrow> 'a rworld_scheme eff" where
  "rpc_create A sk maxPendingResponses maxBatchSize =
    andthen (bms_create A sk maxBatchSize)
      (\<lambda>w. if maxPendingResponses = 0 then (Some invalid_argument, w)
           else (None, set_rpc sk (new_rpc maxPendingResponses) w))"

datatype request = Blocked | Sent | Refused | Raised error_code

definition abort_request :: "'a fibers \<Rightarrow> rid \<Rightarrow> error_code \<Rightarrow> 'a rworld_scheme \<Rightarrow> request \<times> 'a rworld_scheme" where
  "abort_request K r e w =
    (case onAbort K r e w of (None, w) \<Rightarrow> (Refused, w) | (Some x, w) \<Rightarrow> (Raised x, w))"

definition sendRequest ::
  "'a fibers \<Rightarrow> adapter \<Rightarrow> sid \<Rightarrow> rid \<Rightarrow> u32 \<Rightarrow> u32 \<Rightarrow> content \<Rightarrow> 'a rworld_scheme \<Rightarrow> request \<times> 'a rworld_scheme" where
  "sendRequest K A sk r messageType len fn w =
    (if \<not> (mState (b_socks w sk) \<noteq> CONNECTING \<and>
           of_nat (length (mSyncResponses (r_rpc w sk))) < mMaxPendingResponses (r_rpc w sk))
     then (Blocked, cv_wait sk (r_fiber (r_resp w r)) w)
     else if \<not> isConnected (b_socks w sk) then abort_request K r connection_aborted w
     else
       let w = set_rpc sk ((r_rpc w sk)\<lparr>mUserId := mUserId (r_rpc w sk) + 1\<rparr>) w;
           userId = mUserId (r_rpc w sk)
       in case writeMessage A sk (msg_buildId userId False) messageType len fn no_error w of
            ((Some e, ec), w) \<Rightarrow> (Raised e, w)
          | ((None, ec), w) \<Rightarrow>
             if is_error ec then abort_request K r ec w
             else (Sent, set_rpc sk ((r_rpc w sk)\<lparr>mSyncResponses :=
                    mSyncResponses (r_rpc w sk) @ [(mUserId (r_rpc w sk), r)]\<rparr>) w))"

definition startAsyncRequest :: "sid \<Rightarrow> u32 \<Rightarrow> rid \<Rightarrow> 'a rworld_scheme \<Rightarrow> bool \<times> 'a rworld_scheme" where
  "startAsyncRequest sk userId r w =
    (let m = mAsyncResponses (r_rpc w sk) in
     if map_of m (ucast userId) \<noteq> None then (False, w)
     else (True, set_rpc sk ((r_rpc w sk)\<lparr>mAsyncResponses := m @ [(ucast userId, r)]\<rparr>) w))"

definition sendAsyncRequest ::
  "'a fibers \<Rightarrow> adapter \<Rightarrow> sid \<Rightarrow> u32 \<Rightarrow> rid \<Rightarrow> u32 \<Rightarrow> u32 \<Rightarrow> content \<Rightarrow> 'a rworld_scheme \<Rightarrow> request \<times> 'a rworld_scheme" where
  "sendAsyncRequest K A sk userId r messageType len fn w =
    (if mState (b_socks w sk) = CONNECTING then (Blocked, cv_wait sk (r_fiber (r_resp w r)) w)
     else if \<not> isConnected (b_socks w sk) then abort_request K r connection_aborted w
     else
       case writeMessage A sk (msg_buildId userId True) messageType len fn no_error w of
         ((Some e, ec), w) \<Rightarrow> (Raised e, w)
       | ((None, ec), w) \<Rightarrow> if is_error ec then abort_request K r ec w else (Sent, w))"

definition completeAsyncRequest :: "sid \<Rightarrow> u32 \<Rightarrow> 'a rworld_scheme \<Rightarrow> 'a rworld_scheme" where
  "completeAsyncRequest sk userId w =
    set_rpc sk ((r_rpc w sk)\<lparr>mAsyncResponses := filter (\<lambda>(k, r). k \<noteq> ucast userId) (mAsyncResponses (r_rpc w sk))\<rparr>) w"

definition onSocketConnected :: "'a fibers \<Rightarrow> sid \<Rightarrow> 'a rworld_scheme eff" where
  "onSocketConnected K sk w = (None, notify_all K sk w)"

text \<open>
  The loops that empty the two containers. A resumed fiber may add requests, so a bound on the
  rounds is given; \<open>None\<close> is that the loop has not ended within it. The order of the hash map is
  unspecified: \<open>pick\<close> names the position of its first element.
\<close>

fun abort_sync :: "'a fibers \<Rightarrow> sid \<Rightarrow> nat \<Rightarrow> 'a rworld_scheme \<Rightarrow> (error_code option \<times> 'a rworld_scheme) option" where
  "abort_sync K sk fuel w =
    (case mSyncResponses (r_rpc w sk) of
       [] \<Rightarrow> Some (None, w)
     | (i, r) # rest \<Rightarrow>
        (case fuel of
           0 \<Rightarrow> None
         | Suc fuel \<Rightarrow>
            (case onAbort K r connection_aborted (set_rpc sk ((r_rpc w sk)\<lparr>mSyncResponses := rest\<rparr>) w) of
               (Some e, w) \<Rightarrow> Some (Some e, w)
             | (None, w) \<Rightarrow> abort_sync K sk fuel w)))"

declare abort_sync.simps [simp del]

fun abort_async ::
  "'a fibers \<Rightarrow> ((u64 \<times> rid) list \<Rightarrow> nat) \<Rightarrow> sid \<Rightarrow> nat \<Rightarrow> 'a rworld_scheme \<Rightarrow> (error_code option \<times> 'a rworld_scheme) option" where
  "abort_async K pick sk fuel w =
    (let m = mAsyncResponses (r_rpc w sk); k = pick m mod length m in
     if m = [] then Some (None, w)
     else
       (case fuel of
          0 \<Rightarrow> None
        | Suc fuel \<Rightarrow>
           (case onAbort K (snd (m ! k)) connection_aborted
                  (set_rpc sk ((r_rpc w sk)\<lparr>mAsyncResponses := take k m @ drop (Suc k) m\<rparr>) w) of
              (Some e, w) \<Rightarrow> Some (Some e, w)
            | (None, w) \<Rightarrow> abort_async K pick sk fuel w)))"

declare abort_async.simps [simp del]

definition onSocketDisconnected ::
  "'a fibers \<Rightarrow> ((u64 \<times> rid) list \<Rightarrow> nat) \<Rightarrow> sid \<Rightarrow> nat \<Rightarrow> 'a rworld_scheme \<Rightarrow> (error_code option \<times> 'a rworld_scheme) option" where
  "onSocketDisconnected K pick sk fuel w =
    (case abort_sync K sk fuel (notify_all K sk w) of
       None \<Rightarrow> None
     | Some (Some e, w) \<Rightarrow> Some (Some e, w)
     | Some (None, w) \<Rightarrow> abort_async K pick sk fuel w)"

fun onSyncResponse ::
  "'a fibers \<Rightarrow> 'a processor \<Rightarrow> sid \<Rightarrow> nat \<Rightarrow> u32 \<Rightarrow> u32 \<Rightarrow> buffer_reader \<Rightarrow> 'a rworld_scheme \<Rightarrow> (error_code option \<times> 'a rworld_scheme) option" where
  "onSyncResponse K P sk fuel userId messageType message w =
    (case mSyncResponses (r_rpc w sk) of
       [] \<Rightarrow> Some (None, w)
     | (responseId, r) # rest \<Rightarrow>
        (case fuel of
           0 \<Rightarrow> None
         | Suc fuel \<Rightarrow>
            let w = notify_one K sk (set_rpc sk ((r_rpc w sk)\<lparr>mSyncResponses := rest\<rparr>) w) in
            if userId \<noteq> responseId then
              (case onAbort K r (rpc_error no_response) w of
                 (Some e, w) \<Rightarrow> Some (Some e, w)
               | (None, w) \<Rightarrow> onSyncResponse K P sk fuel userId messageType message w)
            else Some (onResponse K P r messageType message w)))"

declare onSyncResponse.simps [simp del]

definition onAsyncResponse ::
  "'a fibers \<Rightarrow> 'a processor \<Rightarrow> sid \<Rightarrow> u32 \<Rightarrow> u32 \<Rightarrow> buffer_reader \<Rightarrow> 'a rworld_scheme eff" where
  "onAsyncResponse K P sk userId messageType message w =
    (case map_of (mAsyncResponses (r_rpc w sk)) (ucast userId) of
       None \<Rightarrow> (None, w)
     | Some r \<Rightarrow> onResponse K P r messageType message w)"

definition onMessage ::
  "'a fibers \<Rightarrow> 'a processor \<Rightarrow> sid \<Rightarrow> nat \<Rightarrow> u64 \<Rightarrow> u32 \<Rightarrow> buffer_reader \<Rightarrow> 'a rworld_scheme \<Rightarrow> (error_code option \<times> 'a rworld_scheme) option" where
  "onMessage K P sk fuel messageId messageType message w =
    (if msg_isAsync messageId then Some (onAsyncResponse K P sk (msg_userId messageId) messageType message w)
     else onSyncResponse K P sk fuel (msg_userId messageId) messageType message w)"

section \<open>The server\<close>

text \<open>The constructor of the manager: the acceptor \<open>acc\<close> is opened, bound and listens.\<close>

definition server_create :: "adapter \<Rightarrow> sid \<Rightarrow> 'a rworld_scheme eff" where
  "server_create A acc = andthen (socket_open A acc) (andthen (socket_bind A acc) (socket_listen A acc))"

definition server_shutdown :: "adapter \<Rightarrow> sid \<Rightarrow> 'a rworld_scheme \<Rightarrow> (error_code option \<times> 'a rworld_scheme) option" where
  "server_shutdown A acc w =
    (case socket_close A acc w of
       None \<Rightarrow> None
     | Some (Some e, w) \<Rightarrow> Some (Some e, w)
     | Some (None, w) \<Rightarrow> Some (each (shutdown A) (r_sockets w) w))"

text \<open>\<open>create\<close> is the manager's \<^verbatim>\<open>createConnection\<close>: it may raise, and may return no connection.\<close>

definition server_onConnection ::
  "(sid \<Rightarrow> byte list \<Rightarrow> 'a rworld_scheme \<Rightarrow> (error_code + sid option) \<times> 'a rworld_scheme) \<Rightarrow> sid \<Rightarrow> byte list \<Rightarrow> 'a rworld_scheme \<Rightarrow> 'a rworld_scheme" where
  "server_onConnection create sk data w =
    (case create sk data w of
       (Inl e, w) \<Rightarrow> w
     | (Inr None, w) \<Rightarrow> w
     | (Inr (Some con), w) \<Rightarrow> w\<lparr>r_sockets := List.insert con (r_sockets w)\<rparr>)"

definition server_removeConnection :: "sid \<Rightarrow> 'a rworld_scheme \<Rightarrow> 'a rworld_scheme" where
  "server_removeConnection con w =
    w\<lparr>r_sockets := removeAll con (r_sockets w), r_deleted := con # r_deleted w\<rparr>"

definition server_socket_create :: "adapter \<Rightarrow> sid \<Rightarrow> u64 \<Rightarrow> 'a rworld_scheme eff" where
  "server_socket_create A sk maxBatchSize = andthen (bms_create A sk maxBatchSize) (bms_accept A sk)"

text \<open>The result is whether the response was written; an exception may end it.\<close>

definition writeInternalResponse ::
  "adapter \<Rightarrow> sid \<Rightarrow> u64 \<Rightarrow> u32 \<Rightarrow> u32 \<Rightarrow> content \<Rightarrow> 'a bworld_scheme \<Rightarrow> (error_code + bool) \<times> 'a bworld_scheme" where
  "writeInternalResponse A sk messageId messageType len fn w =
    (case writeMessage A sk messageId messageType len fn no_error w of
       ((Some e, ec), w) \<Rightarrow> (Inl e, w)
     | ((None, ec), w) \<Rightarrow>
        if is_error ec then
          (case handleSocketError A sk ec w of
             (Some e, w) \<Rightarrow> (Inl e, w)
           | (None, w) \<Rightarrow> (Inr False, w))
        else (Inr True, w))"

definition writeResponse ::
  "adapter \<Rightarrow> sid \<Rightarrow> u64 \<Rightarrow> u32 \<Rightarrow> u32 \<Rightarrow> content \<Rightarrow> 'a bworld_scheme \<Rightarrow> (error_code + bool) \<times> 'a bworld_scheme" where
  "writeResponse A sk messageId messageType len fn = writeInternalResponse A sk messageId messageType len fn"

text \<open>The content of an error response.\<close>

definition error_content :: "u64 \<Rightarrow> content" where
  "error_content e message m = (snd (writer_write e message m), no_error)"

definition writeErrorResponse ::
  "adapter \<Rightarrow> sid \<Rightarrow> u64 \<Rightarrow> u64 \<Rightarrow> 'a bworld_scheme \<Rightarrow> (error_code + bool) \<times> 'a bworld_scheme" where
  "writeErrorResponse A sk messageId e = writeInternalResponse A sk messageId ERROR_TYPE 8 (error_content e)"

definition server_onSocketDisconnected :: "sid \<Rightarrow> 'a rworld_scheme eff" where
  "server_onSocketDisconnected sk w = (None, executeLocal (Task_RemoveConnection sk) w)"

end
