(* ===== verification/Infinio_Delivery.thy ===== *)
theory Infinio_Delivery
  imports Infinio_Framing
begin

text \<open>
  The sending side of \<^verbatim>\<open>BatchingMessageSocket\<close> against an abstract mailbox. The abstract state has the
  free buffers, for each socket the buffer it fills with the messages in it, the buffers that are
  sent and not completed, and the batches sent so far. The relation \<open>implements\<close> ties it to the
  contexts, the sockets and the bytes in memory; every operation of the code is a sequence of
  operations of the mailbox.
\<close>

section \<open>The place of a send buffer\<close>

definition start :: "CompletionContext \<Rightarrow> u16 \<Rightarrow> nat" where
  "start c bid = unat (mr_addr (mSendData c)) + unat bid * unat (mSendBufferLength c)"

text \<open>
  The pool is in order, its region and its buffers are aligned to eight bytes, and the region ends
  at least a message length before the end of the address space.
\<close>

definition pool_aligned :: "CompletionContext \<Rightarrow> bool" where
  "pool_aligned c \<longleftrightarrow> pool_ok c \<and> 8 dvd unat (mr_addr (mSendData c)) \<and> 8 dvd unat (mSendBufferLength c) \<and>
    unat (mr_addr (mSendData c)) + unat (mr_length (mSendData c)) + 2 ^ 32 \<le> 2 ^ 64"

lemma start_bounds:
  assumes "pool_aligned c" and "bid < mSendBufferCount c"
  shows "start c bid + unat (mSendBufferLength c) + 2 ^ 32 \<le> 2 ^ 64" and "8 dvd start c bid"
    and "buffer_range c bid = {start c bid..<start c bid + unat (mSendBufferLength c)}"
proof -
  have "Suc (unat bid) * unat (mSendBufferLength c) \<le> unat (mSendBufferCount c) * unat (mSendBufferLength c)"
    using assms(2) by (intro mult_le_mono1) (simp add: word_less_nat_alt)
  then show "start c bid + unat (mSendBufferLength c) + 2 ^ 32 \<le> 2 ^ 64"
    using assms(1) by (simp add: pool_aligned_def pool_ok_def start_def)
  show "8 dvd start c bid" using assms(1) by (simp add: pool_aligned_def start_def)
  show "buffer_range c bid = {start c bid..<start c bid + unat (mSendBufferLength c)}"
    by (simp add: buffer_range_def start_def Let_def)
qed

text \<open>The buffer with the given id, as long as given.\<close>

definition cell :: "CompletionContext \<Rightarrow> u16 \<Rightarrow> u32 \<Rightarrow> InfinibandBuffer" where
  "cell c bid n = \<lparr>mHandle = \<lparr>sge_addr = of_nat (start c bid), sge_length = n, sge_lkey = mr_lkey (mSendData c)\<rparr>, mId = bid\<rparr>"

lemma cell_simps [simp]:
  "mId (cell c bid n) = bid" "buffer_data (cell c bid n) = of_nat (start c bid)" "buffer_length (cell c bid n) = n"
  "mHandle (cell c bid n) = \<lparr>sge_addr = of_nat (start c bid), sge_length = n, sge_lkey = mr_lkey (mSendData c)\<rparr>"
  "belongsToRegion (mSendData c) (cell c bid n)"
  by (simp_all add: cell_def buffer_data_def buffer_length_def belongsToRegion_def)

lemma id_below_count: "bid < mSendBufferCount c \<Longrightarrow> bid \<noteq> INVALID_ID"
  using u16_lt [of "mSendBufferCount c"] by (auto simp: INVALID_ID_def word_less_nat_alt)

lemma cell_valid [simp]: "bid < mSendBufferCount c \<Longrightarrow> buffer_valid (cell c bid n)"
  by (simp add: buffer_valid_def id_below_count)

lemma start_apart:
  assumes "j \<noteq> i"
  shows "start c j + unat (mSendBufferLength c) \<le> start c i \<or> start c i + unat (mSendBufferLength c) \<le> start c j"
proof -
  have "start c k + unat (mSendBufferLength c) \<le> start c l" if "unat k < unat l" for k l
    using mult_le_mono1 [of "Suc (unat k)" "unat l" "unat (mSendBufferLength c)"] that by (simp add: start_def)
  then show ?thesis using assms by (metis nat_neq_iff word_unat_eq_iff)
qed

section \<open>Writing a message\<close>

lemma write_header:
  assumes "writer_write i \<lparr>wr_mPos = of_nat q, wr_mEnd = e\<rparr> m = (s1, m1)"
    and "writer_write t s1 m1 = (s2, m2)" and "writer_write (of_nat n :: u32) s2 m2 = (s3, m3)"
  shows "s3 = \<lparr>wr_mPos = of_nat (q + 16), wr_mEnd = e\<rparr>" and "m3 = put_bytes m (of_nat q) (header i t n)"
proof -
  let ?q = "of_nat q :: u64"
  have "m3 = put_bytes (put_bytes (put_bytes m ?q (le_bytes 8 i)) (?q + 8) (le_bytes 4 t)) (?q + 12)
      (le_bytes 4 (of_nat n :: u32))"
    using assms by (auto simp: writer_write_def writer_advance_def add.assoc)
  also have "put_bytes (put_bytes m ?q (le_bytes 8 i)) (?q + 8) (le_bytes 4 t) = put_bytes m ?q (le_bytes 8 i @ le_bytes 4 t)"
    using put_bytes_append [of "le_bytes 8 i" "le_bytes 4 t" m ?q] by simp
  also have "put_bytes \<dots> (?q + 12) (le_bytes 4 (of_nat n :: u32)) =
      put_bytes m ?q ((le_bytes 8 i @ le_bytes 4 t) @ le_bytes 4 (of_nat n :: u32))"
    using put_bytes_append [of "le_bytes 8 i @ le_bytes 4 t" "le_bytes 4 (of_nat n :: u32)" m ?q] by simp
  finally show "m3 = put_bytes m (of_nat q) (header i t n)" by (simp add: header_def)
  show "s3 = \<lparr>wr_mPos = of_nat (q + 16), wr_mEnd = e\<rparr>"
    using assms by (auto simp: writer_write_def writer_advance_def add.assoc)
qed

text \<open>
  What the function that writes a message's content has to respect: given room for exactly the
  content, it changes nothing outside, and unless it reports an error the content is there.
\<close>

definition writes :: "content \<Rightarrow> byte list \<Rightarrow> bool" where
  "writes fn ct \<longleftrightarrow> (\<forall>s m. unat (wr_mEnd s) = unat (wr_mPos s) + length ct \<longrightarrow>
    agree_on m (fst (fn s m)) 0 (unat (wr_mPos s)) \<and> agree_on m (fst (fn s m)) (unat (wr_mEnd s)) (2 ^ 64) \<and>
    (\<not> is_error (snd (fn s m)) \<longrightarrow> get_bytes (fst (fn s m)) (wr_mPos s) (length ct) = ct))"

text \<open>The state of a socket that fills the buffer \<open>bid\<close> and has written \<open>p\<close> bytes.\<close>

definition fills :: "CompletionContext \<Rightarrow> bms \<Rightarrow> u16 \<Rightarrow> nat \<Rightarrow> bool" where
  "fills c b bid p \<longleftrightarrow> bid < mSendBufferCount c \<and> mBuffer b = cell c bid (mSendBufferLength c) \<and>
    p \<le> unat (mSendBufferLength c) \<and>
    mSendBuffer b = \<lparr>wr_mPos = of_nat (start c bid + p), wr_mEnd = of_nat (start c bid + unat (mSendBufferLength c))\<rparr>"

lemma canWrite_fills:
  assumes "pool_aligned c" and "fills c b bid p" and "unat n < 2 ^ 32"
  shows "canWrite n (mSendBuffer b) \<longleftrightarrow> p + unat n \<le> unat (mSendBufferLength c)"
proof -
  have "start c bid + unat (mSendBufferLength c) + 2 ^ 32 \<le> 2 ^ 64"
    using start_bounds [OF assms(1)] assms(2) by (simp add: fills_def)
  moreover from this have "unat (of_nat (start c bid + p) + n :: u64) = start c bid + p + unat n"
    using assms(2,3) by (subst unat_add_no_wrap) (simp_all add: fills_def unat_of_nat_u64 del: of_nat_add)
  ultimately show ?thesis
    using assms(2) by (simp add: fills_def canWrite_def word_le_nat_alt unat_of_nat_u64 del: of_nat_add)
qed

lemma unat_nat: "n < 2 ^ 64 \<Longrightarrow> unat (of_nat n :: u64) = n"
  by (simp add: unat_of_nat_u64)

lemma of_nat_ucast_add: "of_nat q + ucast (n :: u32) = (of_nat (q + unat n) :: u64)"
proof -
  have "(ucast n :: u64) = of_nat (unat n)" by simp
  then show ?thesis by (simp only: of_nat_add)
qed

text \<open>The memory after a message is written at \<open>q\<close>: the header, then the content.\<close>

lemma content_effect:
  fixes q :: nat
  assumes fn: "writes fn ct" and n: "unat (n :: u32) = length ct"
    and run: "fn (new_writer (of_nat (q + 16)) (ucast n)) (put_bytes m (of_nat q) (header i t (length ct))) = (m', ec)"
    and room: "q + 16 + length ct \<le> hi" "hi < 2 ^ 64"
  shows "agree_on m m' 0 q" and "agree_on m m' hi (2 ^ 64)"
    and "\<not> is_error ec \<Longrightarrow> get_bytes m' (of_nat q) (16 + length ct) = header i t (length ct) @ ct"
proof -
  let ?h = "header i t (length ct)"
  let ?s = "new_writer (of_nat (q + 16)) (ucast n)"
  have q: "unat (of_nat q :: u64) = q" by (rule unat_nat) (use room in linarith)
  have pos: "unat (wr_mPos ?s) = q + 16" unfolding new_writer_def buffer_writer.simps by (rule unat_nat) (use room in linarith)
  have stop: "unat (wr_mEnd ?s) = q + 16 + length ct"
    unfolding new_writer_def buffer_writer.simps of_nat_ucast_add n by (rule unat_nat) (use room in linarith)
  have "unat (wr_mEnd ?s) = unat (wr_mPos ?s) + length ct" using pos stop by linarith
  then have fn': "agree_on (put_bytes m (of_nat q) ?h) m' 0 (q + 16)"
    "agree_on (put_bytes m (of_nat q) ?h) m' (q + 16 + length ct) (2 ^ 64)"
    "\<not> is_error ec \<Longrightarrow> get_bytes m' (wr_mPos ?s) (length ct) = ct"
    using fn run pos stop unfolding writes_def by (metis fst_conv snd_conv)+
  note low = fn'(1)
  have high: "agree_on (put_bytes m (of_nat q) ?h) m' hi (2 ^ 64)"
    by (rule agree_on_subset [OF fn'(2) room(1) order_refl])
  have "agree_on m (put_bytes m (of_nat q) ?h) 0 q"
    using agree_on_put_before [of "of_nat q" ?h m] room by (simp add: q)
  then show "agree_on m m' 0 q" by (rule agree_on_trans) (rule agree_on_subset [OF low], simp_all)
  have "agree_on m (put_bytes m (of_nat q) ?h) hi (2 ^ 64)"
    by (rule agree_on_put_after) (use room in \<open>simp_all add: q\<close>)
  then show "agree_on m m' hi (2 ^ 64)" using high by (rule agree_on_trans)
  have "get_bytes (put_bytes m (of_nat q) ?h) (of_nat q) 16 = get_bytes m' (of_nat q) 16"
    by (rule agree_on_get_bytes [OF low]) (use room in \<open>simp_all add: q\<close>)
  moreover have "get_bytes (put_bytes m (of_nat q) ?h) (of_nat q) 16 = ?h" by (rule get_put_same) simp_all
  ultimately have head: "get_bytes m' (of_nat q) 16 = ?h" by (rule subst)
  show "get_bytes m' (of_nat q) (16 + length ct) = ?h @ ct" if "\<not> is_error ec"
    unfolding get_bytes_append head using fn'(3) [OF that] by (simp add: new_writer_def)
qed

lemma align_after:
  fixes n :: u32
  assumes "8 dvd q" and "q + unat n + 8 \<le> 2 ^ 64"
  shows "writer_align 8 (writer_advance (ucast n) \<lparr>wr_mPos = of_nat q, wr_mEnd = e\<rparr>) =
    \<lparr>wr_mPos = of_nat (q + unat n + pad_to (unat n)), wr_mEnd = e\<rparr>"
  using align_8_nat [OF assms(2)] pad_to_shift [OF assms(1), of "unat n"]
  by (simp add: writer_align_def writer_advance_def of_nat_ucast_add del: of_nat_add)

lemma pad_room:
  assumes "8 dvd q" and "8 dvd hi" and "q + n \<le> hi"
  shows "q + n + pad_to n \<le> hi"
  using round_up_least(4) [of 8 hi "q + n"] assms pad_to_shift [OF assms(1), of n] by (simp add: round_up_8)

text \<open>Taking the writer back to \<open>p\<close> bytes behind the start.\<close>

lemma writer_reset:
  fixes len :: u32
  assumes "p \<le> unat len"
  shows "new_writer (of_nat s + ucast (ucast (of_nat (s + p) - of_nat s :: u64) :: u32)) 
      (ucast (len - ucast (of_nat (s + p) - of_nat s :: u64))) =
    \<lparr>wr_mPos = of_nat (s + p), wr_mEnd = of_nat (s + unat len)\<rparr>"
proof -
  have p: "p < 2 ^ 32" using assms u32_lt [of len] by linarith
  have d: "of_nat (s + p) - of_nat s = (of_nat p :: u64)" by simp
  have old: "unat (ucast (of_nat p :: u64) :: u32) = p"
    using p by (simp add: unsigned_ucast_eq unat_of_nat_u64 take_bit_nat_eq_self)
  then have le: "ucast (of_nat p :: u64) \<le> len" using assms by (simp add: word_le_nat_alt)
  have "unat (len - ucast (of_nat p :: u64)) = unat len - p" using old by (simp add: unat_sub [OF le])
  then show ?thesis
    using old assms by (simp only: d new_writer_def of_nat_ucast_add) (simp flip: of_nat_add)
qed

text \<open>
  Appending writes only behind the bytes written before; on success the header and the content
  follow them, and the writer is aligned again, on an error it stands where it stood.
\<close>

lemma append_effect:
  fixes w :: "'a bworld_scheme"
  assumes c: "pool_aligned c" and ctx: "w_ctx w = c" and b: "fills c (b_socks w sk) bid p" and p: "8 dvd p"
    and fits: "p + 16 + length ct \<le> unat (mSendBufferLength c)" and fn: "writes fn ct" and n: "unat n = length ct"
    and app: "append_message sk i t n fn w = (ec, w')"
  obtains m' b' where "w' = set_bms sk b' (w\<lparr>w_mem := m'\<rparr>)"
    and "agree_on (w_mem w) m' 0 (start c bid + p)"
    and "agree_on (w_mem w) m' (start c bid + unat (mSendBufferLength c)) (2 ^ 64)"
    and "is_error ec \<Longrightarrow> fills c b' bid p"
    and "\<not> is_error ec \<Longrightarrow> fills c b' bid (p + 16 + length ct + pad_to (length ct))"
    and "\<not> is_error ec \<Longrightarrow> get_bytes m' (of_nat (start c bid + p)) (16 + length ct) = header i t (length ct) @ ct"
proof -
  define s where "s = start c bid"
  define len where "len = unat (mSendBufferLength c)"
  have bid: "bid < mSendBufferCount c" and buf: "mBuffer (b_socks w sk) = cell c bid (mSendBufferLength c)"
    and snd: "mSendBuffer (b_socks w sk) = \<lparr>wr_mPos = of_nat (s + p), wr_mEnd = of_nat (s + len)\<rparr>"
    using b unfolding fills_def s_def len_def by blast+
  have bounds: "s + len + 2 ^ 32 \<le> 2 ^ 64" "8 dvd s" "8 dvd s + len" and fits: "s + p + 16 + length ct \<le> s + len"
    using start_bounds [OF c bid] c fits by (simp_all add: s_def len_def pool_aligned_def)
  obtain s1 m1 where h1: "writer_write i (mSendBuffer (b_socks w sk)) (w_mem w) = (s1, m1)" by (rule prod.exhaust)
  obtain s2 m2 where h2: "writer_write t s1 m1 = (s2, m2)" by (rule prod.exhaust)
  obtain s3 m3 where h3: "writer_write n s2 m2 = (s3, m3)" by (rule prod.exhaust)
  have nn: "of_nat (length ct) = n" by (simp flip: n)
  have hdr: "s3 = \<lparr>wr_mPos = of_nat (s + p + 16), wr_mEnd = of_nat (s + len)\<rparr>"
    "m3 = put_bytes (w_mem w) (of_nat (s + p)) (header i t (length ct))"
    using write_header [OF h1 [unfolded snd] h2, of "length ct" s3 m3] h3 by (simp_all add: nn)
  obtain m4 ec' where h4: "fn (new_writer (of_nat (s + p + 16)) (ucast n)) m3 = (m4, ec')" by (rule prod.exhaust)
  have hi: "s + len < 2 ^ 64" using bounds(1) by simp
  have room: "s + p + 16 + length ct + 8 \<le> 2 ^ 64" using bounds(1) fits by simp
  have al8: "8 dvd s + p + 16" using bounds(2) p by simp
  note mem = content_effect [OF fn n h4 [unfolded hdr(2)] fits hi]
  have al: "writer_align 8 (writer_advance (ucast n) s3) =
      \<lparr>wr_mPos = of_nat (s + p + 16 + length ct + pad_to (length ct)), wr_mEnd = of_nat (s + len)\<rparr>"
    unfolding hdr using align_after [OF al8, of n] room n by simp
  have "s + p + 16 + length ct + pad_to (length ct) \<le> s + len"
    by (rule pad_room [OF al8 bounds(3) fits])
  then have ok: "fills c ((b_socks w sk)\<lparr>mSendBuffer := writer_align 8 (writer_advance (ucast n) s3), mBatchSize := k\<rparr>)
      bid (p + 16 + length ct + pad_to (length ct))" for k
    unfolding al fills_def using bid buf by (simp add: s_def len_def add.assoc)
  have err: "fills c ((b_socks w sk)\<lparr>mSendBuffer := new_writer
      (of_nat s + ucast (ucast (of_nat (s + p) - of_nat s :: u64) :: u32)) 
      (ucast (mSendBufferLength c - ucast (of_nat (s + p) - of_nat s :: u64)))\<rparr>) bid p"
    unfolding fills_def using bid buf fits writer_reset [of p "mSendBufferLength c" s] by (simp add: s_def len_def)
  have w': "(ec, w') = (if is_error ec'
      then (ec', set_bms sk ((b_socks w sk)\<lparr>mSendBuffer := new_writer
        (of_nat s + ucast (ucast (of_nat (s + p) - of_nat s :: u64) :: u32)) 
        (ucast (mSendBufferLength c - ucast (of_nat (s + p) - of_nat s :: u64)))\<rparr>) (w\<lparr>w_mem := m4\<rparr>))
      else (ec', set_bms sk ((b_socks w sk)\<lparr>mSendBuffer := writer_align 8 (writer_advance (ucast n) s3),
        mBatchSize := mBatchSize (b_socks w sk) + 1\<rparr>) (w\<lparr>w_mem := m4\<rparr>)))"
    unfolding app [symmetric] append_message_def
    using h1 h2 h3 h4 by (simp add: Let_def writer_extract_def hdr(1) snd buf s_def del: of_nat_add)
  show thesis
  proof (cases "is_error ec'")
    case True
    with w' have ec: "ec = ec'" and eq: "w' = set_bms sk ((b_socks w sk)\<lparr>mSendBuffer := new_writer
        (of_nat s + ucast (ucast (of_nat (s + p) - of_nat s :: u64) :: u32)) 
        (ucast (mSendBufferLength c - ucast (of_nat (s + p) - of_nat s :: u64)))\<rparr>) (w\<lparr>w_mem := m4\<rparr>)" by simp_all
    show thesis
      by (rule that [OF eq]) (use True ec err mem in \<open>simp_all add: s_def len_def\<close>)
  next
    case False
    with w' have ec: "ec = ec'" and eq: "w' = set_bms sk ((b_socks w sk)\<lparr>mSendBuffer := writer_align 8 (writer_advance (ucast n) s3),
        mBatchSize := mBatchSize (b_socks w sk) + 1\<rparr>) (w\<lparr>w_mem := m4\<rparr>)" by simp_all
    show thesis
      by (rule that [OF eq]) (use False ec ok mem in \<open>simp_all add: s_def len_def\<close>)
  qed
qed

section \<open>The mailbox\<close>

record mailbox =
  mb_free :: "u16 list"
  mb_cur :: "sid \<Rightarrow> (u16 \<times> msg list) option"
  mb_out :: "(sid \<times> u16 \<times> msg list) list"
  mb_sent :: "(sid \<times> msg list) list"

text \<open>
  The steps, each with the messages it accepts: a socket takes a free buffer, appends a message to
  it, posts it, gives it back without sending, or a posted buffer is completed and free again.
\<close>

inductive mb_step :: "mailbox \<Rightarrow> (sid \<times> msg) list \<Rightarrow> mailbox \<Rightarrow> bool" where
  take: "mb_cur a sk = None \<Longrightarrow> mb_free a = i # free \<Longrightarrow>
    mb_step a [] (a\<lparr>mb_free := free, mb_cur := (mb_cur a)(sk := Some (i, []))\<rparr>)"
| append: "mb_cur a sk = Some (i, ms) \<Longrightarrow>
    mb_step a [(sk, x)] (a\<lparr>mb_cur := (mb_cur a)(sk := Some (i, ms @ [x]))\<rparr>)"
| post: "mb_cur a sk = Some (i, ms) \<Longrightarrow>
    mb_step a [] (a\<lparr>mb_cur := (mb_cur a)(sk := None), mb_out := mb_out a @ [(sk, i, ms)], mb_sent := mb_sent a @ [(sk, ms)]\<rparr>)"
| put_back: "mb_cur a sk = Some (i, []) \<Longrightarrow>
    mb_step a [] (a\<lparr>mb_cur := (mb_cur a)(sk := None), mb_free := i # mb_free a\<rparr>)"
| complete: "mb_out a = xs @ (sk, i, ms) # ys \<Longrightarrow>
    mb_step a [] (a\<lparr>mb_out := xs @ ys, mb_free := i # mb_free a\<rparr>)"

text \<open>A failed send gives the buffer back with the messages in it, which are lost.\<close>

inductive mb_fail :: "mailbox \<Rightarrow> mailbox \<Rightarrow> bool" where
  "mb_cur a sk = Some (i, ms) \<Longrightarrow>
    mb_fail a (a\<lparr>mb_cur := (mb_cur a)(sk := None), mb_free := i # mb_free a\<rparr>)"

text \<open>
  Every one of the \<open>n\<close> buffers is in exactly one place: once in the list of those nobody fills, or
  with one socket.
\<close>

definition shared_out :: "u16 \<Rightarrow> u16 list \<Rightarrow> (sid \<times> u16) set \<Rightarrow> bool" where
  "shared_out n L H \<longleftrightarrow> distinct L \<and> inj_on snd H \<and> set L \<inter> snd ` H = {} \<and> set L \<union> snd ` H = {i. i < n}"

lemma shared_out_take: "shared_out n (i # L) H \<Longrightarrow> shared_out n L (insert (sk, i) H)"
  by (auto simp: shared_out_def)

lemma shared_out_give:
  assumes "shared_out n L H" and "(sk, i) \<in> H" and "distinct (i # L) \<Longrightarrow> distinct L'" and "set L' = insert i (set L)"
  shows "shared_out n L' (H - {(sk, i)})"
proof -
  have inj: "inj_on snd H" using assms(1) by (simp add: shared_out_def)
  have img: "snd ` (H - {(sk, i)}) = snd ` H - {i}"
    using inj_on_image_set_diff [OF inj, of H "{(sk, i)}"] assms(2) by simp
  have i: "i \<in> snd ` H" using assms(2) by force
  show ?thesis
    using assms(1,3,4) i inj_on_diff [OF inj] unfolding shared_out_def img by auto
qed

definition mb_list :: "mailbox \<Rightarrow> u16 list" where
  "mb_list a = mb_free a @ map (\<lambda>(sk, i, ms). i) (mb_out a)"

definition held :: "(sid \<Rightarrow> (u16 \<times> msg list) option) \<Rightarrow> (sid \<times> u16) set" where
  "held cur = {(sk, i). \<exists>ms. cur sk = Some (i, ms)}"

definition mb_ok :: "u16 \<Rightarrow> mailbox \<Rightarrow> bool" where
  "mb_ok n a \<longleftrightarrow> shared_out n (mb_list a) (held (mb_cur a))"

lemma held_simps:
  "cur sk = None \<Longrightarrow> held (cur(sk := Some (i, ms))) = insert (sk, i) (held cur)"
  "cur sk = Some (i, ms) \<Longrightarrow> held (cur(sk := Some (i, ms'))) = held cur"
  "cur sk = Some (i, ms) \<Longrightarrow> held (cur(sk := None)) = held cur - {(sk, i)}"
  "cur sk = Some (i, ms) \<Longrightarrow> (sk, i) \<in> held cur"
  by (auto simp: held_def split: if_splits)

lemma mb_ok_give_back:
  assumes "mb_ok n a" and "mb_cur a sk = Some (i, ms)"
  shows "mb_ok n (a\<lparr>mb_cur := (mb_cur a)(sk := None), mb_free := i # mb_free a\<rparr>)"
  using assms shared_out_give [of n "mb_list a" "held (mb_cur a)" sk i "i # mb_list a"]
  by (simp add: mb_ok_def mb_list_def held_simps)

lemma mb_ok_step: "mb_step a es a' \<Longrightarrow> mb_ok n a \<Longrightarrow> mb_ok n a'"
proof (induction rule: mb_step.induct)
  case (take a sk i free)
  then show ?case
    using shared_out_take [of n i "free @ map (\<lambda>(sk, i, ms). i) (mb_out a)" "held (mb_cur a)" sk]
    by (simp add: mb_ok_def mb_list_def held_simps)
next
  case (append a sk i ms x)
  then show ?case by (simp add: mb_ok_def mb_list_def held_simps)
next
  case (post a sk i ms)
  have "shared_out n (mb_list a @ [i]) (held (mb_cur a) - {(sk, i)})"
    by (rule shared_out_give) (use post in \<open>auto simp: mb_ok_def held_simps\<close>)
  then show ?case using post by (simp add: mb_ok_def mb_list_def held_simps)
next
  case (put_back a sk i)
  then show ?case by (simp add: mb_ok_give_back)
next
  case (complete a xs sk i ms ys)
  then show ?case by (auto simp: mb_ok_def mb_list_def shared_out_def)
qed

lemma mb_ok_fail: "mb_fail a a' \<Longrightarrow> mb_ok n a \<Longrightarrow> mb_ok n a'"
  by (auto elim!: mb_fail.cases intro: mb_ok_give_back)

lemma mb_ok_held:
  assumes "mb_ok n a" and "mb_cur a sk = Some (i, ms)"
  shows "i < n" and "i \<notin> set (mb_list a)" and "mb_cur a sk' = Some (i, ms') \<Longrightarrow> sk' = sk"
proof -
  have i: "(sk, i) \<in> held (mb_cur a)" using assms(2) by (rule held_simps)
  then have "i \<in> snd ` held (mb_cur a)" by force
  then show "i < n" "i \<notin> set (mb_list a)" using assms(1) by (auto simp: mb_ok_def shared_out_def)
  show "sk' = sk" if "mb_cur a sk' = Some (i, ms')"
    using inj_onD [of snd "held (mb_cur a)" "(sk', i)" "(sk, i)"] assms(1) i held_simps(4) [of "mb_cur a", OF that]
    by (simp add: mb_ok_def shared_out_def)
qed

lemma mb_ok_listed: "mb_ok n a \<Longrightarrow> i \<in> set (mb_list a) \<Longrightarrow> i < n"
  by (auto simp: mb_ok_def shared_out_def)

section \<open>The code implements the mailbox\<close>

text \<open>A socket, given the context and the memory, and what it is filling.\<close>

fun cur_rel :: "CompletionContext \<Rightarrow> flat \<Rightarrow> bms \<Rightarrow> (u16 \<times> msg list) option \<Rightarrow> bool" where
  "cur_rel c m b None \<longleftrightarrow> mBuffer b = new_buffer INVALID_ID \<and> mSendBuffer b = null_writer"
| "cur_rel c m b (Some (i, ms)) \<longleftrightarrow> (\<exists>p. fills c b i p \<and> batch (get_bytes m (of_nat (start c i)) p) ms)"

text \<open>A posted send: its buffer still holds the bytes that were posted, and they are a batch.\<close>

definition is_send :: "sid \<times> ibv_send_wr \<times> byte list \<Rightarrow> bool" where
  "is_send = (\<lambda>(sk, wr, bs). wr_opcode wr = WR_SEND)"

fun out_rel :: "CompletionContext \<Rightarrow> flat \<Rightarrow> sid \<times> ibv_send_wr \<times> byte list \<Rightarrow> sid \<times> u16 \<times> msg list \<Rightarrow> bool" where
  "out_rel c m (sk, wr, bs) (sk', i, ms) \<longleftrightarrow> sk' = sk \<and> batch bs ms \<and>
    wr_workType (wr_id wr) = SEND \<and> wr_bufferId (wr_id wr) = i \<and>
    (\<exists>n. n \<le> mSendBufferLength c \<and> wr_sg_list wr = [mHandle (cell c i n)] \<and>
      get_bytes m (of_nat (start c i)) (unat n) = bs)"

fun sent_rel :: "sid \<times> ibv_send_wr \<times> byte list \<Rightarrow> sid \<times> msg list \<Rightarrow> bool" where
  "sent_rel (sk, wr, bs) (sk', ms) \<longleftrightarrow> sk' = sk \<and> batch bs ms"

definition implements :: "'a bworld_scheme \<Rightarrow> mailbox \<Rightarrow> bool" where
  "implements w a \<longleftrightarrow> pool_aligned (w_ctx w) \<and> mb_ok (mSendBufferCount (w_ctx w)) a \<and>
    mSendBufferQueue (w_ctx w) = mb_free a \<and>
    (\<forall>sk. cur_rel (w_ctx w) (w_mem w) (b_socks w sk) (mb_cur a sk)) \<and>
    list_all2 (out_rel (w_ctx w) (w_mem w)) (filter is_send (w_outstanding w)) (mb_out a) \<and>
    list_all2 sent_rel (filter is_send (w_posted w)) (mb_sent a)"

text \<open>The relations depend on the pool's geometry only, not on the free ids.\<close>

lemma start_queue [simp]: "start (c\<lparr>mSendBufferQueue := q\<rparr>) = start c"
  and cell_queue [simp]: "cell (c\<lparr>mSendBufferQueue := q\<rparr>) = cell c"
  and fills_queue [simp]: "fills (c\<lparr>mSendBufferQueue := q\<rparr>) = fills c"
  by (auto simp: fun_eq_iff start_def cell_def fills_def)

lemma cur_rel_queue [simp]: "cur_rel (c\<lparr>mSendBufferQueue := q\<rparr>) m b x = cur_rel c m b x"
  and out_rel_queue [simp]: "out_rel (c\<lparr>mSendBufferQueue := q\<rparr>) m = out_rel c m"
proof -
  show "cur_rel (c\<lparr>mSendBufferQueue := q\<rparr>) m b x = cur_rel c m b x" by (cases x) auto
  show "out_rel (c\<lparr>mSendBufferQueue := q\<rparr>) m = out_rel c m"
  proof (intro ext)
    fix e x show "out_rel (c\<lparr>mSendBufferQueue := q\<rparr>) m e x = out_rel c m e x" by (cases e; cases x) simp
  qed
qed

text \<open>A change of the memory inside one buffer leaves the others.\<close>

lemma other_buffer:
  assumes c: "pool_aligned c" and i: "i < mSendBufferCount c" and j: "j < mSendBufferCount c" "j \<noteq> i"
    and low: "agree_on m m' 0 (start c i)" and high: "agree_on m m' (start c i + unat (mSendBufferLength c)) (2 ^ 64)"
    and n: "n \<le> unat (mSendBufferLength c)"
  shows "get_bytes m' (of_nat (start c j)) n = get_bytes m (of_nat (start c j)) n"
proof -
  note bi = start_bounds [OF c i] and bj = start_bounds [OF c j(1)]
  have sj: "unat (of_nat (start c j) :: u64) = start c j" by (rule unat_nat) (use bj(1) in simp)
  have "start c j + unat (mSendBufferLength c) \<le> start c i \<or> start c i + unat (mSendBufferLength c) \<le> start c j"
    using start_apart [OF j(2)] .
  then show ?thesis
  proof
    assume "start c j + unat (mSendBufferLength c) \<le> start c i"
    then show ?thesis
      by (intro agree_on_get_bytes [OF low, symmetric]) (use n bi(1) in \<open>simp_all add: sj\<close>)
  next
    assume "start c i + unat (mSendBufferLength c) \<le> start c j"
    then show ?thesis
      by (intro agree_on_get_bytes [OF high, symmetric]) (use n bj(1) in \<open>simp_all add: sj\<close>)
  qed
qed

lemma cur_rel_cong: "mBuffer b' = mBuffer b \<Longrightarrow> mSendBuffer b' = mSendBuffer b \<Longrightarrow> cur_rel c m b' x = cur_rel c m b x"
  by (cases x) (auto simp: fills_def)

text \<open>The rest of a socket's state does not matter.\<close>

lemma implements_set_bms:
  assumes "implements w a" and "mBuffer b = mBuffer (b_socks w sk)" and "mSendBuffer b = mSendBuffer (b_socks w sk)"
  shows "implements (set_bms sk b w) a"
  using assms cur_rel_cong [OF assms(2,3)] by (simp add: implements_def set_bms_def)

lemma implements_more:
  "implements (w\<lparr>w_local := l\<rparr>) a \<longleftrightarrow> implements w a" "implements (w\<lparr>w_sockets := ss\<rparr>) a \<longleftrightarrow> implements w a"
  by (simp_all add: implements_def)

lemma header_not_Nil [simp]: "header i t n \<noteq> []"
  using length_header [of i t n] by (metis list.size(3) zero_neq_numeral)

lemma batch_Nil: "batch [] ms \<Longrightarrow> ms = []"
  by (cases "([] :: byte list, ms)" rule: batch.cases) auto

lemma implements_curE:
  assumes "implements w a"
  obtains (idle) "mb_cur a sk = None" "mBuffer (b_socks w sk) = new_buffer INVALID_ID" "mSendBuffer (b_socks w sk) = null_writer"
  | (filling) i ms p where "mb_cur a sk = Some (i, ms)" "fills (w_ctx w) (b_socks w sk) i p"
      "batch (get_bytes (w_mem w) (of_nat (start (w_ctx w) i)) p) ms"
proof -
  have "cur_rel (w_ctx w) (w_mem w) (b_socks w sk) (mb_cur a sk)" using assms by (simp add: implements_def)
  then show thesis using that by (cases "mb_cur a sk") auto
qed

text \<open>Taking a buffer from the pool.\<close>

lemma acquire_cell:
  assumes "pool_ok c" and "mSendBufferQueue c = i # free"
  shows "acquireSendBuffer c = (cell c i (mSendBufferLength c), c\<lparr>mSendBufferQueue := free\<rparr>)"
proof -
  from acquire_nonempty [OF assms order_refl] obtain b where
    b: "acquireSendBuffer c = (b, c\<lparr>mSendBufferQueue := free\<rparr>)" "mId b = i"
      "buffer_length b = mSendBufferLength c" "belongsToRegion (mSendData c) b"
      "unat (buffer_data b) = start c i" unfolding acquireSendBuffer_def start_def by metis
  have "sge_addr (mHandle b) = of_nat (start c i)" unfolding b(5) [symmetric] buffer_data_def by simp
  then have "b = cell c i (mSendBufferLength c)"
    using b by (cases b; cases "mHandle b") (simp add: cell_def buffer_length_def belongsToRegion_def)
  then show ?thesis using b(1) by simp
qed

lemma new_writer_cell: "new_writer (buffer_data (cell c i n)) (ucast n) =
    \<lparr>wr_mPos = of_nat (start c i + 0), wr_mEnd = of_nat (start c i + unat n)\<rparr>"
  by (simp only: new_writer_def cell_simps of_nat_ucast_add) simp

lemma sim_take:
  assumes w: "implements w a" and idle: "mb_cur a sk = None" and free: "mSendBufferQueue (w_ctx w) = i # free"
    and b: "mBuffer b = cell (w_ctx w) i (mSendBufferLength (w_ctx w))"
      "mSendBuffer b = new_writer (buffer_data (mBuffer b)) (ucast (mSendBufferLength (w_ctx w)))"
  shows "implements (set_bms sk b (set_ctx ((w_ctx w)\<lparr>mSendBufferQueue := free\<rparr>) w))
    (a\<lparr>mb_free := free, mb_cur := (mb_cur a)(sk := Some (i, []))\<rparr>)"
proof -
  let ?a = "a\<lparr>mb_free := free, mb_cur := (mb_cur a)(sk := Some (i, []))\<rparr>"
  have fr: "mb_free a = i # free" and ok: "mb_ok (mSendBufferCount (w_ctx w)) a" and al: "pool_aligned (w_ctx w)"
    using w free by (auto simp: implements_def)
  have "mb_ok (mSendBufferCount (w_ctx w)) ?a" by (rule mb_ok_step [OF mb_step.take]) (use idle fr ok in auto)
  moreover have "i < mSendBufferCount (w_ctx w)" by (rule mb_ok_listed [OF ok]) (simp add: mb_list_def fr)
  then have "fills (w_ctx w) b i 0"
    using b new_writer_cell [of "w_ctx w" i "mSendBufferLength (w_ctx w)"] by (simp add: fills_def)
  moreover have "pool_aligned ((w_ctx w)\<lparr>mSendBufferQueue := free\<rparr>)"
    using al free by (simp add: pool_aligned_def pool_ok_def)
  ultimately show ?thesis
    using w by (auto simp: implements_def set_bms_def set_ctx_def get_bytes_def intro: exI [of _ 0])
qed

text \<open>Appending a message to the buffer.\<close>

lemma implements_mem:
  assumes w: "implements w a" and cur: "mb_cur a sk = Some (i, ms)"
    and low: "agree_on (w_mem w) m' 0 (start (w_ctx w) i)"
    and high: "agree_on (w_mem w) m' (start (w_ctx w) i + unat (mSendBufferLength (w_ctx w))) (2 ^ 64)"
    and b: "cur_rel (w_ctx w) m' b (Some (i, ms'))"
  shows "implements (set_bms sk b (w\<lparr>w_mem := m'\<rparr>)) (a\<lparr>mb_cur := (mb_cur a)(sk := Some (i, ms'))\<rparr>)"
proof -
  let ?c = "w_ctx w"
  have ok: "mb_ok (mSendBufferCount ?c) a" and al: "pool_aligned ?c" using w by (auto simp: implements_def)
  note i = mb_ok_held [OF ok cur]
  have other: "get_bytes m' (of_nat (start ?c j)) n = get_bytes (w_mem w) (of_nat (start ?c j)) n"
    if "j < mSendBufferCount ?c" "j \<noteq> i" "n \<le> unat (mSendBufferLength ?c)" for j n
    by (rule other_buffer [OF al i(1) that(1,2) low high that(3)])
  have "cur_rel ?c m' (b_socks w sk') (mb_cur a sk')" if "sk' \<noteq> sk" for sk'
    using w
  proof (cases rule: implements_curE [where sk = sk'])
    case (filling j ns p)
    have "j \<noteq> i" using i(3) filling(1) that by blast
    then show ?thesis using filling other [of j p] by (auto simp: fills_def)
  qed simp
  moreover have "list_all2 (out_rel ?c m') (filter is_send (w_outstanding w)) (mb_out a)"
  proof -
    have out: "list_all2 (out_rel ?c (w_mem w)) (filter is_send (w_outstanding w)) (mb_out a)"
      using w by (simp add: implements_def)
    show ?thesis
    proof (rule list.rel_mono_strong [OF out])
      fix e x assume x: "x \<in> set (mb_out a)" and rel: "out_rel ?c (w_mem w) e x"
      obtain sk1 j ns where "x = (sk1, j, ns)" by (cases x)
      moreover from this have "j \<in> set (mb_list a)" using x by (force simp: mb_list_def)
      then have "j < mSendBufferCount ?c" "j \<noteq> i" using mb_ok_listed [OF ok] i(2) by auto
      ultimately show "out_rel ?c m' e x" using rel other by (cases e) (auto simp: word_le_nat_alt)
    qed
  qed
  moreover have "mb_ok (mSendBufferCount ?c) (a\<lparr>mb_cur := (mb_cur a)(sk := Some (i, ms'))\<rparr>)"
    using ok cur by (simp add: mb_ok_def mb_list_def held_simps)
  ultimately show ?thesis using w b by (simp add: implements_def set_bms_def)
qed

lemma sim_append:
  assumes w: "implements w a" and cur: "mb_cur a sk = Some (i, ms)"
    and can: "canWrite (ucast (HEADER_SIZE + n)) (mSendBuffer (b_socks w sk))"
    and fn: "writes fn ct" and n: "unat n = length ct" "length ct + 16 < 2 ^ 32"
    and run: "append_message sk mid t n fn w = (ec, w')"
  shows "implements w' (if is_error ec then a
    else a\<lparr>mb_cur := (mb_cur a)(sk := Some (i, ms @ [(mid, t, ct)]))\<rparr>)"
proof -
  let ?c = "w_ctx w" and ?s = "of_nat (start (w_ctx w) i) :: u64"
  have ok: "mb_ok (mSendBufferCount ?c) a" and al: "pool_aligned ?c" using w by (auto simp: implements_def)
  obtain p where p: "fills ?c (b_socks w sk) i p" and ms: "batch (get_bytes (w_mem w) ?s p) ms"
    using w cur by (cases rule: implements_curE [where sk = sk]) auto
  have p8: "8 dvd p" using batch_aligned [OF ms] by simp
  have "unat (ucast (HEADER_SIZE + n) :: u64) = 16 + length ct"
    using n by (simp add: HEADER_SIZE_16 unat_word_ariths)
  then have fits: "p + 16 + length ct \<le> unat (mSendBufferLength ?c)"
    using can canWrite_fills [OF al p, of "ucast (HEADER_SIZE + n)"] n by simp
  from append_effect [OF al refl p p8 fits fn n(1) run] obtain m' b' where
    eff: "w' = set_bms sk b' (w\<lparr>w_mem := m'\<rparr>)" "agree_on (w_mem w) m' 0 (start ?c i + p)"
      "agree_on (w_mem w) m' (start ?c i + unat (mSendBufferLength ?c)) (2 ^ 64)"
      "is_error ec \<Longrightarrow> fills ?c b' i p"
      "\<not> is_error ec \<Longrightarrow> fills ?c b' i (p + 16 + length ct + pad_to (length ct))"
      "\<not> is_error ec \<Longrightarrow> get_bytes m' (of_nat (start ?c i + p)) (16 + length ct) = header mid t (length ct) @ ct"
    by metis
  have low: "agree_on (w_mem w) m' 0 (start ?c i)" by (rule agree_on_subset [OF eff(2)]) simp_all
  have bounds: "start ?c i + unat (mSendBufferLength ?c) + 2 ^ 32 \<le> 2 ^ 64"
    using start_bounds [OF al] p by (simp add: fills_def)
  have s: "unat ?s = start ?c i" by (rule unat_nat) (use bounds in simp)
  have old: "get_bytes m' ?s p = get_bytes (w_mem w) ?s p"
    by (rule agree_on_get_bytes [OF eff(2), symmetric]) (use bounds fits s in simp_all)
  show ?thesis
  proof (cases "is_error ec")
    case True
    have "implements w' (a\<lparr>mb_cur := (mb_cur a)(sk := Some (i, ms))\<rparr>)"
      unfolding eff(1) by (rule implements_mem [OF w cur low eff(3)]) (use eff(4) True ms old in auto)
    moreover have "a\<lparr>mb_cur := (mb_cur a)(sk := Some (i, ms))\<rparr> = a" using cur by (simp add: fun_upd_idem)
    ultimately show ?thesis using True by simp
  next
    case False
    let ?k = "16 + length ct"
    let ?pad = "get_bytes m' (?s + of_nat (p + ?k)) (pad_to (length ct))"
    have "get_bytes m' ?s (p + ?k + pad_to (length ct)) =
        get_bytes (w_mem w) ?s p @ header mid t (length ct) @ ct @ ?pad"
      using eff(6) [OF False] old by (simp only: get_bytes_append) (simp add: add.assoc)
    then have "batch (get_bytes m' ?s (p + ?k + pad_to (length ct))) (ms @ [(mid, t, ct)])"
      using batch_snoc [OF ms, of ?pad ct mid t] n by simp
    then have "cur_rel ?c m' b' (Some (i, ms @ [(mid, t, ct)]))"
      using eff(5) [OF False] by (auto simp: add.assoc)
    then show ?thesis using False implements_mem [OF w cur low eff(3)] eff(1) by simp
  qed
qed

text \<open>Sending the current buffer.\<close>

lemma shrink_cell: "n \<le> l \<Longrightarrow> shrink n (cell c i l) = cell c i n"
  by (auto simp: shrink_def cell_def buffer_length_def)

lemma bytes_written:
  assumes "p \<le> unat (len :: u32)"
  shows "unat (ucast (of_nat (s + p) - of_nat s :: u64) :: u32) = p"
proof -
  have "p < 2 ^ 32" using assms u32_lt [of len] by linarith
  then show ?thesis by (simp add: unsigned_ucast_eq unat_of_nat_u64 take_bit_nat_eq_self)
qed

lemma release_cell:
  assumes "i < mSendBufferCount (w_ctx w)"
  shows "socket_releaseSendBuffer (cell (w_ctx w) i n) w =
    set_ctx ((w_ctx w)\<lparr>mSendBufferQueue := i # mSendBufferQueue (w_ctx w)\<rparr>) w"
  using id_below_count [OF assms]
  by (simp add: socket_releaseSendBuffer_def releaseSendBuffer_def releaseSendBuffer_id_def)

lemma pool_aligned_release:
  assumes "pool_aligned c" and "i < mSendBufferCount c" and "i \<notin> set (mSendBufferQueue c)"
  shows "pool_aligned (c\<lparr>mSendBufferQueue := i # mSendBufferQueue c\<rparr>)"
  using assms by (simp add: pool_aligned_def pool_ok_def)

lemma sim_give_back:
  assumes w: "implements w a" and cur: "mb_cur a sk = Some (i, ms)"
    and b: "mBuffer b = new_buffer INVALID_ID" "mSendBuffer b = null_writer"
  shows "implements (set_bms sk b (set_ctx ((w_ctx w)\<lparr>mSendBufferQueue := i # mSendBufferQueue (w_ctx w)\<rparr>) w))
    (a\<lparr>mb_cur := (mb_cur a)(sk := None), mb_free := i # mb_free a\<rparr>)"
proof -
  have ok: "mb_ok (mSendBufferCount (w_ctx w)) a" and al: "pool_aligned (w_ctx w)" and q: "mSendBufferQueue (w_ctx w) = mb_free a"
    using w by (auto simp: implements_def)
  note i = mb_ok_held [OF ok cur]
  have "i \<notin> set (mSendBufferQueue (w_ctx w))" using i(2) by (simp add: mb_list_def q)
  then show ?thesis
    using w b pool_aligned_release [OF al i(1)] mb_ok_give_back [OF ok cur]
    by (simp add: implements_def set_bms_def set_ctx_def q)
qed

lemma sim_send:
  assumes w: "implements w a" and cur: "mb_cur a sk = Some (i, ms)"
    and run: "sendCurrentBuffer A sk no_error w = ((None, ec), w')"
  shows "\<exists>a'. (if is_error ec then mb_fail a a' else mb_step a [] a') \<and> mb_cur a' sk = None \<and> implements w' a'"
    and "\<forall>n qp wr. post_send A n qp wr = 0 \<Longrightarrow> \<not> is_error ec"
proof -
  let ?c = "w_ctx w" and ?b = "b_socks w sk"
  have ok: "mb_ok (mSendBufferCount ?c) a" and al: "pool_aligned ?c" using w by (auto simp: implements_def)
  obtain p where p: "fills ?c ?b i p" and ms: "batch (get_bytes (w_mem w) (of_nat (start ?c i)) p) ms"
    using w cur by (cases rule: implements_curE [where sk = sk]) auto
  have i: "i < mSendBufferCount ?c" and buf: "mBuffer ?b = cell ?c i (mSendBufferLength ?c)"
    and pos: "wr_mPos (mSendBuffer ?b) = of_nat (start ?c i + p)" and le: "p \<le> unat (mSendBufferLength ?c)"
    using p by (auto simp: fills_def)
  define n :: u32 where "n = ucast (of_nat (start ?c i + p) - of_nat (start ?c i) :: u64)"
  have n: "unat n = p" unfolding n_def by (rule bytes_written [OF le])
  then have nle: "n \<le> mSendBufferLength ?c" using le by (simp add: word_le_nat_alt)
  define wr where "wr = \<lparr>wr_id = wr_buildId 0 i SEND, wr_opcode = WR_SEND, wr_sg_list = [mHandle (cell ?c i n)],
    wr_signaled = True, wr_imm_data = 0, wr_remote_addr = 0, wr_rkey = 0\<rparr>"
  define v where "v = set_bms sk (?b\<lparr>mBuffer := cell ?c i n\<rparr>) w"
  have res: "((None, ec), w') = ec_then (doSend A sk wr no_error v)
    (\<lambda>ec w. let w = (if is_error ec then socket_releaseSendBuffer (cell ?c i n) w else w)
      in ((None, ec), set_bms sk (drop_buffer ((b_socks w sk)\<lparr>mBatchSize := 0\<rparr>)) w))"
    unfolding run [symmetric] sendCurrentBuffer_def
    using i buf pos nle
    by (simp add: Let_def socket_send_def wr_def v_def n_def shrink_cell del: of_nat_add cong: if_cong)
  have open_v: "sk_open (w_sockets v sk)"
    using res by (auto simp: doSend_def ec_then_def split: if_splits)
  have v: "w_ctx v = ?c" "w_mem v = w_mem w" "w_posted v = w_posted w" "w_outstanding v = w_outstanding w"
    "b_socks v sk = ?b\<lparr>mBuffer := cell ?c i n\<rparr>" by (simp_all add: v_def set_bms_def)
  have bytes: "gather (w_mem v) (wr_sg_list wr) = get_bytes (w_mem w) (of_nat (start ?c i)) p"
    by (simp add: gather_def wr_def v n)
  show "\<exists>a'. (if is_error ec then mb_fail a a' else mb_step a [] a') \<and> mb_cur a' sk = None \<and> implements w' a'"
  proof (cases "post_send A (length (w_posted v)) (sk_qp (w_sockets v sk)) wr = 0")
    case True
    let ?e = "(sk, wr, get_bytes (w_mem w) (of_nat (start ?c i)) p)"
    let ?a = "a\<lparr>mb_cur := (mb_cur a)(sk := None), mb_out := mb_out a @ [(sk, i, ms)], mb_sent := mb_sent a @ [(sk, ms)]\<rparr>"
    have ec: "ec = no_error" and w': "w' = set_bms sk (drop_buffer (?b\<lparr>mBuffer := cell ?c i n, mBatchSize := 0\<rparr>))
        (v\<lparr>w_posted := w_posted w @ [?e], w_outstanding := w_outstanding w @ [?e]\<rparr>)"
      using res True open_v bytes v by (simp_all add: doSend_cases ec_then_def Let_def wr_def)
    have st: "mb_step a [] ?a" by (rule mb_step.post [OF cur])
    have "out_rel ?c (w_mem w) ?e (sk, i, ms)"
      using ms nle n by (auto simp: wr_def wr_fields)
    then have "implements w' ?a"
      using w mb_ok_step [OF st ok] ms
      by (auto simp: w' implements_def v_def set_bms_def drop_buffer_def is_send_def wr_def list_all2_appendI)
    then show ?thesis using st ec by (intro exI [of _ ?a]) simp
  next
    case False
    let ?a = "a\<lparr>mb_cur := (mb_cur a)(sk := None), mb_free := i # mb_free a\<rparr>"
    have ec: "is_error ec" and w': "w' = set_bms sk (drop_buffer (?b\<lparr>mBuffer := cell ?c i n, mBatchSize := 0\<rparr>))
        (set_ctx (?c\<lparr>mSendBufferQueue := i # mSendBufferQueue ?c\<rparr>) v)"
      using res False open_v v i release_cell [of i v n]
      by (simp_all add: doSend_cases ec_then_def Let_def is_error_def errno_error_def set_ctx_def)
    have "implements w' ?a"
      using sim_give_back [OF w cur, of "drop_buffer (?b\<lparr>mBuffer := cell ?c i n, mBatchSize := 0\<rparr>)"]
      by (simp add: w' v_def set_bms_def set_ctx_def drop_buffer_def)
    then show ?thesis using mb_fail.intros [OF cur] ec by (intro exI [of _ ?a]) simp
  qed
  show "\<not> is_error ec" if "\<forall>n qp wr. post_send A n qp wr = 0"
    using res that open_v by (simp add: doSend_cases ec_then_def Let_def no_error_def is_error_def)
qed

text \<open>A new buffer.\<close>

lemma sim_next:
  assumes w: "implements w a" and idle: "mb_cur a sk = None" and run: "next_buffer sk w = (acquired, w')"
  shows "\<exists>a'. (if acquired then mb_step a [] a' \<and> mb_cur a' sk \<noteq> None else a' = a) \<and> implements w' a'"
proof -
  define v where "v = set_bms sk ((b_socks w sk)\<lparr>mBatchSize := 0\<rparr>) w"
  have v: "implements v a" unfolding v_def by (rule implements_set_bms [OF w]) simp_all
  have idle_v: "mBuffer (b_socks v sk) = new_buffer INVALID_ID" "mSendBuffer (b_socks v sk) = null_writer"
    using v idle by (cases rule: implements_curE [where sk = sk]; simp)+
  have al: "pool_ok (w_ctx v)" using v by (simp add: implements_def pool_aligned_def)
  show ?thesis
  proof (cases "mSendBufferQueue (w_ctx v)")
    case Nil
    then have "acquireSendBuffer (w_ctx v) = (new_buffer INVALID_ID, w_ctx v)" by simp
    then have "\<not> acquired" and "w' = set_bms sk ((b_socks v sk)\<lparr>mBuffer := new_buffer INVALID_ID, mSendBuffer := null_writer\<rparr>) v"
      using run by (auto simp: next_buffer_def Let_def socket_acquireSendBuffer_def buffer_valid_def new_buffer_def
          set_bms_def set_ctx_def v_def)
    then show ?thesis using implements_set_bms [OF v] idle_v by (intro exI [of _ a]) simp
  next
    case (Cons i free)
    let ?c = "w_ctx v" and ?a = "a\<lparr>mb_free := free, mb_cur := (mb_cur a)(sk := Some (i, []))\<rparr>"
    let ?buf = "cell (w_ctx v) i (mSendBufferLength (w_ctx v))"
    let ?b = "(b_socks v sk)\<lparr>mBuffer := ?buf, mSendBuffer := new_writer (buffer_data ?buf) (ucast (mSendBufferLength ?c))\<rparr>"
    let ?w = "set_bms sk ?b (set_ctx (?c\<lparr>mSendBufferQueue := free\<rparr>) v)"
    have i: "i < mSendBufferCount ?c" using al Cons by (simp add: pool_ok_def)
    have "mb_free a = i # free" using v Cons by (simp add: implements_def)
    then have st: "mb_step a [] ?a" using idle by (intro mb_step.take)
    have "implements ?w ?a" by (rule sim_take [OF v idle Cons]) simp_all
    then have impl: "implements (scheduleFlush sk ?w) ?a"
      by (simp add: scheduleFlush_def implements_set_bms executeLocal_def implements_more)
    have "acquired" and "w' = scheduleFlush sk ?w"
      using run acquire_cell [OF al Cons] i
      by (auto simp: next_buffer_def Let_def socket_acquireSendBuffer_def set_bms_def set_ctx_def v_def)
    then show ?thesis using st impl by (intro exI [of _ ?a]) simp
  qed
qed

section \<open>Runs of the mailbox\<close>

text \<open>A run, with the messages it accepts; without \<open>ok\<close> sends may fail.\<close>

inductive mb_run :: "bool \<Rightarrow> mailbox \<Rightarrow> (sid \<times> msg) list \<Rightarrow> mailbox \<Rightarrow> bool" for ok a where
  start: "mb_run ok a [] a"
| step: "mb_run ok a es a' \<Longrightarrow> mb_step a' es' a'' \<Longrightarrow> mb_run ok a (es @ es') a''"
| fail: "mb_run ok a es a' \<Longrightarrow> mb_fail a' a'' \<Longrightarrow> \<not> ok \<Longrightarrow> mb_run ok a es a''"

lemma mb_run_trans: "mb_run ok a' es' a'' \<Longrightarrow> mb_run ok a es a' \<Longrightarrow> mb_run ok a (es @ es') a''"
  by (induction rule: mb_run.induct) (auto simp flip: append_assoc intro: mb_run.intros)

lemma mb_run_step: "mb_step a es a' \<Longrightarrow> mb_run ok a es a'"
  using mb_run.step [OF mb_run.start] by fastforce

text \<open>The messages accepted from a socket are those it has sent and those it is about to send.\<close>

definition of_socket :: "sid \<Rightarrow> (sid \<times> 'b) list \<Rightarrow> 'b list" where
  "of_socket sk xs = map snd (filter (\<lambda>x. fst x = sk) xs)"

definition mb_log :: "mailbox \<Rightarrow> sid \<Rightarrow> msg list" where
  "mb_log a sk = concat (of_socket sk (mb_sent a)) @ (case mb_cur a sk of None \<Rightarrow> [] | Some (i, ms) \<Rightarrow> ms)"

lemma mb_log_step: "mb_step a es a' \<Longrightarrow> mb_log a' sk = mb_log a sk @ of_socket sk es"
  by (induction rule: mb_step.induct) (auto simp: mb_log_def of_socket_def)

lemma mb_log_run: "mb_run True a es a' \<Longrightarrow> mb_log a' sk = mb_log a sk @ of_socket sk es"
  by (induction rule: mb_run.induct) (auto simp: mb_log_step of_socket_def)

section \<open>The operations of the code are runs of the mailbox\<close>

definition sends_succeed :: "adapter \<Rightarrow> bool" where
  "sends_succeed A \<longleftrightarrow> (\<forall>n qp wr. post_send A n qp wr = 0)"

text \<open>The current buffer, if there is one, is sent.\<close>

lemma run_send:
  assumes w: "implements w a" and run: "sendCurrentBuffer A sk no_error w = ((None, ec), w')"
  shows "\<exists>a'. mb_run (sends_succeed A) a [] a' \<and> mb_cur a' sk = None \<and> implements w' a'"
proof (cases "mb_cur a sk")
  case None
  have "w' = w"
    using w run None by (cases rule: implements_curE [where sk = sk])
      (auto simp: sendCurrentBuffer_def buffer_valid_def new_buffer_def)
  then show ?thesis using w None mb_run.start by blast
next
  case (Some x)
  then obtain i ms where cur: "mb_cur a sk = Some (i, ms)" by (cases x) simp
  obtain a' where a': "if is_error ec then mb_fail a a' else mb_step a [] a'" "mb_cur a' sk = None" "implements w' a'"
    using sim_send(1) [OF w cur run] by blast
  have "mb_run (sends_succeed A) a [] a'"
  proof (cases "is_error ec")
    case True
    then have "\<not> sends_succeed A" using sim_send(2) [OF w cur run] by (auto simp: sends_succeed_def)
    then show ?thesis using a'(1) True mb_run.fail [OF mb_run.start] by simp
  next
    case False
    then show ?thesis using a'(1) by (simp add: mb_run_step)
  qed
  then show ?thesis using a' by blast
qed

lemma canWrite_filling:
  assumes "implements w a" and "canWrite (ucast (HEADER_SIZE + n)) (mSendBuffer (b_socks w sk))" and "unat n + 16 < 2 ^ 32"
  shows "mb_cur a sk \<noteq> None"
proof
  assume "mb_cur a sk = None"
  with assms(1) have "mSendBuffer (b_socks w sk) = null_writer" by (cases rule: implements_curE [where sk = sk]) auto
  then have "unat (ucast (HEADER_SIZE + n) :: u64) \<le> 0" using assms(2)
    by (simp add: canWrite_def null_writer_def new_writer_def)
  then show False using assms(3) by (simp add: HEADER_SIZE_16 unat_word_ariths)
qed

lemma run_append:
  assumes w: "implements w a" and can: "canWrite (ucast (HEADER_SIZE + n)) (mSendBuffer (b_socks w sk))"
    and fn: "writes fn ct" and n: "unat n = length ct" "length ct + 16 < 2 ^ 32"
    and run: "append_message sk mid t n fn w = (ec, w')"
  shows "\<exists>a'. mb_run ok a (if is_error ec then [] else [(sk, (mid, t, ct))]) a' \<and> implements w' a'"
proof -
  obtain i ms where cur: "mb_cur a sk = Some (i, ms)"
    using canWrite_filling [OF w can] n by auto
  note sim = sim_append [OF w cur can fn n run]
  show ?thesis
  proof (cases "is_error ec")
    case True
    then show ?thesis using sim mb_run.start by auto
  next
    case False
    then show ?thesis
      using sim mb_run_step [OF mb_step.append [OF cur, of "(mid, t, ct)"], of ok] by (intro exI conjI) auto
  qed
qed

lemma run_write:
  assumes w: "implements w a" and fn: "writes fn ct" and n: "unat n = length ct" "length ct + 16 < 2 ^ 32"
    and run: "writeMessage A sk mid t n fn no_error w = ((None, ec), w')"
  shows "\<exists>a'. mb_run (sends_succeed A) a (if is_error ec then [] else [(sk, (mid, t, ct))]) a' \<and> implements w' a'"
proof -
  let ?can = "\<lambda>w. canWrite (ucast (HEADER_SIZE + n)) (mSendBuffer (b_socks w sk))"
  consider (append) "?can w" "append_message sk mid t n fn w = (ec, w')"
    | (big) "is_error ec" "w' = w"
    | (send) ec' w1 where "sendCurrentBuffer A sk no_error w = ((None, ec'), w1)"
        "if is_error ec' then ec = ec' \<and> w' = w1
         else (case next_buffer sk w1 of (acquired, w2) \<Rightarrow>
           if acquired \<and> ?can w2 then append_message sk mid t n fn w2 = (ec, w') else is_error ec \<and> w' = w2)"
    using run unfolding writeMessage_def
    by (auto simp: Let_def ec_then_def split: if_splits prod.splits option.splits)
  then show ?thesis
  proof cases
    case append
    then show ?thesis by (intro run_append [OF w _ fn n])
  next
    case big
    then show ?thesis using w mb_run.start by auto
  next
    case send
    obtain a1 where a1: "mb_run (sends_succeed A) a [] a1" "mb_cur a1 sk = None" "implements w1 a1"
      using run_send [OF w send(1)] by blast
    show ?thesis
    proof (cases "is_error ec'")
      case True
      then show ?thesis using send(2) a1 by auto
    next
      case False
      obtain acquired w2 where next_b: "next_buffer sk w1 = (acquired, w2)" by (rule prod.exhaust)
      obtain a2 where "if acquired then mb_step a1 [] a2 \<and> mb_cur a2 sk \<noteq> None else a2 = a1" and a2: "implements w2 a2"
        using sim_next [OF a1(3,2) next_b] by blast
      then have "mb_run (sends_succeed A) a1 [] a2" by (cases acquired) (auto intro: mb_run_step mb_run.start)
      then have r2: "mb_run (sends_succeed A) a [] a2" using mb_run_trans [OF _ a1(1)] by fastforce
      show ?thesis
      proof (cases "acquired \<and> ?can w2")
        case True
        then obtain a3 where "mb_run (sends_succeed A) a2 (if is_error ec then [] else [(sk, (mid, t, ct))]) a3" "implements w' a3"
          using run_append [OF a2 _ fn n, of sk mid t ec w' "sends_succeed A"] send(2) False next_b by auto
        then show ?thesis using mb_run_trans [OF _ r2] by fastforce
      next
        case no_room: False
        then have "is_error ec" "w' = w2" using send(2) False next_b by auto
        then show ?thesis using r2 a2 by auto
      qed
    qed
  qed
qed

lemma implements_shutdown: "implements w a \<Longrightarrow> implements (snd (shutdown A sk w)) a"
  by (simp add: shutdown_def socket_disconnect_def Let_def implements_set_bms)

lemma run_flush:
  assumes w: "implements w a" and op: "sk_open (w_sockets w sk)" and run: "task_Flush A sk w = (e, w')"
  shows "\<exists>a'. mb_run (sends_succeed A) a [] a' \<and> mb_cur a' sk = None \<and> implements w' a'"
proof -
  define v where "v = set_bms sk ((b_socks w sk)\<lparr>mFlush := False\<rparr>) w"
  have v: "implements v a" unfolding v_def by (rule implements_set_bms [OF w]) simp_all
  have op_v: "sk_open (w_sockets v sk)" using op by (simp add: v_def set_bms_def)
  consider (idle) "w' = v" "\<not> buffer_valid (mBuffer (b_socks v sk))"
    | (empty) "buffer_valid (mBuffer (b_socks v sk))" "wr_mPos (mSendBuffer (b_socks v sk)) = buffer_data (mBuffer (b_socks v sk))"
        "w' = set_bms sk (drop_buffer (b_socks v sk)) (socket_releaseSendBuffer (mBuffer (b_socks v sk)) v)"
    | (send) ec w1 where "sendCurrentBuffer A sk no_error v = ((None, ec), w1)" "w' = w1 \<or> w' = snd (shutdown A sk w1)"
  proof -
    have "\<exists>ec w1. sendCurrentBuffer A sk no_error v = ((None, ec), w1)"
      using op_v by (auto simp: sendCurrentBuffer_def Let_def socket_send_def doSend_def ec_then_def set_bms_def)
    then show thesis
      using run that unfolding task_Flush_def handleSocketError_def
      by (auto simp: Let_def v_def [symmetric] split: if_splits)
  qed
  then show ?thesis
  proof cases
    case idle
    have "mb_cur a sk = None"
      using v idle(2) by (cases rule: implements_curE [where sk = sk]) (auto simp: fills_def)
    then show ?thesis using idle(1) v mb_run.start by blast
  next
    case empty
    from v show ?thesis
    proof (cases rule: implements_curE [where sk = sk])
      case idle
      then show ?thesis using empty by (simp add: buffer_valid_def new_buffer_def)
    next
      case (filling i ms p)
      let ?c = "w_ctx v"
      have al: "pool_aligned ?c" using v by (simp add: implements_def)
      have i: "i < mSendBufferCount ?c" using filling(2) by (simp add: fills_def)
      have "of_nat (start ?c i + p) = (of_nat (start ?c i) :: u64)"
        using filling(2) empty(2) by (simp add: fills_def)
      then have "start ?c i + p = start ?c i"
        using unat_nat [of "start ?c i + p"] unat_nat [of "start ?c i"] start_bounds(1) [OF al i] filling(2)
        by (simp add: fills_def)
      then have "p = 0" by simp
      then have cur: "mb_cur a sk = Some (i, [])" using filling(1,3) batch_Nil by (simp add: get_bytes_def)
      have "w' = set_bms sk (drop_buffer (b_socks v sk)) (set_ctx (?c\<lparr>mSendBufferQueue := i # mSendBufferQueue ?c\<rparr>) v)"
        using empty(3) filling(2) release_cell [OF i] by (simp add: fills_def)
      then show ?thesis
        using sim_give_back [OF v cur, of "drop_buffer (b_socks v sk)"] mb_run_step [OF mb_step.put_back [OF cur]]
        by (intro exI [of _ "a\<lparr>mb_cur := (mb_cur a)(sk := None), mb_free := i # mb_free a\<rparr>"]) (simp add: drop_buffer_def)
    qed
  next
    case send
    obtain a' where "mb_run (sends_succeed A) a [] a'" "mb_cur a' sk = None" "implements w1 a'" using run_send [OF v send(1)] by blast
    then show ?thesis using send(2) implements_shutdown [of w1 a' A sk] by (intro exI [of _ a']) auto
  qed
qed

lemma run_complete:
  assumes w: "implements w a" and out: "w_outstanding w = xs @ (sk, wr, bs) # ys" and op: "wr_opcode wr = WR_SEND"
    and wc: "wc_wr_id wc = wr_id wr"
    and run: "processWorkComplete A (bms_handler A app) wc (w\<lparr>w_outstanding := xs @ ys\<rparr>) = (None, w')"
  shows "\<exists>a'. mb_run ok a [] a' \<and> implements w' a'"
proof -
  let ?v = "w\<lparr>w_outstanding := xs @ ys\<rparr>"
  have ok: "mb_ok (mSendBufferCount (w_ctx w)) a" and al: "pool_aligned (w_ctx w)" and q: "mSendBufferQueue (w_ctx w) = mb_free a"
    using w by (auto simp: implements_def)
  have "list_all2 (out_rel (w_ctx w) (w_mem w)) (filter is_send xs @ (sk, wr, bs) # filter is_send ys) (mb_out a)"
    using w out op by (simp add: implements_def is_send_def)
  then obtain us x vs where a: "mb_out a = us @ x # vs" and x: "out_rel (w_ctx w) (w_mem w) (sk, wr, bs) x"
    and us: "list_all2 (out_rel (w_ctx w) (w_mem w)) (filter is_send xs) us"
    and vs: "list_all2 (out_rel (w_ctx w) (w_mem w)) (filter is_send ys) vs"
    by (auto simp: list_all2_append1 list_all2_Cons1)
  obtain i ms where xi: "x = (sk, i, ms)" using x by (cases x) auto
  then have ids: "wr_workType (wr_id wr) = SEND" "wr_bufferId (wr_id wr) = i" using x by auto
  let ?a = "a\<lparr>mb_out := us @ vs, mb_free := i # mb_free a\<rparr>"
  have st: "mb_step a [] ?a" by (rule mb_step.complete [OF a [unfolded xi]])
  have "i \<in> set (mb_list a)" by (simp add: mb_list_def a xi)
  then have i: "i < mSendBufferCount (w_ctx w)" by (rule mb_ok_listed [OF ok])
  have "distinct (mb_list a)" using ok by (simp add: mb_ok_def shared_out_def)
  then have fresh: "i \<notin> set (mSendBufferQueue (w_ctx w))" by (auto simp: mb_list_def a xi q)
  define rel where "rel v = set_ctx (releaseSendBuffer_id i (w_ctx v)) v" for v :: "'a bworld_scheme"
  have impl: "implements (rel ?v) ?a"
    using w mb_ok_step [OF st ok] pool_aligned_release [OF al i fresh] us vs id_below_count [OF i]
    by (simp add: implements_def rel_def set_ctx_def releaseSendBuffer_id_def q list_all2_appendI)
  have "w' = rel ?v \<or> (\<exists>sk. w' = rel (snd (shutdown A sk ?v)))"
    using run ids wc
    by (auto simp: processWorkComplete_def Let_def rel_def andthen_def bms_onSend_def handleSocketError_def
        split: option.splits prod.splits if_splits) (metis snd_conv)
  moreover have "implements (rel (snd (shutdown A sk ?v))) ?a" for sk
  proof -
    have "rel (snd (shutdown A sk ?v)) = snd (shutdown A sk (rel ?v))"
      by (simp add: rel_def shutdown_def socket_disconnect_def set_ctx_def set_bms_def Let_def)
    then show ?thesis using implements_shutdown [OF impl] by simp
  qed
  ultimately show ?thesis using impl mb_run_step [OF st] by blast
qed

section \<open>Runs of the code\<close>

text \<open>
  What can happen to the send buffers: a message is written by any socket, the flush task of a
  socket runs, a posted send completes, with whatever status, and is dispatched. A step lists the
  messages it accepts.
\<close>

inductive bstep :: "adapter \<Rightarrow> 'a app \<Rightarrow> 'a bworld_scheme \<Rightarrow> (sid \<times> msg) list \<Rightarrow> 'a bworld_scheme \<Rightarrow> bool"
  for A app where
  message: "writes fn ct \<Longrightarrow> length ct + 16 < 2 ^ 32 \<Longrightarrow>
    writeMessage A sk mid t (of_nat (length ct)) fn no_error w = ((None, ec), w') \<Longrightarrow>
    bstep A app w (if is_error ec then [] else [(sk, mid, t, ct)]) w'"
| flush: "sk_open (w_sockets w sk) \<Longrightarrow> task_Flush A sk w = (e, w') \<Longrightarrow> bstep A app w [] w'"
| complete: "w_outstanding w = xs @ (sk, wr, bs) # ys \<Longrightarrow> wr_opcode wr = WR_SEND \<Longrightarrow> wc_wr_id wc = wr_id wr \<Longrightarrow>
    processWorkComplete A (bms_handler A app) wc (w\<lparr>w_outstanding := xs @ ys\<rparr>) = (None, w') \<Longrightarrow>
    bstep A app w [] w'"

inductive brun :: "adapter \<Rightarrow> 'a app \<Rightarrow> 'a bworld_scheme \<Rightarrow> (sid \<times> msg) list \<Rightarrow> 'a bworld_scheme \<Rightarrow> bool"
  for A app w where
  start: "brun A app w [] w"
| step: "brun A app w es w' \<Longrightarrow> bstep A app w' es' w'' \<Longrightarrow> brun A app w (es @ es') w''"

text \<open>The state before the first message: every buffer is free.\<close>

definition fresh_sockets :: "'a bworld_scheme \<Rightarrow> bool" where
  "fresh_sockets w \<longleftrightarrow> pool_aligned (w_ctx w) \<and> set (mSendBufferQueue (w_ctx w)) = {i. i < mSendBufferCount (w_ctx w)} \<and>
    (\<forall>sk. mBuffer (b_socks w sk) = new_buffer INVALID_ID \<and> mSendBuffer (b_socks w sk) = null_writer) \<and>
    w_outstanding w = [] \<and> w_posted w = []"

definition empty_mailbox :: "u16 list \<Rightarrow> mailbox" where
  "empty_mailbox ids = \<lparr>mb_free = ids, mb_cur = \<lambda>_. None, mb_out = [], mb_sent = []\<rparr>"

lemma fresh_implements: "fresh_sockets w \<Longrightarrow> implements w (empty_mailbox (mSendBufferQueue (w_ctx w)))"
proof -
  assume w: "fresh_sockets w"
  have "held (\<lambda>_. None) = {}" by (simp add: held_def)
  moreover have "distinct (mSendBufferQueue (w_ctx w))" using w by (simp add: fresh_sockets_def pool_aligned_def pool_ok_def)
  ultimately have "mb_ok (mSendBufferCount (w_ctx w)) (empty_mailbox (mSendBufferQueue (w_ctx w)))"
    using w unfolding fresh_sockets_def mb_ok_def shared_out_def mb_list_def empty_mailbox_def by simp
  then show ?thesis using w unfolding implements_def fresh_sockets_def by (simp add: empty_mailbox_def)
qed

lemma bstep_run:
  assumes "bstep A app w es w'" and "implements w a"
  shows "\<exists>a'. mb_run (sends_succeed A) a es a' \<and> implements w' a'"
  using assms
proof (induction rule: bstep.induct)
  case (message fn ct sk mid t w ec w')
  have n: "unat (of_nat (length ct) :: u32) = length ct"
    using message(2) by (simp add: unat_of_nat take_bit_nat_eq_self)
  show ?case by (rule run_write [OF message(4) message(1) n message(2,3)])
next
  case (flush w sk e w')
  then show ?case using run_flush by blast
next
  case (complete w xs sk wr bs ys wc w')
  then show ?case by (intro run_complete)
qed

lemma brun_run:
  assumes "brun A app w es w'" and "implements w a"
  shows "\<exists>a'. mb_run (sends_succeed A) a es a' \<and> implements w' a'"
  using assms
proof (induction rule: brun.induct)
  case start
  then show ?case using mb_run.start by blast
next
  case (step es w' es' w'')
  then obtain a' where "mb_run (sends_succeed A) a es a'" "implements w' a'" by blast
  then show ?case using bstep_run [OF step(2)] mb_run_trans by blast
qed

text \<open>The ids of the buffers that are sent and not completed, and the buffer a socket fills.\<close>

definition in_flight :: "'a bworld_scheme \<Rightarrow> u16 list" where
  "in_flight w = map (\<lambda>(sk, wr, bs). wr_bufferId (wr_id wr)) (filter is_send (w_outstanding w))"

definition filling_id :: "'a bworld_scheme \<Rightarrow> sid \<Rightarrow> u16 option" where
  "filling_id w sk = (if buffer_valid (mBuffer (b_socks w sk)) then Some (mId (mBuffer (b_socks w sk))) else None)"

lemma implements_in_flight:
  assumes "implements w a"
  shows "in_flight w = map (\<lambda>(sk, i, ms). i) (mb_out a)"
proof -
  have "list_all2 (out_rel (w_ctx w) (w_mem w)) (filter is_send (w_outstanding w)) (mb_out a)"
    using assms by (simp add: implements_def)
  then show ?thesis unfolding in_flight_def by (induction rule: list_all2_induct) auto
qed

lemma implements_filling:
  assumes "implements w a"
  shows "filling_id w sk = map_option fst (mb_cur a sk)"
  using assms
proof (cases rule: implements_curE [where sk = sk])
  case idle
  then show ?thesis by (simp add: filling_id_def buffer_valid_def new_buffer_def)
next
  case (filling i ms p)
  then show ?thesis by (simp add: filling_id_def fills_def)
qed

lemma implements_partition:
  assumes "implements w a"
  shows "distinct (mSendBufferQueue (w_ctx w) @ in_flight w)"
    and "filling_id w sk = Some i \<Longrightarrow> i \<notin> set (mSendBufferQueue (w_ctx w) @ in_flight w)"
    and "filling_id w sk = Some i \<Longrightarrow> filling_id w sk' = Some i \<Longrightarrow> sk' = sk"
    and "i < mSendBufferCount (w_ctx w) \<Longrightarrow>
      i \<in> set (mSendBufferQueue (w_ctx w) @ in_flight w) \<or> (\<exists>sk. filling_id w sk = Some i)"
proof -
  have ok: "mb_ok (mSendBufferCount (w_ctx w)) a" and q: "mSendBufferQueue (w_ctx w) @ in_flight w = mb_list a"
    using assms implements_in_flight [OF assms] by (simp_all add: implements_def mb_list_def)
  show "distinct (mSendBufferQueue (w_ctx w) @ in_flight w)" using ok unfolding q mb_ok_def shared_out_def by blast
  have fill: "filling_id w sk = Some i \<longleftrightarrow> (\<exists>ms. mb_cur a sk = Some (i, ms))" for sk i
    unfolding implements_filling [OF assms] by (cases "mb_cur a sk") auto
  show "i \<notin> set (mSendBufferQueue (w_ctx w) @ in_flight w)" if "filling_id w sk = Some i"
    using that mb_ok_held(2) [OF ok] unfolding q fill by blast
  show "sk' = sk" if "filling_id w sk = Some i" "filling_id w sk' = Some i"
    using that mb_ok_held(3) [OF ok] unfolding fill by blast
  show "i \<in> set (mSendBufferQueue (w_ctx w) @ in_flight w) \<or> (\<exists>sk. filling_id w sk = Some i)"
    if "i < mSendBufferCount (w_ctx w)"
  proof -
    have "i \<in> set (mb_list a) \<union> snd ` held (mb_cur a)" using that ok unfolding mb_ok_def shared_out_def by blast
    then show ?thesis unfolding q fill held_def by auto
  qed
qed

lemma implements_bytes:
  assumes "implements w a" and "(sk, wr, bs) \<in> set (w_outstanding w)" and "wr_opcode wr = WR_SEND"
  shows "gather (w_mem w) (wr_sg_list wr) = bs"
proof -
  have "(sk, wr, bs) \<in> set (filter is_send (w_outstanding w))" using assms(2,3) by (simp add: is_send_def)
  moreover have "list_all2 (out_rel (w_ctx w) (w_mem w)) (filter is_send (w_outstanding w)) (mb_out a)"
    using assms(1) by (simp add: implements_def)
  ultimately obtain x where "out_rel (w_ctx w) (w_mem w) (sk, wr, bs) x"
    unfolding in_set_conv_nth list_all2_conv_all_nth by metis
  then show ?thesis by (cases x) (auto simp: gather_def)
qed

text \<open>A function that copies its content, and a process with two buffers.\<close>

lemma writes_put: "writes (\<lambda>s m. (put_bytes m (wr_mPos s) ct, no_error)) ct"
  unfolding writes_def
proof (intro allI impI)
  fix s :: buffer_writer and m
  assume e: "unat (wr_mEnd s) = unat (wr_mPos s) + length ct"
  then have lt: "unat (wr_mPos s) + length ct < 2 ^ 64" using u64_lt [of "wr_mEnd s"] by simp
  then show "agree_on m (fst (put_bytes m (wr_mPos s) ct, no_error)) 0 (unat (wr_mPos s)) \<and>
      agree_on m (fst (put_bytes m (wr_mPos s) ct, no_error)) (unat (wr_mEnd s)) (2 ^ 64) \<and>
      (\<not> is_error (snd (put_bytes m (wr_mPos s) ct, no_error)) \<longrightarrow>
        get_bytes (fst (put_bytes m (wr_mPos s) ct, no_error)) (wr_mPos s) (length ct) = ct)"
    using agree_on_put_before [of "wr_mPos s" ct m] agree_on_put_after [of "wr_mPos s" ct "unat (wr_mEnd s)" m "2 ^ 64"]
      get_put_same [of ct "length ct" m "wr_mPos s"] e by simp
qed

definition ex_written :: bworld where
  "ex_written = snd (writeMessage ex_adapter 5 1 2 3 (\<lambda>s m. (put_bytes m (wr_mPos s) [7, 8, 9], no_error)) no_error ex_bworld)"

definition ex_flushed :: bworld where
  "ex_flushed = snd (task_Flush ex_adapter 5 ex_written)"

lemma ex_ctx:
  "mSendBufferQueue (w_ctx ex_bworld) = [1, 0]" "mSendBufferCount (w_ctx ex_bworld) = 2"
  "mSendBufferLength (w_ctx ex_bworld) = 64" "mr_addr (mSendData (w_ctx ex_bworld)) = 0x1000"
  "mr_length (mSendData (w_ctx ex_bworld)) = 128"
  by code_simp+

lemma ex_idle:
  "mBuffer (b_socks ex_bworld sk) = new_buffer INVALID_ID" "mSendBuffer (b_socks ex_bworld sk) = null_writer"
  "w_outstanding ex_bworld = []" "w_posted ex_bworld = []"
  by (simp_all add: ex_bworld_def world.defs ex_world_def new_bms_def)

lemma ids_below_2: "{i :: u16. i < 2} = {0, 1}"
proof -
  have "i < 2 \<longleftrightarrow> i = 0 \<or> i = 1" for i :: u16
    by (simp add: word_less_nat_alt word_unat_eq_iff less_2_cases_iff)
  then show ?thesis by auto
qed

lemma ex_fresh: "fresh_sockets ex_bworld"
proof -
  have "pool_aligned (w_ctx ex_bworld)" by (simp add: pool_aligned_def pool_ok_def mr_ok_def ex_ctx)
  then show ?thesis by (simp add: fresh_sockets_def ex_ctx ex_idle ids_below_2 insert_commute)
qed

lemma ex_result: "fst (writeMessage ex_adapter 5 1 2 3 (\<lambda>s m. (put_bytes m (wr_mPos s) [7, 8, 9], no_error)) no_error ex_bworld) = (None, no_error)"
  by code_simp

lemma ex_open: "sk_open (w_sockets ex_written 5)"
  by code_simp

lemma ex_brun:
  "brun ex_adapter (\<lambda>_ _ w. (None, w)) ex_bworld [(5, 1, 2, [7, 8, 9])] ex_written"
  "brun ex_adapter (\<lambda>_ _ w. (None, w)) ex_bworld [(5, 1, 2, [7, 8, 9])] ex_flushed"
proof -
  let ?fn = "\<lambda>s m. (put_bytes m (wr_mPos s) [7, 8, 9], no_error)"
  have "writeMessage ex_adapter 5 1 2 (of_nat (length [7, 8, 9 :: byte])) ?fn no_error ex_bworld = ((None, no_error), ex_written)"
    unfolding ex_written_def using ex_result by (simp add: prod_eq_iff)
  from bstep.message [OF writes_put _ this, of "\<lambda>_ _ w. (None, w)"]
  have "bstep ex_adapter (\<lambda>_ _ w. (None, w)) ex_bworld [(5, 1, 2, [7, 8, 9])] ex_written" by simp
  from brun.step [OF brun.start this]
  show w: "brun ex_adapter (\<lambda>_ _ w. (None, w)) ex_bworld [(5, 1, 2, [7, 8, 9])] ex_written" by simp
  have "bstep ex_adapter (\<lambda>_ _ w. (None, w)) ex_written [] ex_flushed"
    unfolding ex_flushed_def by (rule bstep.flush [OF ex_open]) (rule prod.collapse [symmetric])
  from brun.step [OF w this]
  show "brun ex_adapter (\<lambda>_ _ w. (None, w)) ex_bworld [(5, 1, 2, [7, 8, 9])] ex_flushed" by simp
qed

text \<open>
  C21: no send buffer is lost, shared or overwritten while it is sent. Whatever sequence of messages
  written, flushes and completions the sockets of a process go through, with sends that fail or
  complete with errors, every buffer of the pool is in exactly one place: free, being filled by one
  socket, or in flight; and a buffer in flight still holds the bytes that were posted.
\<close>

theorem send_buffers_conserved:
  assumes "fresh_sockets w0" and "brun A app w0 es w"
  shows "distinct (mSendBufferQueue (w_ctx w) @ in_flight w) \<and>
    (\<forall>sk i. filling_id w sk = Some i \<longrightarrow> i \<notin> set (mSendBufferQueue (w_ctx w) @ in_flight w) \<and>
      (\<forall>sk'. filling_id w sk' = Some i \<longrightarrow> sk' = sk)) \<and>
    (\<forall>i < mSendBufferCount (w_ctx w).
      i \<in> set (mSendBufferQueue (w_ctx w) @ in_flight w) \<or> (\<exists>sk. filling_id w sk = Some i)) \<and>
    (\<forall>(sk, wr, bs) \<in> set (w_outstanding w). wr_opcode wr = WR_SEND \<longrightarrow> gather (w_mem w) (wr_sg_list wr) = bs)"
proof -
  obtain a where a: "implements w a" using brun_run [OF assms(2) fresh_implements [OF assms(1)]] by blast
  show ?thesis using implements_partition [OF a] implements_bytes [OF a] by blast
qed

theorem send_buffers_conserved_witness:
  "filling_id ex_written 5 = Some 1 \<and> mSendBufferQueue (w_ctx ex_written) = [0] \<and>
    distinct (mSendBufferQueue (w_ctx ex_flushed) @ in_flight ex_flushed) \<and>
    1 \<notin> set (mSendBufferQueue (w_ctx ex_written) @ in_flight ex_written)"
proof -
  have "filling_id ex_written 5 = Some 1" "mSendBufferQueue (w_ctx ex_written) = [0]" by code_simp+
  then show ?thesis
    using send_buffers_conserved [OF ex_fresh ex_brun(1)] send_buffers_conserved [OF ex_fresh ex_brun(2)] by blast
qed

text \<open>
  C22: the socket is a queue of messages. While posting a send succeeds, the byte strings a socket has
  posted decode to batches that contain, in order, the messages written to it without an error, up
  to a rest that is in the buffer it fills; once that buffer is flushed every accepted message has
  been posted exactly once.
\<close>

theorem messages_sent_in_order:
  assumes "fresh_sockets w0" and "brun A app w0 es w" and "sends_succeed A"
  shows "\<exists>batches rest.
    list_all2 batch (map snd (of_socket sk (filter is_send (w_posted w)))) batches \<and>
    concat batches @ rest = of_socket sk es \<and> (filling_id w sk = None \<longrightarrow> rest = [])"
proof -
  let ?a = "empty_mailbox (mSendBufferQueue (w_ctx w0))"
  obtain a where run: "mb_run True ?a es a" and a: "implements w a"
    using brun_run [OF assms(2) fresh_implements [OF assms(1)]] assms(3) by auto
  have "list_all2 sent_rel (filter is_send (w_posted w)) (mb_sent a)" using a by (simp add: implements_def)
  then have "list_all2 batch (map snd (of_socket sk (filter is_send (w_posted w)))) (of_socket sk (mb_sent a))"
    by (induction rule: list_all2_induct) (auto simp: of_socket_def)
  moreover have "mb_log a sk = of_socket sk es" using mb_log_run [OF run] by (simp add: mb_log_def empty_mailbox_def of_socket_def)
  moreover have "filling_id w sk = None \<Longrightarrow> mb_cur a sk = None" using implements_filling [OF a] by simp
  ultimately show ?thesis
    by (intro exI [of _ "of_socket sk (mb_sent a)"] exI [of _ "case mb_cur a sk of None \<Rightarrow> [] | Some (i, ms) \<Rightarrow> ms"])
      (auto simp: mb_log_def)
qed

theorem messages_sent_in_order_witness:
  "filling_id ex_flushed 5 = None \<and>
    (\<exists>batches. list_all2 batch (map snd (of_socket 5 (filter is_send (w_posted ex_flushed)))) batches \<and>
      concat batches = [(1, 2, [7, 8, 9])])"
proof -
  obtain a where "implements ex_written a" using brun_run [OF ex_brun(1) fresh_implements [OF ex_fresh]] by blast
  from run_flush [OF this ex_open] obtain a' where "mb_cur a' 5 = None" "implements ex_flushed a'"
    unfolding ex_flushed_def by (metis prod.collapse)
  then have idle: "filling_id ex_flushed 5 = None" by (simp add: implements_filling)
  have "sends_succeed ex_adapter" by (simp add: sends_succeed_def ex_adapter_def)
  then show ?thesis
    using messages_sent_in_order [OF ex_fresh ex_brun(2), of 5] idle by (auto simp: of_socket_def)
qed

end
