(* ===== verification/Infinio_Receive.thy ===== *)
theory Infinio_Receive
  imports Infinio_Framing
begin

text \<open>
  The receiving side of \<^verbatim>\<open>BatchingMessageSocket\<close>: a batch is delivered message by message, the loop ends
  on any bytes and never hands out a part of the memory outside the buffer, and a message that
  claims to be longer than the buffer shuts the connection down.
\<close>

section \<open>Batches\<close>

lemma batch_length: "batch bs ms \<Longrightarrow> 16 * length ms \<le> length bs"
proof (induction bs ms rule: batch.induct)
  case (2 bs i t c ms)
  then obtain pad rest where "bs = header i t (length c) @ c @ pad @ rest" "batch rest ms" by auto
  then show ?case using "2.IH" [of rest] by simp
qed simp

text \<open>What an application reads through the reader it gets.\<close>

definition contents :: "flat \<Rightarrow> u64 \<times> u32 \<times> buffer_reader \<Rightarrow> msg" where
  "contents m = (\<lambda>(i, t, r). (i, t, get_bytes m (rd_mPos r) (unat (rd_mEnd r) - unat (rd_mPos r))))"

lemma readers_contents:
  assumes "batch bs ms" and "get_bytes m (of_nat p) (length bs) = bs" and "p + length bs < 2 ^ 64"
  shows "map (contents m) (readers p ms) = ms"
  using assms
proof (induction bs ms arbitrary: p rule: batch.induct)
  case (2 bs i t c ms)
  obtain pad rest where bs: "bs = header i t (length c) @ c @ pad @ rest"
    and pad: "length pad = pad_to (length c)" and rest: "batch rest ms" using "2.prems"(1) by auto
  let ?k = "16 + length c + pad_to (length c)"
  have k: "length bs = ?k + length rest" using bs pad by simp
  have "get_bytes m (of_nat (p + ?k)) (length rest) = rest"
    using get_bytes_sub [of ?k "length rest" "length bs" m "of_nat p"] "2.prems"(2) bs pad k by simp
  then have "map (contents m) (readers (p + ?k) ms) = ms"
    using "2.IH" [OF rest, of "p + ?k"] "2.prems"(3) k by simp
  moreover have "get_bytes m (of_nat (p + 16)) (length c) = c"
    using get_bytes_sub [of 16 "length c" "length bs" m "of_nat p"] "2.prems"(2) bs by simp
  moreover have "unat (of_nat (p + 16 + length c) :: u64) - unat (of_nat (p + 16) :: u64) = length c"
    using "2.prems"(3) k by (simp add: unat_of_nat_u64 del: of_nat_add)
  ultimately show ?case by (simp add: contents_def add.assoc)
qed simp

text \<open>
  C23: a received buffer that holds a batch is taken apart exactly: the application is called for
  each message in order, with its id, its type and a reader over its content, and for nothing else;
  an exception of the application ends the delivery. The application must leave the buffer alone.
\<close>

theorem batch_delivered:
  assumes "batch bs ms" and "get_bytes (w_mem w) a (length bs) = bs" and "8 dvd unat a"
    and "unat a + length bs + 2 ^ 32 \<le> 2 ^ 64" and "length bs < 2 ^ 32"
    and "keeps_bytes app a (length bs)" and "\<not> is_error ec"
  shows "\<exists>rs. bms_onReceive A app sk a (of_nat (length bs)) ec w = Some (each (deliver app sk) rs w) \<and>
    map (contents (w_mem w)) rs = ms"
proof -
  define p where "p = unat a"
  have a: "a = of_nat p" by (simp add: p_def)
  have len: "unat (of_nat (length bs) :: u32) = length bs" using assms(5) by (simp add: unat_of_nat take_bit_nat_eq_self)
  have r: "new_reader a (ucast (of_nat (length bs) :: u32)) = \<lparr>rd_mPos = of_nat p, rd_mEnd = of_nat (p + length bs)\<rparr>"
  proof -
    have "(ucast (of_nat (length bs) :: u32) :: u64) = of_nat (length bs)"
      using len by (metis of_nat_unat)
    then show ?thesis by (simp add: new_reader_def a)
  qed
  have "length ms < Suc (length bs div 16)" using batch_length [OF assms(1)] by simp
  then have "bms_onReceive A app sk a (of_nat (length bs)) ec w = Some (each (deliver app sk) (readers p ms) w)"
    using receive_batch [OF assms(1), of w p app "Suc (length bs div 16)" A sk] assms
    unfolding bms_onReceive_def len r by (simp add: p_def del: receive_loop.simps of_nat_add)
  moreover have "map (contents (w_mem w)) (readers p ms) = ms"
    by (rule readers_contents [OF assms(1)]) (use assms in \<open>simp_all add: p_def\<close>)
  ultimately show ?thesis by blast
qed

lemma ex_batch: "batch (header 1 2 1 @ [7] @ replicate 7 0) [(1, 2, [7])]"
proof -
  have "pad_to 1 = 7" by (simp add: pad_to_def round_up_def)
  then show ?thesis by (auto intro!: exI [of _ "replicate 7 0"])
qed

theorem batch_delivered_witness:
  "\<exists>rs. bms_onReceive ex_adapter (\<lambda>_ _ w. (None, w)) 5 0x2000 24 no_error
      (ex_bworld\<lparr>w_mem := put_bytes (\<lambda>_. 0) 0x2000 (header 1 2 1 @ [7] @ replicate 7 0)\<rparr>) =
        Some (each (deliver (\<lambda>_ _ w. (None, w)) 5) rs
          (ex_bworld\<lparr>w_mem := put_bytes (\<lambda>_. 0) 0x2000 (header 1 2 1 @ [7] @ replicate 7 0)\<rparr>)) \<and>
    map (contents (put_bytes (\<lambda>_. 0) 0x2000 (header 1 2 1 @ [7] @ replicate 7 0))) rs = [(1, 2, [7])]"
proof -
  let ?bs = "header 1 2 1 @ [7] @ replicate 7 0"
  have len: "length ?bs = 24" by simp
  have "get_bytes (put_bytes (\<lambda>_. 0) 0x2000 ?bs) 0x2000 (length ?bs) = ?bs" by (rule get_put_same) simp_all
  then show ?thesis
    using batch_delivered [OF ex_batch, of "ex_bworld\<lparr>w_mem := put_bytes (\<lambda>_. 0) 0x2000 ?bs\<rparr>" "0x2000"
        "\<lambda>_ _ w. (None, w)" no_error ex_adapter 5] unfolding len by (simp add: keeps_bytes_def)
qed

section \<open>Any bytes\<close>

lemma canRead_below: "p + unat n < 2 ^ 64 \<Longrightarrow> e < 2 ^ 64 \<Longrightarrow>
    canRead n \<lparr>rd_mPos = of_nat p, rd_mEnd = of_nat e\<rparr> \<longleftrightarrow> p + unat n \<le> e"
  by (simp add: canRead_def word_le_nat_alt unat_of_nat_u64 unat_add_no_wrap)

lemma read_any:
  "\<exists>v :: u64. reader_read m \<lparr>rd_mPos = of_nat p, rd_mEnd = e\<rparr> = (v, \<lparr>rd_mPos = of_nat (p + 8), rd_mEnd = e\<rparr>)"
  "\<exists>v :: u32. reader_read m \<lparr>rd_mPos = of_nat p, rd_mEnd = e\<rparr> = (v, \<lparr>rd_mPos = of_nat (p + 4), rd_mEnd = e\<rparr>)"
  by (simp_all add: reader_read_def reader_advance_def)

text \<open>The part of the buffer from \<open>a\<close> on that is \<open>len\<close> long contains what the reader covers.\<close>

definition reader_inside :: "nat \<Rightarrow> nat \<Rightarrow> buffer_reader \<Rightarrow> bool" where
  "reader_inside lo hi r \<longleftrightarrow> lo \<le> unat (rd_mPos r) \<and> unat (rd_mPos r) \<le> unat (rd_mEnd r) \<and> unat (rd_mEnd r) \<le> hi"

text \<open>One round on arbitrary bytes: the loop ends, or delivers a part of the buffer and goes on behind it.\<close>

lemma receive_any_round:
  assumes "p \<le> e + 8" and "e + 2 ^ 32 + 8 \<le> 2 ^ 64"
  shows "(\<exists>r. \<forall>app fuel. receive_loop A app sk (Suc fuel) \<lparr>rd_mPos = of_nat p, rd_mEnd = of_nat e\<rparr> w = Some r) \<or>
    (\<exists>i t msg q. p + 16 \<le> e \<and> reader_inside p e msg \<and> p + 16 \<le> q \<and> q \<le> e + 8 \<and>
      (\<forall>app fuel. receive_loop A app sk (Suc fuel) \<lparr>rd_mPos = of_nat p, rd_mEnd = of_nat e\<rparr> w =
        (case app sk (App_message i t msg) w of
           (Some x, w) \<Rightarrow> Some (Some x, w)
         | (None, w) \<Rightarrow> receive_loop A app sk fuel \<lparr>rd_mPos = of_nat q, rd_mEnd = of_nat e\<rparr> w)))"
proof (cases "p + 16 \<le> e")
  case False
  have "\<not> canRead (ucast HEADER_SIZE) \<lparr>rd_mPos = of_nat p, rd_mEnd = of_nat e\<rparr>"
    using canRead_below [of p "ucast HEADER_SIZE" e] False assms by (simp add: HEADER_SIZE_16)
  then show ?thesis by simp
next
  case True
  have can: "canRead (ucast HEADER_SIZE) \<lparr>rd_mPos = of_nat p, rd_mEnd = of_nat e\<rparr>"
    using canRead_below [of p "ucast HEADER_SIZE" e] True assms by (simp add: HEADER_SIZE_16)
  obtain i where h1: "reader_read (w_mem w) \<lparr>rd_mPos = of_nat p, rd_mEnd = of_nat e\<rparr> =
      (i :: u64, \<lparr>rd_mPos = of_nat (p + 8), rd_mEnd = of_nat e\<rparr>)" using read_any(1) by blast
  obtain t where h2: "reader_read (w_mem w) \<lparr>rd_mPos = of_nat (p + 8), rd_mEnd = of_nat e\<rparr> =
      (t :: u32, \<lparr>rd_mPos = of_nat (p + 8 + 4), rd_mEnd = of_nat e\<rparr>)" using read_any(2) by blast
  obtain n where h3: "reader_read (w_mem w) \<lparr>rd_mPos = of_nat (p + 8 + 4), rd_mEnd = of_nat e\<rparr> =
      (n :: u32, \<lparr>rd_mPos = of_nat (p + 8 + 4 + 4), rd_mEnd = of_nat e\<rparr>)" using read_any(2) by blast
  have pos: "p + 8 + 4 + 4 = p + 16" by simp
  have fits: "canRead (ucast n) \<lparr>rd_mPos = of_nat (p + 16), rd_mEnd = of_nat e\<rparr> \<longleftrightarrow> p + 16 + unat n \<le> e"
    by (subst canRead_below) (use True assms u32_lt [of n] in simp_all)
  let ?msg = "\<lparr>rd_mPos = of_nat (p + 16), rd_mEnd = of_nat (p + 16 + unat n)\<rparr> :: buffer_reader"
  let ?q = "p + 16 + unat n + pad_to (p + 16 + unat n)"
  show ?thesis
  proof (cases "p + 16 + unat n \<le> e")
    case False
    then show ?thesis using can h1 h2 h3 fits unfolding pos by simp
  next
    case room: True
    have add: "of_nat (p + 16) + ucast n = (of_nat (p + 16 + unat n) :: u64)"
      by (metis of_nat_add of_nat_unat unat_u32_u64)
    have ext: "reader_extract (ucast n) \<lparr>rd_mPos = of_nat (p + 16), rd_mEnd = of_nat e\<rparr> =
        (?msg, \<lparr>rd_mPos = of_nat (p + 16 + unat n), rd_mEnd = of_nat e\<rparr>)"
      by (simp only: reader_extract_def new_reader_def reader_advance_def buffer_reader.simps add)
    have "align (of_nat (p + 16 + unat n)) (8 :: u64) = of_nat ?q"
      by (rule align_8_nat) (use room assms in simp)
    then have al: "reader_align 8 \<lparr>rd_mPos = of_nat (p + 16 + unat n), rd_mEnd = of_nat e\<rparr> = \<lparr>rd_mPos = of_nat ?q, rd_mEnd = of_nat e\<rparr>"
      by (simp add: reader_align_def del: of_nat_add)
    have "reader_inside p e ?msg"
      using room assms by (simp add: reader_inside_def unat_of_nat_u64 del: of_nat_add)
    moreover have "p + 16 \<le> ?q" "?q \<le> e + 8" using room pad_to_less [of "p + 16 + unat n"] by simp_all
    moreover have "receive_loop A app sk (Suc fuel) \<lparr>rd_mPos = of_nat p, rd_mEnd = of_nat e\<rparr> w =
        (case app sk (App_message i t ?msg) w of
           (Some x, w) \<Rightarrow> Some (Some x, w)
         | (None, w) \<Rightarrow> receive_loop A app sk fuel \<lparr>rd_mPos = of_nat ?q, rd_mEnd = of_nat e\<rparr> w)" for app fuel
      using can h1 h2 h3 fits room unfolding pos
      by (simp add: ext al del: of_nat_add split: prod.split option.split)
    ultimately show ?thesis using True by blast
  qed
qed

text \<open>Two applications the loop cannot tell apart: they agree on messages inside the buffer.\<close>

definition same_inside :: "sid \<Rightarrow> nat \<Rightarrow> nat \<Rightarrow> 'a app \<Rightarrow> 'a app \<Rightarrow> bool" where
  "same_inside sk lo hi app app' \<longleftrightarrow>
    (\<forall>i t r. reader_inside lo hi r \<longrightarrow> app' sk (App_message i t r) = app sk (App_message i t r))"

lemma receive_any:
  assumes "p \<le> e + 8" and "e + 2 ^ 32 + 8 \<le> 2 ^ 64" and "(e - p) div 16 < fuel" and "lo \<le> p"
  shows "(\<exists>r. receive_loop A app sk fuel \<lparr>rd_mPos = of_nat p, rd_mEnd = of_nat e\<rparr> w = Some r) \<and>
    (same_inside sk lo e app app' \<longrightarrow>
      receive_loop A app' sk fuel \<lparr>rd_mPos = of_nat p, rd_mEnd = of_nat e\<rparr> w =
      receive_loop A app sk fuel \<lparr>rd_mPos = of_nat p, rd_mEnd = of_nat e\<rparr> w)"
  using assms
proof (induction fuel arbitrary: p w)
  case (Suc fuel)
  from receive_any_round [OF Suc.prems(1,2), of A sk w] show ?case
  proof (elim disjE exE conjE)
    fix r assume "\<forall>app fuel. receive_loop A app sk (Suc fuel) \<lparr>rd_mPos = of_nat p, rd_mEnd = of_nat e\<rparr> w = Some r"
    then show ?thesis by (simp del: receive_loop.simps)
  next
    fix i t msg q
    assume e: "p + 16 \<le> e" and msg: "reader_inside p e msg" and q: "p + 16 \<le> q" "q \<le> e + 8"
      and loop: "\<forall>app fuel. receive_loop A app sk (Suc fuel) \<lparr>rd_mPos = of_nat p, rd_mEnd = of_nat e\<rparr> w =
        (case app sk (App_message i t msg) w of
           (Some x, w) \<Rightarrow> Some (Some x, w)
         | (None, w) \<Rightarrow> receive_loop A app sk fuel \<lparr>rd_mPos = of_nat q, rd_mEnd = of_nat e\<rparr> w)"
    have "(e - q) div 16 < fuel"
      using e q(1) Suc.prems(3) div_le_mono [of "e - q" "e - p - 16" 16] by simp
    note ih = Suc.IH [OF q(2) Suc.prems(2) this]
    have "same_inside sk lo e app app' \<Longrightarrow> app' sk (App_message i t msg) = app sk (App_message i t msg)"
      using msg Suc.prems(4) by (auto simp: same_inside_def reader_inside_def)
    then show ?thesis
      unfolding loop [rule_format] using ih q(1) Suc.prems(4) by (auto split: prod.split option.split)
  qed
qed simp

lemma new_reader_nat: "new_reader a (ucast (len :: u32)) = \<lparr>rd_mPos = of_nat (unat a), rd_mEnd = of_nat (unat a + unat len)\<rparr>"
proof -
  have "a + ucast len = (of_nat (unat a + unat len) :: u64)" by simp
  then show ?thesis by (simp add: new_reader_def del: of_nat_add)
qed

text \<open>
  C24: the receive loop on any bytes. Whatever a peer sends, the handler of a received buffer returns,
  and every message it hands to the application lies inside the buffer: two applications that
  agree on messages inside the buffer cannot be told apart.
\<close>

theorem receive_any_bytes:
  assumes "unat a + unat len + 2 ^ 32 + 8 \<le> 2 ^ 64"
  shows "(\<exists>r. bms_onReceive A app sk a len ec w = Some r) \<and>
    (\<forall>app'. same_inside sk (unat a) (unat a + unat len) app app' \<longrightarrow>
      bms_onReceive A app' sk a len ec w = bms_onReceive A app sk a len ec w)"
proof (cases "is_error ec")
  case True
  then show ?thesis by (simp add: bms_onReceive_def)
next
  case False
  have "(\<exists>r. receive_loop A app sk (Suc (unat len div 16)) (new_reader a (ucast len)) w = Some r) \<and>
    (same_inside sk (unat a) (unat a + unat len) app app' \<longrightarrow>
      receive_loop A app' sk (Suc (unat len div 16)) (new_reader a (ucast len)) w =
      receive_loop A app sk (Suc (unat len div 16)) (new_reader a (ucast len)) w)" for app'
    unfolding new_reader_nat by (rule receive_any) (use assms in simp_all)
  then show ?thesis using False unfolding bms_onReceive_def by simp
qed

theorem receive_any_bytes_witness:
  "\<exists>r. bms_onReceive ex_adapter (\<lambda>_ _ w. (None, w)) 5 0x2000 128 no_error (ex_bworld\<lparr>w_mem := \<lambda>x. ucast x\<rparr>) = Some r"
  using receive_any_bytes [of "0x2000" 128 ex_adapter "\<lambda>_ _ w. (None, w)" 5 no_error "ex_bworld\<lparr>w_mem := \<lambda>x. ucast x\<rparr>"]
  by simp

section \<open>Malformed messages\<close>

lemma shutdown_connected:
  assumes "mState (b_socks w sk) = CONNECTED"
  shows "\<exists>w'. shutdown A sk w = (None, w') \<and> mState (b_socks w' sk) = SHUTDOWN"
  using assms by (simp add: shutdown_def Let_def socket_disconnect_def set_bms_def)

lemma receive_too_long:
  assumes m: "get_bytes (w_mem w) (of_nat p) (16 + length rest) = header i t n @ rest"
    and e: "p + 16 + length rest = e" "e + 2 ^ 32 \<le> 2 ^ 64" and n: "length rest < n" "n < 2 ^ 32"
  shows "receive_loop A app sk (Suc fuel) \<lparr>rd_mPos = of_nat p, rd_mEnd = of_nat e\<rparr> w = Some (shutdown A sk w)"
proof -
  let ?r = "\<lambda>k. \<lparr>rd_mPos = of_nat (p + k), rd_mEnd = of_nat e\<rparr>"
  have sub: "get_bytes (w_mem w) (of_nat (p + j)) k = take k (drop j (header i t n @ rest))"
    if "j + k \<le> 16" for j k
    using get_bytes_sub [of j k "16 + length rest" "w_mem w" "of_nat p"] m that by simp
  have h1: "reader_read (w_mem w) (?r 0) = (i, ?r 8)"
    using sub [of 0 8] read_u64 [of "w_mem w" p i "of_nat e"] by (simp add: header_def)
  have h2: "reader_read (w_mem w) (?r 8) = (t, ?r 12)"
    using sub [of 8 4] read_u32 [of "w_mem w" "p + 8" t "of_nat e"] by (simp add: header_def)
  have h3: "reader_read (w_mem w) (?r 12) = (of_nat n :: u32, ?r 16)"
    using sub [of 12 4] read_u32 [of "w_mem w" "p + 12" "of_nat n" "of_nat e"] by (simp add: header_def)
  have can1: "canRead (ucast HEADER_SIZE) (?r 0)"
    using canRead_nat [of p e "ucast HEADER_SIZE"] e by (simp add: HEADER_SIZE_16)
  have "unat (ucast (of_nat n :: u32) :: u64) = n" using n(2) by (simp add: unat_of_nat take_bit_nat_eq_self)
  then have can2: "\<not> canRead (ucast (of_nat n :: u32)) (?r 16)"
    using canRead_nat [of "p + 16" e "ucast (of_nat n :: u32)"] e n by simp
  show ?thesis using can1 h1 h2 h3 can2 by (simp add: Let_def handleSocketError_def)
qed

text \<open>
  C25: a message that claims to be longer than the rest of the buffer is never delivered: the
  messages before it are, and then the connection is shut down.
\<close>

theorem malformed_message_shuts_down:
  assumes "batch bs ms" and "get_bytes (w_mem w) a (length bs + (16 + length rest)) = bs @ header i t n @ rest"
    and "length rest < n" and "n < 2 ^ 32" and "8 dvd unat a"
    and "unat a + length bs + (16 + length rest) + 2 ^ 32 \<le> 2 ^ 64" and "length bs + (16 + length rest) < 2 ^ 32"
    and "keeps_bytes app a (length bs + (16 + length rest))" and "\<not> is_error ec"
  shows "\<exists>rs. bms_onReceive A app sk a (of_nat (length bs + (16 + length rest))) ec w =
      Some (andthen (each (deliver app sk) rs) (shutdown A sk) w) \<and> map (contents (w_mem w)) rs = ms \<and>
    (\<forall>w'. mState (b_socks w' sk) = CONNECTED \<longrightarrow>
      (\<exists>w''. shutdown A sk w' = (None, w'') \<and> mState (b_socks w'' sk) = SHUTDOWN))"
proof -
  define p where "p = unat a"
  let ?k = "16 + length rest"
  let ?e = "p + length bs + ?k"
  have a: "a = of_nat p" by (simp add: p_def)
  have len: "unat (of_nat (length bs + ?k) :: u32) = length bs + ?k"
    using assms(7) by (simp add: unat_of_nat take_bit_nat_eq_self del: of_nat_add)
  obtain f where f: "Suc ((length bs + ?k) div 16) = length ms + Suc f"
  proof -
    have "16 * length ms + 16 \<le> length bs + ?k" using batch_length [OF assms(1)] by simp
    then have "length ms < Suc ((length bs + ?k) div 16)" by (simp add: less_Suc_eq_le)
    then show thesis using that less_iff_Suc_add by auto
  qed
  have loop: "receive_loop A app sk (length ms + Suc f) \<lparr>rd_mPos = of_nat p, rd_mEnd = of_nat ?e\<rparr> w =
    (case each (deliver app sk) (readers p ms) w of
       (Some x, w) \<Rightarrow> Some (Some x, w)
     | (None, w) \<Rightarrow> receive_loop A app sk (Suc f) \<lparr>rd_mPos = of_nat (p + length bs), rd_mEnd = of_nat ?e\<rparr> w)"
    by (rule receive_prefix [OF assms(1), where k = ?k and rest = "header i t n @ rest"])
      (use assms in \<open>simp_all add: p_def add.assoc\<close>)
  have keep: "get_bytes (w_mem (snd (each (deliver app sk) xs v))) a (length bs + ?k) = get_bytes (w_mem v) a (length bs + ?k)" for xs v
    by (rule each_keeps [where P = "\<lambda>u. get_bytes (w_mem u) a (length bs + ?k) = get_bytes (w_mem v) a (length bs + ?k)"])
      (use assms(8) in \<open>auto simp: keeps_bytes_def deliver_def\<close>)
  have bad: "receive_loop A app sk (Suc f) \<lparr>rd_mPos = of_nat (p + length bs), rd_mEnd = of_nat ?e\<rparr> w' = Some (shutdown A sk w')"
    if "each (deliver app sk) (readers p ms) w = (None, w')" for w'
  proof (rule receive_too_long [where rest = rest and i = i and t = t and n = n])
    have "get_bytes (w_mem w') a (length bs + ?k) = bs @ header i t n @ rest"
      using keep [of "readers p ms" w] that assms(2) by simp
    then show "get_bytes (w_mem w') (of_nat (p + length bs)) (16 + length rest) = header i t n @ rest"
      using get_bytes_sub [of "length bs" ?k "length bs + ?k" "w_mem w'" a] by (simp add: a)
  qed (use assms in \<open>simp_all add: p_def\<close>)
  have "bms_onReceive A app sk a (of_nat (length bs + ?k)) ec w =
      Some (andthen (each (deliver app sk) (readers p ms)) (shutdown A sk) w)"
  proof -
    have "bms_onReceive A app sk a (of_nat (length bs + ?k)) ec w =
        receive_loop A app sk (length ms + Suc f) \<lparr>rd_mPos = of_nat p, rd_mEnd = of_nat ?e\<rparr> w"
      using assms(9) unfolding bms_onReceive_def new_reader_nat len f p_def by (simp add: add.assoc)
    then show ?thesis
      unfolding loop using bad by (auto simp: andthen_def simp del: receive_loop.simps split: prod.split option.split)
  qed
  moreover have "map (contents (w_mem w)) (readers p ms) = ms"
    by (rule readers_contents [OF assms(1)])
      (use assms get_bytes_sub [of 0 "length bs" "length bs + ?k" "w_mem w" a] in \<open>simp_all add: p_def\<close>)
  ultimately show ?thesis using shutdown_connected by blast
qed

theorem malformed_message_shuts_down_witness:
  "bms_onReceive ex_adapter (\<lambda>_ _ w. (None, w)) 5 0x2000 16 no_error
      (ex_bworld\<lparr>w_mem := put_bytes (\<lambda>_. 0) 0x2000 (header 1 2 100)\<rparr>) =
    Some (shutdown ex_adapter 5 (ex_bworld\<lparr>w_mem := put_bytes (\<lambda>_. 0) 0x2000 (header 1 2 100)\<rparr>))"
proof -
  let ?w = "ex_bworld\<lparr>w_mem := put_bytes (\<lambda>_. 0) 0x2000 (header 1 2 100)\<rparr>"
  have "get_bytes (put_bytes (\<lambda>_. 0) 0x2000 (header 1 2 100)) 0x2000 16 = header 1 2 100" by (rule get_put_same) simp_all
  then obtain rs where "bms_onReceive ex_adapter (\<lambda>_ _ w. (None, w)) 5 0x2000 16 no_error ?w =
      Some (andthen (each (deliver (\<lambda>_ _ w. (None, w)) 5) rs) (shutdown ex_adapter 5) ?w)" and "rs = []"
    using malformed_message_shuts_down [of "[]" "[]" ?w "0x2000" "[]" 1 2 100 "\<lambda>_ _ w. (None, w)" no_error ex_adapter 5]
    by (auto simp: keeps_bytes_def)
  then show ?thesis by (simp add: andthen_def)
qed

end
