(* ===== verification/Infinio_Calls.thy ===== *)
theory Infinio_Calls
  imports Infinio_Rpc Infinio_Delivery Infinio_Receive
begin

text \<open>
  What the RPC layer promises: responses reach the requests they answer, requests that cannot be
  answered any more are aborted, and the error of a server reaches the client.

  The fibers are the caller's code. The locale states what the client socket relies on when it
  resumes one: the fiber leaves the requests that are already sent alone, it may send new ones, and
  it sends none on a disconnected socket. A fiber that sends the request it was blocked on is an
  instance.
\<close>

section \<open>Outcomes\<close>

definition same_outcome :: "response \<Rightarrow> response \<Rightarrow> bool" where
  "same_outcome x y \<longleftrightarrow> r_mPending x = r_mPending y \<and> r_mState x = r_mState y \<and> r_value x = r_value y \<and>
    r_error x = r_error y \<and> r_void x = r_void y"

definition aborted_with :: "error_code \<Rightarrow> response \<Rightarrow> bool" where
  "aborted_with e x \<longleftrightarrow> \<not> r_mPending x \<and> r_error x = e \<and> (r_void x \<or> r_mState x = ERROR)"

lemma same_outcome_refl [simp]: "same_outcome x x"
  by (simp add: same_outcome_def)

lemma same_outcome_trans: "same_outcome x y \<Longrightarrow> same_outcome y z \<Longrightarrow> same_outcome x z"
  by (simp add: same_outcome_def)

lemma same_outcome_aborted: "same_outcome x y \<Longrightarrow> aborted_with e y \<Longrightarrow> aborted_with e x"
  by (simp add: same_outcome_def aborted_with_def)

lemma same_outcome_pending: "same_outcome x y \<Longrightarrow> r_mPending x = r_mPending y"
  by (simp add: same_outcome_def)

text \<open>
  The responses \<^verbatim>\<open>onAbort\<close> can be called on: those that are not completed, and those without a result,
  whose specialization does not check. On a completed response with a result it throws.
\<close>

definition abortable :: "response \<Rightarrow> bool" where
  "abortable x \<longleftrightarrow> r_mPending x \<or> r_void x"

lemma pending_abortable: "r_mPending x \<Longrightarrow> abortable x"
  by (simp add: abortable_def)

lemma same_outcome_abortable: "same_outcome x y \<Longrightarrow> abortable x = abortable y"
  by (simp add: same_outcome_def abortable_def)

lemma onAbort_satisfied: "\<not> abortable (r_resp w r) \<Longrightarrow> onAbort K r e w = (Some promise_already_satisfied, w)"
  by (simp add: abortable_def onAbort_def setError_def setInternalResult_def response_done_def)

lemma set_resp_simps [simp]:
  "r_rpc (set_resp r x w) = r_rpc w" "b_socks (set_resp r x w) = b_socks w" "r_resp (set_resp r x w) r = x"
  "r' \<noteq> r \<Longrightarrow> r_resp (set_resp r x w) r' = r_resp w r'"
  by (simp_all add: set_resp_def)

lemma set_rpc_simps [simp]:
  "r_resp (set_rpc sk x w) = r_resp w" "b_socks (set_rpc sk x w) = b_socks w" "r_rpc (set_rpc sk x w) sk = x"
  "w_mem (set_rpc sk x w) = w_mem w"
  by (simp_all add: set_rpc_def)

text \<open>The responses a client socket waits for.\<close>

definition waiting_for :: "rpc \<Rightarrow> rid list" where
  "waiting_for x = map snd (mSyncResponses x) @ map snd (mAsyncResponses x)"

section \<open>The contract of a fiber\<close>

text \<open>\<open>S\<close> are the responses of requests that are already sent or started.\<close>

locale fiber_code =
  fixes K :: "'a fibers" and sk :: sid and S :: "rid set"
  assumes appends: "\<exists>new. mSyncResponses (r_rpc (K f w) sk) = mSyncResponses (r_rpc w sk) @ new \<and> snd ` set new \<inter> S = {}"
    and keeps: "r \<in> S \<Longrightarrow> same_outcome (r_resp (K f w) r) (r_resp w r)"
    and idle: "mState (b_socks w sk) = DISCONNECTED \<Longrightarrow>
      mSyncResponses (r_rpc (K f w) sk) = mSyncResponses (r_rpc w sk) \<and>
      mAsyncResponses (r_rpc (K f w) sk) = mAsyncResponses (r_rpc w sk) \<and> mState (b_socks (K f w) sk) = DISCONNECTED"
begin

text \<open>What resuming fibers leaves: the outcomes of the sent requests, and a queue that only grows.\<close>

definition grows :: "'a rworld_scheme \<Rightarrow> 'a rworld_scheme \<Rightarrow> bool" where
  "grows w w' \<longleftrightarrow> (\<exists>new. mSyncResponses (r_rpc w' sk) = mSyncResponses (r_rpc w sk) @ new \<and> snd ` set new \<inter> S = {}) \<and>
    (\<forall>r \<in> S. same_outcome (r_resp w' r) (r_resp w r)) \<and>
    (mState (b_socks w sk) = DISCONNECTED \<longrightarrow> mSyncResponses (r_rpc w' sk) = mSyncResponses (r_rpc w sk) \<and>
      mAsyncResponses (r_rpc w' sk) = mAsyncResponses (r_rpc w sk) \<and> mState (b_socks w' sk) = DISCONNECTED)"

lemma grows_refl: "grows w w"
  by (auto simp: grows_def)

lemma grows_K: "grows w (K f w)"
  using appends [of f w] keeps [of _ f w] idle [of w f] by (simp add: grows_def)

lemma grows_trans: "grows w w' \<Longrightarrow> grows w' w'' \<Longrightarrow> grows w w''"
  unfolding grows_def
proof (elim conjE exE, intro conjI)
  fix n n' assume "mSyncResponses (r_rpc w' sk) = mSyncResponses (r_rpc w sk) @ n" "snd ` set n \<inter> S = {}"
    "mSyncResponses (r_rpc w'' sk) = mSyncResponses (r_rpc w' sk) @ n'" "snd ` set n' \<inter> S = {}"
  then show "\<exists>new. mSyncResponses (r_rpc w'' sk) = mSyncResponses (r_rpc w sk) @ new \<and> snd ` set new \<inter> S = {}"
    by (intro exI [of _ "n @ n'"]) auto
qed (auto intro: same_outcome_trans)

lemma grows_notify_one: "grows w (notify_one K sk w)"
proof (cases "mWaitingRequests (r_rpc w sk)")
  case (Cons f fs)
  have "grows w (set_rpc sk ((r_rpc w sk)\<lparr>mWaitingRequests := fs\<rparr>) w)" by (auto simp: grows_def)
  then show ?thesis using grows_K grows_trans Cons by (auto simp: notify_one_def)
qed (simp add: notify_one_def grows_refl)

lemma grows_notify_all: "grows w (notify_all K sk w)"
proof -
  have "grows w (fold K fs w)" for fs w
    by (induction fs arbitrary: w) (auto simp: grows_refl intro: grows_trans [OF grows_K])
  moreover have "grows w (set_rpc sk ((r_rpc w sk)\<lparr>mWaitingRequests := []\<rparr>) w)" by (auto simp: grows_def)
  ultimately show ?thesis unfolding notify_all_def using grows_trans by blast
qed

text \<open>Completing a response: it has its outcome, and the others keep theirs.\<close>

lemma complete_effect:
  assumes "r \<in> S"
  shows "same_outcome (r_resp (complete K r w) r) ((r_resp w r)\<lparr>r_mPending := False\<rparr>)"
    and "r' \<in> S \<Longrightarrow> r' \<noteq> r \<Longrightarrow> same_outcome (r_resp (complete K r w) r') (r_resp w r')"
    and "\<exists>new. mSyncResponses (r_rpc (complete K r w) sk) = mSyncResponses (r_rpc w sk) @ new \<and> snd ` set new \<inter> S = {}"
    and "mState (b_socks w sk) = DISCONNECTED \<Longrightarrow>
      mSyncResponses (r_rpc (complete K r w) sk) = mSyncResponses (r_rpc w sk) \<and>
      mAsyncResponses (r_rpc (complete K r w) sk) = mAsyncResponses (r_rpc w sk) \<and>
      mState (b_socks (complete K r w) sk) = DISCONNECTED"
proof -
  let ?v = "set_resp r ((r_resp w r)\<lparr>r_mPending := False\<rparr>) w"
  have g: "grows ?v (complete K r w)"
    unfolding complete_def notify_def by (simp add: grows_K grows_refl)
  show "same_outcome (r_resp (complete K r w) r) ((r_resp w r)\<lparr>r_mPending := False\<rparr>)"
    using g assms unfolding grows_def by (metis set_resp_simps(3))
  show "same_outcome (r_resp (complete K r w) r') (r_resp w r')" if "r' \<in> S" "r' \<noteq> r"
    using g that unfolding grows_def by (metis set_resp_simps(4))
  show "\<exists>new. mSyncResponses (r_rpc (complete K r w) sk) = mSyncResponses (r_rpc w sk) @ new \<and> snd ` set new \<inter> S = {}"
    using g by (simp add: grows_def)
  show "mSyncResponses (r_rpc (complete K r w) sk) = mSyncResponses (r_rpc w sk) \<and>
      mAsyncResponses (r_rpc (complete K r w) sk) = mAsyncResponses (r_rpc w sk) \<and>
      mState (b_socks (complete K r w) sk) = DISCONNECTED" if "mState (b_socks w sk) = DISCONNECTED"
    using g that by (simp add: grows_def)
qed

text \<open>Aborting a response.\<close>

lemma abort_effect:
  assumes r: "r \<in> S" and pend: "abortable (r_resp w r)"
  shows "\<exists>w'. onAbort K r e w = (None, w') \<and> aborted_with e (r_resp w' r) \<and>
    (\<forall>r' \<in> S - {r}. same_outcome (r_resp w' r') (r_resp w r')) \<and>
    (\<exists>new. mSyncResponses (r_rpc w' sk) = mSyncResponses (r_rpc w sk) @ new \<and> snd ` set new \<inter> S = {}) \<and>
    (mState (b_socks w sk) = DISCONNECTED \<longrightarrow> mSyncResponses (r_rpc w' sk) = mSyncResponses (r_rpc w sk) \<and>
      mAsyncResponses (r_rpc w' sk) = mAsyncResponses (r_rpc w sk) \<and> mState (b_socks w' sk) = DISCONNECTED)"
proof -
  define x where "x = (if r_void (r_resp w r) then (r_resp w r)\<lparr>r_error := e\<rparr> else (r_resp w r)\<lparr>r_error := e, r_mState := ERROR\<rparr>)"
  define w' where "w' = complete K r (set_resp r x w)"
  have run: "onAbort K r e w = (None, w')"
    using pend by (auto simp: abortable_def onAbort_def void_onAbort_def setError_def setInternalResult_def response_done_def w'_def x_def)
  note eff = complete_effect [OF r, where w = "set_resp r x w", folded w'_def]
  have "same_outcome (r_resp w' r) (x\<lparr>r_mPending := False\<rparr>)" using eff(1) by simp
  then have "aborted_with e (r_resp w' r)"
    by (rule same_outcome_aborted) (simp add: aborted_with_def x_def)
  moreover have "same_outcome (r_resp w' r') (r_resp w r')" if "r' \<in> S" "r' \<noteq> r" for r'
    using eff(2) [OF that] that(2) by simp
  ultimately show ?thesis using run eff(3,4) by (intro exI [of _ w']) simp
qed

lemma sync_response:
  assumes "mSyncResponses (r_rpc w sk) = pre @ (u, r) # post" and "u \<notin> fst ` set pre"
    and "distinct (map snd pre @ [r])" and "snd ` set pre \<subseteq> S"
    and "\<forall>x \<in> set pre. r_mPending (r_resp w (snd x))" and "length pre < fuel"
  shows "\<exists>w'. onSyncResponse K P sk fuel u t m w = Some (onResponse K P r t m w') \<and>
    (\<forall>x \<in> set pre. aborted_with (rpc_error no_response) (r_resp w' (snd x))) \<and>
    (\<forall>r' \<in> S - snd ` set pre. same_outcome (r_resp w' r') (r_resp w r')) \<and>
    (\<exists>new. mSyncResponses (r_rpc w' sk) = post @ new \<and> snd ` set new \<inter> S = {})"
  using assms
proof (induction pre arbitrary: w post fuel)
  case Nil
  let ?w = "set_rpc sk ((r_rpc w sk)\<lparr>mSyncResponses := post\<rparr>) w"
  obtain f where f: "fuel = Suc f" using Nil.prems(6) by (cases fuel) auto
  have "onSyncResponse K P sk fuel u t m w = Some (onResponse K P r t m (notify_one K sk ?w))"
    by (subst onSyncResponse.simps) (simp add: Nil.prems(1) f Let_def)
  moreover have "grows ?w (notify_one K sk ?w)" by (rule grows_notify_one)
  ultimately show ?case by (intro exI [of _ "notify_one K sk ?w"]) (simp add: grows_def)
next
  case (Cons x pre)
  obtain i s where x: "x = (i, s)" by (cases x)
  have iu: "u \<noteq> i" and s: "s \<in> S" "s \<notin> snd ` set pre" using Cons.prems(2,3,4) x by auto
  obtain f where f: "fuel = Suc f" "length pre < f" using Cons.prems(6) by (cases fuel) auto
  let ?q = "pre @ (u, r) # post"
  let ?v = "notify_one K sk (set_rpc sk ((r_rpc w sk)\<lparr>mSyncResponses := ?q\<rparr>) w)"
  have g: "grows (set_rpc sk ((r_rpc w sk)\<lparr>mSyncResponses := ?q\<rparr>) w) ?v" by (rule grows_notify_one)
  have out: "same_outcome (r_resp ?v r') (r_resp w r')" if "r' \<in> S" for r' using g that by (simp add: grows_def)
  obtain new where new: "mSyncResponses (r_rpc ?v sk) = ?q @ new" "snd ` set new \<inter> S = {}" using g by (auto simp: grows_def)
  have "r_mPending (r_resp ?v s)" using out [OF s(1)] Cons.prems(5) x by (simp add: same_outcome_def)
  from abort_effect [OF s(1) pending_abortable [OF this], of "rpc_error no_response"] obtain w1 where
    w1: "onAbort K s (rpc_error no_response) ?v = (None, w1)" "aborted_with (rpc_error no_response) (r_resp w1 s)"
      "\<forall>r' \<in> S - {s}. same_outcome (r_resp w1 r') (r_resp ?v r')"
      "\<exists>new'. mSyncResponses (r_rpc w1 sk) = mSyncResponses (r_rpc ?v sk) @ new' \<and> snd ` set new' \<inter> S = {}" by blast
  obtain new' where new': "mSyncResponses (r_rpc w1 sk) = pre @ (u, r) # (post @ new @ new')" "snd ` set new' \<inter> S = {}"
    using w1(4) new(1) by auto
  have out1: "same_outcome (r_resp w1 r') (r_resp w r')" if "r' \<in> S" "r' \<noteq> s" for r'
    using w1(3) out [OF that(1)] that same_outcome_trans by blast
  have pend: "\<forall>y \<in> set pre. r_mPending (r_resp w1 (snd y))"
  proof
    fix y assume y: "y \<in> set pre"
    then have "snd y \<in> S" "snd y \<noteq> s" using Cons.prems(4) s(2) by auto
    then show "r_mPending (r_resp w1 (snd y))" using out1 Cons.prems(5) y by (simp add: same_outcome_def)
  qed
  obtain w' where w': "onSyncResponse K P sk f u t m w1 = Some (onResponse K P r t m w')"
    "\<forall>x \<in> set pre. aborted_with (rpc_error no_response) (r_resp w' (snd x))"
    "\<forall>r' \<in> S - snd ` set pre. same_outcome (r_resp w' r') (r_resp w1 r')"
    "\<exists>n. mSyncResponses (r_rpc w' sk) = (post @ new @ new') @ n \<and> snd ` set n \<inter> S = {}"
    using Cons.IH [OF new'(1) _ _ _ pend f(2)] Cons.prems(2,3,4) x by auto
  have run: "onSyncResponse K P sk fuel u t m w = onSyncResponse K P sk f u t m w1"
    by (subst onSyncResponse.simps) (simp add: Cons.prems(1) x f(1) iu w1(1) Let_def)
  have "aborted_with (rpc_error no_response) (r_resp w' s)"
    using w'(3) s same_outcome_aborted [OF _ w1(2)] by blast
  moreover have "\<forall>r' \<in> S - snd ` set (x # pre). same_outcome (r_resp w' r') (r_resp w r')"
    using w'(3) out1 x by (auto intro: same_outcome_trans)
  moreover have "\<exists>n. mSyncResponses (r_rpc w' sk) = post @ n \<and> snd ` set n \<inter> S = {}"
  proof -
    obtain n where "mSyncResponses (r_rpc w' sk) = (post @ new @ new') @ n" "snd ` set n \<inter> S = {}" using w'(4) by blast
    then show ?thesis using new(2) new'(2) by (intro exI [of _ "new @ new' @ n"]) auto
  qed
  ultimately show ?case using w'(1,2) x unfolding run by (intro exI [of _ w']) auto
qed

text \<open>A disconnected socket aborts everything it waits for.\<close>

lemma abort_sync_all:
  assumes "mState (b_socks w sk) = DISCONNECTED" and "distinct (map snd (mSyncResponses (r_rpc w sk)))"
    and "snd ` set (mSyncResponses (r_rpc w sk)) \<subseteq> S"
    and "\<forall>x \<in> set (mSyncResponses (r_rpc w sk)). abortable (r_resp w (snd x))"
    and "length (mSyncResponses (r_rpc w sk)) \<le> fuel"
  shows "\<exists>w'. abort_sync K sk fuel w = Some (None, w') \<and> mSyncResponses (r_rpc w' sk) = [] \<and>
    mAsyncResponses (r_rpc w' sk) = mAsyncResponses (r_rpc w sk) \<and> mState (b_socks w' sk) = DISCONNECTED \<and>
    (\<forall>x \<in> set (mSyncResponses (r_rpc w sk)). aborted_with connection_aborted (r_resp w' (snd x))) \<and>
    (\<forall>r \<in> S - snd ` set (mSyncResponses (r_rpc w sk)). same_outcome (r_resp w' r) (r_resp w r))"
  using assms
proof (induction "mSyncResponses (r_rpc w sk)" arbitrary: w fuel)
  case Nil
  then show ?case by (subst abort_sync.simps) auto
next
  case (Cons x rest)
  obtain i r where x: "x = (i, r)" by (cases x)
  have q: "mSyncResponses (r_rpc w sk) = (i, r) # rest" using Cons.hyps(2) x by simp
  obtain f where f: "fuel = Suc f" "length rest \<le> f" using Cons.prems(5) q by (cases fuel) auto
  let ?v = "set_rpc sk ((r_rpc w sk)\<lparr>mSyncResponses := rest\<rparr>) w"
  have r: "r \<in> S" "r \<notin> snd ` set rest" "abortable (r_resp ?v r)" using Cons.prems(2,3,4) q by auto
  from abort_effect [OF r(1,3), of connection_aborted] Cons.prems(1) obtain w1 where
    w1: "onAbort K r connection_aborted ?v = (None, w1)" "aborted_with connection_aborted (r_resp w1 r)"
      "\<forall>r' \<in> S - {r}. same_outcome (r_resp w1 r') (r_resp w r')"
      "mSyncResponses (r_rpc w1 sk) = rest" "mAsyncResponses (r_rpc w1 sk) = mAsyncResponses (r_rpc w sk)"
      "mState (b_socks w1 sk) = DISCONNECTED"
    by auto
  have pend: "\<forall>y \<in> set rest. abortable (r_resp w1 (snd y))"
  proof
    fix y assume y: "y \<in> set rest"
    then have "snd y \<in> S" "snd y \<noteq> r" using Cons.prems(3) r(2) q by auto
    then show "abortable (r_resp w1 (snd y))" using w1(3) Cons.prems(4) y q by (simp add: same_outcome_def abortable_def)
  qed
  have "\<exists>w'. abort_sync K sk f w1 = Some (None, w') \<and> mSyncResponses (r_rpc w' sk) = [] \<and>
    mAsyncResponses (r_rpc w' sk) = mAsyncResponses (r_rpc w1 sk) \<and> mState (b_socks w' sk) = DISCONNECTED \<and>
    (\<forall>x \<in> set rest. aborted_with connection_aborted (r_resp w' (snd x))) \<and>
    (\<forall>r \<in> S - snd ` set rest. same_outcome (r_resp w' r) (r_resp w1 r))"
    using Cons.hyps(1) [of w1 f] w1(4,6) pend f(2) Cons.prems(2,3) q by simp
  then obtain w' where w': "abort_sync K sk f w1 = Some (None, w')" "mSyncResponses (r_rpc w' sk) = []"
    "mAsyncResponses (r_rpc w' sk) = mAsyncResponses (r_rpc w sk)" "mState (b_socks w' sk) = DISCONNECTED"
    "\<forall>x \<in> set rest. aborted_with connection_aborted (r_resp w' (snd x))"
    "\<forall>r \<in> S - snd ` set rest. same_outcome (r_resp w' r) (r_resp w1 r)"
    using w1(5) by auto
  have run: "abort_sync K sk fuel w = abort_sync K sk f w1"
    by (subst abort_sync.simps) (simp add: q f(1) w1(1))
  have "aborted_with connection_aborted (r_resp w' r)"
    using w'(6) r same_outcome_aborted [OF _ w1(2)] by blast
  moreover have "\<forall>s \<in> S - snd ` set (mSyncResponses (r_rpc w sk)). same_outcome (r_resp w' s) (r_resp w s)"
    using w'(6) w1(3) q by (auto intro: same_outcome_trans)
  ultimately show ?case using w' q unfolding run by (intro exI [of _ w']) auto
qed

lemma abort_async_all:
  assumes "mState (b_socks w sk) = DISCONNECTED" and "distinct (map snd (mAsyncResponses (r_rpc w sk)))"
    and "snd ` set (mAsyncResponses (r_rpc w sk)) \<subseteq> S"
    and "\<forall>x \<in> set (mAsyncResponses (r_rpc w sk)). abortable (r_resp w (snd x))"
    and "length (mAsyncResponses (r_rpc w sk)) \<le> fuel"
  shows "\<exists>w'. abort_async K pick sk fuel w = Some (None, w') \<and> mAsyncResponses (r_rpc w' sk) = [] \<and>
    mSyncResponses (r_rpc w' sk) = mSyncResponses (r_rpc w sk) \<and>
    (\<forall>x \<in> set (mAsyncResponses (r_rpc w sk)). aborted_with connection_aborted (r_resp w' (snd x))) \<and>
    (\<forall>r \<in> S - snd ` set (mAsyncResponses (r_rpc w sk)). same_outcome (r_resp w' r) (r_resp w r))"
  using assms
proof (induction fuel arbitrary: w)
  case 0
  then show ?case by (subst abort_async.simps) auto
next
  case (Suc fuel)
  let ?m = "mAsyncResponses (r_rpc w sk)"
  show ?case
  proof (cases "?m = []")
    case True
    then show ?thesis by (subst abort_async.simps) auto
  next
    case False
    define k where "k = pick ?m mod length ?m"
    define pre post where "pre = take k ?m" and "post = drop (Suc k) ?m"
    have k: "k < length ?m" using False by (simp add: k_def)
    obtain i r where ir: "?m ! k = (i, r)" by (cases "?m ! k")
    have m: "?m = pre @ (i, r) # post" unfolding pre_def post_def using id_take_nth_drop [OF k] ir by simp
    let ?v = "set_rpc sk ((r_rpc w sk)\<lparr>mAsyncResponses := pre @ post\<rparr>) w"
    have r: "r \<in> S" "r \<notin> snd ` set (pre @ post)" "abortable (r_resp ?v r)" using Suc.prems(2,3,4) unfolding m by auto
    from abort_effect [OF r(1,3), of connection_aborted] Suc.prems(1) obtain w1 where
      w1: "onAbort K r connection_aborted ?v = (None, w1)" "aborted_with connection_aborted (r_resp w1 r)"
        "\<forall>r' \<in> S - {r}. same_outcome (r_resp w1 r') (r_resp w r')"
        "mAsyncResponses (r_rpc w1 sk) = pre @ post" "mSyncResponses (r_rpc w1 sk) = mSyncResponses (r_rpc w sk)"
        "mState (b_socks w1 sk) = DISCONNECTED" by auto
    have pend: "\<forall>y \<in> set (pre @ post). abortable (r_resp w1 (snd y))"
    proof
      fix y assume y: "y \<in> set (pre @ post)"
      then have "snd y \<in> S" "snd y \<noteq> r" using Suc.prems(3) r(2) unfolding m by auto
      then show "abortable (r_resp w1 (snd y))" using w1(3) Suc.prems(4) y unfolding m by (auto simp: same_outcome_def abortable_def)
    qed
    have "distinct (map snd (pre @ post))" "snd ` set (pre @ post) \<subseteq> S" "length (pre @ post) \<le> fuel"
      using Suc.prems(2,3,5) unfolding m by auto
    then obtain w' where w': "abort_async K pick sk fuel w1 = Some (None, w')" "mAsyncResponses (r_rpc w' sk) = []"
      "mSyncResponses (r_rpc w' sk) = mSyncResponses (r_rpc w sk)"
      "\<forall>x \<in> set (pre @ post). aborted_with connection_aborted (r_resp w' (snd x))"
      "\<forall>s \<in> S - snd ` set (pre @ post). same_outcome (r_resp w' s) (r_resp w1 s)"
      using Suc.IH [of w1] w1(4-6) pend by (metis (no_types, lifting))
    have run: "abort_async K pick sk (Suc fuel) w = abort_async K pick sk fuel w1"
      using False w1(1) ir by (subst abort_async.simps) (simp add: Let_def k_def [symmetric] pre_def [symmetric] post_def [symmetric])
    have "aborted_with connection_aborted (r_resp w' r)"
      using w'(5) r same_outcome_aborted [OF _ w1(2)] by blast
    moreover have "\<forall>s \<in> S - snd ` set ?m. same_outcome (r_resp w' s) (r_resp w s)"
      using w'(5) w1(3) unfolding m by (auto intro: same_outcome_trans)
    ultimately show ?thesis using w' unfolding run m by (intro exI [of _ w']) auto
  qed
qed

lemma disconnected_aborts_all:
  assumes disc: "mState (b_socks w sk) = DISCONNECTED"
    and dist: "distinct (waiting_for (r_rpc w sk))" and S: "set (waiting_for (r_rpc w sk)) \<subseteq> S"
    and pend: "\<forall>r \<in> set (waiting_for (r_rpc w sk)). abortable (r_resp w r)"
    and fuel: "length (waiting_for (r_rpc w sk)) \<le> fuel"
  shows "\<exists>w'. onSocketDisconnected K pick sk fuel w = Some (None, w') \<and>
    waiting_for (r_rpc w' sk) = [] \<and>
    (\<forall>r \<in> set (waiting_for (r_rpc w sk)). aborted_with connection_aborted (r_resp w' r))"
proof -
  let ?s = "mSyncResponses (r_rpc w sk)" and ?a = "mAsyncResponses (r_rpc w sk)"
  define v where "v = notify_all K sk w"
  have g: "grows w v" unfolding v_def by (rule grows_notify_all)
  have v: "mSyncResponses (r_rpc v sk) = ?s" "mAsyncResponses (r_rpc v sk) = ?a" "mState (b_socks v sk) = DISCONNECTED"
    using g disc by (auto simp: grows_def)
  have out: "same_outcome (r_resp v r) (r_resp w r)" if "r \<in> S" for r using g that by (simp add: grows_def)
  have set_w: "set (waiting_for (r_rpc w sk)) = snd ` set ?s \<union> snd ` set ?a" by (simp add: waiting_for_def)
  have pend_v: "abortable (r_resp v r)" if "r \<in> snd ` set ?s \<union> snd ` set ?a" for r
    using pend same_outcome_abortable [OF out [of r]] S that unfolding set_w by blast
  have "\<exists>w'. abort_sync K sk fuel v = Some (None, w') \<and> mSyncResponses (r_rpc w' sk) = [] \<and>
    mAsyncResponses (r_rpc w' sk) = mAsyncResponses (r_rpc v sk) \<and> mState (b_socks w' sk) = DISCONNECTED \<and>
    (\<forall>x \<in> set (mSyncResponses (r_rpc v sk)). aborted_with connection_aborted (r_resp w' (snd x))) \<and>
    (\<forall>r \<in> S - snd ` set (mSyncResponses (r_rpc v sk)). same_outcome (r_resp w' r) (r_resp v r))"
    by (rule abort_sync_all) (use v dist S pend_v fuel in \<open>auto simp: waiting_for_def\<close>)
  then obtain w1 where w1: "abort_sync K sk fuel v = Some (None, w1)" "mSyncResponses (r_rpc w1 sk) = []"
    "mAsyncResponses (r_rpc w1 sk) = ?a" "mState (b_socks w1 sk) = DISCONNECTED"
    "\<forall>x \<in> set ?s. aborted_with connection_aborted (r_resp w1 (snd x))"
    "\<forall>r \<in> S - snd ` set ?s. same_outcome (r_resp w1 r) (r_resp v r)" unfolding v by blast
  have sep: "snd x \<notin> snd ` set ?s" if "x \<in> set ?a" for x using dist that by (auto simp: waiting_for_def)
  have pend1: "abortable (r_resp w1 (snd x))" if "x \<in> set ?a" for x
    using w1(6) sep [OF that] pend_v [of "snd x"] S that by (auto simp: same_outcome_def abortable_def waiting_for_def)
  have "\<exists>w'. abort_async K pick sk fuel w1 = Some (None, w') \<and> mAsyncResponses (r_rpc w' sk) = [] \<and>
    mSyncResponses (r_rpc w' sk) = mSyncResponses (r_rpc w1 sk) \<and>
    (\<forall>x \<in> set (mAsyncResponses (r_rpc w1 sk)). aborted_with connection_aborted (r_resp w' (snd x))) \<and>
    (\<forall>r \<in> S - snd ` set (mAsyncResponses (r_rpc w1 sk)). same_outcome (r_resp w' r) (r_resp w1 r))"
    by (rule abort_async_all) (use w1 dist S pend1 fuel in \<open>auto simp: waiting_for_def\<close>)
  then obtain w' where w': "abort_async K pick sk fuel w1 = Some (None, w')" "mAsyncResponses (r_rpc w' sk) = []"
    "mSyncResponses (r_rpc w' sk) = []" "\<forall>x \<in> set ?a. aborted_with connection_aborted (r_resp w' (snd x))"
    "\<forall>r \<in> S - snd ` set ?a. same_outcome (r_resp w' r) (r_resp w1 r)" unfolding w1 by blast
  have "aborted_with connection_aborted (r_resp w' (snd x))" if "x \<in> set ?s" for x
  proof -
    have "snd x \<in> S - snd ` set ?a" using S dist that by (auto simp: waiting_for_def)
    then show ?thesis using w'(5) w1(5) that same_outcome_aborted by blast
  qed
  then show ?thesis using w' w1(1) unfolding onSocketDisconnected_def v_def [symmetric] by (auto simp: waiting_for_def)
qed

text \<open>A completed response with a result among them stops the handler with the exception of \<^verbatim>\<open>setError\<close>.\<close>

lemma abort_sync_fails:
  assumes "mState (b_socks w sk) = DISCONNECTED" and "distinct (map snd (mSyncResponses (r_rpc w sk)))"
    and "snd ` set (mSyncResponses (r_rpc w sk)) \<subseteq> S"
    and "\<not> (\<forall>x \<in> set (mSyncResponses (r_rpc w sk)). abortable (r_resp w (snd x)))"
    and "length (mSyncResponses (r_rpc w sk)) \<le> fuel"
  shows "\<exists>w'. abort_sync K sk fuel w = Some (Some promise_already_satisfied, w')"
  using assms
proof (induction "mSyncResponses (r_rpc w sk)" arbitrary: w fuel)
  case (Cons x rest)
  obtain i r where x: "x = (i, r)" by (cases x)
  have q: "mSyncResponses (r_rpc w sk) = (i, r) # rest" using Cons.hyps(2) x by simp
  obtain f where f: "fuel = Suc f" "length rest \<le> f" using Cons.prems(5) q by (cases fuel) auto
  let ?v = "set_rpc sk ((r_rpc w sk)\<lparr>mSyncResponses := rest\<rparr>) w"
  show ?case
  proof (cases "abortable (r_resp ?v r)")
    case False
    then show ?thesis by (subst abort_sync.simps) (simp add: q f(1) onAbort_satisfied)
  next
    case True
    have r: "r \<in> S" "r \<notin> snd ` set rest" using Cons.prems(2,3) q by auto
    from abort_effect [OF r(1) True, of connection_aborted] Cons.prems(1) obtain w1 where
      w1: "onAbort K r connection_aborted ?v = (None, w1)" "\<forall>r' \<in> S - {r}. same_outcome (r_resp w1 r') (r_resp w r')"
        "mSyncResponses (r_rpc w1 sk) = rest" "mState (b_socks w1 sk) = DISCONNECTED"
      by auto
    obtain y where y: "y \<in> set rest" "\<not> abortable (r_resp w (snd y))" using Cons.prems(4) True q by auto
    then have "snd y \<in> S - {r}" using Cons.prems(3) r(2) q by auto
    then have "\<not> abortable (r_resp w1 (snd y))" using w1(2) y(2) same_outcome_abortable by blast
    then have "\<exists>w'. abort_sync K sk f w1 = Some (Some promise_already_satisfied, w')"
      using Cons.hyps(1) [of w1 f] w1(3,4) y(1) f(2) Cons.prems(2,3) q by auto
    then show ?thesis by (subst abort_sync.simps) (simp add: q f(1) w1(1))
  qed
qed simp

lemma abort_async_fails:
  assumes "mState (b_socks w sk) = DISCONNECTED" and "distinct (map snd (mAsyncResponses (r_rpc w sk)))"
    and "snd ` set (mAsyncResponses (r_rpc w sk)) \<subseteq> S"
    and "\<not> (\<forall>x \<in> set (mAsyncResponses (r_rpc w sk)). abortable (r_resp w (snd x)))"
    and "length (mAsyncResponses (r_rpc w sk)) \<le> fuel"
  shows "\<exists>w'. abort_async K pick sk fuel w = Some (Some promise_already_satisfied, w')"
  using assms
proof (induction fuel arbitrary: w)
  case (Suc fuel)
  let ?m = "mAsyncResponses (r_rpc w sk)"
  define k where "k = pick ?m mod length ?m"
  define pre post where "pre = take k ?m" and "post = drop (Suc k) ?m"
  have ne: "?m \<noteq> []" using Suc.prems(4) by auto
  then have k: "k < length ?m" by (simp add: k_def)
  obtain i r where ir: "?m ! k = (i, r)" by (cases "?m ! k")
  have m: "?m = pre @ (i, r) # post" unfolding pre_def post_def using id_take_nth_drop [OF k] ir by simp
  let ?v = "set_rpc sk ((r_rpc w sk)\<lparr>mAsyncResponses := pre @ post\<rparr>) w"
  have run: "abort_async K pick sk (Suc fuel) w =
      (case onAbort K r connection_aborted ?v of (Some e, w) \<Rightarrow> Some (Some e, w) | (None, w) \<Rightarrow> abort_async K pick sk fuel w)"
    using ne ir by (subst abort_async.simps) (simp add: Let_def k_def [symmetric] pre_def [symmetric] post_def [symmetric])
  show ?case
  proof (cases "abortable (r_resp ?v r)")
    case False
    then show ?thesis unfolding run by (simp add: onAbort_satisfied)
  next
    case True
    have r: "r \<in> S" "r \<notin> snd ` set (pre @ post)" using Suc.prems(2,3) unfolding m by auto
    from abort_effect [OF r(1) True, of connection_aborted] Suc.prems(1) obtain w1 where
      w1: "onAbort K r connection_aborted ?v = (None, w1)" "\<forall>r' \<in> S - {r}. same_outcome (r_resp w1 r') (r_resp w r')"
        "mAsyncResponses (r_rpc w1 sk) = pre @ post" "mState (b_socks w1 sk) = DISCONNECTED" by auto
    obtain y where y: "y \<in> set (pre @ post)" "\<not> abortable (r_resp w (snd y))" using Suc.prems(4) True unfolding m by auto
    then have "snd y \<in> S - {r}" using Suc.prems(3) r(2) unfolding m by auto
    then have bad: "\<not> abortable (r_resp w1 (snd y))" using w1(2) y(2) same_outcome_abortable by blast
    have "\<exists>w'. abort_async K pick sk fuel w1 = Some (Some promise_already_satisfied, w')"
      by (rule Suc.IH) (use w1(3,4) y(1) bad Suc.prems(2,3,5) in \<open>auto simp: m\<close>)
    then show ?thesis unfolding run using w1(1) by simp
  qed
qed simp

lemma disconnected_fails:
  assumes disc: "mState (b_socks w sk) = DISCONNECTED"
    and dist: "distinct (waiting_for (r_rpc w sk))" and S: "set (waiting_for (r_rpc w sk)) \<subseteq> S"
    and bad: "\<not> (\<forall>r \<in> set (waiting_for (r_rpc w sk)). abortable (r_resp w r))"
    and fuel: "length (waiting_for (r_rpc w sk)) \<le> fuel"
  shows "\<exists>w'. onSocketDisconnected K pick sk fuel w = Some (Some promise_already_satisfied, w')"
proof -
  let ?s = "mSyncResponses (r_rpc w sk)" and ?a = "mAsyncResponses (r_rpc w sk)"
  define v where "v = notify_all K sk w"
  have g: "grows w v" unfolding v_def by (rule grows_notify_all)
  have v: "mSyncResponses (r_rpc v sk) = ?s" "mAsyncResponses (r_rpc v sk) = ?a" "mState (b_socks v sk) = DISCONNECTED"
    using g disc by (auto simp: grows_def)
  have S': "snd ` set ?s \<subseteq> S" "snd ` set ?a \<subseteq> S" using S by (auto simp: waiting_for_def)
  have out: "abortable (r_resp v r) = abortable (r_resp w r)" if "r \<in> S" for r
    using g that same_outcome_abortable by (simp add: grows_def)
  show ?thesis
  proof (cases "\<forall>x \<in> set ?s. abortable (r_resp v (snd x))")
    case False
    have "\<exists>w'. abort_sync K sk fuel v = Some (Some promise_already_satisfied, w')"
      by (rule abort_sync_fails) (use v False dist S' fuel in \<open>auto simp: waiting_for_def\<close>)
    then show ?thesis unfolding onSocketDisconnected_def v_def [symmetric] by auto
  next
    case True
    have "\<exists>w'. abort_sync K sk fuel v = Some (None, w') \<and> mSyncResponses (r_rpc w' sk) = [] \<and>
      mAsyncResponses (r_rpc w' sk) = mAsyncResponses (r_rpc v sk) \<and> mState (b_socks w' sk) = DISCONNECTED \<and>
      (\<forall>x \<in> set (mSyncResponses (r_rpc v sk)). aborted_with connection_aborted (r_resp w' (snd x))) \<and>
      (\<forall>r \<in> S - snd ` set (mSyncResponses (r_rpc v sk)). same_outcome (r_resp w' r) (r_resp v r))"
      by (rule abort_sync_all) (use v True dist S' fuel in \<open>auto simp: waiting_for_def\<close>)
    then obtain w1 where w1: "abort_sync K sk fuel v = Some (None, w1)" "mAsyncResponses (r_rpc w1 sk) = ?a"
      "mState (b_socks w1 sk) = DISCONNECTED" "\<forall>r \<in> S - snd ` set ?s. same_outcome (r_resp w1 r) (r_resp v r)"
      unfolding v by blast
    obtain y where y: "y \<in> set ?a" "\<not> abortable (r_resp v (snd y))"
      using bad True out S' by (auto simp: waiting_for_def image_subset_iff)
    then have "snd y \<in> S - snd ` set ?s" using S' dist by (auto simp: waiting_for_def)
    then have bad1: "\<not> abortable (r_resp w1 (snd y))" using w1(4) y(2) same_outcome_abortable by blast
    have "\<exists>w'. abort_async K pick sk fuel w1 = Some (Some promise_already_satisfied, w')"
      by (rule abort_async_fails) (use w1 y(1) bad1 dist S' fuel in \<open>auto simp: waiting_for_def\<close>)
    then show ?thesis using w1(1) unfolding onSocketDisconnected_def v_def [symmetric] by auto
  qed
qed

end

section \<open>Sending a request\<close>

text \<open>Writing a message leaves the RPC state and the connection states alone.\<close>

definition keeps_rpc :: "'a rworld_scheme \<Rightarrow> 'a rworld_scheme \<Rightarrow> bool" where
  "keeps_rpc w w' \<longleftrightarrow> r_rpc w' = r_rpc w \<and> r_resp w' = r_resp w \<and> (\<forall>sk. mState (b_socks w' sk) = mState (b_socks w sk))"

lemma keeps_rpc_trans: "keeps_rpc w w' \<Longrightarrow> keeps_rpc w' w'' \<Longrightarrow> keeps_rpc w w''"
  by (simp add: keeps_rpc_def)

lemma keeps_rpc_refl [simp]: "keeps_rpc w w"
  by (simp add: keeps_rpc_def)

lemma keeps_rpc_doSend: "keeps_rpc w (snd (doSend A sk wr ec w))"
  by (simp add: doSend_def keeps_rpc_def Let_def)

lemma keeps_rpc_send: "keeps_rpc w (snd (sendCurrentBuffer A sk ec w))"
proof -
  let ?b = "(b_socks w sk)\<lparr>mBuffer := shrink (ucast (wr_mPos (mSendBuffer (b_socks w sk)) - buffer_data (mBuffer (b_socks w sk)))) (mBuffer (b_socks w sk))\<rparr>"
  have v: "keeps_rpc w (set_bms sk ?b w)" by (simp add: keeps_rpc_def set_bms_def)
  have "keeps_rpc w (snd (socket_send A sk (mBuffer ?b) 0 ec (set_bms sk ?b w)))"
    unfolding socket_send_def by (rule keeps_rpc_trans [OF v keeps_rpc_doSend])
  then show ?thesis
    unfolding sendCurrentBuffer_def Let_def
    by (auto simp: ec_then_def keeps_rpc_def set_bms_def drop_buffer_def socket_releaseSendBuffer_def set_ctx_def
        split: prod.splits option.splits)
qed

lemma keeps_rpc_next: "keeps_rpc w (snd (next_buffer sk w))"
proof -
  obtain b c where "acquireSendBuffer (w_ctx w) = (b, c)" by (rule prod.exhaust)
  then show ?thesis
    by (simp add: next_buffer_def Let_def socket_acquireSendBuffer_def scheduleFlush_def executeLocal_def
        keeps_rpc_def set_bms_def set_ctx_def)
qed

lemma keeps_rpc_append: "keeps_rpc w (snd (append_message sk i t n fn w))"
  by (simp add: append_message_def Let_def keeps_rpc_def set_bms_def split: prod.split)

lemma keeps_rpc_write: "keeps_rpc w (snd (writeMessage A sk i t n fn ec w))"
proof -
  obtain e ec' v where send: "sendCurrentBuffer A sk ec w = ((e, ec'), v)" by (metis surj_pair)
  obtain acq u where nxt: "next_buffer sk v = (acq, u)" by (rule prod.exhaust)
  have v: "keeps_rpc w v" using keeps_rpc_send [of w A sk ec] send by simp
  have u: "keeps_rpc w u" using keeps_rpc_trans [OF v keeps_rpc_next [of v sk]] nxt by simp
  have app: "keeps_rpc w (snd (append_message sk i t n fn x))" if "keeps_rpc w x" for x
    by (rule keeps_rpc_trans [OF that keeps_rpc_append])
  have "snd (writeMessage A sk i t n fn ec w) \<in>
      {snd (append_message sk i t n fn w), w, v, u, snd (append_message sk i t n fn u)}"
    by (simp add: writeMessage_def Let_def send nxt ec_then_def split_beta split: option.split)
  then show ?thesis using app [OF keeps_rpc_refl] v u app [OF u] by auto
qed

text \<open>Aborting the response of the running fiber touches that response only.\<close>

lemma abort_own: "\<exists>x. snd (onAbort (\<lambda>_ w. w) r e w) = set_resp r x w"
proof -
  have w: "\<exists>x. w = set_resp r x w" by (intro exI [of _ "r_resp w r"]) (simp add: set_resp_def)
  have twice: "set_resp r y (set_resp r x w) = set_resp r y w" for x y by (simp add: set_resp_def)
  show ?thesis
    using w by (auto simp: onAbort_def void_onAbort_def setError_def setInternalResult_def complete_def notify_def twice)
qed

lemma abort_request_own: "\<exists>x. snd (abort_request (\<lambda>_ w. w) r e w) = set_resp r x w"
  using abort_own [of r e w] by (auto simp: abort_request_def split: prod.splits option.splits)

lemma abort_idle:
  assumes "r_mPending (r_resp w r)" and "\<not> r_mWaiting (r_resp w r)"
  shows "\<exists>x. abort_request K r e w = (Refused, set_resp r x w) \<and> aborted_with e x"
proof -
  let ?x = "if r_void (r_resp w r) then (r_resp w r)\<lparr>r_error := e\<rparr> else (r_resp w r)\<lparr>r_error := e, r_mState := ERROR\<rparr>"
  have "abort_request K r e w = (Refused, set_resp r (?x\<lparr>r_mPending := False\<rparr>) w)"
    using assms by (simp add: abort_request_def onAbort_def void_onAbort_def setError_def setInternalResult_def
        response_done_def complete_def notify_def set_resp_def)
  then show ?thesis by (auto simp: aborted_with_def)
qed

lemma request_effect:
  assumes v: "v = snd (sendRequest (\<lambda>_ w. w) A sk r t n fn w)"
  shows "(\<forall>r'. r' \<noteq> r \<longrightarrow> r_resp v r' = r_resp w r') \<and> mState (b_socks v sk) = mState (b_socks w sk) \<and>
    mAsyncResponses (r_rpc v sk) = mAsyncResponses (r_rpc w sk) \<and>
    (mSyncResponses (r_rpc v sk) = mSyncResponses (r_rpc w sk) \<or>
     isConnected (b_socks w sk) \<and> (\<exists>u. mSyncResponses (r_rpc v sk) = mSyncResponses (r_rpc w sk) @ [(u, r)]))"
proof -
  let ?w1 = "set_rpc sk ((r_rpc w sk)\<lparr>mUserId := mUserId (r_rpc w sk) + 1\<rparr>) w"
  obtain e ec w2 where wr: "writeMessage A sk (msg_buildId (mUserId (r_rpc w sk) + 1) False) t n fn no_error ?w1 = ((e, ec), w2)"
    by (metis surj_pair)
  have k: "r_rpc w2 = r_rpc ?w1" "r_resp w2 = r_resp w" "mState (b_socks w2 sk) = mState (b_socks w sk)"
    using keeps_rpc_write [of ?w1 A sk "msg_buildId (mUserId (r_rpc w sk) + 1) False" t n fn no_error]
    by (simp_all add: wr keeps_rpc_def)
  obtain x where x: "snd (abort_request (\<lambda>_ w. w) r connection_aborted w) = set_resp r x w" using abort_request_own by blast
  obtain y where y: "snd (abort_request (\<lambda>_ w. w) r ec w2) = set_resp r y w2" using abort_request_own by blast
  show ?thesis
    unfolding v sendRequest_def Let_def by (auto simp: wr k x y cv_wait_def split: option.split)
qed

text \<open>
  The caller that \<^verbatim>\<open>sendRequest\<close> suspended: when its fiber is resumed it sends its request, unless
  the request is one of those that are sent already, for which it has been waiting.
\<close>

definition request_fiber ::
  "adapter \<Rightarrow> sid \<Rightarrow> rid set \<Rightarrow> (fid \<Rightarrow> rid \<times> u32 \<times> u32 \<times> content) \<Rightarrow> 'a fibers" where
  "request_fiber A sk S req f w =
    (case req f of (r, t, n, fn) \<Rightarrow>
       if r \<in> S then snd (response_resumed r w) else snd (sendRequest (\<lambda>_ w. w) A sk r t n fn w))"

interpretation sender: fiber_code "request_fiber A sk S req" sk S for A sk S req
proof
  fix f r and w :: "'a rworld_scheme"
  obtain q t n fn where req: "req f = (q, t, n, fn)" by (metis surj_pair)
  note eff = request_effect [OF refl, where A = A and sk = sk and r = q and t = t and n = n and fn = fn and w = w]
  have K: "request_fiber A sk S req f w =
      (if q \<in> S then snd (response_resumed q w) else snd (sendRequest (\<lambda>_ w. w) A sk q t n fn w))"
    by (simp add: request_fiber_def req)
  show "\<exists>new. mSyncResponses (r_rpc (request_fiber A sk S req f w) sk) = mSyncResponses (r_rpc w sk) @ new \<and> snd ` set new \<inter> S = {}"
    using eff unfolding K by (auto simp: response_resumed_def)
  show "same_outcome (r_resp (request_fiber A sk S req f w) r) (r_resp w r)" if "r \<in> S"
    using eff that unfolding K by (cases "r = q") (auto simp: response_resumed_def same_outcome_def set_resp_def)
  show "mSyncResponses (r_rpc (request_fiber A sk S req f w) sk) = mSyncResponses (r_rpc w sk) \<and>
      mAsyncResponses (r_rpc (request_fiber A sk S req f w) sk) = mAsyncResponses (r_rpc w sk) \<and>
      mState (b_socks (request_fiber A sk S req f w) sk) = DISCONNECTED" if "mState (b_socks w sk) = DISCONNECTED"
    using eff that unfolding K by (auto simp: response_resumed_def isConnected_def)
qed

end
