(* ===== verification/Infinio_Rpc_Spec.thy ===== *)
theory Infinio_Rpc_Spec
  imports Infinio_Calls
begin

text \<open>
  The contract of the RPC layer: a request that is sent is in the mailbox and in the queue of pending
  responses, a response completes the request it answers, a lost connection completes all of them,
  and an error that a server returns is the error its client sees.
\<close>

section \<open>Sending\<close>

lemma implements_rpc [simp]:
  "implements (set_rpc sk x w) a = implements w a" "implements (set_resp r y w) a = implements w a"
  by (simp_all add: implements_def set_rpc_def set_resp_def)

lemma full_queue:
  assumes "length xs \<le> unat (m :: u64)"
  shows "of_nat (length xs) < m \<longleftrightarrow> length xs < unat m"
  using assms u64_lt [of m] by (simp add: word_less_nat_alt unat_of_nat_u64)

text \<open>The outcome of \<^verbatim>\<open>sendRequest\<close>, one line for each way it can end.\<close>

definition request_outcome ::
  "adapter \<Rightarrow> sid \<Rightarrow> rid \<Rightarrow> u32 \<Rightarrow> byte list \<Rightarrow> mailbox \<Rightarrow> 'a rworld_scheme \<Rightarrow> request \<Rightarrow> 'a rworld_scheme \<Rightarrow> bool" where
  "request_outcome A sk r t ct a w q w' \<longleftrightarrow>
    (let sync = mSyncResponses (r_rpc w sk); sync' = mSyncResponses (r_rpc w' sk); i = mUserId (r_rpc w sk) + 1 in
     case q of
       Blocked \<Rightarrow> (mState (b_socks w sk) = CONNECTING \<or> length sync = unat (mMaxPendingResponses (r_rpc w sk))) \<and>
         w' = cv_wait sk (r_fiber (r_resp w r)) w
     | Sent \<Rightarrow> isConnected (b_socks w sk) \<and> sync' = sync @ [(i, r)] \<and> mUserId (r_rpc w' sk) = i \<and>
         (\<exists>a'. mb_run (sends_succeed A) a [(sk, msg_buildId i False, t, ct)] a' \<and> implements w' a')
     | Refused \<Rightarrow> sync' = sync \<and> (\<exists>e. is_error e \<and> aborted_with e (r_resp w' r)) \<and>
         (\<exists>a'. mb_run (sends_succeed A) a [] a' \<and> implements w' a')
     | Raised e \<Rightarrow> sync' = sync \<and> r_resp w' = r_resp w)"

lemma connection_aborted_error [simp]: "is_error connection_aborted"
  by (simp add: connection_aborted_def errno_error_def is_error_def)

lemma request_outcomes:
  assumes w: "implements w a" and fn: "writes fn ct" and n: "unat n = length ct" "length ct + 16 < 2 ^ 32"
    and idle: "r_mPending (r_resp w r)" "\<not> r_mWaiting (r_resp w r)"
    and room: "length (mSyncResponses (r_rpc w sk)) \<le> unat (mMaxPendingResponses (r_rpc w sk))"
    and run: "sendRequest K A sk r t n fn w = (q, w')"
  shows "request_outcome A sk r t ct a w q w'"
proof -
  let ?i = "mUserId (r_rpc w sk) + 1"
  let ?w1 = "set_rpc sk ((r_rpc w sk)\<lparr>mUserId := ?i\<rparr>) w"
  let ?ready = "mState (b_socks w sk) \<noteq> CONNECTING \<and> length (mSyncResponses (r_rpc w sk)) < unat (mMaxPendingResponses (r_rpc w sk))"
  obtain e ec w2 where wr: "writeMessage A sk (msg_buildId ?i False) t n fn no_error ?w1 = ((e, ec), w2)"
    by (metis surj_pair)
  have k: "r_rpc w2 = r_rpc ?w1" "r_resp w2 = r_resp w"
    using keeps_rpc_write [of ?w1 A sk "msg_buildId ?i False" t n fn no_error] by (simp_all add: wr keeps_rpc_def)
  have mb: "\<exists>a'. mb_run (sends_succeed A) a (if is_error ec then [] else [(sk, (msg_buildId ?i False, t, ct))]) a' \<and> implements w2 a'"
    if "e = None"
    by (rule run_write [OF _ fn n]) (use w wr that in simp_all)
  consider (blocked) "\<not> ?ready" | (closed) ?ready "\<not> isConnected (b_socks w sk)"
    | (raised) x where ?ready "isConnected (b_socks w sk)" "e = Some x"
    | (failed) ?ready "isConnected (b_socks w sk)" "e = None" "is_error ec"
    | (sent) ?ready "isConnected (b_socks w sk)" "e = None" "\<not> is_error ec" by (cases e) auto
  then show ?thesis
  proof cases
    case blocked
    then show ?thesis using run room by (auto simp: sendRequest_def full_queue request_outcome_def Let_def)
  next
    case closed
    obtain x where x: "abort_request K r connection_aborted w = (Refused, set_resp r x w)" "aborted_with connection_aborted x"
      using abort_idle [OF idle] by blast
    have run': "q = Refused" "w' = set_resp r x w" using run closed room x(1) by (simp_all add: sendRequest_def full_queue)
    show ?thesis unfolding run' using x(2) w mb_run.start
      by (auto simp: request_outcome_def Let_def intro: exI [of _ connection_aborted])
  next
    case raised
    have run': "q = Raised x" "w' = w2" using run raised room by (simp_all add: sendRequest_def full_queue Let_def wr)
    show ?thesis unfolding run' using k by (simp add: request_outcome_def Let_def)
  next
    case failed
    have "\<exists>x. abort_request K r ec w2 = (Refused, set_resp r x w2) \<and> aborted_with ec x"
      by (rule abort_idle) (use idle k in simp_all)
    then obtain x where x: "abort_request K r ec w2 = (Refused, set_resp r x w2)" "aborted_with ec x" by blast
    have run': "q = Refused" "w' = set_resp r x w2" using run failed room x(1) by (simp_all add: sendRequest_def full_queue Let_def wr)
    obtain a' where "mb_run (sends_succeed A) a [] a'" "implements w2 a'" using mb [OF failed(3)] failed(4) by auto
    then show ?thesis unfolding run' using failed(4) x(2) k by (auto simp: request_outcome_def Let_def)
  next
    case sent
    have run': "q = Sent" "w' = set_rpc sk ((r_rpc w2 sk)\<lparr>mSyncResponses := mSyncResponses (r_rpc w2 sk) @ [(mUserId (r_rpc w2 sk), r)]\<rparr>) w2"
      using run sent room by (simp_all add: sendRequest_def full_queue Let_def wr)
    show ?thesis unfolding run' using mb [OF sent(3)] sent(2,4) k by (simp add: request_outcome_def Let_def)
  qed
qed

lemma request_bound:
  assumes "request_outcome A sk r t ct a w q w'" and "q \<noteq> Sent \<or> length (mSyncResponses (r_rpc w sk)) < unat (mMaxPendingResponses (r_rpc w sk))"
    and "length (mSyncResponses (r_rpc w sk)) \<le> unat (mMaxPendingResponses (r_rpc w sk))"
  shows "length (mSyncResponses (r_rpc w' sk)) \<le> unat (mMaxPendingResponses (r_rpc w sk))"
  using assms by (cases q) (auto simp: request_outcome_def Let_def cv_wait_def)

lemma sent_below_bound:
  assumes "sendRequest K A sk r t n fn w = (Sent, w')"
    and "length (mSyncResponses (r_rpc w sk)) \<le> unat (mMaxPendingResponses (r_rpc w sk))"
  shows "length (mSyncResponses (r_rpc w sk)) < unat (mMaxPendingResponses (r_rpc w sk))"
  using assms by (auto simp: sendRequest_def full_queue split: if_splits)

section \<open>Completing\<close>

lemma aborted_error: "aborted_with e (r_resp w r) \<Longrightarrow> response_error r w = (Returned e, w)"
  by (auto simp: aborted_with_def response_error_def waitForResult_def response_wait_def)

lemma aborted_get: "aborted_with e (r_resp w r) \<Longrightarrow> \<not> r_void (r_resp w r) \<Longrightarrow> response_get r w = (Returned (Inl e), w)"
  by (simp add: aborted_with_def response_get_def waitForResult_def response_wait_def)

lemma writes_error: "writes (error_content e) (le_bytes 8 e)"
proof -
  have "error_content e = (\<lambda>s m. (put_bytes m (wr_mPos s) (le_bytes 8 e), no_error))"
    by (simp add: fun_eq_iff error_content_def writer_write_def)
  then show ?thesis using writes_put [of "le_bytes 8 e"] by simp
qed

text \<open>The message of an error response.\<close>

lemma error_response_written:
  assumes "implements w a" and run: "writeErrorResponse A sk mid e w = (Inr True, w')"
  shows "\<exists>a'. mb_run (sends_succeed A) a [(sk, mid, ERROR_TYPE, le_bytes 8 e)] a' \<and> implements w' a'"
proof -
  obtain q ec w2 where wr: "writeMessage A sk mid ERROR_TYPE 8 (error_content e) no_error w = ((q, ec), w2)"
    by (metis surj_pair)
  have q: "q = None" "\<not> is_error ec" "w2 = w'"
    using run by (auto simp: writeErrorResponse_def writeInternalResponse_def wr split: prod.splits option.splits if_splits)
  show ?thesis using run_write [OF assms(1) writes_error _ _ wr [unfolded q(1)]] q(2,3) by simp
qed

lemma handler_error_small: "unat e < 2 ^ 31 \<Longrightarrow> ec_value (handler_error cat e) = int (unat e)"
proof -
  assume e: "unat e < 2 ^ 31"
  have "int (unat e) < int (2 ^ 31)" using e by (simp only: of_nat_less_iff)
  then have i: "int (unat e) < 2 ^ 31" by simp
  have j: "- (2 ^ 31) \<le> int (unat e)" by (rule order_trans [of _ 0]) simp_all
  have u: "unat (ucast e :: u32) = unat e" using e by (simp add: unsigned_ucast_eq take_bit_nat_eq_self)
  have "sint (ucast e :: u32) = signed_take_bit 31 (int (unat (ucast e :: u32)))" by (simp add: sint_uint)
  also have "\<dots> = int (unat e)"
    unfolding u by (rule signed_take_bit_int_eq_self) (use i j in linarith)+
  finally show ?thesis by (simp add: handler_error_def)
qed

context fiber_code
begin

lemma error_effect:
  assumes r: "r \<in> S" and pend: "r_mPending (r_resp w r)"
    and bytes: "get_bytes (w_mem w) (of_nat p) 8 = le_bytes 8 e" and m: "m = \<lparr>rd_mPos = of_nat p, rd_mEnd = x\<rparr>"
  shows "\<exists>w'. onResponse K P r ERROR_TYPE m w = (None, w') \<and> aborted_with (handler_error (r_category (r_resp w r)) e) (r_resp w' r)"
proof -
  have "onResponse K P r ERROR_TYPE m w = onAbort K r (handler_error (r_category (r_resp w r)) e) w"
    using read_u64 [OF bytes, of x] by (simp add: onResponse_def void_onResponse_def result_onResponse_def onAbort_def m)
  then show ?thesis using abort_effect [OF r pending_abortable [OF pend]] by metis
qed

lemma wrong_type_effect:
  assumes "r \<in> S" and "r_mPending (r_resp w r)" and "t \<noteq> ERROR_TYPE" and "t \<noteq> r_type (r_resp w r)"
  shows "\<exists>w'. onResponse K P r t m w = (None, w') \<and> aborted_with (rpc_error wrong_type) (r_resp w' r)"
proof -
  have "onResponse K P r t m w = onAbort K r (rpc_error wrong_type) w"
    using assms by (simp add: onResponse_def void_onResponse_def result_onResponse_def onAbort_def)
  then show ?thesis using abort_effect [OF assms(1) pending_abortable [OF assms(2)]] by metis
qed

lemma result_effect:
  assumes r: "r \<in> S" "r_mPending (r_resp w r)" "\<not> r_void (r_resp w r)" "t = r_type (r_resp w r)" "t \<noteq> ERROR_TYPE"
    and P: "P r m w = setResult K r v w"
  shows "\<exists>w'. onResponse K P r t m w = (None, w') \<and> \<not> r_mPending (r_resp w' r) \<and> r_mState (r_resp w' r) = SET \<and>
    r_value (r_resp w' r) = v \<and> \<not> r_void (r_resp w' r)"
proof -
  let ?x = "(r_resp w r)\<lparr>r_value := v, r_mState := SET\<rparr>"
  define w' where "w' = complete K r (set_resp r ?x w)"
  have run: "P r m w = (None, w')"
    unfolding P w'_def using r(2) by (simp add: setResult_def setInternalResult_def response_done_def)
  have out: "same_outcome (r_resp w' r) (?x\<lparr>r_mPending := False\<rparr>)"
    using complete_effect(1) [OF r(1), of "set_resp r ?x w"] by (simp add: w'_def)
  then have "onResponse K P r t m w = (None, w')"
    using r(3-5) run by (simp add: onResponse_def result_onResponse_def andthen_def same_outcome_def)
  then show ?thesis using out r(3) by (auto simp: same_outcome_def)
qed

end

section \<open>Properties\<close>

text \<open>A process with one connected client socket, and two requests that are sent.\<close>

definition ex_responses :: "rid \<Rightarrow> response" where
  "ex_responses r = (new_response r (r = 1) 9 generic)\<lparr>r_mWaiting := r < 2\<rparr>"

definition ex_rworld :: rworld where
  "ex_rworld = bworld.extend (set_bms 5 ((new_bms (- 1))\<lparr>mState := CONNECTED\<rparr>) ex_bworld)
     (rworld.fields ex_responses (\<lambda>_. (new_rpc 3)\<lparr>mUserId := 2, mSyncResponses := [(1, 0), (2, 1)]\<rparr>) [] [])"

definition ex_request :: "fid \<Rightarrow> rid \<times> u32 \<times> u32 \<times> content" where
  "ex_request f = (f, 9, 0, \<lambda>s m. (m, no_error))"

lemma ex_rworld_simps [simp]:
  "r_rpc ex_rworld sk = (new_rpc 3)\<lparr>mUserId := 2, mSyncResponses := [(1, 0), (2, 1)]\<rparr>"
  "r_resp ex_rworld = ex_responses" "mState (b_socks ex_rworld 5) = CONNECTED" "w_mem ex_rworld = w_mem ex_bworld"
  by (simp_all add: ex_rworld_def bworld.defs rworld.defs set_bms_def)

lemma ex_rworld_implements: "implements ex_rworld (empty_mailbox [1, 0])"
proof -
  have "implements ex_bworld (empty_mailbox [1, 0])" using fresh_implements [OF ex_fresh] by (simp add: ex_ctx)
  then have "implements (set_bms 5 ((new_bms (- 1))\<lparr>mState := CONNECTED\<rparr>) ex_bworld) (empty_mailbox [1, 0])"
    by (rule implements_set_bms) (simp_all add: ex_idle new_bms_def)
  then show ?thesis by (simp add: implements_def ex_rworld_def bworld.defs)
qed

text \<open>
  C26: sending a request. It is blocked while the connection is being established or the limit of
  pending responses is reached; it is sent when the socket is connected, and then its message, with
  the next user id, has been added to the messages of the socket and its response to the queue; if
  the socket is not connected or the message cannot be written its response is aborted with the
  error. The queue never exceeds the limit.
\<close>

theorem request_sent:
  assumes "implements w a" and "writes fn ct" and "unat n = length ct" and "length ct + 16 < 2 ^ 32"
    and "r_mPending (r_resp w r)" and "\<not> r_mWaiting (r_resp w r)"
    and "length (mSyncResponses (r_rpc w sk)) \<le> unat (mMaxPendingResponses (r_rpc w sk))"
    and "sendRequest K A sk r t n fn w = (q, w')"
  shows "request_outcome A sk r t ct a w q w' \<and>
    length (mSyncResponses (r_rpc w' sk)) \<le> unat (mMaxPendingResponses (r_rpc w sk))"
proof
  show out: "request_outcome A sk r t ct a w q w'" by (rule request_outcomes [OF assms])
  show "length (mSyncResponses (r_rpc w' sk)) \<le> unat (mMaxPendingResponses (r_rpc w sk))"
    by (rule request_bound [OF out _ assms(7)]) (use sent_below_bound [OF _ assms(7)] assms(8) in blast)
qed

theorem request_sent_witness:
  "\<exists>w'. sendRequest (\<lambda>_ w. w) ex_adapter 5 2 9 3 (\<lambda>s m. (put_bytes m (wr_mPos s) [7, 8, 9], no_error)) ex_rworld = (Sent, w') \<and>
    mSyncResponses (r_rpc w' 5) = [(1, 0), (2, 1), (3, 2)]"
proof -
  let ?fn = "\<lambda>s m. (put_bytes m (wr_mPos s) [7, 8, 9], no_error)"
  obtain q w' where run: "sendRequest (\<lambda>_ w. w) ex_adapter 5 2 9 3 ?fn ex_rworld = (q, w')" by (rule prod.exhaust)
  have "fst (sendRequest (\<lambda>_ w. w) ex_adapter 5 2 9 3 ?fn ex_rworld) = Sent" by code_simp
  then have q: "q = Sent" by (simp add: run)
  have "request_outcome ex_adapter 5 2 9 [7, 8, 9] (empty_mailbox [1, 0]) ex_rworld q w' \<and>
      length (mSyncResponses (r_rpc w' 5)) \<le> unat (mMaxPendingResponses (r_rpc ex_rworld 5))"
    by (rule request_sent [OF ex_rworld_implements writes_put _ _ _ _ _ run])
      (simp_all add: ex_responses_def new_response_def new_rpc_def)
  then show ?thesis using run q by (simp add: request_outcome_def Let_def new_rpc_def)
qed

text \<open>
  C27: a response completes the request it answers. When the client receives a synchronous response,
  the first pending request with its user id gets the message; the requests sent before it, which
  the server has answered out of order or not at all, are aborted with \<open>no_response\<close>; no other
  pending response changes, and what was queued behind it stays queued in order, before the requests
  that resumed fibers add. An asynchronous response goes to the request started under its user id
  and to none if there is none. The fibers that are resumed may run any code that leaves the pending
  responses to the socket.
\<close>

theorem responses_matched:
  assumes "fiber_code K sk S" and "mSyncResponses (r_rpc w sk) = pre @ (u, r) # post" and "u \<notin> fst ` set pre"
    and "distinct (map snd pre @ [r])" and "snd ` set pre \<subseteq> S"
    and "\<forall>x \<in> set pre. r_mPending (r_resp w (snd x))" and "length pre < fuel"
  shows "(\<exists>w'. onMessage K P sk fuel (msg_buildId u False) t m w = Some (onResponse K P r t m w') \<and>
      (\<forall>x \<in> set pre. aborted_with (rpc_error no_response) (r_resp w' (snd x))) \<and>
      (\<forall>r' \<in> S - snd ` set pre. same_outcome (r_resp w' r') (r_resp w r')) \<and>
      (\<exists>new. mSyncResponses (r_rpc w' sk) = post @ new \<and> snd ` set new \<inter> S = {})) \<and>
    onMessage K P sk fuel (msg_buildId u True) t m w =
      (case map_of (mAsyncResponses (r_rpc w sk)) (ucast u) of
         None \<Rightarrow> Some (None, w) | Some r' \<Rightarrow> Some (onResponse K P r' t m w))"
  using fiber_code.sync_response [OF assms, of P t m] by (simp add: onMessage_def onAsyncResponse_def split: option.split)

theorem responses_matched_witness:
  "\<exists>w'. onMessage (request_fiber ex_adapter 5 {0, 1} ex_request) (\<lambda>_ _ w. (None, w)) 5 2 (msg_buildId 2 False) 9 (new_reader 0 8) ex_rworld =
      Some (onResponse (request_fiber ex_adapter 5 {0, 1} ex_request) (\<lambda>_ _ w. (None, w)) 1 9 (new_reader 0 8) w') \<and>
    aborted_with (rpc_error no_response) (r_resp w' 0) \<and> r_mPending (r_resp w' 1)"
proof -
  have "\<exists>w'. onMessage (request_fiber ex_adapter 5 {0, 1} ex_request) (\<lambda>_ _ w. (None, w)) 5 2 (msg_buildId 2 False) 9 (new_reader 0 8) ex_rworld =
      Some (onResponse (request_fiber ex_adapter 5 {0, 1} ex_request) (\<lambda>_ _ w. (None, w)) 1 9 (new_reader 0 8) w') \<and>
    (\<forall>x \<in> set [(1 :: u32, 0 :: rid)]. aborted_with (rpc_error no_response) (r_resp w' (snd x))) \<and>
    (\<forall>r' \<in> {0, 1} - snd ` set [(1 :: u32, 0 :: rid)]. same_outcome (r_resp w' r') (r_resp ex_rworld r')) \<and>
    (\<exists>new. mSyncResponses (r_rpc w' 5) = [] @ new \<and> snd ` set new \<inter> {0, 1} = {})"
    by (rule conjunct1 [OF responses_matched [OF sender.fiber_code_axioms]])
      (simp_all add: ex_responses_def new_response_def)
  then show ?thesis by (auto simp: same_outcome_def ex_responses_def new_response_def)
qed

text \<open>
  C28: what losing the connection does to the requests that were sent. Once the socket is
  disconnected the handler ends, in whatever order the hash map yields the asynchronous responses and
  whatever the fibers do that are resumed in between. If every response it waits for, synchronous or
  asynchronous, is still pending or has no result, both containers are empty afterwards and every one
  of these responses is completed with \<open>connection_aborted\<close>. If one of them has a result and is already
  completed, which happens to an asynchronous request that could not be sent, the handler ends with
  the exception \<open>promise_already_satisfied\<close> of its \<^verbatim>\<open>setError\<close>. Requests that were never sent because
  they wait for a slot are not among these responses: they are resumed before the containers are
  emptied and may wait again.
\<close>

theorem disconnect_completes_all:
  assumes "fiber_code K sk S" and "mState (b_socks w sk) = DISCONNECTED"
    and "distinct (waiting_for (r_rpc w sk))" and "set (waiting_for (r_rpc w sk)) \<subseteq> S"
    and "length (waiting_for (r_rpc w sk)) \<le> fuel"
  shows "\<exists>q w'. onSocketDisconnected K pick sk fuel w = Some (q, w') \<and>
    (if \<forall>r \<in> set (waiting_for (r_rpc w sk)). abortable (r_resp w r)
     then q = None \<and> waiting_for (r_rpc w' sk) = [] \<and>
       (\<forall>r \<in> set (waiting_for (r_rpc w sk)). aborted_with connection_aborted (r_resp w' r))
     else q = Some promise_already_satisfied)"
proof (cases "\<forall>r \<in> set (waiting_for (r_rpc w sk)). abortable (r_resp w r)")
  case True
  then show ?thesis using fiber_code.disconnected_aborts_all [OF assms(1-4) True assms(5), of pick] by simp
next
  case False
  then show ?thesis using fiber_code.disconnected_fails [OF assms(1-4) False assms(5), of pick] by simp
qed

definition ex_lost :: rworld where
  "ex_lost = set_bms 5 ((b_socks ex_rworld 5)\<lparr>mState := DISCONNECTED\<rparr>) ex_rworld"

lemma ex_lost_simps [simp]:
  "r_rpc ex_lost = r_rpc ex_rworld" "r_resp ex_lost = ex_responses" "mState (b_socks ex_lost 5) = DISCONNECTED"
  by (simp_all add: ex_lost_def set_bms_def)

theorem disconnect_completes_all_witness:
  "\<exists>w'. onSocketDisconnected (request_fiber ex_adapter 5 {0, 1} ex_request) (\<lambda>_. 0) 5 2 ex_lost = Some (None, w') \<and>
    waiting_for (r_rpc w' 5) = [] \<and> aborted_with connection_aborted (r_resp w' 1)"
  using disconnect_completes_all [OF sender.fiber_code_axioms [of ex_adapter 5 "{0, 1}" ex_request], where w = ex_lost and
        fuel = 2 and pick = "\<lambda>_. 0"]
  by (auto simp: waiting_for_def new_rpc_def ex_responses_def new_response_def abortable_def)

text \<open>
  C29: an error travels from the server to the caller. When \<^verbatim>\<open>writeErrorResponse\<close> reports success, one
  message has been added to the messages of the server's socket: it has the id of the request, the
  error type, and the code in eight bytes as its content. A client that receives this content under the error type completes the request with that
  code in the category of the request's handler, and both \<^verbatim>\<open>error\<close> and \<^verbatim>\<open>get\<close> report it; the value is
  the server's as long as it fits a positive 32-bit integer. A message of an unexpected type completes
  the request with \<open>wrong_type\<close>.
\<close>

theorem server_error_reaches_caller:
  assumes "implements ws a" and "writeErrorResponse A srv mid e ws = (Inr True, ws')"
    and "fiber_code K sk S" and "r \<in> S" and "r_mPending (r_resp w r)"
    and "get_bytes (w_mem w) (of_nat p) 8 = le_bytes 8 e" and "m = \<lparr>rd_mPos = of_nat p, rd_mEnd = x\<rparr>"
    and "t \<noteq> ERROR_TYPE" and "t \<noteq> r_type (r_resp w r)"
  shows "(\<exists>a'. mb_run (sends_succeed A) a [(srv, mid, ERROR_TYPE, le_bytes 8 e)] a' \<and> implements ws' a') \<and>
    (\<exists>w'. onResponse K P r ERROR_TYPE m w = (None, w') \<and>
      response_error r w' = (Returned (handler_error (r_category (r_resp w r)) e), w') \<and>
      (r_void (r_resp w' r) \<or> response_get r w' = (Returned (Inl (handler_error (r_category (r_resp w r)) e)), w'))) \<and>
    (unat e < 2 ^ 31 \<longrightarrow> ec_value (handler_error (r_category (r_resp w r)) e) = int (unat e)) \<and>
    (\<exists>w'. onResponse K P r t m w = (None, w') \<and> response_error r w' = (Returned (rpc_error wrong_type), w'))"
proof -
  obtain v where v: "onResponse K P r ERROR_TYPE m w = (None, v)"
    "aborted_with (handler_error (r_category (r_resp w r)) e) (r_resp v r)"
    using fiber_code.error_effect [OF assms(3-7)] by blast
  obtain u where u: "onResponse K P r t m w = (None, u)" "aborted_with (rpc_error wrong_type) (r_resp u r)"
    using fiber_code.wrong_type_effect [OF assms(3-5,8,9)] by blast
  show ?thesis
    using v(1) aborted_error [OF v(2)] aborted_get [OF v(2)] u(1) aborted_error [OF u(2)] handler_error_small
      error_response_written [OF assms(1,2)] by auto
qed

theorem server_error_reaches_caller_witness:
  "\<exists>ws' a' w'. writeErrorResponse ex_adapter 5 (msg_buildId 1 False) 42 ex_rworld = (Inr True, ws') \<and>
    mb_run (sends_succeed ex_adapter) (empty_mailbox [1, 0]) [(5, msg_buildId 1 False, ERROR_TYPE, le_bytes 8 (42 :: u64))] a' \<and>
    onResponse (request_fiber ex_adapter 5 {0, 1} ex_request) (\<lambda>_ _ w. (None, w)) 0 ERROR_TYPE \<lparr>rd_mPos = 0x100, rd_mEnd = 0x108\<rparr>
      (ex_rworld\<lparr>w_mem := put_bytes (w_mem ex_rworld) 0x100 (le_bytes 8 (42 :: u64))\<rparr>) = (None, w') \<and>
    response_error 0 w' = (Returned \<lparr>ec_value = 42, ec_category = generic\<rparr>, w')"
proof -
  let ?w = "ex_rworld\<lparr>w_mem := put_bytes (w_mem ex_rworld) 0x100 (le_bytes 8 (42 :: u64))\<rparr>"
  obtain q ws' where ws: "writeErrorResponse ex_adapter 5 (msg_buildId 1 False) 42 ex_rworld = (q, ws')" by (rule prod.exhaust)
  have "fst (writeErrorResponse ex_adapter 5 (msg_buildId 1 False) 42 ex_rworld) = Inr True" by code_simp
  then have run: "writeErrorResponse ex_adapter 5 (msg_buildId 1 False) 42 ex_rworld = (Inr True, ws')" by (simp add: ws)
  have "handler_error generic 42 = \<lparr>ec_value = 42, ec_category = generic\<rparr>" by (simp add: handler_error_def)
  moreover have "get_bytes (w_mem ?w) (of_nat 0x100) 8 = le_bytes 8 (42 :: u64)" by (simp add: get_put_same)
  ultimately show ?thesis
    using server_error_reaches_caller [OF ex_rworld_implements run sender.fiber_code_axioms [of ex_adapter 5 "{0, 1}" ex_request],
        where r = 0 and w = ?w and p = "0x100" and m = "\<lparr>rd_mPos = 0x100, rd_mEnd = 0x108\<rparr>" and x = "0x108" and t = 8 and
        P = "\<lambda>_ _ w. (None, w)"] run
    by (auto simp: ex_responses_def new_response_def ERROR_TYPE_def)
qed

end
