(* ===== verification/Infinio_Findings.thy ===== *)
theory Infinio_Findings
  imports Infinio_Rpc_Spec
begin

text \<open>
  Runs of the Infiniband and RPC layers in which an operation does not do what it means to.
\<close>

text \<open>
  The range check of a remote access adds offset and length in 64 bits: with an offset just below
  the end of the number range, a read far outside a region of 100 bytes is posted.
\<close>

lemma remote_range_wraps:
  "fst (doRead ex_adapter 0 \<lparr>mAddress = 0x5000, mLength = 100, mKey = 9\<rparr> (- 8)
     (of_buffer \<lparr>mHandle = \<lparr>sge_addr = 0x1000, sge_length = 20, sge_lkey = 7\<rparr>, mId = 1\<rparr>) 3 True no_error ex_world) = (None, no_error)"
  by code_simp

text \<open>
  Reporting that a connection could not be established always raises: the state is set to
  disconnected first, and the error handler then shuts down, which only a connected socket allows.
\<close>

lemma failed_connection_raises:
  "is_error ec \<Longrightarrow> fst (bms_onConnected A app sk data ec w) = Some not_connected"
  by (simp add: bms_onConnected_def handleSocketError_def shutdown_def set_bms_def)

text \<open>After a local shutdown, a failed send and the disconnect of the peer raise as well.\<close>

lemma late_events_raise:
  assumes "mState (b_socks w sk) = SHUTDOWN" and "is_error ec"
  shows "fst (bms_onSend A sk u ec w) = Some not_connected" and "fst (bms_onDisconnect A sk w) = Some not_connected"
  using assms by (simp_all add: bms_onSend_def bms_onDisconnect_def handleSocketError_def shutdown_def)

text \<open>The length check of a message wraps: a length of almost \<open>2 ^ 32\<close> asks for eight bytes.\<close>

lemma message_length_wraps: "HEADER_SIZE + (- 8 :: u32) = 8"
  by (simp add: HEADER_SIZE_def)

text \<open>A response with a user id that no request has aborts every pending request.\<close>

lemma unknown_response_aborts_all:
  "(case onSyncResponse (\<lambda>_ w. w) (\<lambda>_ _ w. (None, w)) 5 3 77 9 (new_reader 0 8) ex_rworld of
      Some (None, w) \<Rightarrow> mSyncResponses (r_rpc w 5) = [] \<and> \<not> r_mPending (r_resp w 0) \<and> \<not> r_mPending (r_resp w 1)
    | _ \<Rightarrow> False)"
  by code_simp

text \<open>
  A request that waits because the limit of pending responses is reached is not resumed for good when
  the connection is lost: the waiting fibers are resumed before the queue is emptied, so the request
  finds the queue full and waits again, and nothing resumes it after that.
\<close>

definition ex_full :: rworld where
  "ex_full = set_rpc 5 ((r_rpc ex_lost 5)\<lparr>mMaxPendingResponses := 2, mWaitingRequests := [7]\<rparr>) ex_lost"

lemma blocked_request_left_waiting:
  "(case onSocketDisconnected (request_fiber ex_adapter 5 {0, 1} ex_request) (\<lambda>_. 0) 5 5 ex_full of
      Some (None, w) \<Rightarrow> mSyncResponses (r_rpc w 5) = [] \<and> mWaitingRequests (r_rpc w 5) = [7] \<and> r_mPending (r_resp w 7)
    | _ \<Rightarrow> False)"
  by code_simp

text \<open>
  An asynchronous request that could not be sent stays in the map of pending responses after it has
  been aborted; losing the connection then aborts it a second time, which raises.
\<close>

definition ex_async :: rworld where
  "ex_async = set_rpc 5 ((r_rpc ex_lost 5)\<lparr>mSyncResponses := []\<rparr>) ex_lost"

lemma async_aborted_twice:
  "(case startAsyncRequest 5 8 2 ex_async of (_, w) \<Rightarrow>
     case sendAsyncRequest (\<lambda>_ w. w) ex_adapter 5 8 2 9 0 (\<lambda>s m. (m, no_error)) w of (q, w) \<Rightarrow>
       q = Refused \<and> map_option fst (onSocketDisconnected (\<lambda>_ w. w) (\<lambda>_. 0) 5 5 w) = Some (Some promise_already_satisfied))"
  by code_simp

text \<open>A mapping is lost when its registration fails: the constructor raises and nothing unmaps it.\<close>

lemma failed_registration_leaks:
  "mmap len = Inr data \<Longrightarrow> reg data len = Inl x \<Longrightarrow>
    \<exists>e s'. allocated_create mmap reg len s = (Inl e, s') \<and> mapped s' = (data, len) # mapped s"
  by (simp add: allocated_create_def allocateMemory_def region_create_def log_call_def)

end
