(* ===== verification/Refinement.thy ===== *)
theory Refinement
  imports Prelude
begin

text \<open>
  Functional refinement: a component whose operations, run one after the other, give the results of
  an abstract component. An operation may fail to return (\<open>None\<close>); the contract says that it returns
  while the component has the resources for it, counted by a natural number that each operation uses
  up by one.
\<close>

fun run_ops :: "('op \<Rightarrow> 's \<Rightarrow> ('r \<times> 's) option) \<Rightarrow> 'op list \<Rightarrow> 's \<Rightarrow> ('r list \<times> 's) option" where
  "run_ops step [] s = Some ([], s)"
| "run_ops step (a # as) s =
    (case step a s of
       None \<Rightarrow> None
     | Some (r, s) \<Rightarrow> map_option (\<lambda>(rs, s). (r # rs, s)) (run_ops step as s))"

fun run_spec :: "('op \<Rightarrow> 'a \<Rightarrow> 'r \<times> 'a) \<Rightarrow> 'op list \<Rightarrow> 'a \<Rightarrow> 'r list \<times> 'a" where
  "run_spec step [] s = ([], s)"
| "run_spec step (a # as) s = (case step a s of (r, s) \<Rightarrow> case run_spec step as s of (rs, s) \<Rightarrow> (r # rs, s))"

locale functional_refinement =
  fixes step :: "'op \<Rightarrow> 's \<Rightarrow> ('r \<times> 's) option"
    and spec :: "'op \<Rightarrow> 'a \<Rightarrow> 'r \<times> 'a"
    and allowed :: "'op \<Rightarrow> bool"
    and inv :: "nat \<Rightarrow> 's \<Rightarrow> bool"
    and abs :: "'s \<Rightarrow> 'a"
  assumes simulates: "inv (Suc n) s \<Longrightarrow> allowed a \<Longrightarrow>
    \<exists>r s'. step a s = Some (r, s') \<and> inv n s' \<and> spec a (abs s) = (r, abs s')"
begin

lemma simulates_run:
  assumes "inv (length as + n) s" and "\<forall>a \<in> set as. allowed a"
  shows "\<exists>rs s'. run_ops step as s = Some (rs, s') \<and> inv n s' \<and> run_spec spec as (abs s) = (rs, abs s')"
  using assms
proof (induction as arbitrary: s)
  case (Cons a as)
  then obtain r s1 where "step a s = Some (r, s1)" "inv (length as + n) s1" "spec a (abs s) = (r, abs s1)"
    using simulates [of "length as + n" s a] by auto
  then show ?case using Cons.IH [of s1] Cons.prems(2) by auto
qed simp

end

end
