(* ===== verification/Concurrent_Map.thy ===== *)
theory Concurrent_Map
  imports Refinement
begin

text \<open>
  The hash map of \<^verbatim>\<open>concurrent_map.hpp\<close>: buckets with one element in place and a vector for the
  others, doubled when the number of elements reaches the load factor. Every access to a bucket holds
  the lock of its hash, and a resize holds all locks; the part of an operation under the lock is
  one step. Inserting first calls \<^verbatim>\<open>reserve\<close> with a count read before, so any sequence of reserves and
  locked steps is a possible run of several threads.

  The template parameters keep their defaults (32 locks, 32 buckets, load factor 75); the hash
  function and the values of default-constructed keys and values are the record \<open>traits\<close>. An element
  that is moved from keeps its content, which nothing reads.
\<close>

unbundle bit_operations_syntax

section \<open>State\<close>

datatype ElemState = UNASSIGNED | DELETED | VALID

record ('k, 'v) KeyValueElement =
  el_state :: ElemState
  el_key :: 'k
  el_value :: 'v

record ('k, 'v) Bucket =
  bk_arr :: "('k, 'v) KeyValueElement"
  bk_overflow :: "('k, 'v) KeyValueElement list"

record ('k, 'v) traits =
  t_hash :: "'k \<Rightarrow> u64"
  t_key :: 'k
  t_value :: 'v

record ('k, 'v) concurrent_map =
  cm_buckets :: "('k, 'v) Bucket list"
  cm_count :: u64
  cm_upper_bound :: u64
  cm_bucket_flag :: u64

definition valid_element :: "'k \<Rightarrow> 'v \<Rightarrow> ('k, 'v) KeyValueElement" where
  "valid_element k v = \<lparr>el_state = VALID, el_key = k, el_value = v\<rparr>"

definition new_element :: "('k, 'v) traits \<Rightarrow> ('k, 'v) KeyValueElement" where
  "new_element T = \<lparr>el_state = UNASSIGNED, el_key = t_key T, el_value = t_value T\<rparr>"

definition new_bucket :: "('k, 'v) traits \<Rightarrow> ('k, 'v) Bucket" where
  "new_bucket T = \<lparr>bk_arr = new_element T, bk_overflow = []\<rparr>"

section \<open>Buckets\<close>

text \<open>The loops that look for an element: the position of the first one that satisfies the test.\<close>

fun first_index :: "('e \<Rightarrow> bool) \<Rightarrow> 'e list \<Rightarrow> nat option" where
  "first_index P [] = None"
| "first_index P (e # es) = (if P e then Some 0 else map_option Suc (first_index P es))"

definition is_valid_and_equal :: "'k \<Rightarrow> ('k, 'v) KeyValueElement \<Rightarrow> bool" where
  "is_valid_and_equal k e \<longleftrightarrow> el_state e = VALID \<and> el_key e = k"

definition bucket_insert :: "('k, 'v) traits \<Rightarrow> 'k \<Rightarrow> 'v \<Rightarrow> ('k, 'v) Bucket \<Rightarrow> (bool \<times> 'v) \<times> ('k, 'v) Bucket" where
  "bucket_insert T k v b =
    (let el = bk_arr b; ov = bk_overflow b in
     if el_state el = UNASSIGNED then
       ((True, t_value T), b\<lparr>bk_arr := el\<lparr>el_state := VALID, el_value := v, el_key := k\<rparr>\<rparr>)
     else if el_state el = VALID \<and> el_key el = k then
       ((False, el_value el), b\<lparr>bk_arr := el\<lparr>el_value := v\<rparr>\<rparr>)
     else
       case first_index (\<lambda>e. el_key e = k) ov of
         Some i \<Rightarrow> ((False, el_value (ov ! i)), b\<lparr>bk_overflow := ov[i := (ov ! i)\<lparr>el_value := v\<rparr>]\<rparr>)
       | None \<Rightarrow> ((True, t_value T), b\<lparr>bk_overflow := ov @ [valid_element k v]\<rparr>))"

definition insertNoDuplicateCheck :: "('k, 'v) KeyValueElement \<Rightarrow> ('k, 'v) Bucket \<Rightarrow> ('k, 'v) Bucket" where
  "insertNoDuplicateCheck e b =
    (if el_state (bk_arr b) = UNASSIGNED then b\<lparr>bk_arr := e\<rparr> else b\<lparr>bk_overflow := bk_overflow b @ [e]\<rparr>)"

text \<open>The two private overloads of \<^verbatim>\<open>erase\<close>, for the element in place and for one in the vector.\<close>

definition erase_arr :: "('k, 'v) Bucket \<Rightarrow> 'v \<times> ('k, 'v) Bucket" where
  "erase_arr b =
    (let el = bk_arr b; ov = bk_overflow b in
     (el_value el, if ov \<noteq> [] then b\<lparr>bk_arr := last ov, bk_overflow := butlast ov\<rparr>
                   else b\<lparr>bk_arr := el\<lparr>el_state := UNASSIGNED\<rparr>\<rparr>))"

definition erase_overflow :: "nat \<Rightarrow> ('k, 'v) Bucket \<Rightarrow> 'v \<times> ('k, 'v) Bucket" where
  "erase_overflow i b =
    (let ov = bk_overflow b in (el_value (ov ! i), b\<lparr>bk_overflow := take i ov @ drop (Suc i) ov\<rparr>))"

definition bucket_erase :: "('k, 'v) traits \<Rightarrow> 'k \<Rightarrow> ('k, 'v) Bucket \<Rightarrow> (bool \<times> 'v) \<times> ('k, 'v) Bucket" where
  "bucket_erase T k b =
    (if is_valid_and_equal k (bk_arr b) then case erase_arr b of (v, b) \<Rightarrow> ((True, v), b)
     else
       case first_index (\<lambda>e. el_key e = k) (bk_overflow b) of
         Some i \<Rightarrow> (case erase_overflow i b of (v, b) \<Rightarrow> ((True, v), b))
       | None \<Rightarrow> ((False, t_value T), b))"

definition bucket_at :: "('k, 'v) traits \<Rightarrow> 'k \<Rightarrow> ('k, 'v) Bucket \<Rightarrow> bool \<times> 'v" where
  "bucket_at T k b =
    (if is_valid_and_equal k (bk_arr b) then (True, el_value (bk_arr b))
     else
       case first_index (is_valid_and_equal k) (bk_overflow b) of
         Some i \<Rightarrow> (True, el_value (bk_overflow b ! i))
       | None \<Rightarrow> (False, t_value T))"

text \<open>The function gets the key and a reference to the value; it has a state of its own.\<close>

definition visit_element ::
  "('k \<Rightarrow> 'v \<Rightarrow> 's \<Rightarrow> 'v \<times> 's) \<Rightarrow> ('k, 'v) KeyValueElement \<Rightarrow> 's \<Rightarrow> ('k, 'v) KeyValueElement \<times> 's" where
  "visit_element f e s =
    (if el_state e = VALID then case f (el_key e) (el_value e) s of (v, s) \<Rightarrow> (e\<lparr>el_value := v\<rparr>, s) else (e, s))"

fun visit_all ::
  "('e \<Rightarrow> 's \<Rightarrow> 'e \<times> 's) \<Rightarrow> 'e list \<Rightarrow> 's \<Rightarrow> 'e list \<times> 's" where
  "visit_all f [] s = ([], s)"
| "visit_all f (e # es) s = (case f e s of (e, s) \<Rightarrow> case visit_all f es s of (es, s) \<Rightarrow> (e # es, s))"

definition bucket_for_each :: "('k \<Rightarrow> 'v \<Rightarrow> 's \<Rightarrow> 'v \<times> 's) \<Rightarrow> ('k, 'v) Bucket \<Rightarrow> 's \<Rightarrow> ('k, 'v) Bucket \<times> 's" where
  "bucket_for_each f b s =
    (case visit_element f (bk_arr b) s of (e, s) \<Rightarrow>
     case visit_all (visit_element f) (bk_overflow b) s of (ov, s) \<Rightarrow> (b\<lparr>bk_arr := e, bk_overflow := ov\<rparr>, s))"

text \<open>The function gets a reference to the value and tells whether to erase it.\<close>

definition bucket_exec_on ::
  "('k, 'v) traits \<Rightarrow> 'k \<Rightarrow> ('v \<Rightarrow> bool \<times> 'v) \<Rightarrow> ('k, 'v) Bucket \<Rightarrow> u64 \<Rightarrow> ('k, 'v) Bucket \<times> u64" where
  "bucket_exec_on T k f b n =
    (let el = bk_arr b; ov = bk_overflow b in
     if is_valid_and_equal k el then
       (case f (el_value el) of (er, v) \<Rightarrow>
          let b = b\<lparr>bk_arr := el\<lparr>el_value := v\<rparr>\<rparr> in if er then (snd (erase_arr b), n - 1) else (b, n))
     else
       case first_index (is_valid_and_equal k) ov of
         Some i \<Rightarrow>
           (case f (el_value (ov ! i)) of (er, v) \<Rightarrow>
              let b = b\<lparr>bk_overflow := ov[i := (ov ! i)\<lparr>el_value := v\<rparr>]\<rparr> in
              if er then (snd (erase_overflow i b), n - 1) else (b, n))
       | None \<Rightarrow>
           (case f (t_value T) of (er, v) \<Rightarrow>
              if \<not> er then (insertNoDuplicateCheck (valid_element k v) b, n + 1) else (b, n)))"

text \<open>
  \<^verbatim>\<open>clear\<close>: after the element in place is erased the iterator moves on; erasing in the vector makes the
  iterator invalid, and the next round uses it, which is undefined (\<open>None\<close>).
\<close>

definition bucket_clear :: "('k, 'v) Bucket \<Rightarrow> ('k, 'v) Bucket option" where
  "bucket_clear b =
    (let b = (if el_state (bk_arr b) = VALID then snd (erase_arr b) else b) in
     case first_index (\<lambda>e. el_state e = VALID) (bk_overflow b) of None \<Rightarrow> Some b | Some i \<Rightarrow> None)"

section \<open>The map\<close>

definition ConcurrencyLevel :: u64 where
  "ConcurrencyLevel = 32"

definition InitialCapacity :: u64 where
  "InitialCapacity = 32"

definition LoadFactor :: u64 where
  "LoadFactor = 75"

definition new_map :: "('k, 'v) traits \<Rightarrow> ('k, 'v) concurrent_map" where
  "new_map T = \<lparr>cm_buckets = replicate (unat InitialCapacity) (new_bucket T), cm_count = 0,
     cm_upper_bound = InitialCapacity * LoadFactor div 100, cm_bucket_flag = (- 1) mod InitialCapacity\<rparr>"

definition getMutex :: "u64 \<Rightarrow> u64" where
  "getMutex hash = hash mod ConcurrencyLevel"

text \<open>The index of the bucket of a hash, and an update of that bucket.\<close>

definition getBucket :: "('k, 'v) concurrent_map \<Rightarrow> u64 \<Rightarrow> nat" where
  "getBucket m hash = unat (hash AND cm_bucket_flag m)"

definition set_bucket :: "nat \<Rightarrow> ('k, 'v) Bucket \<Rightarrow> ('k, 'v) concurrent_map \<Rightarrow> ('k, 'v) concurrent_map" where
  "set_bucket i b m = m\<lparr>cm_buckets := (cm_buckets m)[i := b]\<rparr>"

text \<open>Resizing: the elements of the old buckets are moved into new ones.\<close>

definition move_element :: "('k, 'v) traits \<Rightarrow> ('k, 'v) KeyValueElement \<Rightarrow> ('k, 'v) concurrent_map \<Rightarrow> ('k, 'v) concurrent_map" where
  "move_element T e m =
    (let i = getBucket m (t_hash T (el_key e)) in set_bucket i (insertNoDuplicateCheck e (cm_buckets m ! i)) m)"

definition move_bucket :: "('k, 'v) traits \<Rightarrow> ('k, 'v) Bucket \<Rightarrow> ('k, 'v) concurrent_map \<Rightarrow> ('k, 'v) concurrent_map" where
  "move_bucket T b m =
    (if el_state (bk_arr b) = UNASSIGNED then m
     else fold (move_element T) (bk_overflow b) (move_element T (bk_arr b) m))"

definition map_resize :: "('k, 'v) traits \<Rightarrow> u64 \<Rightarrow> ('k, 'v) concurrent_map \<Rightarrow> ('k, 'v) concurrent_map" where
  "map_resize T new_size m =
    fold (move_bucket T) (cm_buckets m)
      (m\<lparr>cm_bucket_flag := (- 1) mod new_size, cm_upper_bound := new_size * LoadFactor div 100,
         cm_buckets := replicate (unat new_size) (new_bucket T)\<rparr>)"

text \<open>The loop that doubles the size; in 64 bits it may never end.\<close>

partial_function (option) double_size :: "u64 \<Rightarrow> u64 \<Rightarrow> u64 option" where
  [code]: "double_size count new_size =
    (if new_size * LoadFactor div 100 < count then double_size count (new_size * 2) else Some new_size)"

definition map_reserve :: "('k, 'v) traits \<Rightarrow> u64 \<Rightarrow> ('k, 'v) concurrent_map \<Rightarrow> ('k, 'v) concurrent_map option" where
  "map_reserve T count m =
    (if count < cm_upper_bound m then Some m
     else map_option (\<lambda>new_size. map_resize T new_size m) (double_size count (of_nat (length (cm_buckets m)) * 2)))"

text \<open>The part of each operation that holds the lock.\<close>

definition insert_locked :: "('k, 'v) traits \<Rightarrow> 'k \<Rightarrow> 'v \<Rightarrow> ('k, 'v) concurrent_map \<Rightarrow> (bool \<times> 'v) \<times> ('k, 'v) concurrent_map" where
  "insert_locked T k v m =
    (let i = getBucket m (t_hash T k) in
     case bucket_insert T k v (cm_buckets m ! i) of (ret, b) \<Rightarrow>
       let m = set_bucket i b m in (ret, if fst ret then m\<lparr>cm_count := cm_count m + 1\<rparr> else m))"

definition exec_on_locked :: "('k, 'v) traits \<Rightarrow> 'k \<Rightarrow> ('v \<Rightarrow> bool \<times> 'v) \<Rightarrow> ('k, 'v) concurrent_map \<Rightarrow> ('k, 'v) concurrent_map" where
  "exec_on_locked T k f m =
    (let i = getBucket m (t_hash T k) in
     case bucket_exec_on T k f (cm_buckets m ! i) (cm_count m) of (b, n) \<Rightarrow> (set_bucket i b m)\<lparr>cm_count := n\<rparr>)"

definition map_insert ::
  "('k, 'v) traits \<Rightarrow> 'k \<Rightarrow> 'v \<Rightarrow> ('k, 'v) concurrent_map \<Rightarrow> ((bool \<times> 'v) \<times> ('k, 'v) concurrent_map) option" where
  "map_insert T k v m = map_option (insert_locked T k v) (map_reserve T (cm_count m) m)"

definition map_erase :: "('k, 'v) traits \<Rightarrow> 'k \<Rightarrow> ('k, 'v) concurrent_map \<Rightarrow> (bool \<times> 'v) \<times> ('k, 'v) concurrent_map" where
  "map_erase T k m =
    (let i = getBucket m (t_hash T k) in
     case bucket_erase T k (cm_buckets m ! i) of (ret, b) \<Rightarrow>
       let m = set_bucket i b m in (ret, if fst ret then m\<lparr>cm_count := cm_count m - 1\<rparr> else m))"

definition map_at :: "('k, 'v) traits \<Rightarrow> 'k \<Rightarrow> ('k, 'v) concurrent_map \<Rightarrow> bool \<times> 'v" where
  "map_at T k m = bucket_at T k (cm_buckets m ! getBucket m (t_hash T k))"

definition map_exec_on ::
  "('k, 'v) traits \<Rightarrow> 'k \<Rightarrow> ('v \<Rightarrow> bool \<times> 'v) \<Rightarrow> ('k, 'v) concurrent_map \<Rightarrow> ('k, 'v) concurrent_map option" where
  "map_exec_on T k f m = map_option (exec_on_locked T k f) (map_reserve T (cm_count m) m)"

definition map_for_each ::
  "('k \<Rightarrow> 'v \<Rightarrow> 's \<Rightarrow> 'v \<times> 's) \<Rightarrow> ('k, 'v) concurrent_map \<Rightarrow> 's \<Rightarrow> ('k, 'v) concurrent_map \<times> 's" where
  "map_for_each f m s = (case visit_all (bucket_for_each f) (cm_buckets m) s of (bs, s) \<Rightarrow> (m\<lparr>cm_buckets := bs\<rparr>, s))"

fun clear_all :: "('k, 'v) Bucket list \<Rightarrow> ('k, 'v) Bucket list option" where
  "clear_all [] = Some []"
| "clear_all (b # bs) =
    (case bucket_clear b of None \<Rightarrow> None | Some b \<Rightarrow> map_option (\<lambda>bs. b # bs) (clear_all bs))"

definition map_clear :: "('k, 'v) concurrent_map \<Rightarrow> ('k, 'v) concurrent_map option" where
  "map_clear m = map_option (\<lambda>bs. m\<lparr>cm_buckets := bs\<rparr>) (clear_all (cm_buckets m))"

definition map_size :: "('k, 'v) concurrent_map \<Rightarrow> u64" where
  "map_size m = cm_count m"

end
