(* ===== verification/Concurrent_Map_Spec.thy ===== *)
theory Concurrent_Map_Spec
  imports Concurrent_Map
begin

text \<open>
  The concurrent map implements a finite map. The invariant says that the buckets partition the keys
  by their hash and hold each key once, that the vector of a bucket is only used while its place is
  taken, and that the counter is the number of keys.
\<close>

section \<open>Buckets\<close>

definition elements :: "('k, 'v) Bucket \<Rightarrow> ('k, 'v) KeyValueElement list" where
  "elements b = (if el_state (bk_arr b) = UNASSIGNED then [] else [bk_arr b]) @ bk_overflow b"

definition entry :: "('k, 'v) KeyValueElement \<Rightarrow> 'k \<times> 'v" where
  "entry e = (el_key e, el_value e)"

definition bucket_map :: "('k, 'v) Bucket \<Rightarrow> 'k \<rightharpoonup> 'v" where
  "bucket_map b = map_of (map entry (elements b))"

definition bucket_ok :: "('k, 'v) Bucket \<Rightarrow> bool" where
  "bucket_ok b \<longleftrightarrow> (el_state (bk_arr b) = UNASSIGNED \<longrightarrow> bk_overflow b = []) \<and>
    (\<forall>e \<in> set (elements b). el_state e = VALID) \<and> distinct (map el_key (elements b))"

lemma first_index_None: "first_index P es = None \<longleftrightarrow> (\<forall>e \<in> set es. \<not> P e)"
  by (induction es) auto

lemma first_index_Some:
  "first_index P es = Some i \<Longrightarrow> \<exists>xs e ys. es = xs @ e # ys \<and> length xs = i \<and> P e \<and> (\<forall>x \<in> set xs. \<not> P x)"
proof (induction es arbitrary: i)
  case (Cons e es)
  show ?case
  proof (cases "P e")
    case True
    then show ?thesis using Cons.prems by (intro exI [of _ "[]"]) auto
  next
    case False
    then obtain j where j: "first_index P es = Some j" "i = Suc j" using Cons.prems by auto
    from Cons.IH [OF j(1)] obtain xs x ys where "es = xs @ x # ys" "length xs = j" "P x" "\<forall>x \<in> set xs. \<not> P x" by blast
    then show ?thesis using False j(2) by (intro exI [of _ "e # xs"]) auto
  qed
qed simp

lemma entry_simps [simp]: "fst (entry e) = el_key e" "snd (entry e) = el_value e" "fst \<circ> entry = el_key"
  by (simp_all add: entry_def fun_eq_iff)

lemma dom_entries: "dom (map_of (map entry es)) = el_key ` set es"
  by (auto simp: dom_map_of_conv_image_fst image_image)

lemma map_of_none: "k \<notin> el_key ` set es \<Longrightarrow> map_of (map entry es) k = None"
  using dom_entries [of es] by blast

lemma map_of_mid:
  assumes "distinct (map el_key (xs @ e # ys))"
  shows "map_of (map entry (xs @ e # ys)) = (map_of (map entry (xs @ ys)))(el_key e \<mapsto> el_value e)"
    and "map_of (map entry (xs @ ys)) = (map_of (map entry (xs @ e # ys)))(el_key e := None)"
proof -
  have none: "map_of (map entry xs) (el_key e) = None" "map_of (map entry ys) (el_key e) = None"
    using assms by (auto intro: map_of_none)
  show eq: "map_of (map entry (xs @ e # ys)) = (map_of (map entry (xs @ ys)))(el_key e \<mapsto> el_value e)"
    using none by (auto simp: fun_eq_iff map_add_def entry_def split: option.split)
  show "map_of (map entry (xs @ ys)) = (map_of (map entry (xs @ e # ys)))(el_key e := None)"
    unfolding eq using none by (auto simp: fun_eq_iff map_add_def)
qed

lemma bucket_map_None: "bucket_map b k = None \<longleftrightarrow> k \<notin> el_key ` set (elements b)"
  unfolding bucket_map_def using dom_entries [of "elements b"] by blast

text \<open>A bucket is empty, holds the key in place, in its vector, or not at all.\<close>

lemma bucket_cases:
  assumes "bucket_ok b"
  obtains (empty) "el_state (bk_arr b) = UNASSIGNED" "bk_overflow b = []" "bucket_map b = Map.empty"
  | (place) "el_state (bk_arr b) = VALID" "el_key (bk_arr b) = k" "bucket_map b k = Some (el_value (bk_arr b))"
  | (vector) xs e ys where "el_state (bk_arr b) = VALID" "el_key (bk_arr b) \<noteq> k" "bk_overflow b = xs @ e # ys"
      "el_key e = k" "el_state e = VALID" "\<forall>x \<in> set xs. el_key x \<noteq> k" "bucket_map b k = Some (el_value e)"
  | (absent) "el_state (bk_arr b) = VALID" "el_key (bk_arr b) \<noteq> k" "\<forall>x \<in> set (bk_overflow b). el_key x \<noteq> k" "bucket_map b k = None"
proof (cases "el_state (bk_arr b) = UNASSIGNED")
  case True
  then show ?thesis using assms empty by (simp add: bucket_ok_def bucket_map_def elements_def)
next
  case False
  then have v: "el_state (bk_arr b) = VALID" using assms by (simp add: bucket_ok_def elements_def)
  show ?thesis
  proof (cases "el_key (bk_arr b) = k")
    case True
    then show ?thesis using place v by (simp add: bucket_map_def elements_def entry_def)
  next
    case ne: False
    show ?thesis
    proof (cases "k \<in> el_key ` set (bk_overflow b)")
      case True
      then obtain e where "e \<in> set (bk_overflow b)" "el_key e = k" by auto
      then obtain xs e ys where s: "bk_overflow b = xs @ e # ys" "el_key e = k" "\<forall>x \<in> set xs. el_key x \<noteq> k"
        using split_list_first_prop [of "bk_overflow b" "\<lambda>e. el_key e = k"] by blast
      have "el_state e = VALID" using assms s(1) by (simp add: bucket_ok_def elements_def v)
      moreover have "map_of (map entry xs) k = None" using s(3) by (auto intro: map_of_none)
      then have "bucket_map b k = Some (el_value e)"
        using s ne by (simp add: bucket_map_def elements_def v entry_def map_add_def)
      ultimately show ?thesis using vector v ne s by blast
    next
      case False
      then show ?thesis using absent v ne by (auto simp: bucket_map_None elements_def)
    qed
  qed
qed

text \<open>What each operation does to a bucket: \<open>changes k x b b'\<close> says that \<open>b'\<close> holds \<open>x\<close> for \<open>k\<close>.\<close>

definition changes :: "'k \<Rightarrow> 'v option \<Rightarrow> ('k, 'v) Bucket \<Rightarrow> ('k, 'v) Bucket \<Rightarrow> bool" where
  "changes k x b b' \<longleftrightarrow> bucket_ok b' \<and> bucket_map b' = (bucket_map b)(k := x)"

lemma changes_same: "bucket_ok b \<Longrightarrow> bucket_map b k = x \<Longrightarrow> changes k x b b"
  by (auto simp: changes_def)

text \<open>The four ways in which the operations modify a bucket.\<close>

lemma insert_changes:
  assumes "bucket_ok b" and "bucket_map b k = None"
  shows "changes k (Some v) b (insertNoDuplicateCheck (valid_element k v) b)"
proof -
  have k: "k \<notin> el_key ` set (elements b)" using assms(2) by (simp add: bucket_map_None)
  show ?thesis
  proof (cases "el_state (bk_arr b) = UNASSIGNED")
    case True
    then show ?thesis using assms(1)
      by (simp add: changes_def insertNoDuplicateCheck_def bucket_ok_def bucket_map_def elements_def valid_element_def entry_def)
  next
    case False
    then have e: "elements (insertNoDuplicateCheck (valid_element k v) b) = elements b @ valid_element k v # []"
      by (simp add: elements_def insertNoDuplicateCheck_def)
    have d: "distinct (map el_key (elements b @ valid_element k v # []))"
      using assms(1) k by (simp add: bucket_ok_def valid_element_def)
    have "bucket_map (insertNoDuplicateCheck (valid_element k v) b) = (bucket_map b)(k \<mapsto> v)"
      unfolding bucket_map_def e using map_of_mid(1) [OF d] by (simp add: valid_element_def)
    moreover have "bucket_ok (insertNoDuplicateCheck (valid_element k v) b)"
      unfolding bucket_ok_def e using assms(1) d False
      by (auto simp: bucket_ok_def insertNoDuplicateCheck_def valid_element_def)
    ultimately show ?thesis by (simp add: changes_def)
  qed
qed

lemma set_place_changes:
  assumes "bucket_ok b" and "el_state (bk_arr b) = VALID"
  shows "changes (el_key (bk_arr b)) (Some v) b (b\<lparr>bk_arr := (bk_arr b)\<lparr>el_value := v\<rparr>\<rparr>)"
  using assms by (simp add: changes_def bucket_ok_def bucket_map_def elements_def entry_def)

lemma set_vector_changes:
  assumes "bucket_ok b" and "el_state (bk_arr b) = VALID" and "bk_overflow b = xs @ e # ys"
  shows "changes (el_key e) (Some v) b (b\<lparr>bk_overflow := xs @ e\<lparr>el_value := v\<rparr> # ys\<rparr>)"
proof -
  let ?a = "bk_arr b"
  have d: "distinct (map el_key ((?a # xs) @ e # ys))" "distinct (map el_key ((?a # xs) @ e\<lparr>el_value := v\<rparr> # ys))"
    using assms by (simp_all add: bucket_ok_def elements_def)
  have "elements b = (?a # xs) @ e # ys"
    "elements (b\<lparr>bk_overflow := xs @ e\<lparr>el_value := v\<rparr> # ys\<rparr>) = (?a # xs) @ e\<lparr>el_value := v\<rparr> # ys"
    using assms(2,3) by (simp_all add: elements_def)
  then show ?thesis
    using assms(1,2) d(2) map_of_mid(1) [OF d(1)] map_of_mid(1) [OF d(2)]
    by (simp add: changes_def bucket_ok_def bucket_map_def del: append_Cons map_append)
qed

lemma erase_arr_changes:
  assumes "bucket_ok b" and "el_state (bk_arr b) = VALID"
  shows "changes (el_key (bk_arr b)) None b (snd (erase_arr b))"
proof (cases "bk_overflow b" rule: rev_exhaust)
  case Nil
  then show ?thesis using assms
    by (simp add: changes_def bucket_ok_def bucket_map_def elements_def erase_arr_def Let_def entry_def)
next
  case (snoc xs e)
  let ?a = "bk_arr b"
  have ok: "el_state e = VALID" "\<forall>x \<in> set xs. el_state x = VALID" "distinct (map el_key (?a # xs @ [e]))"
    using assms snoc by (auto simp: bucket_ok_def elements_def)
  have els: "elements b = ?a # xs @ [e]" "elements (snd (erase_arr b)) = e # xs"
    using assms(2) snoc ok(1) by (simp_all add: elements_def erase_arr_def Let_def)
  have "map_of (map entry (e # xs)) = map_of (map entry (xs @ [e]))"
    using ok(3) by (subst map_of_inject_set) auto
  also have "\<dots> = (map_of (map entry (?a # xs @ [e])))(el_key ?a := None)"
    using map_of_mid(2) [of "[]" ?a "xs @ [e]"] ok(3) by simp
  finally have "bucket_map (snd (erase_arr b)) = (bucket_map b)(el_key ?a := None)"
    unfolding bucket_map_def els .
  moreover have "el_state (bk_arr (snd (erase_arr b))) = VALID" using snoc ok(1) by (simp add: erase_arr_def Let_def)
  ultimately show ?thesis using ok unfolding changes_def bucket_ok_def els by auto
qed

lemma erase_overflow_changes:
  assumes "bucket_ok b" and "el_state (bk_arr b) = VALID" and "bk_overflow b = xs @ e # ys"
  shows "changes (el_key e) None b (snd (erase_overflow (length xs) b))"
proof -
  let ?a = "bk_arr b"
  have d: "distinct (map el_key ((?a # xs) @ e # ys))" using assms by (simp add: bucket_ok_def elements_def)
  have els: "elements b = (?a # xs) @ e # ys" "elements (snd (erase_overflow (length xs) b)) = (?a # xs) @ ys"
    "bk_arr (snd (erase_overflow (length xs) b)) = ?a"
    using assms(2,3) by (simp_all add: elements_def erase_overflow_def Let_def)
  have "bucket_map (snd (erase_overflow (length xs) b)) = (bucket_map b)(el_key e := None)"
    unfolding bucket_map_def els by (rule map_of_mid(2) [OF d])
  then show ?thesis
    using assms(1,2) d unfolding changes_def bucket_ok_def els by auto
qed

lemma first_index_at:
  assumes "\<forall>x \<in> set xs. \<not> P x" and "P e"
  shows "first_index P (xs @ e # ys) = Some (length xs)"
  using assms by (induction xs) auto

section \<open>Operations on a bucket\<close>

lemma bucket_insert_changes:
  assumes ok: "bucket_ok b" and run: "bucket_insert T k v b = (r, b')"
  shows "changes k (Some v) b b' \<and>
    r = (case bucket_map b k of None \<Rightarrow> (True, t_value T) | Some old \<Rightarrow> (False, old))"
  using ok
proof (cases rule: bucket_cases [where k = k])
  case empty
  then have "b' = insertNoDuplicateCheck (valid_element k v) b" "r = (True, t_value T)"
    using run by (auto simp: bucket_insert_def Let_def insertNoDuplicateCheck_def valid_element_def)
  then show ?thesis using insert_changes [OF ok, of k v] empty(3) by simp
next
  case place
  then show ?thesis using run set_place_changes [OF ok place(1), of v] by (auto simp: bucket_insert_def Let_def)
next
  case (vector xs e ys)
  have "first_index (\<lambda>e. el_key e = k) (bk_overflow b) = Some (length xs)"
    unfolding vector(3) using vector by (intro first_index_at) auto
  then show ?thesis
    using run vector set_vector_changes [OF ok vector(1,3), of v] by (auto simp: bucket_insert_def Let_def)
next
  case absent
  then have "b' = insertNoDuplicateCheck (valid_element k v) b" "r = (True, t_value T)"
    using run by (auto simp: bucket_insert_def Let_def insertNoDuplicateCheck_def first_index_None [THEN iffD2])
  then show ?thesis using insert_changes [OF ok, of k v] absent(4) by simp
qed

lemma bucket_erase_changes:
  assumes ok: "bucket_ok b" and run: "bucket_erase T k b = (r, b')"
  shows "changes k None b b' \<and>
    r = (case bucket_map b k of None \<Rightarrow> (False, t_value T) | Some old \<Rightarrow> (True, old))"
  using ok
proof (cases rule: bucket_cases [where k = k])
  case empty
  then show ?thesis using run changes_same [OF ok, of k] by (auto simp: bucket_erase_def is_valid_and_equal_def)
next
  case place
  then show ?thesis using run erase_arr_changes [OF ok place(1)]
    by (auto simp: bucket_erase_def is_valid_and_equal_def erase_arr_def Let_def)
next
  case (vector xs e ys)
  have "first_index (\<lambda>e. el_key e = k) (bk_overflow b) = Some (length xs)"
    unfolding vector(3) using vector by (intro first_index_at) auto
  then show ?thesis
    using run vector erase_overflow_changes [OF ok vector(1,3)]
    by (auto simp: bucket_erase_def is_valid_and_equal_def erase_overflow_def Let_def)
next
  case absent
  then show ?thesis using run changes_same [OF ok, of k]
    by (auto simp: bucket_erase_def is_valid_and_equal_def first_index_None [THEN iffD2])
qed

lemma first_valid_None:
  assumes "bucket_ok b" and "el_state (bk_arr b) = VALID" and "\<forall>x \<in> set (bk_overflow b). el_key x \<noteq> k"
  shows "first_index (is_valid_and_equal k) (bk_overflow b) = None"
  using assms(3) by (simp add: first_index_None is_valid_and_equal_def)

lemma bucket_at_correct:
  assumes ok: "bucket_ok b"
  shows "bucket_at T k b = (case bucket_map b k of None \<Rightarrow> (False, t_value T) | Some v \<Rightarrow> (True, v))"
  using ok
proof (cases rule: bucket_cases [where k = k])
  case (vector xs e ys)
  have "first_index (is_valid_and_equal k) (bk_overflow b) = Some (length xs)"
    unfolding vector(3) using vector by (intro first_index_at) (auto simp: is_valid_and_equal_def)
  then show ?thesis using vector by (simp add: bucket_at_def is_valid_and_equal_def)
next
  case absent
  then show ?thesis using first_valid_None [OF ok absent(1,3)] by (simp add: bucket_at_def is_valid_and_equal_def)
qed (auto simp: bucket_at_def is_valid_and_equal_def)

text \<open>\<^verbatim>\<open>exec_on\<close>: the function sees the value or a default one, and decides what is stored.\<close>

definition exec_value :: "('k, 'v) traits \<Rightarrow> ('v \<Rightarrow> bool \<times> 'v) \<Rightarrow> 'v option \<Rightarrow> 'v option" where
  "exec_value T f x = (case f (case x of None \<Rightarrow> t_value T | Some v \<Rightarrow> v) of (er, v) \<Rightarrow> if er then None else Some v)"

lemma changes_twice: "changes k x b b' \<Longrightarrow> changes k y b' b'' \<Longrightarrow> changes k y b b''"
  by (auto simp: changes_def)

lemma changes_count: "changes k x b b' \<Longrightarrow> bucket_map b' k = x"
  by (simp add: changes_def)

lemma bucket_exec_on_changes:
  assumes ok: "bucket_ok b" and run: "bucket_exec_on T k f b n = (b', n')"
  shows "changes k (exec_value T f (bucket_map b k)) b b' \<and>
    n' = (case (bucket_map b k, exec_value T f (bucket_map b k)) of
            (None, Some _) \<Rightarrow> n + 1 | (Some _, None) \<Rightarrow> n - 1 | _ \<Rightarrow> n)"
proof -
  obtain er v where f: "f (case bucket_map b k of None \<Rightarrow> t_value T | Some v \<Rightarrow> v) = (er, v)" by (rule prod.exhaust)
  have ev: "exec_value T f (bucket_map b k) = (if er then None else Some v)" by (simp add: exec_value_def f)
  from ok show ?thesis
  proof (cases rule: bucket_cases [where k = k])
    case empty
    then show ?thesis using run f ev insert_changes [OF ok, of k v] changes_same [OF ok, of k]
      by (auto simp: bucket_exec_on_def Let_def is_valid_and_equal_def)
  next
    case place
    let ?b = "b\<lparr>bk_arr := (bk_arr b)\<lparr>el_value := v\<rparr>\<rparr>"
    have c: "changes k (Some v) b ?b" using set_place_changes [OF ok place(1), of v] place(2) by simp
    have "changes k None ?b (snd (erase_arr ?b))"
      using erase_arr_changes [of ?b] c place by (simp add: changes_def)
    then show ?thesis using run f ev place c changes_twice [OF c]
      by (auto simp: bucket_exec_on_def Let_def is_valid_and_equal_def)
  next
    case (vector xs e ys)
    let ?b = "b\<lparr>bk_overflow := xs @ e\<lparr>el_value := v\<rparr> # ys\<rparr>"
    have i: "first_index (is_valid_and_equal k) (bk_overflow b) = Some (length xs)"
      unfolding vector(3) using vector by (intro first_index_at) (auto simp: is_valid_and_equal_def)
    have c: "changes k (Some v) b ?b" using set_vector_changes [OF ok vector(1,3), of v] vector(4) by simp
    have "changes k None ?b (snd (erase_overflow (length xs) ?b))"
      using erase_overflow_changes [of ?b xs "e\<lparr>el_value := v\<rparr>" ys] c vector by (simp add: changes_def)
    then show ?thesis using run f ev vector c changes_twice [OF c] i
      by (auto simp: bucket_exec_on_def Let_def is_valid_and_equal_def)
  next
    case absent
    then show ?thesis
      using run f ev insert_changes [OF ok, of k v] changes_same [OF ok, of k] first_valid_None [OF ok absent(1,3)]
      by (auto simp: bucket_exec_on_def Let_def is_valid_and_equal_def)
  qed
qed

section \<open>The map\<close>

definition map_abs :: "('k, 'v) traits \<Rightarrow> ('k, 'v) concurrent_map \<Rightarrow> 'k \<rightharpoonup> 'v" where
  "map_abs T m k = bucket_map (cm_buckets m ! getBucket m (t_hash T k)) k"

text \<open>The geometry of a map with \<open>2 ^ n\<close> buckets, and the distribution of the keys.\<close>

definition map_size_ok :: "nat \<Rightarrow> ('k, 'v) concurrent_map \<Rightarrow> bool" where
  "map_size_ok n m \<longleftrightarrow> 5 \<le> n \<and> n \<le> 55 \<and> length (cm_buckets m) = 2 ^ n \<and> cm_bucket_flag m = mask n \<and>
    cm_upper_bound m = of_nat (2 ^ n * 75 div 100)"

definition keys_ok :: "('k, 'v) traits \<Rightarrow> ('k, 'v) concurrent_map \<Rightarrow> bool" where
  "keys_ok T m \<longleftrightarrow> (\<forall>i < length (cm_buckets m). bucket_ok (cm_buckets m ! i) \<and>
    (\<forall>k \<in> dom (bucket_map (cm_buckets m ! i)). getBucket m (t_hash T k) = i))"

definition map_ok :: "('k, 'v) traits \<Rightarrow> ('k, 'v) concurrent_map \<Rightarrow> bool" where
  "map_ok T m \<longleftrightarrow> (\<exists>n. map_size_ok n m) \<and> keys_ok T m \<and> finite (dom (map_abs T m)) \<and>
    cm_count m = of_nat (card (dom (map_abs T m)))"

lemma getBucket_less: "map_size_ok n m \<Longrightarrow> getBucket m h < length (cm_buckets m)"
proof -
  assume n: "map_size_ok n m"
  have "unat (h AND mask n :: u64) = take_bit n (unat h)"
    by (simp add: take_bit_eq_mask [symmetric] unsigned_take_bit_eq)
  then show ?thesis using n by (simp add: getBucket_def map_size_ok_def)
qed

lemma getBucket_set [simp]: "getBucket (set_bucket i b m) = getBucket m" "getBucket (m\<lparr>cm_count := c\<rparr>) = getBucket m"
  by (simp_all add: fun_eq_iff getBucket_def set_bucket_def)

lemma map_size_ok_set [simp]:
  "map_size_ok n (set_bucket i b m) = map_size_ok n m" "map_size_ok n (m\<lparr>cm_count := c\<rparr>) = map_size_ok n m"
  by (simp_all add: map_size_ok_def set_bucket_def)

lemma map_abs_count [simp]: "map_abs T (m\<lparr>cm_count := c\<rparr>) = map_abs T m" "keys_ok T (m\<lparr>cm_count := c\<rparr>) = keys_ok T m"
  by (simp_all add: fun_eq_iff map_abs_def keys_ok_def)

text \<open>Changing the bucket of a key changes the map at that key.\<close>

lemma set_bucket_changes:
  assumes ok: "keys_ok T m" and i: "i = getBucket m (t_hash T k)" "i < length (cm_buckets m)"
    and ch: "changes k x (cm_buckets m ! i) b"
  shows "keys_ok T (set_bucket i b m)" and "map_abs T (set_bucket i b m) = (map_abs T m)(k := x)"
proof -
  have "getBucket m (t_hash T k') = i" if "k' \<in> dom (bucket_map b)" for k'
  proof -
    have "k' = k \<or> k' \<in> dom (bucket_map (cm_buckets m ! i))" using that ch by (auto simp: changes_def split: if_splits)
    then show ?thesis using ok i unfolding keys_ok_def by auto
  qed
  then have b: "bucket_ok b \<and> (\<forall>k \<in> dom (bucket_map b). getBucket m (t_hash T k) = i)" using ch by (simp add: changes_def)
  show "keys_ok T (set_bucket i b m)"
    unfolding keys_ok_def getBucket_set
  proof (intro allI impI)
    fix j assume "j < length (cm_buckets (set_bucket i b m))"
    then have j: "j < length (cm_buckets m)" "cm_buckets (set_bucket i b m) ! j = (if j = i then b else cm_buckets m ! j)"
      by (simp_all add: set_bucket_def)
    show "bucket_ok (cm_buckets (set_bucket i b m) ! j) \<and>
        (\<forall>k \<in> dom (bucket_map (cm_buckets (set_bucket i b m) ! j)). getBucket m (t_hash T k) = j)"
      unfolding j(2) using b ok j(1) by (cases "j = i") (simp_all add: keys_ok_def)
  qed
  show "map_abs T (set_bucket i b m) = (map_abs T m)(k := x)"
  proof
    fix k'
    show "map_abs T (set_bucket i b m) k' = ((map_abs T m)(k := x)) k'"
      using ch i by (cases "getBucket m (t_hash T k') = i")
        (auto simp: map_abs_def set_bucket_def changes_def getBucket_def)
  qed
qed

text \<open>Moving elements with new keys into the buckets.\<close>

lemma move_element_changes:
  assumes n: "map_size_ok n m" and ok: "keys_ok T m" and e: "el_state e = VALID" "map_abs T m (el_key e) = None"
  shows "keys_ok T (move_element T e m)" and "map_abs T (move_element T e m) = (map_abs T m)(el_key e \<mapsto> el_value e)"
    and "map_size_ok n (move_element T e m)" and "cm_count (move_element T e m) = cm_count m"
proof -
  let ?i = "getBucket m (t_hash T (el_key e))"
  have i: "?i < length (cm_buckets m)" by (rule getBucket_less [OF n])
  have eq: "e = valid_element (el_key e) (el_value e)" using e(1) by (simp add: valid_element_def)
  have "changes (el_key e) (Some (el_value e)) (cm_buckets m ! ?i) (insertNoDuplicateCheck e (cm_buckets m ! ?i))"
    using insert_changes [of "cm_buckets m ! ?i" "el_key e" "el_value e"] ok i e(2) eq [symmetric]
    by (simp add: keys_ok_def map_abs_def)
  from set_bucket_changes [OF ok refl i this]
  show "keys_ok T (move_element T e m)" "map_abs T (move_element T e m) = (map_abs T m)(el_key e \<mapsto> el_value e)"
    by (simp_all add: move_element_def Let_def)
  show "map_size_ok n (move_element T e m)" using n by (simp add: move_element_def Let_def)
  show "cm_count (move_element T e m) = cm_count m" by (simp add: move_element_def Let_def set_bucket_def)
qed

lemma move_elements:
  assumes "map_size_ok n m" and "keys_ok T m" and "\<forall>e \<in> set es. el_state e = VALID \<and> map_abs T m (el_key e) = None"
    and "distinct (map el_key es)"
  shows "keys_ok T (fold (move_element T) es m) \<and> map_size_ok n (fold (move_element T) es m) \<and>
    cm_count (fold (move_element T) es m) = cm_count m \<and>
    map_abs T (fold (move_element T) es m) = map_abs T m ++ map_of (map entry es)"
  using assms
proof (induction es arbitrary: m)
  case (Cons e es)
  have e: "el_state e = VALID" "map_abs T m (el_key e) = None" using Cons.prems(3) by auto
  note mv = move_element_changes [OF Cons.prems(1,2) e]
  have "\<forall>x \<in> set es. el_state x = VALID \<and> map_abs T (move_element T e m) (el_key x) = None"
  proof
    fix x assume x: "x \<in> set es"
    have "el_key e \<notin> el_key ` set es" using Cons.prems(4) by simp
    then have "el_key x \<noteq> el_key e" using x by (metis imageI)
    then show "el_state x = VALID \<and> map_abs T (move_element T e m) (el_key x) = None"
      using Cons.prems(3) x by (simp add: mv(2))
  qed
  moreover have "distinct (map el_key es)" using Cons.prems(4) by simp
  ultimately have IH: "keys_ok T (fold (move_element T) es (move_element T e m)) \<and>
    map_size_ok n (fold (move_element T) es (move_element T e m)) \<and>
    cm_count (fold (move_element T) es (move_element T e m)) = cm_count m \<and>
    map_abs T (fold (move_element T) es (move_element T e m)) = (map_abs T m)(el_key e \<mapsto> el_value e) ++ map_of (map entry es)"
    using Cons.IH [OF mv(3,1)] unfolding mv(2,4) by blast
  have "map_of (map entry es) (el_key e) = None" using Cons.prems(4) by (auto intro: map_of_none)
  then have eq: "(map_abs T m)(el_key e \<mapsto> el_value e) ++ map_of (map entry es) = map_abs T m ++ map_of (map entry (e # es))"
    by (auto simp: fun_eq_iff map_add_def entry_def split: option.split)
  show ?case using IH unfolding fold_simps eq .
qed simp

lemma move_buckets:
  assumes "\<forall>b \<in> set bs. bucket_ok b"
  shows "fold (move_bucket T) bs m = fold (move_element T) (concat (map elements bs)) m"
  using assms
proof (induction bs arbitrary: m)
  case (Cons b bs)
  have "bucket_ok b" using Cons.prems by simp
  then have "el_state (bk_arr b) = UNASSIGNED \<Longrightarrow> bk_overflow b = []" by (simp add: bucket_ok_def)
  then have b: "move_bucket T b m = fold (move_element T) (elements b) m" by (simp add: move_bucket_def elements_def)
  have "\<forall>b \<in> set bs. bucket_ok b" using Cons.prems by simp
  from Cons.IH [OF this] show ?case by (simp only: fold_simps b list.map concat.simps fold_append comp_apply)
qed simp

text \<open>All elements of the map: each key once, and they are the abstract map.\<close>

lemma all_elements_distinct:
  assumes "\<forall>i < length bs. bucket_ok (bs ! i) \<and> (\<forall>k \<in> dom (bucket_map (bs ! i)). f k = d + i)"
  shows "distinct (map el_key (concat (map elements bs)))"
  using assms
proof (induction bs arbitrary: d)
  case (Cons b bs)
  have b: "bucket_ok b" "\<forall>k \<in> dom (bucket_map b). f k = d" using Cons.prems [THEN spec, of 0] by simp_all
  have rest: "\<forall>i < length bs. bucket_ok (bs ! i) \<and> (\<forall>k \<in> dom (bucket_map (bs ! i)). f k = Suc d + i)"
  proof (intro allI impI)
    fix i assume "i < length bs"
    then show "bucket_ok (bs ! i) \<and> (\<forall>k \<in> dom (bucket_map (bs ! i)). f k = Suc d + i)"
      using Cons.prems [THEN spec, of "Suc i"] by simp
  qed
  have other: "f k \<noteq> d" if k: "k \<in> el_key ` set (elements c)" and c: "c \<in> set bs" for k c
  proof -
    obtain i where i: "i < length bs" "c = bs ! i" using c unfolding in_set_conv_nth by blast
    have "k \<in> dom (bucket_map (bs ! i))" using k i(2) by (simp add: bucket_map_def dom_entries)
    then have "f k = Suc d + i" using rest i(1) by blast
    then show ?thesis by simp
  qed
  have own: "f k = d" if "k \<in> el_key ` set (elements b)" for k
    using that b(2) unfolding bucket_map_def dom_entries by blast
  have "k \<notin> el_key ` set (concat (map elements bs))" if k: "k \<in> el_key ` set (elements b)" for k
  proof
    assume "k \<in> el_key ` set (concat (map elements bs))"
    then obtain c where "c \<in> set bs" "k \<in> el_key ` set (elements c)" by auto
    then show False using other own [OF k] by blast
  qed
  then have "el_key ` set (elements b) \<inter> el_key ` set (concat (map elements bs)) = {}" by blast
  then show ?case
    using Cons.IH [OF rest] b(1) unfolding list.map concat.simps map_append distinct_append set_map bucket_ok_def by blast
qed simp

lemma option_eqI: "(\<And>v. x = Some v \<longleftrightarrow> y = Some v) \<Longrightarrow> x = y"
  by (cases x; cases y) auto

lemma map_abs_elements:
  assumes n: "map_size_ok n m" and ok: "keys_ok T m"
  shows "map_abs T m = map_of (map entry (concat (map elements (cm_buckets m))))"
    and "distinct (map el_key (concat (map elements (cm_buckets m))))"
    and "\<forall>e \<in> set (concat (map elements (cm_buckets m))). el_state e = VALID"
proof -
  let ?es = "concat (map elements (cm_buckets m))"
  show dist: "distinct (map el_key ?es)"
    by (rule all_elements_distinct [where f = "\<lambda>k. getBucket m (t_hash T k)" and d = 0]) (use ok in \<open>simp add: keys_ok_def\<close>)
  show "\<forall>e \<in> set ?es. el_state e = VALID"
  proof
    fix e assume "e \<in> set ?es"
    then obtain b where "b \<in> set (cm_buckets m)" "e \<in> set (elements b)" by auto
    moreover from this(1) obtain i where "i < length (cm_buckets m)" "b = cm_buckets m ! i" unfolding in_set_conv_nth by blast
    ultimately show "el_state e = VALID" using ok by (simp add: keys_ok_def bucket_ok_def)
  qed
  have d: "distinct (map fst (map entry ?es))" using dist by simp
  have db: "distinct (map fst (map entry (elements (cm_buckets m ! i))))" if "i < length (cm_buckets m)" for i
    using ok that by (simp add: keys_ok_def bucket_ok_def)
  have "map_abs T m k = Some v \<longleftrightarrow> map_of (map entry ?es) k = Some v" for k v
  proof -
    have "map_of (map entry ?es) k = Some v \<longleftrightarrow> (\<exists>i < length (cm_buckets m). (k, v) \<in> set (map entry (elements (cm_buckets m ! i))))"
    proof -
      have "(k, v) \<in> set (map entry ?es) \<longleftrightarrow> (\<exists>b \<in> set (cm_buckets m). (k, v) \<in> set (map entry (elements b)))" by auto
      then show ?thesis unfolding map_of_eq_Some_iff [OF d] by (metis in_set_conv_nth)
    qed
    also have "\<dots> \<longleftrightarrow> (\<exists>i < length (cm_buckets m). bucket_map (cm_buckets m ! i) k = Some v)"
      unfolding bucket_map_def using map_of_eq_Some_iff [OF db] by auto
    also have "\<dots> \<longleftrightarrow> map_abs T m k = Some v"
      using ok getBucket_less [OF n, of "t_hash T k"] unfolding keys_ok_def map_abs_def by (metis domI)
    finally show ?thesis by simp
  qed
  then show "map_abs T m = map_of (map entry ?es)" by (intro ext option_eqI)
qed

section \<open>Resizing\<close>

lemma size_words:
  assumes "n \<le> 57"
  shows "unat (2 ^ n :: u64) = 2 ^ n" and "(2 ^ n * LoadFactor div 100 :: u64) = of_nat (2 ^ n * 75 div 100)"
    and "(- 1) mod (2 ^ n) = (mask n :: u64)" and "unat (2 ^ n * LoadFactor div 100 :: u64) = 2 ^ n * 75 div 100"
proof -
  have le: "(2 :: nat) ^ n \<le> 2 ^ 57" using assms by (rule power_increasing) simp
  show p: "unat (2 ^ n :: u64) = 2 ^ n" using unat_two_power [where 'a = 64, of n] assms by simp
  have f: "unat LoadFactor = 75" by (simp add: LoadFactor_def)
  have m: "unat (2 ^ n * LoadFactor :: u64) = 2 ^ n * 75"
    unfolding unat_word_ariths p f using le by simp
  show d: "unat (2 ^ n * LoadFactor div 100 :: u64) = 2 ^ n * 75 div 100"
    unfolding unat_div_distrib m by simp
  show "(2 ^ n * LoadFactor div 100 :: u64) = of_nat (2 ^ n * 75 div 100)"
    unfolding d [symmetric] by simp
  show "(- 1) mod (2 ^ n) = (mask n :: u64)" by (simp flip: take_bit_eq_mod add: take_bit_minus_one_eq_mask)
qed

lemma new_bucket_ok [simp]: "bucket_ok (new_bucket T)" "bucket_map (new_bucket T) = Map.empty"
  by (simp_all add: bucket_ok_def bucket_map_def elements_def new_bucket_def new_element_def)

lemma empty_buckets:
  assumes n: "map_size_ok n m" and bs: "cm_buckets m = replicate (2 ^ n) (new_bucket T)"
  shows "keys_ok T m" and "map_abs T m = Map.empty"
  using getBucket_less [OF n] by (simp_all add: keys_ok_def map_abs_def fun_eq_iff bs)

lemma map_resize_ok:
  assumes n: "map_size_ok n m" and ok: "keys_ok T m" and n': "5 \<le> n'" "n' \<le> 55"
  shows "map_size_ok n' (map_resize T (2 ^ n') m) \<and> keys_ok T (map_resize T (2 ^ n') m) \<and>
    map_abs T (map_resize T (2 ^ n') m) = map_abs T m \<and> cm_count (map_resize T (2 ^ n') m) = cm_count m"
proof -
  let ?m = "m\<lparr>cm_bucket_flag := (- 1) mod (2 ^ n'), cm_upper_bound := 2 ^ n' * LoadFactor div 100,
         cm_buckets := replicate (unat (2 ^ n' :: u64)) (new_bucket T)\<rparr>"
  let ?es = "concat (map elements (cm_buckets m))"
  have w: "unat (2 ^ n' :: u64) = 2 ^ n'" "(2 ^ n' * LoadFactor div 100 :: u64) = of_nat (2 ^ n' * 75 div 100)"
    "(- 1) mod (2 ^ n') = (mask n' :: u64)" using size_words [of n'] n' by simp_all
  have s: "map_size_ok n' ?m" unfolding map_size_ok_def using n' by (simp only: w) simp
  have e: "keys_ok T ?m" "map_abs T ?m = Map.empty" using empty_buckets [OF s] w(1) by simp_all
  note abs = map_abs_elements [OF n ok]
  have "\<forall>b \<in> set (cm_buckets m). bucket_ok b" using ok by (auto simp: keys_ok_def in_set_conv_nth)
  then have "map_resize T (2 ^ n') m = fold (move_element T) ?es ?m" unfolding map_resize_def by (rule move_buckets)
  then show ?thesis
    using move_elements [OF s e(1) _ abs(2)] abs(1,3) e(2) by simp
qed

text \<open>The loop that doubles the size ends, at the first size with room for the count.\<close>

definition first_size :: "u64 \<Rightarrow> nat \<Rightarrow> nat \<Rightarrow> bool" where
  "first_size count n n' \<longleftrightarrow> unat count \<le> 2 ^ n' * 75 div 100 \<and> (n' = n \<or> 2 ^ (n' - 1) * 75 div 100 < unat count)"

lemma double_size_ends:
  assumes "n \<le> 55" and "unat count < 2 ^ 54"
  shows "\<exists>n'. n \<le> n' \<and> n' \<le> 55 \<and> double_size count (2 ^ n) = Some (2 ^ n') \<and> first_size count n n'"
  using assms(1)
proof (induction "55 - n" arbitrary: n)
  case 0
  then have n: "n = 55" by simp
  have u: "unat (2 ^ n * LoadFactor div 100 :: u64) = 2 ^ n * 75 div 100" using size_words(4) [of n] 0 by simp
  then have c: "\<not> (2 ^ n * LoadFactor div 100 :: u64) < count" using assms(2) unfolding word_less_nat_alt n by simp
  then have "first_size count n n" unfolding first_size_def word_less_nat_alt u by simp
  then show ?case using n c by (subst double_size.simps) auto
next
  case (Suc k)
  then have n: "n < 55" by simp
  have u: "unat (2 ^ n * LoadFactor div 100 :: u64) = 2 ^ n * 75 div 100" using size_words(4) [of n] n by simp
  show ?case
  proof (cases "(2 ^ n * LoadFactor div 100 :: u64) < count")
    case True
    have "k = 55 - Suc n" "Suc n \<le> 55" using Suc(2) by simp_all
    from Suc(1) [OF this] obtain n' where n': "Suc n \<le> n'" "n' \<le> 55" "double_size count (2 ^ Suc n) = Some (2 ^ n')"
      "first_size count (Suc n) n'" by blast
    have "double_size count (2 ^ n) = double_size count (2 ^ Suc n)"
      using True by (subst double_size.simps) (simp add: mult.commute)
    moreover have "first_size count n n'" using n'(4) True unfolding first_size_def word_less_nat_alt u by auto
    ultimately show ?thesis using n' by (intro exI [of _ n']) simp
  next
    case False
    then have "first_size count n n" unfolding first_size_def word_less_nat_alt u by simp
    then show ?thesis using n False by (subst double_size.simps) auto
  qed
qed

text \<open>
  What \<^verbatim>\<open>reserve\<close> does to the buckets: nothing below the bound; otherwise their number is doubled, and
  doubled again until the count is at most three quarters of it.
\<close>

definition reserved :: "u64 \<Rightarrow> ('k, 'v) concurrent_map \<Rightarrow> ('k, 'v) concurrent_map \<Rightarrow> bool" where
  "reserved count m m' \<longleftrightarrow>
    (if unat count < length (cm_buckets m) * 75 div 100 then m' = m
     else unat count \<le> length (cm_buckets m') * 75 div 100 \<and>
       (\<exists>j. length (cm_buckets m') = 2 ^ Suc j * length (cm_buckets m) \<and>
         (j = 0 \<or> 2 ^ j * length (cm_buckets m) * 75 div 100 < unat count)))"

lemma reserve_ok:
  assumes m: "map_ok T m" and count: "unat count < 2 ^ 54"
  shows "\<exists>m'. map_reserve T count m = Some m' \<and> map_ok T m' \<and> map_abs T m' = map_abs T m \<and> reserved count m m'"
proof -
  obtain n where n: "map_size_ok n m" using m by (auto simp: map_ok_def)
  have n57: "n \<le> 57" and len: "length (cm_buckets m) = 2 ^ n" using n by (simp_all add: map_size_ok_def)
  have bound: "count < cm_upper_bound m \<longleftrightarrow> unat count < 2 ^ n * 75 div 100"
    using size_words(4) [OF n57] size_words(2) [OF n57] n by (simp add: map_size_ok_def word_less_nat_alt)
  show ?thesis
  proof (cases "count < cm_upper_bound m")
    case True
    then show ?thesis using m bound len by (simp add: map_reserve_def reserved_def)
  next
    case False
    have "2 ^ n * 75 div 100 \<le> unat count" using False bound by simp
    then have "(2 :: nat) ^ n * 75 div 100 < 2 ^ 54" using count by linarith
    then have "(2 :: nat) ^ n < 2 ^ 55" by simp
    then have "n < 55" by (rule power_less_imp_less_exp [rotated]) simp
    then have "Suc n \<le> 55" by simp
    then obtain n' where n': "Suc n \<le> n'" "n' \<le> 55" "double_size count (2 ^ Suc n) = Some (2 ^ n')" "first_size count (Suc n) n'"
      using double_size_ends [OF _ count, of "Suc n"] by blast
    have "of_nat (length (cm_buckets m)) * 2 = (2 ^ Suc n :: u64)" using n by (simp add: map_size_ok_def mult.commute)
    then have run: "map_reserve T count m = Some (map_resize T (2 ^ n') m)" using False n'(3) by (simp add: map_reserve_def)
    have "5 \<le> n'" using n n'(1) by (simp add: map_size_ok_def)
    then have ok: "map_size_ok n' (map_resize T (2 ^ n') m)" "map_ok T (map_resize T (2 ^ n') m)"
      "map_abs T (map_resize T (2 ^ n') m) = map_abs T m"
      using map_resize_ok [OF n _ _ n'(2), of T] m by (auto simp: map_ok_def)
    obtain j where j: "n' = Suc (n + j)" using n'(1) by (auto dest: le_Suc_ex)
    have "reserved count m (map_resize T (2 ^ n') m)"
      using False n'(4) ok(1) unfolding reserved_def bound len first_size_def j
      by (auto simp: map_size_ok_def power_add mult_ac intro!: exI [of _ j])
    then show ?thesis using run ok by blast
  qed
qed

section \<open>The operations\<close>

lemma new_map_ok: "map_ok T (new_map T)" "map_abs T (new_map T) = Map.empty"
proof -
  have "(- 1) mod InitialCapacity = mask 5" using size_words(3) [of 5] by (simp add: InitialCapacity_def)
  moreover have "InitialCapacity * LoadFactor div 100 = of_nat (2 ^ 5 * 75 div 100)"
    using size_words(2) [of 5] by (simp add: InitialCapacity_def)
  ultimately have s: "map_size_ok 5 (new_map T)" by (simp add: map_size_ok_def new_map_def InitialCapacity_def)
  have "cm_buckets (new_map T) = replicate (2 ^ 5) (new_bucket T)" by (simp add: new_map_def InitialCapacity_def)
  note empty_buckets [OF s this]
  then show "map_ok T (new_map T)" "map_abs T (new_map T) = Map.empty"
    using s by (auto simp: map_ok_def) (simp add: new_map_def)
qed

text \<open>An operation that changes one key keeps the invariant if it keeps the count.\<close>

lemma map_ok_changes:
  assumes m: "map_ok T m" and i: "i = getBucket m (t_hash T k)" and ch: "changes k x (cm_buckets m ! i) b"
    and c: "c = of_nat (card (dom ((map_abs T m)(k := x))))"
  shows "map_ok T ((set_bucket i b m)\<lparr>cm_count := c\<rparr>) \<and> map_abs T ((set_bucket i b m)\<lparr>cm_count := c\<rparr>) = (map_abs T m)(k := x)"
proof -
  obtain n where n: "map_size_ok n m" and ok: "keys_ok T m" "finite (dom (map_abs T m))" using m by (auto simp: map_ok_def)
  have "i < length (cm_buckets m)" unfolding i by (rule getBucket_less [OF n])
  note set_bucket_changes [OF ok(1) i this ch]
  then show ?thesis using n ok(2) c by (auto simp: map_ok_def)
qed

lemma card_dom_upd:
  assumes "finite (dom m)"
  shows "card (dom (m(k := x))) = (case (m k, x) of
      (None, Some _) \<Rightarrow> Suc (card (dom m)) | (Some _, None) \<Rightarrow> card (dom m) - 1 | _ \<Rightarrow> card (dom m))"
  using assms by (cases "m k"; cases x) (auto simp: insert_absorb domI domIff card_Diff_singleton)

lemma card_pos: "finite (dom m) \<Longrightarrow> m k = Some v \<Longrightarrow> 0 < card (dom m)"
  by (auto simp: card_gt_0_iff)

lemma map_ok_bucket:
  assumes "map_ok T m"
  shows "bucket_ok (cm_buckets m ! getBucket m (t_hash T k))" and "finite (dom (map_abs T m))"
    and "cm_count m = of_nat (card (dom (map_abs T m)))"
  using assms getBucket_less by (auto simp: map_ok_def keys_ok_def)

lemma insert_locked_ok:
  assumes m: "map_ok T m" and run: "insert_locked T k v m = (r, m')"
  shows "map_ok T m' \<and> map_abs T m' = (map_abs T m)(k \<mapsto> v) \<and>
    r = (case map_abs T m k of None \<Rightarrow> (True, t_value T) | Some old \<Rightarrow> (False, old))"
proof -
  let ?i = "getBucket m (t_hash T k)"
  obtain r' b where b: "bucket_insert T k v (cm_buckets m ! ?i) = (r', b)" by (rule prod.exhaust)
  note ok = map_ok_bucket [OF m]
  note ch = bucket_insert_changes [OF ok(1) b]
  have r': "r' = (case map_abs T m k of None \<Rightarrow> (True, t_value T) | Some old \<Rightarrow> (False, old))"
    using ch by (simp add: map_abs_def)
  have c: "cm_count m' = of_nat (card (dom ((map_abs T m)(k \<mapsto> v))))"
    using run ok(3) unfolding card_dom_upd [OF ok(2)]
    by (auto simp: insert_locked_def Let_def b r' set_bucket_def split: option.splits)
  have "m' = (set_bucket ?i b m)\<lparr>cm_count := cm_count m'\<rparr>" "r = r'"
    using run by (auto simp: insert_locked_def Let_def b)
  then show ?thesis using map_ok_changes [OF m refl conjunct1 [OF ch] c] r' by metis
qed

lemma map_erase_ok:
  assumes m: "map_ok T m" and run: "map_erase T k m = (r, m')"
  shows "map_ok T m' \<and> map_abs T m' = (map_abs T m)(k := None) \<and>
    r = (case map_abs T m k of None \<Rightarrow> (False, t_value T) | Some old \<Rightarrow> (True, old))"
proof -
  let ?i = "getBucket m (t_hash T k)"
  obtain r' b where b: "bucket_erase T k (cm_buckets m ! ?i) = (r', b)" by (rule prod.exhaust)
  note ok = map_ok_bucket [OF m]
  note ch = bucket_erase_changes [OF ok(1) b]
  have r': "r' = (case map_abs T m k of None \<Rightarrow> (False, t_value T) | Some old \<Rightarrow> (True, old))"
    using ch by (simp add: map_abs_def)
  have c: "cm_count m' = of_nat (card (dom ((map_abs T m)(k := None))))"
    using run ok(3) card_pos [OF ok(2), of k] unfolding card_dom_upd [OF ok(2)]
    by (auto simp: map_erase_def Let_def b r' set_bucket_def of_nat_diff split: option.splits)
  have "m' = (set_bucket ?i b m)\<lparr>cm_count := cm_count m'\<rparr>" "r = r'"
    using run by (auto simp: map_erase_def Let_def b)
  then show ?thesis using map_ok_changes [OF m refl conjunct1 [OF ch] c] r' by metis
qed

lemma exec_on_locked_ok:
  assumes m: "map_ok T m"
  shows "map_ok T (exec_on_locked T k f m) \<and>
    map_abs T (exec_on_locked T k f m) = (map_abs T m)(k := exec_value T f (map_abs T m k))"
proof -
  let ?i = "getBucket m (t_hash T k)"
  obtain b n where b: "bucket_exec_on T k f (cm_buckets m ! ?i) (cm_count m) = (b, n)" by (rule prod.exhaust)
  note ok = map_ok_bucket [OF m]
  note ch = bucket_exec_on_changes [OF ok(1) b, folded map_abs_def]
  have "n = of_nat (card (dom ((map_abs T m)(k := exec_value T f (map_abs T m k)))))"
    using conjunct2 [OF ch] ok(3) card_pos [OF ok(2), of k] unfolding card_dom_upd [OF ok(2)]
    by (auto simp: of_nat_diff split: option.splits)
  from map_ok_changes [OF m refl conjunct1 [OF ch] this] show ?thesis
    by (simp add: exec_on_locked_def Let_def b)
qed

lemma map_at_ok:
  assumes m: "map_ok T m"
  shows "map_at T k m = (case map_abs T m k of None \<Rightarrow> (False, t_value T) | Some v \<Rightarrow> (True, v))"
  using bucket_at_correct [OF map_ok_bucket(1) [OF m]] by (simp add: map_at_def map_abs_def)

section \<open>Runs of several threads\<close>

text \<open>The steps that are atomic: what an operation does under its lock, and a resize.\<close>

datatype ('k, 'v) map_op = Insert 'k 'v | Erase 'k | At 'k | Exec_On 'k "'v \<Rightarrow> bool \<times> 'v" | Reserve u64

datatype 'v map_result = Result "bool \<times> 'v" | Done

fun map_step :: "('k, 'v) traits \<Rightarrow> ('k, 'v) map_op \<Rightarrow> ('k, 'v) concurrent_map \<Rightarrow> ('v map_result \<times> ('k, 'v) concurrent_map) option" where
  "map_step T (Insert k v) m = Some (map_prod Result id (insert_locked T k v m))"
| "map_step T (Erase k) m = Some (map_prod Result id (map_erase T k m))"
| "map_step T (At k) m = Some (Result (map_at T k m), m)"
| "map_step T (Exec_On k f) m = Some (Done, exec_on_locked T k f m)"
| "map_step T (Reserve n) m = map_option (\<lambda>m. (Done, m)) (map_reserve T n m)"

text \<open>The same steps on a finite map.\<close>

fun map_spec :: "('k, 'v) traits \<Rightarrow> ('k, 'v) map_op \<Rightarrow> ('k \<rightharpoonup> 'v) \<Rightarrow> 'v map_result \<times> ('k \<rightharpoonup> 'v)" where
  "map_spec T (Insert k v) a = (Result (case a k of None \<Rightarrow> (True, t_value T) | Some old \<Rightarrow> (False, old)), a(k \<mapsto> v))"
| "map_spec T (Erase k) a = (Result (case a k of None \<Rightarrow> (False, t_value T) | Some old \<Rightarrow> (True, old)), a(k := None))"
| "map_spec T (At k) a = (Result (case a k of None \<Rightarrow> (False, t_value T) | Some v \<Rightarrow> (True, v)), a)"
| "map_spec T (Exec_On k f) a = (Done, a(k := exec_value T f (a k)))"
| "map_spec T (Reserve n) a = (Done, a)"

fun map_allowed :: "('k, 'v) map_op \<Rightarrow> bool" where
  "map_allowed (Reserve n) \<longleftrightarrow> unat n < 2 ^ 54"
| "map_allowed _ \<longleftrightarrow> True"

definition map_room :: "('k, 'v) traits \<Rightarrow> nat \<Rightarrow> ('k, 'v) concurrent_map \<Rightarrow> bool" where
  "map_room T n m \<longleftrightarrow> map_ok T m \<and> card (dom (map_abs T m)) + n < 2 ^ 54"

lemma card_step: "finite (dom a) \<Longrightarrow> card (dom (snd (map_spec T p a))) \<le> Suc (card (dom a))"
  by (cases p) (auto simp: card_insert_if intro!: le_SucI card_Diff1_le split: option.split)

interpretation cmap: functional_refinement "map_step T" "map_spec T" map_allowed "map_room T" "map_abs T"
  for T :: "('k, 'v) traits"
proof
  fix n m and p :: "('k, 'v) map_op"
  assume room: "map_room T (Suc n) m" and p: "map_allowed p"
  then have m: "map_ok T m" by (simp add: map_room_def)
  have "\<exists>r m'. map_step T p m = Some (r, m') \<and> map_ok T m' \<and> map_spec T p (map_abs T m) = (r, map_abs T m')"
  proof (cases p)
    case (Insert k v)
    obtain r m' where i: "insert_locked T k v m = (r, m')" by (rule prod.exhaust)
    from insert_locked_ok [OF m i] i show ?thesis by (simp add: Insert)
  next
    case (Erase k)
    obtain r m' where i: "map_erase T k m = (r, m')" by (rule prod.exhaust)
    from map_erase_ok [OF m i] i show ?thesis by (simp add: Erase)
  next
    case (At k)
    then show ?thesis using m map_at_ok [OF m, of k] by simp
  next
    case (Exec_On k f)
    then show ?thesis using exec_on_locked_ok [OF m, of k f] by simp
  next
    case (Reserve c)
    then show ?thesis using reserve_ok [OF m, of c] p by auto
  qed
  then obtain r m' where s: "map_step T p m = Some (r, m')" "map_ok T m'" "map_spec T p (map_abs T m) = (r, map_abs T m')" by blast
  have "map_room T n m'"
    using card_step [of "map_abs T m" T p] s(2,3) room map_ok_bucket(2) [OF m] by (simp add: map_room_def)
  then show "\<exists>r m'. map_step T p m = Some (r, m') \<and> map_room T n m' \<and> map_spec T p (map_abs T m) = (r, map_abs T m')"
    using s by blast
qed

section \<open>Properties\<close>

text \<open>
  C30: insertion, \<^verbatim>\<open>exec_on\<close>, \<^verbatim>\<open>erase\<close>, \<^verbatim>\<open>at\<close>, \<^verbatim>\<open>size\<close> and \<^verbatim>\<open>reserve\<close> of the concurrent map are those of
  a finite map. From a well-formed map with fewer than \<open>2 ^ 54\<close> keys, insertion and \<^verbatim>\<open>exec_on\<close> return,
  whether or not they resize; they and \<^verbatim>\<open>erase\<close> change exactly the given key and report what was there
  before; \<^verbatim>\<open>at\<close> returns what the map holds; \<^verbatim>\<open>size\<close> is the number of keys. Reserving room for a count
  below \<open>2 ^ 54\<close> returns and keeps every element; when the count has reached three quarters of the
  number of buckets this number is doubled, and doubled again only as long as the count exceeds three
  quarters of it, so that there is room for the count afterwards. The map is well-formed after each of
  these. \<^verbatim>\<open>clear\<close> is not among them: it keeps elements.
\<close>

theorem map_operations_correct:
  assumes "map_ok T m" and "card (dom (map_abs T m)) < 2 ^ 54" and "unat c < 2 ^ 54"
  shows "(\<exists>m'. map_insert T k v m = Some (case map_abs T m k of None \<Rightarrow> (True, t_value T) | Some old \<Rightarrow> (False, old), m') \<and>
      map_ok T m' \<and> map_abs T m' = (map_abs T m)(k \<mapsto> v)) \<and>
    (\<exists>m'. map_exec_on T k f m = Some m' \<and> map_ok T m' \<and> map_abs T m' = (map_abs T m)(k := exec_value T f (map_abs T m k))) \<and>
    (\<exists>m'. map_erase T k m = (case map_abs T m k of None \<Rightarrow> (False, t_value T) | Some old \<Rightarrow> (True, old), m') \<and>
      map_ok T m' \<and> map_abs T m' = (map_abs T m)(k := None)) \<and>
    map_at T k m = (case map_abs T m k of None \<Rightarrow> (False, t_value T) | Some v \<Rightarrow> (True, v)) \<and>
    unat (map_size m) = card (dom (map_abs T m)) \<and>
    (\<exists>m'. map_reserve T c m = Some m' \<and> map_ok T m' \<and> map_abs T m' = map_abs T m \<and> reserved c m m')"
proof -
  have c: "unat (cm_count m) = card (dom (map_abs T m))"
    using map_ok_bucket(3) [OF assms(1)] assms(2) by (simp add: unat_of_nat_u64)
  then obtain m1 where m1: "map_reserve T (cm_count m) m = Some m1" "map_ok T m1" "map_abs T m1 = map_abs T m"
    using reserve_ok [OF assms(1), of "cm_count m"] assms(2) by auto
  obtain r m2 where i: "insert_locked T k v m1 = (r, m2)" by (rule prod.exhaust)
  obtain r' m3 where e: "map_erase T k m = (r', m3)" by (rule prod.exhaust)
  show ?thesis
    using insert_locked_ok [OF m1(2) i] i map_erase_ok [OF assms(1) e] e exec_on_locked_ok [OF m1(2), of k f] m1
      map_at_ok [OF assms(1)] c reserve_ok [OF assms(1,3)]
    by (simp add: map_insert_def map_exec_on_def map_size_def)
qed

definition ex_traits :: "(nat, string) traits" where
  "ex_traits = \<lparr>t_hash = of_nat, t_key = 0, t_value = []\<rparr>"

theorem map_operations_correct_witness:
  "\<exists>m. map_insert ex_traits 7 ''a'' (new_map ex_traits) = Some ((True, []), m) \<and> map_ok ex_traits m \<and>
    map_abs ex_traits m 7 = Some ''a'' \<and> (\<exists>m. map_reserve ex_traits 100 (new_map ex_traits) = Some m \<and> reserved 100 (new_map ex_traits) m)"
  using map_operations_correct [OF new_map_ok(1), where T = ex_traits and k = 7 and v = "''a''" and f = "\<lambda>v. (False, v)" and c = 100]
  by (auto simp: new_map_ok(2) ex_traits_def)

text \<open>
  C31: runs of several threads. Threads whose accesses go to the same bucket hold the same lock, so a
  run is a sequence of steps under locks and of resizes, each with a count that may be out of date.
  Every such sequence that starts with a new map and has fewer than \<open>2 ^ 54\<close> steps returns the
  results that the same sequence has on a finite map, and resizing is invisible.
\<close>

theorem map_runs_linearizable:
  assumes "length ops < 2 ^ 54" and "\<forall>p \<in> set ops. map_allowed p"
  shows "\<exists>rs m. run_ops (map_step T) ops (new_map T) = Some (rs, m) \<and>
    run_spec (map_spec T) ops Map.empty = (rs, map_abs T m) \<and>
    (\<forall>h h'. getBucket m h = getBucket m h' \<longrightarrow> getMutex h = getMutex h')"
proof -
  have "map_room T (length ops + 0) (new_map T)" using assms(1) by (simp add: map_room_def new_map_ok)
  from cmap.simulates_run [OF this assms(2)] obtain rs m where
    run: "run_ops (map_step T) ops (new_map T) = Some (rs, m)" "map_room T 0 m"
      "run_spec (map_spec T) ops Map.empty = (rs, map_abs T m)"
    by (auto simp: new_map_ok(2))
  then obtain n where n: "map_size_ok n m" by (auto simp: map_room_def map_ok_def)
  have "getMutex h = getMutex h'" if "getBucket m h = getBucket m h'" for h h' :: u64
  proof -
    have "h AND mask n = h' AND mask n" using that n by (simp add: getBucket_def map_size_ok_def word_unat_eq_iff [symmetric])
    then have "take_bit n h = take_bit n h'" by (simp add: take_bit_eq_mask)
    then have "take_bit 5 (take_bit n h) = take_bit 5 (take_bit n h')" by (rule arg_cong)
    then have "take_bit 5 h = take_bit 5 h'" using n by (simp add: map_size_ok_def min_def)
    then show ?thesis by (simp add: getMutex_def ConcurrencyLevel_def take_bit_eq_mod)
  qed
  then show ?thesis using run by blast
qed

theorem map_runs_linearizable_witness:
  "\<exists>m. run_ops (map_step ex_traits) [Insert 7 ''a'', Reserve 100, Insert 39 ''b'', Erase 7, At 39] (new_map ex_traits) =
    Some ([Result (True, []), Done, Result (True, []), Result (True, ''a''), Result (True, ''b'')], m)"
  using map_runs_linearizable [of "[Insert 7 ''a'', Reserve 100, Insert 39 ''b'', Erase 7, At (39 :: nat)]" ex_traits]
  by (auto simp: ex_traits_def)

text \<open>
  \<^verbatim>\<open>clear\<close> does not empty a map: it never touches the counter, and a bucket with two elements keeps one.
\<close>

lemma clear_keeps_elements:
  "(case run_ops (map_step ex_traits) [Insert 7 ''a'', Insert 39 ''b''] (new_map ex_traits) of
      Some (_, m) \<Rightarrow>
       (case map_clear m of
          Some m' \<Rightarrow> map_at ex_traits 39 m' = (True, ''b'') \<and> map_size m' = 2
        | None \<Rightarrow> False)
    | None \<Rightarrow> False)"
  by code_simp

end
