(* ===== verification/Single_Consumer_Queue.thy ===== *)
theory Single_Consumer_Queue
  imports Prelude
begin

text \<open>
  The bounded queue of \<^verbatim>\<open>singleconsumerqueue.hpp\<close>: any number of producers take a ticket from
  \<^verbatim>\<open>_insert_place\<close> and wait until their slot is free, one consumer reads the slots in order. The class
  has a slot flag for a value that is ready; \<^verbatim>\<open>_consumed\<close> is the last index that has been read and
  starts at the largest number.

  First the operations as one thread runs them, then the atomic steps of several threads. The accesses
  to the slots are taken to be sequentially consistent; in the source the flag is a plain \<^verbatim>\<open>bool\<close>.
\<close>

section \<open>The operations\<close>

record 'v Item =
  it_value :: 'v
  is_valid :: bool

record 'v queue =
  q_data :: "'v Item list"
  q_consumed :: u64
  q_insert_place :: u64

definition QueueSize :: "'v queue \<Rightarrow> u64" where
  "QueueSize q = of_nat (length (q_data q))"

definition new_queue :: "nat \<Rightarrow> 'v \<Rightarrow> 'v queue" where
  "new_queue n v = \<lparr>q_data = replicate n \<lparr>it_value = v, is_valid = False\<rparr>, q_consumed = - 1, q_insert_place = 0\<rparr>"

definition isFull :: "'v queue \<Rightarrow> u64 \<Rightarrow> bool" where
  "isFull q pos \<longleftrightarrow> QueueSize q \<le> pos - q_consumed q"

text \<open>The slot of a position, and the two stores of \<^verbatim>\<open>writeItem\<close>.\<close>

definition slot :: "'v queue \<Rightarrow> u64 \<Rightarrow> nat" where
  "slot q pos = unat (pos mod QueueSize q)"

definition set_slot :: "nat \<Rightarrow> ('v Item \<Rightarrow> 'v Item) \<Rightarrow> 'v queue \<Rightarrow> 'v queue" where
  "set_slot i f q = q\<lparr>q_data := (q_data q)[i := f (q_data q ! i)]\<rparr>"

definition store_value :: "u64 \<Rightarrow> 'v \<Rightarrow> 'v queue \<Rightarrow> 'v queue" where
  "store_value pos v q = set_slot (slot q pos) (\<lambda>it. it\<lparr>it_value := v\<rparr>) q"

definition store_flag :: "u64 \<Rightarrow> bool \<Rightarrow> 'v queue \<Rightarrow> 'v queue" where
  "store_flag pos f q = set_slot (slot q pos) (\<lambda>it. it\<lparr>is_valid := f\<rparr>) q"

definition writeItem :: "u64 \<Rightarrow> 'v \<Rightarrow> 'v queue \<Rightarrow> 'v queue" where
  "writeItem pos v q = store_flag pos True (store_value pos v q)"

text \<open>\<^verbatim>\<open>write\<close>: \<open>None\<close> is that it waits for the consumer.\<close>

definition queue_write :: "'v \<Rightarrow> 'v queue \<Rightarrow> 'v queue option" where
  "queue_write v q =
    (let pos = q_insert_place q; q = q\<lparr>q_insert_place := pos + 1\<rparr> in
     if isFull q pos then None else Some (writeItem pos v q))"

definition try_full :: "'v queue \<Rightarrow> u64 \<Rightarrow> bool" where
  "try_full q pos \<longleftrightarrow> q_consumed q < pos \<and> QueueSize q \<le> pos - q_consumed q"

definition tryWrite :: "'v \<Rightarrow> 'v queue \<Rightarrow> bool \<times> 'v queue" where
  "tryWrite v q =
    (let pos = q_insert_place q in
     if try_full q pos then (False, q) else (True, writeItem pos v (q\<lparr>q_insert_place := pos + 1\<rparr>)))"

definition nothing_to_read :: "'v queue \<Rightarrow> bool" where
  "nothing_to_read q \<longleftrightarrow> q_insert_place q \<le> q_consumed q + 1 \<or> \<not> is_valid (q_data q ! slot q (q_consumed q + 1))"

definition queue_read :: "'v queue \<Rightarrow> 'v option \<times> 'v queue" where
  "queue_read q =
    (if nothing_to_read q then (None, q)
     else
       let consume = q_consumed q + 1; v = it_value (q_data q ! slot q consume) in
       (Some v, (store_flag consume False q)\<lparr>q_consumed := consume\<rparr>))"

text \<open>\<^verbatim>\<open>readMultiple\<close> into a range of \<open>k\<close> places: the loop, then the update of \<^verbatim>\<open>_consumed\<close>.\<close>

fun read_loop :: "u64 \<Rightarrow> nat \<Rightarrow> 'v queue \<Rightarrow> 'v list \<times> 'v queue" where
  "read_loop pos 0 q = ([], q)"
| "read_loop pos (Suc k) q =
    (if \<not> is_valid (q_data q ! slot q pos) then ([], q)
     else
       case read_loop (pos + 1) k (store_flag pos False q) of
         (vs, q') \<Rightarrow> (it_value (q_data q ! slot q pos) # vs, q'))"

definition readMultiple :: "nat \<Rightarrow> 'v queue \<Rightarrow> 'v list \<times> 'v queue" where
  "readMultiple k q =
    (case read_loop (q_consumed q + 1) k q of
       (vs, q') \<Rightarrow> (vs, q'\<lparr>q_consumed := q_consumed q + of_nat (length vs)\<rparr>))"

section \<open>Several threads\<close>

text \<open>
  Where a producer is: it has taken a ticket and waits, its slot is free, it has stored the value; or it
  is in the loop of \<^verbatim>\<open>tryWrite\<close> with the position it has loaded, before and after the test. The
  consumer is idle, or it is in \<^verbatim>\<open>read\<close> and has taken the value at a position without having stored
  \<^verbatim>\<open>_consumed\<close> yet, or it is in the loop of \<^verbatim>\<open>readMultiple\<close> with the last position it has taken. This
  loop may stop after any number of values: at a slot without one, or because the range of the caller,
  which is not part of the state, is full. The tickets list the values in the order in which their
  positions were taken; the list of read values is what the consumer got.
\<close>

datatype 'v pc = Idle | Waiting u64 'v | Writing u64 'v | Storing u64 'v | Trying u64 'v | Checked u64 'v

datatype consumer = Ready | Reading u64 | ReadingMany u64

record 'v system =
  s_queue :: "'v queue"
  s_pcs :: "nat \<Rightarrow> 'v pc"
  s_consumer :: consumer
  s_tickets :: "'v list"
  s_read :: "'v list"

inductive queue_step :: "'v system \<Rightarrow> 'v system \<Rightarrow> bool" where
  take_ticket: "s_pcs s t = Idle \<Longrightarrow> pos = q_insert_place (s_queue s) \<Longrightarrow> length (s_tickets s) < 2 ^ 62 \<Longrightarrow>
    queue_step s (s\<lparr>s_queue := (s_queue s)\<lparr>q_insert_place := pos + 1\<rparr>,
      s_pcs := (s_pcs s)(t := Waiting pos v), s_tickets := s_tickets s @ [v]\<rparr>)"
| slot_free: "s_pcs s t = Waiting pos v \<Longrightarrow> \<not> isFull (s_queue s) pos \<Longrightarrow>
    queue_step s (s\<lparr>s_pcs := (s_pcs s)(t := Writing pos v)\<rparr>)"
| value_stored: "s_pcs s t = Writing pos v \<Longrightarrow>
    queue_step s (s\<lparr>s_queue := store_value pos v (s_queue s), s_pcs := (s_pcs s)(t := Storing pos v)\<rparr>)"
| flag_stored: "s_pcs s t = Storing pos v \<Longrightarrow>
    queue_step s (s\<lparr>s_queue := store_flag pos True (s_queue s), s_pcs := (s_pcs s)(t := Idle)\<rparr>)"
| try_start: "s_pcs s t = Idle \<Longrightarrow>
    queue_step s (s\<lparr>s_pcs := (s_pcs s)(t := Trying (q_insert_place (s_queue s)) v)\<rparr>)"
| try_failed: "s_pcs s t = Trying pos v \<Longrightarrow> try_full (s_queue s) pos \<Longrightarrow>
    queue_step s (s\<lparr>s_pcs := (s_pcs s)(t := Idle)\<rparr>)"
| try_room: "s_pcs s t = Trying pos v \<Longrightarrow> \<not> try_full (s_queue s) pos \<Longrightarrow>
    queue_step s (s\<lparr>s_pcs := (s_pcs s)(t := Checked pos v)\<rparr>)"
| try_swap: "s_pcs s t = Checked pos v \<Longrightarrow> q_insert_place (s_queue s) = pos \<Longrightarrow> length (s_tickets s) < 2 ^ 62 \<Longrightarrow>
    queue_step s (s\<lparr>s_queue := (s_queue s)\<lparr>q_insert_place := pos + 1\<rparr>,
      s_pcs := (s_pcs s)(t := Writing pos v), s_tickets := s_tickets s @ [v]\<rparr>)"
| try_again: "s_pcs s t = Checked pos v \<Longrightarrow> q_insert_place (s_queue s) \<noteq> pos \<Longrightarrow>
    queue_step s (s\<lparr>s_pcs := (s_pcs s)(t := Trying (q_insert_place (s_queue s)) v)\<rparr>)"
| read_value: "s_consumer s = Ready \<Longrightarrow> \<not> nothing_to_read (s_queue s) \<Longrightarrow> pos = q_consumed (s_queue s) + 1 \<Longrightarrow>
    queue_step s (s\<lparr>s_queue := store_flag pos False (s_queue s), s_consumer := Reading pos,
      s_read := s_read s @ [it_value (q_data (s_queue s) ! slot (s_queue s) pos)]\<rparr>)"
| read_done: "s_consumer s = Reading pos \<Longrightarrow>
    queue_step s (s\<lparr>s_queue := (s_queue s)\<lparr>q_consumed := pos\<rparr>, s_consumer := Ready\<rparr>)"
| many_start: "s_consumer s = Ready \<Longrightarrow>
    queue_step s (s\<lparr>s_consumer := ReadingMany (q_consumed (s_queue s))\<rparr>)"
| many_value: "s_consumer s = ReadingMany pos' \<Longrightarrow> pos = pos' + 1 \<Longrightarrow> is_valid (q_data (s_queue s) ! slot (s_queue s) pos) \<Longrightarrow>
    queue_step s (s\<lparr>s_queue := store_flag pos False (s_queue s), s_consumer := ReadingMany pos,
      s_read := s_read s @ [it_value (q_data (s_queue s) ! slot (s_queue s) pos)]\<rparr>)"
| many_done: "s_consumer s = ReadingMany pos \<Longrightarrow>
    queue_step s (s\<lparr>s_queue := (s_queue s)\<lparr>q_consumed := pos\<rparr>, s_consumer := Ready\<rparr>)"

definition new_system :: "nat \<Rightarrow> 'v \<Rightarrow> 'v system" where
  "new_system n v = \<lparr>s_queue = new_queue n v, s_pcs = \<lambda>_. Idle, s_consumer = Ready, s_tickets = [], s_read = []\<rparr>"

end
