(* ===== verification/Single_Consumer_Queue_Spec.thy ===== *)
theory Single_Consumer_Queue_Spec
  imports Single_Consumer_Queue
begin

text \<open>
  The queue is first in, first out under every interleaving in which no \<^verbatim>\<open>tryWrite\<close> overruns the queue:
  the values are read in the order of the tickets. The invariant relates the counters to natural
  numbers: \<open>c\<close> values are consumed, the positions from the next one to read up to \<open>c + N\<close> have different
  slots, a flag is set exactly for the positions whose producer has finished, and it is clear for the
  positions that have been taken and are not consumed yet.
\<close>

section \<open>The invariant\<close>

fun pos_of :: "'v pc \<Rightarrow> u64 option" where
  "pos_of (Waiting pos v) = Some pos"
| "pos_of (Writing pos v) = Some pos"
| "pos_of (Storing pos v) = Some pos"
| "pos_of _ = None"

definition owned :: "'v system \<Rightarrow> nat \<Rightarrow> bool" where
  "owned s p \<longleftrightarrow> (\<exists>t. pos_of (s_pcs s t) = Some (of_nat p))"

fun pc_ok :: "nat \<Rightarrow> nat \<Rightarrow> 'v system \<Rightarrow> 'v pc \<Rightarrow> bool" where
  "pc_ok N c s Idle \<longleftrightarrow> True"
| "pc_ok N c s (Waiting pos v) \<longleftrightarrow> (\<exists>p. pos = of_nat p \<and> length (s_read s) \<le> p \<and> p < length (s_tickets s) \<and> s_tickets s ! p = v)"
| "pc_ok N c s (Writing pos v) \<longleftrightarrow> (\<exists>p. pos = of_nat p \<and> length (s_read s) \<le> p \<and> p < length (s_tickets s) \<and> s_tickets s ! p = v \<and> p < c + N)"
| "pc_ok N c s (Storing pos v) \<longleftrightarrow> (\<exists>p. pos = of_nat p \<and> length (s_read s) \<le> p \<and> p < length (s_tickets s) \<and> s_tickets s ! p = v \<and> p < c + N \<and>
     it_value (q_data (s_queue s) ! (p mod N)) = v)"
| "pc_ok N c s (Trying pos v) \<longleftrightarrow> (\<exists>p. pos = of_nat p \<and> p \<le> length (s_tickets s))"
| "pc_ok N c s (Checked pos v) \<longleftrightarrow> (\<exists>p. pos = of_nat p \<and> p \<le> length (s_tickets s) \<and> p < c + N)"

definition sizes_ok :: "nat \<Rightarrow> nat \<Rightarrow> 'v system \<Rightarrow> bool" where
  "sizes_ok N c s \<longleftrightarrow> 0 < N \<and> N < 2 ^ 62 \<and> length (q_data (s_queue s)) = N \<and> length (s_tickets s) \<le> 2 ^ 62 \<and>
    q_insert_place (s_queue s) = of_nat (length (s_tickets s)) \<and> q_consumed (s_queue s) = of_nat c - 1"

definition reader_ok :: "nat \<Rightarrow> nat \<Rightarrow> 'v system \<Rightarrow> bool" where
  "reader_ok N c s \<longleftrightarrow>
    (case s_consumer s of
       Ready \<Rightarrow> length (s_read s) = c
     | Reading pos \<Rightarrow> pos = of_nat (length (s_read s)) - 1
     | ReadingMany pos \<Rightarrow> pos = of_nat (length (s_read s)) - 1) \<and>
    c \<le> length (s_read s) \<and> length (s_read s) \<le> c + N \<and>
    (\<forall>p. c \<le> p \<longrightarrow> p < length (s_read s) \<longrightarrow> \<not> is_valid (q_data (s_queue s) ! (p mod N))) \<and>
    length (s_read s) \<le> length (s_tickets s) \<and> s_read s = take (length (s_read s)) (s_tickets s)"

definition slots_ok :: "nat \<Rightarrow> nat \<Rightarrow> 'v system \<Rightarrow> bool" where
  "slots_ok N c s \<longleftrightarrow> (\<forall>p \<ge> length (s_read s).
    (p < c + N \<longrightarrow> is_valid (q_data (s_queue s) ! (p mod N)) = (p < length (s_tickets s) \<and> \<not> owned s p)) \<and>
    (p < length (s_tickets s) \<longrightarrow> \<not> owned s p \<longrightarrow> p < c + N \<and> it_value (q_data (s_queue s) ! (p mod N)) = s_tickets s ! p))"

lemma slotsD:
  assumes "slots_ok N c s" and "length (s_read s) \<le> p"
  shows "p < c + N \<Longrightarrow> is_valid (q_data (s_queue s) ! (p mod N)) = (p < length (s_tickets s) \<and> \<not> owned s p)"
    and "p < length (s_tickets s) \<Longrightarrow> \<not> owned s p \<Longrightarrow> p < c + N"
    and "p < length (s_tickets s) \<Longrightarrow> \<not> owned s p \<Longrightarrow> it_value (q_data (s_queue s) ! (p mod N)) = s_tickets s ! p"
  using assms by (simp_all add: slots_ok_def)

lemma slotsI:
  assumes "\<And>p. length (s_read s) \<le> p \<Longrightarrow> p < c + N \<Longrightarrow>
      is_valid (q_data (s_queue s) ! (p mod N)) = (p < length (s_tickets s) \<and> \<not> owned s p)"
    and "\<And>p. length (s_read s) \<le> p \<Longrightarrow> p < length (s_tickets s) \<Longrightarrow> \<not> owned s p \<Longrightarrow>
      p < c + N \<and> it_value (q_data (s_queue s) ! (p mod N)) = s_tickets s ! p"
  shows "slots_ok N c s"
  using assms unfolding slots_ok_def by blast

definition queue_at :: "nat \<Rightarrow> nat \<Rightarrow> 'v system \<Rightarrow> bool" where
  "queue_at N c s \<longleftrightarrow> sizes_ok N c s \<and> reader_ok N c s \<and> (\<forall>t. pc_ok N c s (s_pcs s t)) \<and>
    (\<forall>t t' x. pos_of (s_pcs s t) = Some x \<longrightarrow> pos_of (s_pcs s t') = Some x \<longrightarrow> t = t') \<and> slots_ok N c s"

lemma queue_atD:
  assumes "queue_at N c s"
  shows "sizes_ok N c s" and "reader_ok N c s" and "pc_ok N c s (s_pcs s t)" and "slots_ok N c s"
    and "pos_of (s_pcs s t) = Some x \<Longrightarrow> pos_of (s_pcs s t') = Some x \<Longrightarrow> t = t'"
  using assms by (auto simp: queue_at_def)

section \<open>Arithmetic\<close>

lemma of_nat_u64_inject: "a \<le> 2 ^ 63 \<Longrightarrow> b \<le> 2 ^ 63 \<Longrightarrow> (of_nat a :: u64) = of_nat b \<longleftrightarrow> a = b"
  by (auto simp: u64_eq_iff_unat unat_of_nat_u64)

lemma mod_window: "a \<le> p \<Longrightarrow> p < a + N \<Longrightarrow> a \<le> q \<Longrightarrow> q < a + N \<Longrightarrow> p mod N = q mod N \<Longrightarrow> p = (q :: nat)"
proof -
  assume *: "a \<le> p" "p < a + N" "a \<le> q" "q < a + N" "p mod N = q mod N"
  then have "int N dvd int p - int q" by (simp add: mod_eq_dvd_iff [symmetric] of_nat_mod [symmetric])
  moreover have "\<bar>int p - int q\<bar> < int N" using * by linarith
  ultimately show ?thesis using zdvd_not_zless by (metis abs_of_nonneg abs_zero dvd_abs_iff dvd_imp_le_int eq_iff_diff_eq_0 linorder_not_less of_nat_eq_iff of_nat_0_le_iff)
qed

lemma slot_nat:
  assumes "sizes_ok N c s" and "p \<le> 2 ^ 63"
  shows "slot (s_queue s) (of_nat p) = p mod N"
proof -
  have "unat (of_nat p :: u64) = p" "unat (of_nat N :: u64) = N"
    using assms by (auto simp: sizes_ok_def unat_of_nat_u64)
  then show ?thesis using assms by (simp add: slot_def QueueSize_def sizes_ok_def unat_mod_distrib)
qed

lemma distance_nat:
  assumes "sizes_ok N c s" and "c \<le> p" and "p \<le> 2 ^ 62"
  shows "QueueSize (s_queue s) \<le> of_nat p - q_consumed (s_queue s) \<longleftrightarrow> c + N \<le> p + 1"
proof -
  have e: "of_nat p - q_consumed (s_queue s) = (of_nat (p + 1 - c) :: u64)"
    using assms by (simp add: sizes_ok_def of_nat_diff)
  have L: "length (q_data (s_queue s)) = N" using assms(1) by (simp add: sizes_ok_def)
  have u: "unat (of_nat (p + 1 - c) :: u64) = p + 1 - c" by (rule unat_of_nat_u64) (use assms(3) in simp)
  have v: "unat (of_nat N :: u64) = N" by (rule unat_of_nat_u64) (use assms(1) in \<open>simp add: sizes_ok_def\<close>)
  show ?thesis unfolding QueueSize_def L word_le_nat_alt e u v using assms(2) by auto
qed

section \<open>Steps\<close>

text \<open>Updates of the parts of the state on which the clauses do not depend.\<close>

lemma owned_same: "pos_of pc = pos_of (s_pcs s t) \<Longrightarrow> owned (s\<lparr>s_pcs := (s_pcs s)(t := pc)\<rparr>) = owned s"
  by (auto simp: owned_def fun_eq_iff)

lemma pc_ok_pcs [simp]: "pc_ok N c (s\<lparr>s_pcs := f\<rparr>) pc = pc_ok N c s pc"
  by (cases pc) simp_all

lemma sizes_ok_pcs [simp]: "sizes_ok N c (s\<lparr>s_pcs := f\<rparr>) = sizes_ok N c s"
  and reader_ok_pcs [simp]: "reader_ok N c (s\<lparr>s_pcs := f\<rparr>) = reader_ok N c s"
  by (simp_all add: sizes_ok_def reader_ok_def cong: consumer.case_cong)

lemma slots_ok_owned: "owned (s\<lparr>s_pcs := f\<rparr>) = owned s \<Longrightarrow> slots_ok N c (s\<lparr>s_pcs := f\<rparr>) = slots_ok N c s"
  by (simp add: slots_ok_def)

text \<open>A step that only moves a producer on.\<close>

lemma move_on:
  assumes q: "queue_at N c s" and pos: "pos_of pc = pos_of (s_pcs s t)" and ok: "pc_ok N c s pc"
  shows "queue_at N c (s\<lparr>s_pcs := (s_pcs s)(t := pc)\<rparr>)"
proof -
  note d = queue_atD [OF q]
  let ?s = "s\<lparr>s_pcs := (s_pcs s)(t := pc)\<rparr>"
  have "slots_ok N c ?s" using d(4) slots_ok_owned [OF owned_same [OF pos]] by blast
  moreover have "u = u'" if "pos_of (s_pcs ?s u) = Some x" "pos_of (s_pcs ?s u') = Some x" for u u' x
  proof (rule d(5))
    show "pos_of (s_pcs s u) = Some x" "pos_of (s_pcs s u') = Some x" using that pos by (auto split: if_splits)
  qed
  moreover have "pc_ok N c ?s (s_pcs ?s u)" for u using ok d(3) [of u] by simp
  moreover have "sizes_ok N c ?s" "reader_ok N c ?s" using d(1,2) by simp_all
  ultimately show ?thesis unfolding queue_at_def by blast
qed

lemma owned_new:
  assumes "pos_of (pcs t) = None"
  shows "(\<exists>u. pos_of ((pcs(t := pc)) u) = Some x) \<longleftrightarrow> pos_of pc = Some x \<or> (\<exists>u. pos_of (pcs u) = Some x)"
  using assms by (metis fun_upd_apply option.distinct(1))

text \<open>A new ticket: position \<open>n\<close> is owned, and nothing else changes.\<close>

lemma pc_ok_ticket:
  "pc_ok N c s pc \<Longrightarrow> pc_ok N c (s\<lparr>s_queue := (s_queue s)\<lparr>q_insert_place := x\<rparr>, s_pcs := f, s_tickets := s_tickets s @ [v]\<rparr>) pc"
  by (cases pc) (auto simp: nth_append)

lemma new_ticket:
  assumes q: "queue_at N c s" and idle: "pos_of (s_pcs s t) = None" and n: "length (s_tickets s) < 2 ^ 62"
    and pc: "pos_of pc = Some (of_nat (length (s_tickets s)))"
    and s': "s' = s\<lparr>s_queue := (s_queue s)\<lparr>q_insert_place := q_insert_place (s_queue s) + 1\<rparr>,
      s_pcs := (s_pcs s)(t := pc), s_tickets := s_tickets s @ [v]\<rparr>"
    and ok: "pc_ok N c s' pc"
  shows "queue_at N c s'"
proof -
  let ?n = "length (s_tickets s)"
  note q = queue_atD [OF q]
  have sz: "sizes_ok N c s'" using q(1) n by (simp add: sizes_ok_def s' add.commute)
  have rd: "reader_ok N c s'" using q(2) by (auto simp: reader_ok_def s' split: consumer.splits)
  have old: "x \<noteq> of_nat ?n" if x: "pos_of (s_pcs s u) = Some x" for u x
  proof -
    obtain p where "x = of_nat p" "p < ?n" using q(3) [of u] x by (cases "s_pcs s u") auto
    then show ?thesis using n by (simp add: of_nat_u64_inject)
  qed
  have pcs: "pc_ok N c s' (s_pcs s' u)" for u
    using ok pc_ok_ticket [OF q(3) [of u], where x = "q_insert_place (s_queue s) + 1" and v = v and f = "(s_pcs s)(t := pc)"] by (simp add: s')
  have inj: "u = u'" if "pos_of (s_pcs s' u) = Some x" "pos_of (s_pcs s' u') = Some x" for u u' x
    using that old q(5) pc by (auto simp: s' split: if_splits)
  have own: "owned s' p \<longleftrightarrow> owned s p \<or> (of_nat p :: u64) = of_nat ?n" for p
    using owned_new [where pcs = "s_pcs s" and t = t and pc = pc and x = "of_nat p", OF idle] pc by (auto simp: owned_def s')
  have "slots_ok N c s'"
    unfolding slots_ok_def
  proof (intro allI impI)
    fix p assume p: "length (s_read s') \<le> p"
    have r: "length (s_read s') = length (s_read s)" "q_data (s_queue s') = q_data (s_queue s)" by (simp_all add: s')
    have big: "p < ?n \<Longrightarrow> (of_nat p :: u64) \<noteq> of_nat ?n" using n by (simp add: of_nat_u64_inject)
    have t: "length (s_tickets s') = Suc ?n" "p < ?n \<Longrightarrow> s_tickets s' ! p = s_tickets s ! p" by (simp_all add: s' nth_append)
    show "(p < c + N \<longrightarrow> is_valid (q_data (s_queue s') ! (p mod N)) = (p < length (s_tickets s') \<and> \<not> owned s' p)) \<and>
        (p < length (s_tickets s') \<longrightarrow> \<not> owned s' p \<longrightarrow> p < c + N \<and> it_value (q_data (s_queue s') ! (p mod N)) = s_tickets s' ! p)"
      using q(4) p unfolding slots_ok_def r own t(1) using big t(2) by (auto simp: less_Suc_eq)
  qed
  then show ?thesis using sz rd pcs inj unfolding queue_at_def by blast
qed

text \<open>A store into the slot of a position in the window.\<close>

lemma set_slot_nth:
  assumes "sizes_ok N c s" and "p \<le> 2 ^ 63" and "i < N"
  shows "q_data (set_slot (slot (s_queue s) (of_nat p)) f (s_queue s)) ! i =
    (if i = p mod N then f (q_data (s_queue s) ! i) else q_data (s_queue s) ! i)"
  using assms slot_nat [OF assms(1,2)] by (simp add: set_slot_def sizes_ok_def nth_list_update)

lemma sizes_ok_set_slot: "sizes_ok N c s \<Longrightarrow> sizes_ok N c (s\<lparr>s_queue := set_slot i f (s_queue s)\<rparr>)"
  by (simp add: sizes_ok_def set_slot_def)

lemma window:
  assumes "queue_at N c s" and "length (s_read s) \<le> p" and "p < c + N" and "length (s_read s) \<le> q" and "q < c + N" and "p \<noteq> q"
  shows "p mod N \<noteq> q mod N"
proof -
  have "c \<le> length (s_read s)" using queue_atD(2) [OF assms(1)] by (simp add: reader_ok_def)
  then show ?thesis using mod_window [of c p N q] assms by auto
qed

text \<open>The position of a producer as a natural number.\<close>

lemma pos_nat:
  assumes "queue_at N c s" and "pos_of (s_pcs s t) = Some x"
  obtains p where "x = of_nat p" "length (s_read s) \<le> p" "p < length (s_tickets s)" "p \<le> 2 ^ 62"
proof -
  have n: "length (s_tickets s) \<le> 2 ^ 62" using queue_atD(1) [OF assms(1)] by (simp add: sizes_ok_def)
  obtain p where "x = of_nat p" "length (s_read s) \<le> p" "p < length (s_tickets s)"
    using queue_atD(3) [OF assms(1), of t] assms(2) by (cases "s_pcs s t") auto
  then show thesis using that n by simp
qed

lemma owned_by:
  assumes "queue_at N c s" and "pos_of (s_pcs s t) = Some (of_nat p)" and "p \<le> 2 ^ 62" and "q \<le> 2 ^ 62"
    and "pos_of pc = None"
  shows "owned (s\<lparr>s_pcs := (s_pcs s)(t := pc)\<rparr>) q \<longleftrightarrow> owned s q \<and> q \<noteq> p"
proof -
  have "u = t" if "pos_of (s_pcs s u) = Some (of_nat p)" for u using queue_atD(5) [OF assms(1) that assms(2)] .
  moreover have "(of_nat q :: u64) = of_nat p \<longleftrightarrow> q = p" using assms(3,4) by (simp add: of_nat_u64_inject)
  moreover have "owned (s\<lparr>s_pcs := (s_pcs s)(t := pc)\<rparr>) q \<longleftrightarrow> (\<exists>u. u \<noteq> t \<and> pos_of (s_pcs s u) = Some (of_nat q))"
    using assms(5) by (auto simp: owned_def)
  ultimately show ?thesis using assms(2) unfolding owned_def by (metis option.inject)
qed

lemma pc_ok_data:
  assumes "pc_ok N c s pc" and "s_read s' = s_read s" and "s_tickets s' = s_tickets s"
    and "\<And>i. pos_of pc = Some (of_nat i) \<Longrightarrow> length (s_read s) \<le> i \<Longrightarrow> i < c + N \<Longrightarrow>
      it_value (q_data (s_queue s') ! (i mod N)) = it_value (q_data (s_queue s) ! (i mod N))"
  shows "pc_ok N c s' pc"
proof (cases pc)
  case (Storing pos v)
  then obtain p where "pos = of_nat p" "length (s_read s) \<le> p" "p < length (s_tickets s)" "s_tickets s ! p = v" "p < c + N"
      "it_value (q_data (s_queue s) ! (p mod N)) = v" using assms(1) by auto
  then show ?thesis using assms(2,3) assms(4) [of p] Storing by (auto intro!: exI [of _ p])
qed (use assms(1-3) in auto)

lemma value_stored_ok:
  assumes q: "queue_at N c s" and pc: "s_pcs s t = Writing pos v"
  shows "queue_at N c (s\<lparr>s_queue := store_value pos v (s_queue s), s_pcs := (s_pcs s)(t := Storing pos v)\<rparr>)"
proof -
  note d = queue_atD [OF q]
  obtain p where p: "pos = of_nat p" "length (s_read s) \<le> p" "p < length (s_tickets s)" "s_tickets s ! p = v" "p < c + N"
    using d(3) [of t] pc by auto
  let ?s = "s\<lparr>s_queue := store_value pos v (s_queue s)\<rparr>"
  have p63: "p \<le> 2 ^ 63" using p(3) d(1) by (simp add: sizes_ok_def)
  have N: "0 < N" using d(1) by (simp add: sizes_ok_def)
  have nth: "q_data (s_queue ?s) ! (i mod N) =
      (if i mod N = p mod N then (q_data (s_queue s) ! (i mod N))\<lparr>it_value := v\<rparr> else q_data (s_queue s) ! (i mod N))" for i
    using set_slot_nth [OF d(1) p63, of "i mod N"] N by (simp add: store_value_def p(1))
  have other: "q_data (s_queue ?s) ! (i mod N) = q_data (s_queue s) ! (i mod N)"
    if "length (s_read s) \<le> i" "i < c + N" "i \<noteq> p" for i
    using nth [of i] window [OF q that(1,2) p(2,5) that(3)] by simp
  have flag: "is_valid (q_data (s_queue ?s) ! (i mod N)) = is_valid (q_data (s_queue s) ! (i mod N))" for i
    using nth [of i] by simp
  have sz: "sizes_ok N c ?s" unfolding store_value_def by (rule sizes_ok_set_slot [OF d(1)])
  have rd: "reader_ok N c ?s" using d(2) flag by (simp add: reader_ok_def split: consumer.splits)
  have own: "owned ?s = owned s" by (simp add: owned_def fun_eq_iff)
  have op: "owned s p" unfolding owned_def using pc p(1) by (intro exI [of _ t]) simp
  have sl: "slots_ok N c ?s"
  proof (rule slotsI)
    fix i assume i: "length (s_read ?s) \<le> i"
    show "is_valid (q_data (s_queue ?s) ! (i mod N)) = (i < length (s_tickets ?s) \<and> \<not> owned ?s i)" if "i < c + N"
      unfolding own flag using slotsD(1) [OF d(4)] i that by simp
    show "i < c + N \<and> it_value (q_data (s_queue ?s) ! (i mod N)) = s_tickets ?s ! i"
      if "i < length (s_tickets ?s)" "\<not> owned ?s i"
    proof -
      have "i < c + N" "it_value (q_data (s_queue s) ! (i mod N)) = s_tickets s ! i" "i \<noteq> p"
        using slotsD(2,3) [OF d(4)] i that op unfolding own by auto
      then show ?thesis using other [of i] i by simp
    qed
  qed
  have pcs: "pc_ok N c ?s (s_pcs s u)" if u: "u \<noteq> t" for u
  proof -
    have ne: "x \<noteq> of_nat p" if "pos_of (s_pcs s u) = Some x" for x
      using d(5) [of u x t] that u pc p(1) by auto
    show ?thesis
    proof (rule pc_ok_data [OF d(3)])
      fix i assume "pos_of (s_pcs s u) = Some (of_nat i)" "length (s_read s) \<le> i" "i < c + N"
      then show "it_value (q_data (s_queue ?s) ! (i mod N)) = it_value (q_data (s_queue s) ! (i mod N))"
        using ne other by metis
    qed simp_all
  qed
  have "pc_ok N c ?s (s_pcs s t)" using pc p by auto
  then have all: "pc_ok N c ?s (s_pcs ?s u)" for u using pcs by (cases "u = t") simp_all
  have "u = u'" if "pos_of (s_pcs ?s u) = Some x" "pos_of (s_pcs ?s u') = Some x" for u u' x
    by (rule d(5)) (use that in simp_all)
  then have "queue_at N c ?s" using sz rd sl all unfolding queue_at_def by blast
  moreover have "pc_ok N c ?s (Storing pos v)" using p nth [of p] by auto
  ultimately show ?thesis using move_on [of N c ?s "Storing pos v" t] pc by simp
qed

lemma flag_stored_ok:
  assumes q: "queue_at N c s" and pc: "s_pcs s t = Storing pos v"
  shows "queue_at N c (s\<lparr>s_queue := store_flag pos True (s_queue s), s_pcs := (s_pcs s)(t := Idle)\<rparr>)"
    (is "queue_at N c ?s")
proof -
  note d = queue_atD [OF q]
  obtain p where p: "pos = of_nat p" "length (s_read s) \<le> p" "p < length (s_tickets s)" "s_tickets s ! p = v" "p < c + N"
    "it_value (q_data (s_queue s) ! (p mod N)) = v"
    using d(3) [of t] pc by auto
  have n: "length (s_tickets s) \<le> 2 ^ 62" and N: "0 < N" using d(1) by (auto simp: sizes_ok_def)
  have p62: "p \<le> 2 ^ 62" "p \<le> 2 ^ 63" using p(3) n by simp_all
  have nth: "q_data (s_queue ?s) ! (i mod N) =
      (if i mod N = p mod N then (q_data (s_queue s) ! (i mod N))\<lparr>is_valid := True\<rparr> else q_data (s_queue s) ! (i mod N))" for i
    using set_slot_nth [OF d(1) p62(2), of "i mod N"] N by (simp add: store_flag_def p(1))
  have val: "it_value (q_data (s_queue ?s) ! (i mod N)) = it_value (q_data (s_queue s) ! (i mod N))" for i
    using nth [of i] by simp
  have own: "owned ?s i \<longleftrightarrow> owned s i \<and> i \<noteq> p" if "i \<le> 2 ^ 62" for i
    using owned_by [OF q, of t p i Idle] pc p(1) p62(1) that by (simp add: owned_def)
  have rd: "reader_ok N c ?s"
  proof -
    have "p mod N \<noteq> i mod N" if "c \<le> i" "i < length (s_read s)" for i
      using mod_window [of c p N i] p(2,5) that by auto
    then have "\<not> is_valid (q_data (s_queue ?s) ! (i mod N))" if "c \<le> i" "i < length (s_read s)" for i
      using d(2) nth [of i] that by (metis reader_ok_def)
    then show ?thesis using d(2) by (simp add: reader_ok_def split: consumer.splits)
  qed
  have sl: "slots_ok N c ?s"
  proof (rule slotsI)
    fix i assume i: "length (s_read ?s) \<le> i"
    then have i': "length (s_read s) \<le> i" by simp
    show "is_valid (q_data (s_queue ?s) ! (i mod N)) = (i < length (s_tickets ?s) \<and> \<not> owned ?s i)" if w: "i < c + N"
    proof (cases "i = p")
      case True
      then show ?thesis using nth [of p] p(3) own [OF p62(1)] by simp
    next
      case False
      have "i < length (s_tickets s) \<Longrightarrow> owned ?s i \<longleftrightarrow> owned s i" using own [of i] n False by simp
      then show ?thesis
        using slotsD(1) [OF d(4) i' w] nth [of i] window [OF q i' w p(2,5) False] by auto
    qed
    show "i < c + N \<and> it_value (q_data (s_queue ?s) ! (i mod N)) = s_tickets ?s ! i"
      if "i < length (s_tickets ?s)" "\<not> owned ?s i"
    proof (cases "i = p")
      case True
      then show ?thesis using p val [of p] by simp
    next
      case False
      then show ?thesis using slotsD(2,3) [OF d(4) i'] that own [of i] n val [of i] by simp
    qed
  qed
  have pcs: "pc_ok N c ?s (s_pcs ?s u)" for u
  proof (cases "u = t")
    case False
    have "pc_ok N c ?s (s_pcs s u)" by (rule pc_ok_data [OF d(3)]) (use val in simp_all)
    then show ?thesis using False by simp
  qed simp
  have "sizes_ok N c ?s" using d(1) by (simp add: sizes_ok_def store_flag_def set_slot_def)
  moreover have "u = u'" if "pos_of (s_pcs ?s u) = Some x" "pos_of (s_pcs ?s u') = Some x" for u u' x
    by (rule d(5)) (use that in \<open>auto split: if_splits\<close>)
  ultimately show ?thesis using rd sl pcs unfolding queue_at_def by blast
qed

text \<open>
  The consumer takes the next value, in \<^verbatim>\<open>read\<close> or in \<^verbatim>\<open>readMultiple\<close>: a set flag is enough for it to be
  the value of the next ticket.
\<close>

lemma take_value_ok:
  assumes q: "queue_at N c s" and pos: "pos = of_nat (length (s_read s))"
    and valid: "is_valid (q_data (s_queue s) ! slot (s_queue s) pos)" and con: "con = Reading pos \<or> con = ReadingMany pos"
  shows "queue_at N c (s\<lparr>s_queue := store_flag pos False (s_queue s), s_consumer := con,
      s_read := s_read s @ [it_value (q_data (s_queue s) ! slot (s_queue s) pos)]\<rparr>)"
    (is "queue_at N c ?s")
proof -
  note d = queue_atD [OF q]
  define r where "r = length (s_read s)"
  have n: "length (s_tickets s) \<le> 2 ^ 62" and N: "0 < N" using d(1) by (auto simp: sizes_ok_def)
  have rd0: "c \<le> r" "r \<le> c + N" "r \<le> length (s_tickets s)" "s_read s = take r (s_tickets s)"
    "\<And>p. c \<le> p \<Longrightarrow> p < r \<Longrightarrow> \<not> is_valid (q_data (s_queue s) ! (p mod N))"
    using d(2) by (auto simp: reader_ok_def r_def)
  have c: "pos = of_nat r" "r \<le> 2 ^ 63" using pos rd0(3) n by (simp_all add: r_def)
  have slot: "slot (s_queue s) pos = r mod N" using slot_nat [OF d(1) c(2)] by (simp add: c(1))
  have valid': "is_valid (q_data (s_queue s) ! (r mod N))" using valid unfolding slot .
  have rw: "r < c + N" using rd0(1,2) rd0(5) [of c] valid' N by (cases "r = c + N") auto
  have lt: "r < length (s_tickets s)" and free: "\<not> owned s r"
    using slotsD(1) [OF d(4), of r] valid' rw by (auto simp: r_def)
  have v: "it_value (q_data (s_queue s) ! (r mod N)) = s_tickets s ! r" using slotsD(3) [OF d(4), of r] lt free by (simp add: r_def)
  have nth: "q_data (s_queue ?s) ! (i mod N) =
      (if i mod N = r mod N then (q_data (s_queue s) ! (i mod N))\<lparr>is_valid := False\<rparr> else q_data (s_queue s) ! (i mod N))" for i
    using set_slot_nth [OF d(1) c(2), of "i mod N"] N by (simp add: store_flag_def c(1))
  have val: "it_value (q_data (s_queue ?s) ! (i mod N)) = it_value (q_data (s_queue s) ! (i mod N))" for i
    using nth [of i] by simp
  have own: "owned ?s = owned s" by (simp add: owned_def fun_eq_iff)
  have read: "s_read ?s = take (Suc r) (s_tickets s)" using rd0(4) v lt slot by (simp add: take_Suc_conv_app_nth)
  have len: "length (s_read ?s) = Suc r" by (simp add: r_def)
  have "\<not> is_valid (q_data (s_queue ?s) ! (p mod N))" if "c \<le> p" "p < Suc r" for p
    using rd0(5) [OF that(1)] that(2) nth [of p] by (auto simp: less_Suc_eq)
  then have rd: "reader_ok N c ?s" unfolding reader_ok_def len using read lt rd0(1) rw c(1) con by auto
  have sl: "slots_ok N c ?s"
  proof (rule slotsI)
    fix i assume i: "length (s_read ?s) \<le> i"
    then have i': "length (s_read s) \<le> i" "i \<noteq> r" by (auto simp: r_def)
    show "is_valid (q_data (s_queue ?s) ! (i mod N)) = (i < length (s_tickets ?s) \<and> \<not> owned ?s i)" if w: "i < c + N"
    proof -
      have "i mod N \<noteq> r mod N" using window [OF q i'(1) w _ rw i'(2)] by (simp add: r_def)
      then show ?thesis using slotsD(1) [OF d(4) i'(1) w] nth [of i] unfolding own by simp
    qed
    show "i < c + N \<and> it_value (q_data (s_queue ?s) ! (i mod N)) = s_tickets ?s ! i"
      if "i < length (s_tickets ?s)" "\<not> owned ?s i"
      using slotsD(2,3) [OF d(4) i'(1)] that val [of i] unfolding own by simp
  qed
  have pcs: "pc_ok N c ?s (s_pcs ?s u)" for u
  proof -
    have ne: "x \<noteq> of_nat r" if "pos_of (s_pcs s u) = Some x" for x using free that by (auto simp: owned_def)
    have "pc_ok N c (?s\<lparr>s_read := s_read s\<rparr>) (s_pcs s u)"
      by (rule pc_ok_data [OF d(3)]) (use val in simp_all)
    then have "pc_ok N c ?s (s_pcs s u)" using ne r_def by (cases "s_pcs s u") (auto simp: Suc_le_eq le_less)
    then show ?thesis by simp
  qed
  have "sizes_ok N c ?s" using d(1) by (simp add: sizes_ok_def store_flag_def set_slot_def)
  moreover have "u = u'" if "pos_of (s_pcs ?s u) = Some x" "pos_of (s_pcs ?s u') = Some x" for u u' x
    by (rule d(5)) (use that in simp_all)
  ultimately show ?thesis using rd sl pcs unfolding queue_at_def by blast
qed

text \<open>Storing \<^verbatim>\<open>_consumed\<close> moves the window over the positions that have been taken.\<close>

lemma consumed_ok:
  assumes q: "queue_at N c s" and taken: "s_consumer s = Reading pos \<or> s_consumer s = ReadingMany pos"
  shows "queue_at N (length (s_read s)) (s\<lparr>s_queue := (s_queue s)\<lparr>q_consumed := pos\<rparr>, s_consumer := Ready\<rparr>)"
    (is "queue_at N _ ?s")
proof -
  note d = queue_atD [OF q]
  define r where "r = length (s_read s)"
  have rd: "pos = of_nat r - 1" "c \<le> r" "r \<le> c + N" "r \<le> length (s_tickets s)" "s_read s = take r (s_tickets s)"
    "\<And>p. c \<le> p \<Longrightarrow> p < r \<Longrightarrow> \<not> is_valid (q_data (s_queue s) ! (p mod N))"
    using d(2) taken by (auto simp: reader_ok_def r_def)
  have own: "owned ?s = owned s" by (simp add: owned_def fun_eq_iff)
  have sl: "slots_ok N r ?s"
  proof (rule slotsI)
    fix i assume i: "length (s_read ?s) \<le> i"
    then have i': "length (s_read s) \<le> i" by simp
    show "is_valid (q_data (s_queue ?s) ! (i mod N)) = (i < length (s_tickets ?s) \<and> \<not> owned ?s i)" if w: "i < r + N"
    proof (cases "i < c + N")
      case True
      then show ?thesis using slotsD(1) [OF d(4) i'] unfolding own by simp
    next
      case False
      then have e: "i = (i - N) + N" "c \<le> i - N" "i - N < r" using w by auto
      then have "\<not> is_valid (q_data (s_queue s) ! (i mod N))" using rd(6) [OF e(2,3)] by (metis mod_add_self2)
      moreover have "\<not> (i < length (s_tickets s) \<and> \<not> owned s i)" using slotsD(2) [OF d(4) i'] False by auto
      ultimately show ?thesis unfolding own by simp
    qed
    show "i < r + N \<and> it_value (q_data (s_queue ?s) ! (i mod N)) = s_tickets ?s ! i"
      if "i < length (s_tickets ?s)" "\<not> owned ?s i"
    proof -
      have "i < c + N" "it_value (q_data (s_queue s) ! (i mod N)) = s_tickets s ! i"
        using slotsD(2,3) [OF d(4) i'] that unfolding own by simp_all
      then show ?thesis using rd(2) by simp
    qed
  qed
  have pcs: "pc_ok N r ?s (s_pcs ?s u)" for u
    using d(3) [of u] rd(2) by (cases "s_pcs s u") (auto intro: less_le_trans)
  have "reader_ok N r ?s" unfolding reader_ok_def using rd(4,5) by (simp add: r_def [symmetric])
  moreover have "sizes_ok N r ?s" using d(1) rd(1) by (simp add: sizes_ok_def)
  moreover have "u = u'" if "pos_of (s_pcs ?s u) = Some x" "pos_of (s_pcs ?s u') = Some x" for u u' x
    by (rule d(5)) (use that in simp_all)
  ultimately show ?thesis using sl pcs unfolding queue_at_def r_def [symmetric] by blast
qed

lemma many_start_ok:
  assumes q: "queue_at N c s" and idle: "s_consumer s = Ready"
  shows "queue_at N c (s\<lparr>s_consumer := ReadingMany (q_consumed (s_queue s))\<rparr>)" (is "queue_at N c ?s")
proof -
  note d = queue_atD [OF q]
  have "owned ?s = owned s" by (simp add: owned_def fun_eq_iff)
  then have "slots_ok N c ?s" using d(4) by (simp add: slots_ok_def)
  moreover have "sizes_ok N c ?s" "reader_ok N c ?s" using d(1,2) idle by (auto simp: sizes_ok_def reader_ok_def)
  moreover have "pc_ok N c ?s (s_pcs ?s u)" for u using d(3) [of u] by (cases "s_pcs s u") simp_all
  moreover have "u = u'" if "pos_of (s_pcs ?s u) = Some x" "pos_of (s_pcs ?s u') = Some x" for u u' x
    by (rule d(5)) (use that in simp_all)
  ultimately show ?thesis unfolding queue_at_def by blast
qed

text \<open>The guards: a position for which there is room is in the window.\<close>

lemma room:
  assumes q: "queue_at N c s" and p: "p \<le> length (s_tickets s)" and room: "\<not> QueueSize (s_queue s) \<le> of_nat p - q_consumed (s_queue s)"
    and cp: "c \<le> p"
  shows "p < c + N"
proof -
  have "p \<le> 2 ^ 62" using p queue_atD(1) [OF q] by (simp add: sizes_ok_def)
  then show ?thesis using distance_nat [OF queue_atD(1) [OF q] cp] room by auto
qed

lemma not_full_window:
  assumes q: "queue_at N c s" and pc: "pc_ok N c s (Waiting pos v)" and free: "\<not> isFull (s_queue s) pos"
  shows "pc_ok N c s (Writing pos v)"
proof -
  obtain p where p: "pos = of_nat p" "length (s_read s) \<le> p" "p < length (s_tickets s)" "s_tickets s ! p = v" using pc by auto
  have "c \<le> p" using p(2) queue_atD(2) [OF q] by (simp add: reader_ok_def)
  then have "p < c + N" using room [OF q] free p by (simp add: isFull_def)
  then show ?thesis using p by auto
qed

text \<open>
  Before the first value is consumed \<^verbatim>\<open>_consumed\<close> is the largest number, and the test of \<^verbatim>\<open>tryWrite\<close> lets
  every position through. A step overruns the queue if it is such a test and the position is past the
  slots. The other steps are careful: every step of \<^verbatim>\<open>write\<close>, \<^verbatim>\<open>read\<close> and \<^verbatim>\<open>readMultiple\<close>, and every step
  of a \<^verbatim>\<open>tryWrite\<close> that has one of the first positions or makes its test after a value has been consumed.
\<close>

definition overruns :: "'v system \<Rightarrow> 'v system \<Rightarrow> bool" where
  "overruns s s' \<longleftrightarrow> q_consumed (s_queue s) = - 1 \<and>
    (\<exists>t pos v. s_pcs s t = Trying pos v \<and> s_pcs s' t = Checked pos v \<and> QueueSize (s_queue s) \<le> pos)"

definition careful_step :: "'v system \<Rightarrow> 'v system \<Rightarrow> bool" where
  "careful_step s s' \<longleftrightarrow> queue_step s s' \<and> \<not> overruns s s'"

lemma plain_careful:
  "queue_step s s' \<Longrightarrow> (\<And>t pos v. s_pcs s' t = Checked pos v \<Longrightarrow> s_pcs s t = Checked pos v) \<Longrightarrow> careful_step s s'"
  by (auto simp: careful_step_def overruns_def)

lemma late_careful: "queue_step s s' \<Longrightarrow> q_consumed (s_queue s) \<noteq> - 1 \<Longrightarrow> careful_step s s'"
  by (simp add: careful_step_def overruns_def)

lemma try_room_window:
  assumes q: "queue_at N c s" and pc: "pc_ok N c s (Trying pos v)" and free: "\<not> try_full (s_queue s) pos"
    and start: "q_consumed (s_queue s) = - 1 \<Longrightarrow> pos < QueueSize (s_queue s)"
  shows "pc_ok N c s (Checked pos v)"
proof -
  obtain p where p: "pos = of_nat p" "p \<le> length (s_tickets s)" using pc by auto
  have sz: "length (s_tickets s) \<le> 2 ^ 62" "q_consumed (s_queue s) = of_nat c - 1" "0 < N" "N < 2 ^ 62" "length (q_data (s_queue s)) = N"
    using queue_atD(1) [OF q] by (auto simp: sizes_ok_def)
  have c: "c \<le> length (s_tickets s)" using queue_atD(2) [OF q] by (simp add: reader_ok_def)
  then have u: "unat (of_nat p :: u64) = p" "unat (of_nat (c - 1) :: u64) = c - 1" "unat (of_nat N :: u64) = N"
    using sz(1,4) p(2) by (simp_all add: unat_of_nat_u64)
  have "p < c + N"
  proof (cases "c = 0")
    case True
    then have "pos < of_nat N" using start sz(2,5) by (simp add: QueueSize_def)
    then show ?thesis unfolding p(1) word_less_nat_alt u by simp
  next
    case False
    show ?thesis
    proof (cases "c \<le> p")
      case True
      have "q_consumed (s_queue s) = of_nat (c - 1)" using sz(2) False by (simp add: of_nat_diff)
      then have "q_consumed (s_queue s) < pos" unfolding p(1) word_less_nat_alt using True False u(1,2) by simp
      then show ?thesis using room [OF q p(2) _ True] free p(1) by (simp add: try_full_def)
    qed (use sz(3) in simp)
  qed
  then show ?thesis using p by auto
qed

definition queue_inv :: "nat \<Rightarrow> 'v system \<Rightarrow> bool" where
  "queue_inv N s \<longleftrightarrow> (\<exists>c. queue_at N c s)"

lemma queue_inv_step:
  assumes "queue_step s s'" and "queue_at N c s" and "\<not> overruns s s'"
  shows "\<exists>c'. queue_at N c' s'"
  using assms
proof (induction rule: queue_step.induct)
  case (take_ticket s t pos v)
  have e: "pos = of_nat (length (s_tickets s))" using take_ticket queue_atD(1) [OF take_ticket(4)] by (simp add: sizes_ok_def)
  have r: "length (s_read s) \<le> length (s_tickets s)" using queue_atD(2) [OF take_ticket(4)] by (simp add: reader_ok_def)
  show ?case
    by (rule exI, rule new_ticket [OF take_ticket(4), where t = t and v = v and pc = "Waiting pos v"])
      (use take_ticket e r in \<open>auto intro!: exI [of _ "length (s_tickets s)"]\<close>)
next
  case (slot_free s t pos v)
  have "pc_ok N c s (Waiting pos v)" using queue_atD(3) [OF slot_free(3), of t] unfolding slot_free(1) .
  then have "pc_ok N c s (Writing pos v)" using not_full_window [OF slot_free(3) _ slot_free(2)] by blast
  then show ?case using move_on [OF slot_free(3), of "Writing pos v" t] slot_free(1) by auto
next
  case (value_stored s t pos v)
  show ?case using value_stored_ok [OF value_stored(2,1)] by (rule exI)
next
  case (flag_stored s t pos v)
  show ?case using flag_stored_ok [OF flag_stored(2,1)] by (rule exI)
next
  case (try_start s t v)
  have "pc_ok N c s (Trying (q_insert_place (s_queue s)) v)"
    using queue_atD(1) [OF try_start(2)] by (auto simp: sizes_ok_def)
  then show ?case using move_on [OF try_start(2), of "Trying (q_insert_place (s_queue s)) v" t] try_start(1) by auto
next
  case (try_failed s t pos v)
  then show ?case using move_on [OF try_failed(3), of Idle t] by auto
next
  case (try_room s t pos v)
  have "pc_ok N c s (Trying pos v)" using queue_atD(3) [OF try_room(3), of t] unfolding try_room(1) .
  moreover have "pos < QueueSize (s_queue s)" if "q_consumed (s_queue s) = - 1"
  proof (rule ccontr)
    assume "\<not> pos < QueueSize (s_queue s)"
    then have "overruns s (s\<lparr>s_pcs := (s_pcs s)(t := Checked pos v)\<rparr>)"
      unfolding overruns_def using that try_room(1) by (intro conjI exI [of _ t] exI [of _ pos] exI [of _ v]) simp_all
    then show False using try_room(4) by simp
  qed
  ultimately have "pc_ok N c s (Checked pos v)" using try_room_window [OF try_room(3) _ try_room(2)] by blast
  then show ?case using move_on [OF try_room(3), of "Checked pos v" t] try_room(1) by auto
next
  case (try_swap s t pos v)
  have e: "pos = of_nat (length (s_tickets s))" using try_swap queue_atD(1) [OF try_swap(4)] by (simp add: sizes_ok_def)
  obtain p where p: "pos = of_nat p" "p \<le> length (s_tickets s)" "p < c + N" using queue_atD(3) [OF try_swap(4), of t] try_swap(1) by auto
  have n: "p = length (s_tickets s)" using of_nat_u64_inject [of p "length (s_tickets s)"] e p(1,2) try_swap(3) by simp
  have r: "length (s_read s) \<le> length (s_tickets s)" using queue_atD(2) [OF try_swap(4)] by (simp add: reader_ok_def)
  show ?case
    by (rule exI, rule new_ticket [OF try_swap(4), where t = t and v = v and pc = "Writing pos v"])
      (use try_swap e p n r in \<open>auto intro!: exI [of _ "length (s_tickets s)"]\<close>)
next
  case (try_again s t pos v)
  have "pc_ok N c s (Trying (q_insert_place (s_queue s)) v)"
    using queue_atD(1) [OF try_again(3)] by (auto simp: sizes_ok_def)
  then show ?case using move_on [OF try_again(3), of "Trying (q_insert_place (s_queue s)) v" t] try_again(1) by auto
next
  case (read_value s pos)
  have l: "length (s_read s) = c" using queue_atD(2) [OF read_value(4)] read_value(1) by (simp add: reader_ok_def)
  have p: "pos = of_nat (length (s_read s))" using read_value(3) queue_atD(1) [OF read_value(4)] l by (simp add: sizes_ok_def)
  have v: "is_valid (q_data (s_queue s) ! slot (s_queue s) pos)" using read_value(2) unfolding nothing_to_read_def read_value(3) by blast
  show ?case using take_value_ok [OF read_value(4) p v, of "Reading pos"] by blast
next
  case (read_done s pos)
  then show ?case using consumed_ok [OF read_done(2)] by blast
next
  case (many_start s)
  then show ?case using many_start_ok [OF many_start(2,1)] by blast
next
  case (many_value s pos' pos)
  have "pos = of_nat (length (s_read s))" using queue_atD(2) [OF many_value(4)] many_value(1,2) by (simp add: reader_ok_def)
  then show ?case using take_value_ok [OF many_value(4) _ many_value(3), of "ReadingMany pos"] by blast
next
  case (many_done s pos)
  then show ?case using consumed_ok [OF many_done(2)] by blast
qed

lemma new_system_at: "0 < N \<Longrightarrow> N < 2 ^ 62 \<Longrightarrow> queue_at N 0 (new_system N v)"
  by (simp add: queue_at_def new_system_def new_queue_def sizes_ok_def reader_ok_def slots_ok_def)

lemma queue_inv_kept: "queue_inv N s \<Longrightarrow> careful_step s s' \<Longrightarrow> queue_inv N s'"
  unfolding queue_inv_def careful_step_def using queue_inv_step by blast

lemma queue_inv_new: "0 < N \<Longrightarrow> N < 2 ^ 62 \<Longrightarrow> queue_inv N (new_system N v)"
  unfolding queue_inv_def by (rule exI) (rule new_system_at)

interpretation queue_system: inductive_invariant "\<lambda>s. s = new_system N v \<and> 0 < N \<and> N < 2 ^ 62" careful_step "queue_inv N"
  for N v
proof
  show "queue_inv N s" if "s = new_system N v \<and> 0 < N \<and> N < 2 ^ 62" for s
    using that queue_inv_new [of N v] by simp
  show "queue_inv N t" if "queue_inv N s" "careful_step s t" for s t by (rule queue_inv_kept [OF that])
qed

section \<open>First in, first out\<close>

lemma ready_at:
  assumes q: "queue_at N c s" and idle: "s_consumer s = Ready" and lt: "length (s_read s) < length (s_tickets s)"
    and fin: "\<not> owned s (length (s_read s))"
  shows "\<not> nothing_to_read (s_queue s)"
proof -
  note d = queue_atD [OF q]
  have n: "length (s_tickets s) \<le> 2 ^ 62" and N: "0 < N" using d(1) by (auto simp: sizes_ok_def)
  have c: "length (s_read s) = c" using d(2) idle by (auto simp: reader_ok_def)
  have v: "is_valid (q_data (s_queue s) ! (c mod N))" using slotsD(1) [OF d(4), of c] lt fin c N by simp
  have pos: "q_consumed (s_queue s) + 1 = of_nat c" using d(1) by (simp add: sizes_ok_def)
  have slot: "slot (s_queue s) (of_nat c) = c mod N" by (rule slot_nat [OF d(1)]) (use lt c n in simp)
  have "unat (of_nat c :: u64) = c" "unat (of_nat (length (s_tickets s)) :: u64) = length (s_tickets s)"
    using n lt c by (simp_all add: unat_of_nat_u64)
  then have "\<not> q_insert_place (s_queue s) \<le> of_nat c" using lt c d(1) by (simp add: sizes_ok_def word_le_nat_alt)
  then show ?thesis using v unfolding nothing_to_read_def pos slot by blast
qed

lemma room_at:
  assumes q: "queue_at N c s" and idle: "s_consumer s = Ready" and pc: "s_pcs s t = Waiting (of_nat p) v"
    and p: "p < length (s_tickets s)" "p + 1 < length (s_read s) + N"
  shows "\<not> isFull (s_queue s) (of_nat p)"
proof -
  note d = queue_atD [OF q]
  have n: "length (s_tickets s) \<le> 2 ^ 62" using d(1) by (auto simp: sizes_ok_def)
  have c: "length (s_read s) = c" using d(2) idle by (auto simp: reader_ok_def)
  obtain p' where p': "(of_nat p :: u64) = of_nat p'" "c \<le> p'" "p' < length (s_tickets s)" using d(3) [of t] pc c by auto
  then have "p' = p" using of_nat_u64_inject [of p p'] p n by simp
  then have "c \<le> p" "p \<le> 2 ^ 62" using p'(2) p(1) n by simp_all
  then have "QueueSize (s_queue s) \<le> of_nat p - q_consumed (s_queue s) \<longleftrightarrow> c + N \<le> p + 1" by (rule distance_nat [OF d(1)])
  then show ?thesis using p(2) c unfolding isFull_def by linarith
qed

lemma read_at: "queue_at N c s \<Longrightarrow> s_read s = take (length (s_read s)) (s_tickets s)"
  unfolding queue_at_def reader_ok_def by blast

text \<open>
  C32. Under every interleaving of the steps of any number of producers in \<^verbatim>\<open>write\<close> and \<^verbatim>\<open>tryWrite\<close> and of
  the one consumer in \<^verbatim>\<open>read\<close> and \<^verbatim>\<open>readMultiple\<close>, as long as no \<^verbatim>\<open>tryWrite\<close> overruns the queue: the
  values read are the values of the tickets in order, none lost, repeated or torn; when the producer of
  the next ticket has finished, an idle consumer finds its value; and a waiting producer finds its slot
  free as soon as fewer than \<open>N - 1\<close> tickets before it are unread. A \<^verbatim>\<open>tryWrite\<close> overruns the queue if it
  makes its test before the first value is consumed, for a position past the \<open>N\<close> slots: the test lets
  it through and it overwrites values, so these runs are excluded. Sequentially consistent accesses,
  fewer than \<open>2 ^ 62\<close> tickets.
\<close>

theorem queue_is_fifo:
  assumes "0 < N" and "N < 2 ^ 62" and "careful_step\<^sup>*\<^sup>* (new_system N v\<^sub>0) s"
  shows "s_read s = take (length (s_read s)) (s_tickets s) \<and>
    (s_consumer s = Ready \<longrightarrow> length (s_read s) < length (s_tickets s) \<longrightarrow>
      (\<forall>t. pos_of (s_pcs s t) \<noteq> Some (of_nat (length (s_read s)))) \<longrightarrow> \<not> nothing_to_read (s_queue s)) \<and>
    (\<forall>t p v. s_consumer s = Ready \<longrightarrow> s_pcs s t = Waiting (of_nat p) v \<longrightarrow> p < length (s_tickets s) \<longrightarrow>
      p + 1 < length (s_read s) + N \<longrightarrow> \<not> isFull (s_queue s) (of_nat p))"
proof -
  have "queue_inv N s" using queue_system.inv_reachable [of _ N v\<^sub>0 s] assms by blast
  then obtain c where c: "queue_at N c s" unfolding queue_inv_def by blast
  show ?thesis using read_at [OF c] ready_at [OF c] room_at [OF c] unfolding owned_def by blast
qed

text \<open>One producer has stored a value, and the next one waits.\<close>

definition demo_queue :: "nat system" where
  "demo_queue = \<lparr>s_queue = \<lparr>q_data = [\<lparr>it_value = 7, is_valid = True\<rparr>, \<lparr>it_value = 0, is_valid = False\<rparr>], q_consumed = - 1, q_insert_place = 1\<rparr>,
    s_pcs = \<lambda>_. Idle, s_consumer = Ready, s_tickets = [7], s_read = []\<rparr>"

lemma replicate_two: "replicate 2 x = [x, x]"
  by (simp add: numeral_2_eq_2)

lemma demo_queue_reachable: "careful_step\<^sup>*\<^sup>* (new_system 2 0) demo_queue"
proof -
  let ?q1 = "\<lparr>q_data = replicate 2 \<lparr>it_value = 0 :: nat, is_valid = False\<rparr>, q_consumed = - 1, q_insert_place = 1\<rparr> :: nat queue"
  let ?s1 = "\<lparr>s_queue = ?q1, s_pcs = (\<lambda>_. Idle)(0 := Waiting 0 7), s_consumer = Ready, s_tickets = [7], s_read = []\<rparr>"
  let ?s2 = "?s1\<lparr>s_pcs := (s_pcs ?s1)(0 := Writing 0 7)\<rparr>"
  let ?s3 = "?s2\<lparr>s_queue := store_value 0 7 (s_queue ?s2), s_pcs := (s_pcs ?s2)(0 := Storing 0 7)\<rparr>"
  have s1: "careful_step (new_system 2 0) ?s1"
    using take_ticket [of "new_system 2 0" 0 0 7] by (simp add: careful_step_def overruns_def new_system_def new_queue_def)
  have s2: "careful_step ?s1 ?s2"
    using slot_free [of ?s1 0 0 7] by (simp add: careful_step_def overruns_def isFull_def QueueSize_def word_le_nat_alt)
  have s3: "careful_step ?s2 ?s3"
    using value_stored [of ?s2 0 0 7] by (simp add: careful_step_def overruns_def)
  have "careful_step ?s3 demo_queue"
    using flag_stored [of ?s3 0 0 7]
    by (simp add: careful_step_def overruns_def demo_queue_def store_flag_def store_value_def set_slot_def slot_def replicate_two fun_upd_idem)
  then show ?thesis
    using s1 s2 s3 by (meson converse_rtranclp_into_rtranclp rtranclp.rtrancl_refl)
qed

theorem queue_is_fifo_witness:
  "careful_step\<^sup>*\<^sup>* (new_system 2 0) demo_queue \<and> \<not> nothing_to_read (s_queue demo_queue)"
  using queue_is_fifo [of 2 0 demo_queue] demo_queue_reachable by (simp add: demo_queue_def)

text \<open>
  Before the first read \<^verbatim>\<open>_consumed\<close> is the largest number, the test of \<^verbatim>\<open>tryWrite\<close> never sees a full queue
  and the oldest values are overwritten.
\<close>

fun tryWrites :: "'v list \<Rightarrow> 'v queue \<Rightarrow> bool list \<times> 'v queue" where
  "tryWrites [] q = ([], q)"
| "tryWrites (v # vs) q = (case tryWrite v q of (b, q') \<Rightarrow> case tryWrites vs q' of (bs, q'') \<Rightarrow> (b # bs, q''))"

theorem tryWrite_overwrites:
  "case tryWrites [1 :: nat, 2, 3] (new_queue 2 0) of (bs, q) \<Rightarrow> bs = [True, True, True] \<and> fst (queue_read q) = Some 3"
  by (simp add: tryWrite_def new_queue_def try_full_def QueueSize_def writeItem_def store_flag_def store_value_def
      set_slot_def slot_def queue_read_def nothing_to_read_def replicate_two)

text \<open>A queue of size one never lets a \<^verbatim>\<open>write\<close> through.\<close>

theorem one_slot_never_written: "queue_write (v :: nat) (new_queue 1 0) = None"
  by (simp add: queue_write_def new_queue_def isFull_def QueueSize_def)

end
