(* ===== verification/Serializer.thy ===== *)
theory Serializer
  imports Byte_Buffer
begin

text \<open>
  The serializer of \<^verbatim>\<open>crossbow/serializer\<close>. A policy of the source is a template over the archiver, which
  it calls back for the parts of an object; here it is a function of the operation on the parts. The
  types that can be serialized are a \<^verbatim>\<open>datatype\<close> and so are their values; \<open>sizer_and\<close>,
  \<open>serializer_and\<close> and \<open>deserializer_and\<close> are the three \<^verbatim>\<open>operator&\<close> that choose the policy of a type.

  Plain types are their bytes. A class is a list of members, visited in order by its \<^verbatim>\<open>visit\<close> or its own
  \<^verbatim>\<open>operator&\<close>. A \<^verbatim>\<open>std::map\<close> and a \<^verbatim>\<open>std::multimap\<close> are the list of their entries in the order of the
  predicate, a parameter; an \<^verbatim>\<open>std::unordered_map\<close> is the list of its entries in some order. Memory is taken
  not to run out. The compound assignment in \<^verbatim>\<open>other_impl\<close> evaluates its right side first.
\<close>

section \<open>Types and values\<close>

datatype ty = Pod nat | Bool | Pair ty ty | Tuple "ty list" | Str | Vector ty | Optional ty
  | Map ty ty | Multimap ty ty | Unordered_map ty ty | Visit "ty list" | Serializable "ty list"

datatype val = VPod "byte list" | VBool bool | VPair val val | VTuple "val list" | VStr "byte list" | VVector "val list"
  | VOptional "val option" | VMap "(val \<times> val) list" | VMultimap "(val \<times> val) list" | VUnordered_map "(val \<times> val) list"
  | VVisit "val list" | VSerializable "val list"

type_synonym entries = "(val \<times> val) list"

section \<open>Sizes\<close>

text \<open>A size policy returns what the archiver adds, after the calls for the parts have changed the archiver.\<close>

definition size_pod :: "byte list \<Rightarrow> u64 \<Rightarrow> u64 \<times> u64" where
  "size_pod bs s = (of_nat (length bs), s)"

definition size_bool :: "bool \<Rightarrow> u64 \<Rightarrow> u64 \<times> u64" where
  "size_bool b s = (1, s)"

definition size_pair :: "('v \<Rightarrow> u64 \<Rightarrow> u64) \<Rightarrow> 'v \<Rightarrow> 'v \<Rightarrow> u64 \<Rightarrow> u64 \<times> u64" where
  "size_pair ar a b s = (0, ar b (ar a s))"

fun size_tuple_impl :: "('v \<Rightarrow> u64 \<Rightarrow> u64) \<Rightarrow> 'v list \<Rightarrow> nat \<Rightarrow> u64 \<Rightarrow> u64" where
  "size_tuple_impl ar vs 0 s = s"
| "size_tuple_impl ar vs (Suc i) s = size_tuple_impl ar vs i (ar (vs ! i) s)"

definition size_tuple :: "('v \<Rightarrow> u64 \<Rightarrow> u64) \<Rightarrow> 'v list \<Rightarrow> u64 \<Rightarrow> u64 \<times> u64" where
  "size_tuple ar vs s = (0, size_tuple_impl ar vs (length vs) s)"

definition size_string :: "byte list \<Rightarrow> u64 \<Rightarrow> u64 \<times> u64" where
  "size_string bs s = (4 + of_nat (length bs), s)"

text \<open>The size of a \<^verbatim>\<open>size_t\<close> and of a \<^verbatim>\<open>bool\<close> that a policy passes to the archiver.\<close>

definition add_size_t :: "u64 \<Rightarrow> u64" where
  "add_size_t s = s + 8"

definition add_bool :: "u64 \<Rightarrow> u64" where
  "add_bool s = s + 1"

definition size_vector :: "('v \<Rightarrow> u64 \<Rightarrow> u64) \<Rightarrow> 'v list \<Rightarrow> u64 \<Rightarrow> u64 \<times> u64" where
  "size_vector ar vs s = (0, fold ar vs (add_size_t s))"

definition size_optional :: "('v \<Rightarrow> u64 \<Rightarrow> u64) \<Rightarrow> 'v option \<Rightarrow> u64 \<Rightarrow> u64 \<times> u64" where
  "size_optional ar x s = (0, case x of None \<Rightarrow> add_bool s | Some v \<Rightarrow> ar v (add_bool s))"

definition size_map :: "('v \<Rightarrow> u64 \<Rightarrow> u64) \<Rightarrow> ('v \<times> 'v) list \<Rightarrow> u64 \<Rightarrow> u64 \<times> u64" where
  "size_map ar es s = (0, fold (\<lambda>e s. ar (snd e) (ar (fst e) s)) es (add_size_t s))"

definition size_multimap :: "('v \<Rightarrow> u64 \<Rightarrow> u64) \<Rightarrow> ('v \<times> 'v) list \<Rightarrow> u64 \<Rightarrow> u64 \<times> u64" where
  "size_multimap ar es s = (0, fold (\<lambda>e s. ar (snd e) (ar (fst e) s)) es (add_size_t s))"

definition size_unordered_map :: "('v \<Rightarrow> u64 \<Rightarrow> u64) \<Rightarrow> ('v \<times> 'v) list \<Rightarrow> u64 \<Rightarrow> u64 \<times> u64" where
  "size_unordered_map ar es s = (0, fold (\<lambda>e s. ar (snd e) (ar (fst e) s)) es (add_size_t s))"

definition size_serializable :: "('v \<Rightarrow> u64 \<Rightarrow> u64) \<Rightarrow> 'v list \<Rightarrow> u64 \<Rightarrow> u64 \<times> u64" where
  "size_serializable ar vs s = (0, fold ar vs s)"

text \<open>\<^verbatim>\<open>other_impl\<close> adds what the policy returns, \<^verbatim>\<open>visit_impl\<close> lets the object visit its members.\<close>

definition other_impl :: "u64 \<times> u64 \<Rightarrow> u64" where
  "other_impl r = snd r + fst r"

definition visit_impl :: "('v \<Rightarrow> 's \<Rightarrow> 's) \<Rightarrow> 'v list \<Rightarrow> 's \<Rightarrow> 's" where
  "visit_impl ar vs s = fold ar vs s"

text \<open>Recursion through the policies: they only call the archiver for the parts.\<close>

lemma fold_ext: "(\<And>v s. v \<in> set vs \<Longrightarrow> f v s = g v s) \<Longrightarrow> fold f vs s = fold g vs s"
  by (induction vs arbitrary: s) simp_all

lemma size_tuple_impl_cong:
  assumes "n \<le> length vs" and "\<And>v s. v \<in> set vs \<Longrightarrow> f v s = g v s"
  shows "size_tuple_impl f vs n s = size_tuple_impl g vs n s"
  using assms(1)
proof (induction n arbitrary: s)
  case (Suc n)
  then have "f (vs ! n) s = g (vs ! n) s" by (intro assms(2)) simp
  then show ?case using Suc by simp
qed simp

lemma size_tuple_cong [fundef_cong]:
  "vs = vs' \<Longrightarrow> s = s' \<Longrightarrow> (\<And>v s. v \<in> set vs' \<Longrightarrow> f v s = g v s) \<Longrightarrow> size_tuple f vs s = size_tuple g vs' s'"
  unfolding size_tuple_def using size_tuple_impl_cong [of "length vs'" vs' f g s'] by simp

lemma size_pair_cong [fundef_cong]:
  "a = a' \<Longrightarrow> b = b' \<Longrightarrow> s = s' \<Longrightarrow> (\<And>s. f a' s = g a' s) \<Longrightarrow> (\<And>s. f b' s = g b' s) \<Longrightarrow> size_pair f a b s = size_pair g a' b' s'"
  by (simp add: size_pair_def)

lemma size_list_cong [fundef_cong]:
  assumes "vs = vs'" and "s = s'" and "\<And>v s. v \<in> set vs' \<Longrightarrow> f v s = g v s"
  shows "size_vector f vs s = size_vector g vs' s'" and "size_serializable f vs s = size_serializable g vs' s'"
  unfolding size_vector_def size_serializable_def assms(1,2) using fold_ext [of vs' f g, OF assms(3)] by simp_all

lemma visit_impl_cong [fundef_cong]:
  assumes "vs = vs'" and "s = s'" and "\<And>v s. v \<in> set vs' \<Longrightarrow> f v s = g v s"
  shows "visit_impl f vs s = visit_impl g vs' s'"
  unfolding visit_impl_def assms(1,2) by (rule fold_ext [OF assms(3)])

lemma size_optional_cong [fundef_cong]:
  "x = x' \<Longrightarrow> s = s' \<Longrightarrow> (\<And>v s. x' = Some v \<Longrightarrow> f v s = g v s) \<Longrightarrow> size_optional f x s = size_optional g x' s'"
  by (simp add: size_optional_def split: option.split)

lemma size_entries_cong [fundef_cong]:
  assumes "es = es'" and "s = s'" and "\<And>e s. e \<in> set es' \<Longrightarrow> f (fst e) s = g (fst e) s" and "\<And>e s. e \<in> set es' \<Longrightarrow> f (snd e) s = g (snd e) s"
  shows "size_map f es s = size_map g es' s'" and "size_multimap f es s = size_multimap g es' s'"
    and "size_unordered_map f es s = size_unordered_map g es' s'"
proof -
  have "fold (\<lambda>e s. f (snd e) (f (fst e) s)) es' t = fold (\<lambda>e s. g (snd e) (g (fst e) s)) es' t" for t
    by (rule fold_ext) (simp add: assms(3,4))
  then show "size_map f es s = size_map g es' s'" and "size_multimap f es s = size_multimap g es' s'"
    and "size_unordered_map f es s = size_unordered_map g es' s'"
    by (simp_all add: size_map_def size_multimap_def size_unordered_map_def assms(1,2))
qed

lemma entry_sizes [termination_simp]:
  assumes "e \<in> set (es :: entries)"
  shows "size (fst e) < Suc (size_list (size_prod size size) es)" and "size (snd e) < Suc (size_list (size_prod size size) es)"
proof -
  have "size_prod size size e \<le> size_list (size_prod size size) es" using assms by (rule size_list_estimation') simp
  then show "size (fst e) < Suc (size_list (size_prod size size) es)" and "size (snd e) < Suc (size_list (size_prod size size) es)"
    by (cases e; simp)+
qed

fun sizer_and :: "val \<Rightarrow> u64 \<Rightarrow> u64" where
  "sizer_and (VPod bs) s = other_impl (size_pod bs s)"
| "sizer_and (VBool b) s = other_impl (size_bool b s)"
| "sizer_and (VPair a b) s = other_impl (size_pair sizer_and a b s)"
| "sizer_and (VTuple vs) s = other_impl (size_tuple sizer_and vs s)"
| "sizer_and (VStr bs) s = other_impl (size_string bs s)"
| "sizer_and (VVector vs) s = other_impl (size_vector sizer_and vs s)"
| "sizer_and (VOptional x) s = other_impl (size_optional sizer_and x s)"
| "sizer_and (VMap es) s = other_impl (size_map sizer_and es s)"
| "sizer_and (VMultimap es) s = other_impl (size_multimap sizer_and es s)"
| "sizer_and (VUnordered_map es) s = other_impl (size_unordered_map sizer_and es s)"
| "sizer_and (VVisit vs) s = visit_impl sizer_and vs s"
| "sizer_and (VSerializable vs) s = other_impl (size_serializable sizer_and vs s)"

section \<open>Serialization\<close>

text \<open>\<^verbatim>\<open>serializer\<close> and \<^verbatim>\<open>serializer_into_array\<close>: the memory and the position in it.\<close>

record archive =
  ar_mem :: flat
  ar_pos :: u64

definition put :: "byte list \<Rightarrow> archive \<Rightarrow> archive" where
  "put bs ar = \<lparr>ar_mem = put_bytes (ar_mem ar) (ar_pos ar) bs, ar_pos = ar_pos ar + of_nat (length bs)\<rparr>"

definition ser_pod :: "byte list \<Rightarrow> archive \<Rightarrow> archive" where
  "ser_pod bs ar = put bs ar"

definition ser_bool :: "bool \<Rightarrow> archive \<Rightarrow> archive" where
  "ser_bool b ar = put [if b then 1 else 0] ar"

definition ser_pair :: "('v \<Rightarrow> archive \<Rightarrow> archive) \<Rightarrow> 'v \<Rightarrow> 'v \<Rightarrow> archive \<Rightarrow> archive" where
  "ser_pair f a b ar = f b (f a ar)"

fun ser_tuple_impl :: "('v \<Rightarrow> archive \<Rightarrow> archive) \<Rightarrow> 'v list \<Rightarrow> nat \<Rightarrow> archive \<Rightarrow> archive" where
  "ser_tuple_impl f vs 0 ar = ar"
| "ser_tuple_impl f vs (Suc i) ar = f (vs ! i) (ser_tuple_impl f vs i ar)"

definition ser_tuple :: "('v \<Rightarrow> archive \<Rightarrow> archive) \<Rightarrow> 'v list \<Rightarrow> archive \<Rightarrow> archive" where
  "ser_tuple f vs ar = ser_tuple_impl f vs (length vs) ar"

definition ser_string :: "byte list \<Rightarrow> archive \<Rightarrow> archive" where
  "ser_string bs ar =
    (let len = of_nat (length bs) :: u32;
         ar = put (le_bytes 4 len) ar
     in put (take (unat len) bs) ar)"

definition ser_size_t :: "u64 \<Rightarrow> archive \<Rightarrow> archive" where
  "ser_size_t s ar = ser_pod (le_bytes 8 s) ar"

definition ser_vector :: "('v \<Rightarrow> archive \<Rightarrow> archive) \<Rightarrow> 'v list \<Rightarrow> archive \<Rightarrow> archive" where
  "ser_vector f vs ar = fold f vs (ser_size_t (of_nat (length vs)) ar)"

definition ser_optional :: "('v \<Rightarrow> archive \<Rightarrow> archive) \<Rightarrow> 'v option \<Rightarrow> archive \<Rightarrow> archive" where
  "ser_optional f x ar = (case x of None \<Rightarrow> ser_bool False ar | Some v \<Rightarrow> f v (ser_bool True ar))"

definition ser_map :: "('v \<Rightarrow> archive \<Rightarrow> archive) \<Rightarrow> ('v \<times> 'v) list \<Rightarrow> archive \<Rightarrow> archive" where
  "ser_map f es ar = fold (\<lambda>e ar. f (snd e) (f (fst e) ar)) es (ser_size_t (of_nat (length es)) ar)"

definition ser_multimap :: "('v \<Rightarrow> archive \<Rightarrow> archive) \<Rightarrow> ('v \<times> 'v) list \<Rightarrow> archive \<Rightarrow> archive" where
  "ser_multimap f es ar = fold (\<lambda>e ar. f (snd e) (f (fst e) ar)) es (ser_size_t (of_nat (length es)) ar)"

definition ser_unordered_map :: "('v \<Rightarrow> archive \<Rightarrow> archive) \<Rightarrow> ('v \<times> 'v) list \<Rightarrow> archive \<Rightarrow> archive" where
  "ser_unordered_map f es ar = fold (\<lambda>e ar. f (snd e) (f (fst e) ar)) es (ser_size_t (of_nat (length es)) ar)"

definition ser_serializable :: "('v \<Rightarrow> archive \<Rightarrow> archive) \<Rightarrow> 'v list \<Rightarrow> archive \<Rightarrow> archive" where
  "ser_serializable f vs ar = fold f vs ar"

lemma ser_tuple_impl_fold: "n \<le> length vs \<Longrightarrow> ser_tuple_impl f vs n ar = fold f (take n vs) ar"
  by (induction n) (auto simp: take_Suc_conv_app_nth)

lemma ser_tuple_fold: "ser_tuple f vs ar = fold f vs ar"
  by (simp add: ser_tuple_def ser_tuple_impl_fold)

lemma ser_pair_cong [fundef_cong]:
  "a = a' \<Longrightarrow> b = b' \<Longrightarrow> s = s' \<Longrightarrow> (\<And>s. f a' s = g a' s) \<Longrightarrow> (\<And>s. f b' s = g b' s) \<Longrightarrow> ser_pair f a b s = ser_pair g a' b' s'"
  by (simp add: ser_pair_def)

lemma ser_list_cong [fundef_cong]:
  assumes "vs = vs'" and "s = s'" and "\<And>v s. v \<in> set vs' \<Longrightarrow> f v s = g v s"
  shows "ser_vector f vs s = ser_vector g vs' s'" and "ser_serializable f vs s = ser_serializable g vs' s'"
    and "ser_tuple f vs s = ser_tuple g vs' s'"
  unfolding ser_vector_def ser_serializable_def ser_tuple_fold assms(1,2) using fold_ext [of vs' f g, OF assms(3)] by simp_all

lemma ser_optional_cong [fundef_cong]:
  "x = x' \<Longrightarrow> s = s' \<Longrightarrow> (\<And>v s. x' = Some v \<Longrightarrow> f v s = g v s) \<Longrightarrow> ser_optional f x s = ser_optional g x' s'"
  by (simp add: ser_optional_def split: option.split)

lemma ser_entries_cong [fundef_cong]:
  assumes "es = es'" and "s = s'" and "\<And>e s. e \<in> set es' \<Longrightarrow> f (fst e) s = g (fst e) s" and "\<And>e s. e \<in> set es' \<Longrightarrow> f (snd e) s = g (snd e) s"
  shows "ser_map f es s = ser_map g es' s'" and "ser_multimap f es s = ser_multimap g es' s'"
    and "ser_unordered_map f es s = ser_unordered_map g es' s'"
proof -
  have "fold (\<lambda>e s. f (snd e) (f (fst e) s)) es' t = fold (\<lambda>e s. g (snd e) (g (fst e) s)) es' t" for t
    by (rule fold_ext) (simp add: assms(3,4))
  then show "ser_map f es s = ser_map g es' s'" and "ser_multimap f es s = ser_multimap g es' s'"
    and "ser_unordered_map f es s = ser_unordered_map g es' s'"
    by (simp_all add: ser_map_def ser_multimap_def ser_unordered_map_def assms(1,2))
qed

fun serializer_and :: "val \<Rightarrow> archive \<Rightarrow> archive" where
  "serializer_and (VPod bs) ar = ser_pod bs ar"
| "serializer_and (VBool b) ar = ser_bool b ar"
| "serializer_and (VPair a b) ar = ser_pair serializer_and a b ar"
| "serializer_and (VTuple vs) ar = ser_tuple serializer_and vs ar"
| "serializer_and (VStr bs) ar = ser_string bs ar"
| "serializer_and (VVector vs) ar = ser_vector serializer_and vs ar"
| "serializer_and (VOptional x) ar = ser_optional serializer_and x ar"
| "serializer_and (VMap es) ar = ser_map serializer_and es ar"
| "serializer_and (VMultimap es) ar = ser_multimap serializer_and es ar"
| "serializer_and (VUnordered_map es) ar = ser_unordered_map serializer_and es ar"
| "serializer_and (VVisit vs) ar = visit_impl serializer_and vs ar"
| "serializer_and (VSerializable vs) ar = ser_serializable serializer_and vs ar"

text \<open>
  \<^verbatim>\<open>serialize\<close>: the size, a new buffer of this size (its address is a parameter), the bytes. The result is
  the size, or \<open>None\<close> when the assertion on the final position fails.
\<close>

definition serialize :: "val \<Rightarrow> u64 \<Rightarrow> flat \<Rightarrow> u64 option \<times> flat" where
  "serialize v buf m =
    (let s = sizer_and v 0;
         ar = serializer_and v \<lparr>ar_mem = m, ar_pos = buf\<rparr>
     in (if ar_pos ar = buf + s then Some s else None, ar_mem ar))"

section \<open>Deserialization\<close>

text \<open>The value of an object that has just been constructed.\<close>

fun fresh :: "ty \<Rightarrow> val" where
  "fresh (Pod n) = VPod (replicate n 0)"
| "fresh Bool = VBool False"
| "fresh (Pair a b) = VPair (fresh a) (fresh b)"
| "fresh (Tuple ts) = VTuple (map fresh ts)"
| "fresh Str = VStr []"
| "fresh (Vector t) = VVector []"
| "fresh (Optional t) = VOptional None"
| "fresh (Map a b) = VMap []"
| "fresh (Multimap a b) = VMultimap []"
| "fresh (Unordered_map a b) = VUnordered_map []"
| "fresh (Visit ts) = VVisit (map fresh ts)"
| "fresh (Serializable ts) = VSerializable (map fresh ts)"

text \<open>\<^verbatim>\<open>emplace\<close> of the three containers.\<close>

fun emplace_map :: "('k \<Rightarrow> 'k \<Rightarrow> bool) \<Rightarrow> 'k \<Rightarrow> 'w \<Rightarrow> ('k \<times> 'w) list \<Rightarrow> ('k \<times> 'w) list" where
  "emplace_map lt k v [] = [(k, v)]"
| "emplace_map lt k v (e # es) =
    (if lt (fst e) k then e # emplace_map lt k v es else if lt k (fst e) then (k, v) # e # es else e # es)"

fun emplace_multimap :: "('k \<Rightarrow> 'k \<Rightarrow> bool) \<Rightarrow> 'k \<Rightarrow> 'w \<Rightarrow> ('k \<times> 'w) list \<Rightarrow> ('k \<times> 'w) list" where
  "emplace_multimap lt k v [] = [(k, v)]"
| "emplace_multimap lt k v (e # es) = (if lt k (fst e) then (k, v) # e # es else e # emplace_multimap lt k v es)"

definition emplace_unordered :: "'k \<Rightarrow> 'w \<Rightarrow> ('k \<times> 'w) list \<Rightarrow> ('k \<times> 'w) list" where
  "emplace_unordered k v es = (if k \<in> set (map fst es) then es else es @ [(k, v)])"

text \<open>
  A policy reads at a position into an object that already exists, and returns its new value and the
  position behind it.
\<close>

definition des_pod :: "flat \<Rightarrow> nat \<Rightarrow> u64 \<Rightarrow> byte list \<times> u64" where
  "des_pod m n p = (get_bytes m p n, p + of_nat n)"

definition des_bool :: "flat \<Rightarrow> u64 \<Rightarrow> bool \<times> u64" where
  "des_bool m p = (m p = 1, p + 1)"

definition des_pair :: "('v \<Rightarrow> u64 \<Rightarrow> 'v \<times> u64) \<Rightarrow> ('v \<Rightarrow> u64 \<Rightarrow> 'v \<times> u64) \<Rightarrow> 'v \<Rightarrow> 'v \<Rightarrow> u64 \<Rightarrow> ('v \<times> 'v) \<times> u64" where
  "des_pair f g a b p = (case f a p of (a', p') \<Rightarrow> case g b p' of (b', p'') \<Rightarrow> ((a', b'), p''))"

fun des_tuple_impl :: "('t \<Rightarrow> 'v \<Rightarrow> u64 \<Rightarrow> 'v \<times> u64) \<Rightarrow> 't list \<Rightarrow> nat \<Rightarrow> 'v list \<Rightarrow> u64 \<Rightarrow> 'v list \<times> u64" where
  "des_tuple_impl f ts 0 vs p = (vs, p)"
| "des_tuple_impl f ts (Suc i) vs p =
    (case des_tuple_impl f ts i vs p of (vs', p') \<Rightarrow>
     case f (ts ! i) (vs' ! i) p' of (v, p'') \<Rightarrow> (vs'[i := v], p''))"

definition des_tuple :: "('t \<Rightarrow> 'v \<Rightarrow> u64 \<Rightarrow> 'v \<times> u64) \<Rightarrow> 't list \<Rightarrow> 'v list \<Rightarrow> u64 \<Rightarrow> 'v list \<times> u64" where
  "des_tuple f ts vs p = des_tuple_impl f ts (length ts) vs p"

definition des_string :: "flat \<Rightarrow> u64 \<Rightarrow> byte list \<times> u64" where
  "des_string m p =
    (let s = of_le_bytes (get_bytes m p 4) :: u32
     in (get_bytes m (p + 4) (unat s), p + 4 + ucast s))"

fun des_elements :: "('v \<Rightarrow> u64 \<Rightarrow> 'v \<times> u64) \<Rightarrow> 'v \<Rightarrow> nat \<Rightarrow> 'v list \<Rightarrow> u64 \<Rightarrow> 'v list \<times> u64" where
  "des_elements f new 0 out p = (out, p)"
| "des_elements f new (Suc n) out p = (case f new p of (v, p') \<Rightarrow> des_elements f new n (out @ [v]) p')"

definition read_size_t :: "flat \<Rightarrow> u64 \<Rightarrow> u64" where
  "read_size_t m p = of_le_bytes (get_bytes m p 8)"

definition des_vector :: "flat \<Rightarrow> ('v \<Rightarrow> u64 \<Rightarrow> 'v \<times> u64) \<Rightarrow> 'v \<Rightarrow> 'v list \<Rightarrow> u64 \<Rightarrow> 'v list \<times> u64" where
  "des_vector m f new out p = des_elements f new (unat (read_size_t m p)) out (p + 8)"

definition des_optional :: "flat \<Rightarrow> ('v \<Rightarrow> u64 \<Rightarrow> 'v \<times> u64) \<Rightarrow> 'v \<Rightarrow> 'v option \<Rightarrow> u64 \<Rightarrow> 'v option \<times> u64" where
  "des_optional m f new out p =
    (case des_bool m p of (is_set, p') \<Rightarrow> if is_set then (case f new p' of (v, p'') \<Rightarrow> (Some v, p'')) else (out, p'))"

text \<open>The loop of the containers with keys, with the \<^verbatim>\<open>emplace\<close> of the container.\<close>

fun des_entries ::
  "('v \<Rightarrow> 'v \<Rightarrow> ('v \<times> 'v) list \<Rightarrow> ('v \<times> 'v) list) \<Rightarrow> ('v \<Rightarrow> u64 \<Rightarrow> 'v \<times> u64) \<Rightarrow> 'v \<Rightarrow> ('v \<Rightarrow> u64 \<Rightarrow> 'v \<times> u64) \<Rightarrow> 'v \<Rightarrow>
    nat \<Rightarrow> ('v \<times> 'v) list \<Rightarrow> u64 \<Rightarrow> ('v \<times> 'v) list \<times> u64" where
  "des_entries emplace f k\<^sub>0 g v\<^sub>0 0 out p = (out, p)"
| "des_entries emplace f k\<^sub>0 g v\<^sub>0 (Suc n) out p =
    (case f k\<^sub>0 p of (k, p\<^sub>1) \<Rightarrow> case g v\<^sub>0 p\<^sub>1 of (v, p\<^sub>2) \<Rightarrow> des_entries emplace f k\<^sub>0 g v\<^sub>0 n (emplace k v out) p\<^sub>2)"

definition des_map ::
  "('v \<Rightarrow> 'v \<Rightarrow> bool) \<Rightarrow> flat \<Rightarrow> ('v \<Rightarrow> u64 \<Rightarrow> 'v \<times> u64) \<Rightarrow> 'v \<Rightarrow> ('v \<Rightarrow> u64 \<Rightarrow> 'v \<times> u64) \<Rightarrow> 'v \<Rightarrow>
    ('v \<times> 'v) list \<Rightarrow> u64 \<Rightarrow> ('v \<times> 'v) list \<times> u64" where
  "des_map lt m f k\<^sub>0 g v\<^sub>0 out p = des_entries (emplace_map lt) f k\<^sub>0 g v\<^sub>0 (unat (read_size_t m p)) out (p + 8)"

definition des_multimap ::
  "('v \<Rightarrow> 'v \<Rightarrow> bool) \<Rightarrow> flat \<Rightarrow> ('v \<Rightarrow> u64 \<Rightarrow> 'v \<times> u64) \<Rightarrow> 'v \<Rightarrow> ('v \<Rightarrow> u64 \<Rightarrow> 'v \<times> u64) \<Rightarrow> 'v \<Rightarrow>
    ('v \<times> 'v) list \<Rightarrow> u64 \<Rightarrow> ('v \<times> 'v) list \<times> u64" where
  "des_multimap lt m f k\<^sub>0 g v\<^sub>0 out p = des_entries (emplace_multimap lt) f k\<^sub>0 g v\<^sub>0 (unat (read_size_t m p)) out (p + 8)"

definition des_unordered_map ::
  "flat \<Rightarrow> ('v \<Rightarrow> u64 \<Rightarrow> 'v \<times> u64) \<Rightarrow> 'v \<Rightarrow> ('v \<Rightarrow> u64 \<Rightarrow> 'v \<times> u64) \<Rightarrow> 'v \<Rightarrow>
    ('v \<times> 'v) list \<Rightarrow> u64 \<Rightarrow> ('v \<times> 'v) list \<times> u64" where
  "des_unordered_map m f k\<^sub>0 g v\<^sub>0 out p = des_entries emplace_unordered f k\<^sub>0 g v\<^sub>0 (unat (read_size_t m p)) out (p + 8)"

fun des_members :: "('t \<Rightarrow> 'v \<Rightarrow> u64 \<Rightarrow> 'v \<times> u64) \<Rightarrow> 't list \<Rightarrow> 'v list \<Rightarrow> u64 \<Rightarrow> 'v list \<times> u64" where
  "des_members f (t # ts) (v # vs) p =
    (case f t v p of (v', p') \<Rightarrow> case des_members f ts vs p' of (vs', p'') \<Rightarrow> (v' # vs', p''))"
| "des_members f _ vs p = (vs, p)"

lemma des_tuple_impl_cong:
  assumes "n \<le> length ts" and "\<And>t v p. t \<in> set ts \<Longrightarrow> f t v p = g t v p"
  shows "des_tuple_impl f ts n vs p = des_tuple_impl g ts n vs p"
  using assms(1)
proof (induction n)
  case (Suc n)
  then have "f (ts ! n) v q = g (ts ! n) v q" for v q by (intro assms(2)) simp
  then show ?case using Suc by simp
qed simp

lemma des_members_cong_aux:
  assumes "\<And>t v p. t \<in> set ts \<Longrightarrow> f t v p = g t v p"
  shows "des_members f ts vs p = des_members g ts vs p"
  using assms by (induction f ts vs p rule: des_members.induct) (auto split: prod.split)

lemma des_list_cong [fundef_cong]:
  assumes "ts = ts'" and "vs = vs'" and "p = p'" and "\<And>t v p. t \<in> set ts' \<Longrightarrow> f t v p = g t v p"
  shows "des_tuple f ts vs p = des_tuple g ts' vs' p'" and "des_members f ts vs p = des_members g ts' vs' p'"
  unfolding des_tuple_def assms(1-3)
  using des_tuple_impl_cong [of "length ts'" ts' f g vs' p'] des_members_cong_aux [of ts' f g vs' p'] assms(4) by simp_all

text \<open>The parts of the object that is read into.\<close>

fun fst_part :: "val \<Rightarrow> val" where
  "fst_part (VPair a b) = a"
| "fst_part v = v"

fun snd_part :: "val \<Rightarrow> val" where
  "snd_part (VPair a b) = b"
| "snd_part v = v"

fun parts :: "val \<Rightarrow> val list" where
  "parts (VTuple vs) = vs"
| "parts (VVector vs) = vs"
| "parts (VVisit vs) = vs"
| "parts (VSerializable vs) = vs"
| "parts v = []"

fun content :: "val \<Rightarrow> val option" where
  "content (VOptional x) = x"
| "content v = None"

fun entries_of :: "val \<Rightarrow> entries" where
  "entries_of (VMap es) = es"
| "entries_of (VMultimap es) = es"
| "entries_of (VUnordered_map es) = es"
| "entries_of v = []"

text \<open>The result of a policy as a value of the sum of all types.\<close>

definition reading :: "('a \<Rightarrow> 'b) \<Rightarrow> 'a \<times> 'c \<Rightarrow> 'b \<times> 'c" where
  "reading C r = (C (fst r), snd r)"

fun deserializer_and :: "(val \<Rightarrow> val \<Rightarrow> bool) \<Rightarrow> flat \<Rightarrow> ty \<Rightarrow> val \<Rightarrow> u64 \<Rightarrow> val \<times> u64" where
  "deserializer_and lt m (Pod n) out p = reading VPod (des_pod m n p)"
| "deserializer_and lt m Bool out p = reading VBool (des_bool m p)"
| "deserializer_and lt m (Pair s t) out p =
    reading (case_prod VPair) (des_pair (deserializer_and lt m s) (deserializer_and lt m t) (fst_part out) (snd_part out) p)"
| "deserializer_and lt m (Tuple ts) out p = reading VTuple (des_tuple (deserializer_and lt m) ts (parts out) p)"
| "deserializer_and lt m Str out p = reading VStr (des_string m p)"
| "deserializer_and lt m (Vector t) out p =
    reading VVector (des_vector m (deserializer_and lt m t) (fresh t) (parts out) p)"
| "deserializer_and lt m (Optional t) out p =
    reading VOptional (des_optional m (deserializer_and lt m t) (fresh t) (content out) p)"
| "deserializer_and lt m (Map s t) out p =
    reading VMap (des_map lt m (deserializer_and lt m s) (fresh s) (deserializer_and lt m t) (fresh t) (entries_of out) p)"
| "deserializer_and lt m (Multimap s t) out p =
    reading VMultimap (des_multimap lt m (deserializer_and lt m s) (fresh s) (deserializer_and lt m t) (fresh t) (entries_of out) p)"
| "deserializer_and lt m (Unordered_map s t) out p =
    reading VUnordered_map (des_unordered_map m (deserializer_and lt m s) (fresh s) (deserializer_and lt m t) (fresh t) (entries_of out) p)"
| "deserializer_and lt m (Visit ts) out p = reading VVisit (des_members (deserializer_and lt m) ts (parts out) p)"
| "deserializer_and lt m (Serializable ts) out p =
    reading VSerializable (des_members (deserializer_and lt m) ts (parts out) p)"

definition deserialize :: "(val \<Rightarrow> val \<Rightarrow> bool) \<Rightarrow> ty \<Rightarrow> val \<Rightarrow> flat \<Rightarrow> u64 \<Rightarrow> val \<times> u64" where
  "deserialize lt t out m buffer = deserializer_and lt m t out buffer"

end
