(* ===== verification/Serializer_Spec.thy ===== *)
theory Serializer_Spec
  imports Serializer
begin

text \<open>
  The serializer against a format: \<open>enc\<close> is the list of bytes a value stands for. The sizer computes its
  length, the serializer writes exactly these bytes, and the deserializer finds the value in any copy of
  them.
\<close>

section \<open>The format and the values of a type\<close>

fun enc :: "val \<Rightarrow> byte list" where
  "enc (VPod bs) = bs"
| "enc (VBool b) = [if b then 1 else 0]"
| "enc (VPair a b) = enc a @ enc b"
| "enc (VTuple vs) = concat (map enc vs)"
| "enc (VStr bs) = le_bytes 4 (of_nat (length bs) :: u32) @ bs"
| "enc (VVector vs) = le_bytes 8 (of_nat (length vs) :: u64) @ concat (map enc vs)"
| "enc (VOptional x) = (case x of None \<Rightarrow> [0] | Some v \<Rightarrow> 1 # enc v)"
| "enc (VMap es) = le_bytes 8 (of_nat (length es) :: u64) @ concat (map (\<lambda>e. enc (fst e) @ enc (snd e)) es)"
| "enc (VMultimap es) = le_bytes 8 (of_nat (length es) :: u64) @ concat (map (\<lambda>e. enc (fst e) @ enc (snd e)) es)"
| "enc (VUnordered_map es) = le_bytes 8 (of_nat (length es) :: u64) @ concat (map (\<lambda>e. enc (fst e) @ enc (snd e)) es)"
| "enc (VVisit vs) = concat (map enc vs)"
| "enc (VSerializable vs) = concat (map enc vs)"

text \<open>
  The values of a type: a map is sorted and has no two entries with equivalent keys. A string must be
  shorter than \<open>2 ^ 32\<close>, the range of the length that is written.
\<close>

inductive has_type :: "(val \<Rightarrow> val \<Rightarrow> bool) \<Rightarrow> ty \<Rightarrow> val \<Rightarrow> bool" for lt where
  "length bs = n \<Longrightarrow> has_type lt (Pod n) (VPod bs)"
| "has_type lt Bool (VBool b)"
| "has_type lt s a \<Longrightarrow> has_type lt t b \<Longrightarrow> has_type lt (Pair s t) (VPair a b)"
| "list_all2 (has_type lt) ts vs \<Longrightarrow> has_type lt (Tuple ts) (VTuple vs)"
| "length bs < 2 ^ 32 \<Longrightarrow> has_type lt Str (VStr bs)"
| "list_all (has_type lt t) vs \<Longrightarrow> length vs < 2 ^ 64 \<Longrightarrow> has_type lt (Vector t) (VVector vs)"
| "has_type lt (Optional t) (VOptional None)"
| "has_type lt t v \<Longrightarrow> has_type lt (Optional t) (VOptional (Some v))"
| "list_all (\<lambda>e. has_type lt s (fst e) \<and> has_type lt t (snd e)) es \<Longrightarrow> length es < 2 ^ 64 \<Longrightarrow>
    sorted_wrt (\<lambda>x y. lt (fst x) (fst y)) es \<Longrightarrow> has_type lt (Map s t) (VMap es)"
| "list_all (\<lambda>e. has_type lt s (fst e) \<and> has_type lt t (snd e)) es \<Longrightarrow> length es < 2 ^ 64 \<Longrightarrow>
    sorted_wrt (\<lambda>x y. \<not> lt (fst y) (fst x)) es \<Longrightarrow> has_type lt (Multimap s t) (VMultimap es)"
| "list_all (\<lambda>e. has_type lt s (fst e) \<and> has_type lt t (snd e)) es \<Longrightarrow> length es < 2 ^ 64 \<Longrightarrow>
    distinct (map fst es) \<Longrightarrow> has_type lt (Unordered_map s t) (VUnordered_map es)"
| "list_all2 (has_type lt) ts vs \<Longrightarrow> has_type lt (Visit ts) (VVisit vs)"
| "list_all2 (has_type lt) ts vs \<Longrightarrow> has_type lt (Serializable ts) (VSerializable vs)"

inductive_simps has_type_simps:
  "has_type lt (Pod n) v" "has_type lt Bool v" "has_type lt (Pair s t) v" "has_type lt (Tuple ts) v" "has_type lt Str v"
  "has_type lt (Vector t) v" "has_type lt (Optional t) v" "has_type lt (Map s t) v" "has_type lt (Multimap s t) v"
  "has_type lt (Unordered_map s t) v" "has_type lt (Visit ts) v" "has_type lt (Serializable ts) v"

section \<open>Sizes\<close>

lemma fold_size:
  assumes "\<And>v s. v \<in> set vs \<Longrightarrow> f v s = s + of_nat (length (e v))"
  shows "fold f vs s = s + of_nat (length (concat (map e vs)) :: nat)"
  using assms by (induction vs arbitrary: s) (simp_all add: algebra_simps)

lemma size_tuple_impl_fold: "n \<le> length vs \<Longrightarrow> size_tuple_impl f vs n s = fold f (rev (take n vs)) s"
  by (induction n arbitrary: s) (auto simp: take_Suc_conv_app_nth)

lemma length_concat_rev: "length (concat (map e (rev vs))) = length (concat (map e vs))"
  by (induction vs) simp_all

lemma fold_entries_size:
  assumes "\<And>e s. e \<in> set es \<Longrightarrow> f (fst e) s = s + of_nat (length (enc (fst e)))" and "\<And>e s. e \<in> set es \<Longrightarrow> f (snd e) s = s + of_nat (length (enc (snd e)))"
  shows "fold (\<lambda>e s. f (snd e) (f (fst e) s)) es s = s + of_nat (length (concat (map (\<lambda>e. enc (fst e) @ enc (snd e)) es)))"
  by (rule fold_size) (simp add: assms add.assoc)

lemma sizer_length: "sizer_and v s = s + of_nat (length (enc v))"
proof (induction v s rule: sizer_and.induct)
  case (4 vs s)
  have "fold sizer_and (rev vs) s = s + of_nat (length (concat (map enc (rev vs))))"
    by (rule fold_size) (simp add: 4)
  then show ?case by (simp add: other_impl_def size_tuple_def size_tuple_impl_fold length_concat_rev)
next
  case (6 vs s)
  show ?case using fold_size [of vs sizer_and enc "add_size_t s"] 6 by (simp add: other_impl_def size_vector_def add_size_t_def)
next
  case (8 es s)
  show ?case using fold_entries_size [of es sizer_and "add_size_t s"] 8 by (simp add: other_impl_def size_map_def add_size_t_def)
next
  case (9 es s)
  show ?case using fold_entries_size [of es sizer_and "add_size_t s"] 9 by (simp add: other_impl_def size_multimap_def add_size_t_def)
next
  case (10 es s)
  show ?case using fold_entries_size [of es sizer_and "add_size_t s"] 10 by (simp add: other_impl_def size_unordered_map_def add_size_t_def)
next
  case (11 vs s)
  show ?case using fold_size [of vs sizer_and enc s] 11 by (simp add: visit_impl_def)
next
  case (12 vs s)
  show ?case using fold_size [of vs sizer_and enc s] 12 by (simp add: other_impl_def size_serializable_def)
qed (simp_all add: other_impl_def size_pod_def size_bool_def size_pair_def size_string_def size_optional_def add_bool_def split: option.split)

section \<open>Writing\<close>

lemma put_append: "length xs + length ys \<le> 2 ^ 64 \<Longrightarrow> put ys (put xs ar) = put (xs @ ys) ar"
  by (simp add: put_def put_bytes_append add.assoc)

lemma put_nil [simp]: "put [] ar = ar"
  by (simp add: put_def put_bytes_def)

lemma fold_put:
  assumes "\<And>v ar. v \<in> set vs \<Longrightarrow> length (e v) \<le> 2 ^ 64 \<Longrightarrow> f v ar = put (e v) ar" and "length xs + length (concat (map e vs)) \<le> 2 ^ 64"
  shows "fold f vs (put xs ar) = put (xs @ concat (map e vs)) ar"
  using assms
proof (induction vs arbitrary: xs)
  case (Cons v vs)
  have "f v (put xs ar) = put (e v) (put xs ar)" using Cons.prems by simp
  also have "\<dots> = put (xs @ e v) ar" using Cons.prems by (simp add: put_append)
  finally show ?case using Cons.IH [of "xs @ e v"] Cons.prems by simp
qed simp

lemma fold_entries_put:
  assumes "\<And>e ar. e \<in> set es \<Longrightarrow> length (enc (fst e)) \<le> 2 ^ 64 \<Longrightarrow> f (fst e) ar = put (enc (fst e)) ar"
    and "\<And>e ar. e \<in> set es \<Longrightarrow> length (enc (snd e)) \<le> 2 ^ 64 \<Longrightarrow> f (snd e) ar = put (enc (snd e)) ar"
    and "length xs + length (concat (map (\<lambda>e. enc (fst e) @ enc (snd e)) es)) \<le> 2 ^ 64"
  shows "fold (\<lambda>e ar. f (snd e) (f (fst e) ar)) es (put xs ar) = put (xs @ concat (map (\<lambda>e. enc (fst e) @ enc (snd e)) es)) ar"
  by (rule fold_put) (use assms in \<open>simp_all add: put_append\<close>)

lemma serializer_puts:
  assumes "has_type lt t v" and "length (enc v) \<le> 2 ^ 64"
  shows "serializer_and v ar = put (enc v) ar"
  using assms
proof (induction arbitrary: ar rule: has_type.induct)
  case (4 ts vs)
  have "fold serializer_and vs (put [] ar) = put ([] @ concat (map enc vs)) ar"
    by (rule fold_put) (use 4 in \<open>auto simp: list_all2_conv_all_nth in_set_conv_nth\<close>)
  then show ?case by (simp add: ser_tuple_fold)
next
  case (5 bs)
  then have "unat (of_nat (length bs) :: u32) = length bs" by (simp add: unat_of_nat take_bit_nat_eq_self)
  then show ?case using 5 by (simp add: ser_string_def Let_def put_append)
next
  case (6 t vs)
  have "fold serializer_and vs (put (le_bytes 8 (of_nat (length vs) :: u64)) ar) = put (le_bytes 8 (of_nat (length vs) :: u64) @ concat (map enc vs)) ar"
    by (rule fold_put) (use 6 in \<open>auto simp: list_all_iff\<close>)
  then show ?case by (simp add: ser_vector_def ser_size_t_def ser_pod_def)
next
  case (9 s t es)
  have "fold (\<lambda>e ar. serializer_and (snd e) (serializer_and (fst e) ar)) es (put (le_bytes 8 (of_nat (length es) :: u64)) ar) = put (enc (VMap es)) ar"
    unfolding enc.simps by (rule fold_entries_put) (use 9 in \<open>auto simp: list_all_iff\<close>)
  then show ?case by (simp add: ser_map_def ser_size_t_def ser_pod_def)
next
  case (10 s t es)
  have "fold (\<lambda>e ar. serializer_and (snd e) (serializer_and (fst e) ar)) es (put (le_bytes 8 (of_nat (length es) :: u64)) ar) = put (enc (VMap es)) ar"
    unfolding enc.simps by (rule fold_entries_put) (use 10 in \<open>auto simp: list_all_iff\<close>)
  then show ?case by (simp add: ser_multimap_def ser_size_t_def ser_pod_def)
next
  case (11 s t es)
  have "fold (\<lambda>e ar. serializer_and (snd e) (serializer_and (fst e) ar)) es (put (le_bytes 8 (of_nat (length es) :: u64)) ar) = put (enc (VMap es)) ar"
    unfolding enc.simps by (rule fold_entries_put) (use 11 in \<open>auto simp: list_all_iff\<close>)
  then show ?case by (simp add: ser_unordered_map_def ser_size_t_def ser_pod_def)
next
  case (12 ts vs)
  have "fold serializer_and vs (put [] ar) = put ([] @ concat (map enc vs)) ar"
    by (rule fold_put) (use 12 in \<open>auto simp: list_all2_conv_all_nth in_set_conv_nth\<close>)
  then show ?case by (simp add: visit_impl_def)
next
  case (13 ts vs)
  have "fold serializer_and vs (put [] ar) = put ([] @ concat (map enc vs)) ar"
    by (rule fold_put) (use 13 in \<open>auto simp: list_all2_conv_all_nth in_set_conv_nth\<close>)
  then show ?case by (simp add: ser_serializable_def)
qed (simp_all add: ser_pod_def ser_bool_def ser_pair_def ser_optional_def put_append)

section \<open>Reading\<close>

definition found :: "flat \<Rightarrow> u64 \<Rightarrow> byte list \<Rightarrow> bool" where
  "found m p bs \<longleftrightarrow> get_bytes m p (length bs) = bs"

lemma found_append [simp]: "found m p (xs @ ys) \<longleftrightarrow> found m p xs \<and> found m (p + of_nat (length xs)) ys"
  by (simp add: found_def get_bytes_append)

lemma found_nil [simp]: "found m p []"
  by (simp add: found_def get_bytes_def)

lemma found_Cons: "found m p (b # bs) \<longleftrightarrow> m p = b \<and> found m (p + 1) bs"
  using found_append [of m p "[b]" bs] by (simp add: found_def get_bytes_def)

lemma found_size_t: "found m p (le_bytes 8 w) \<Longrightarrow> read_size_t m p = w"
  by (simp add: found_def read_size_t_def u64_codec.dec_enc)

text \<open>A policy that finds a value in its bytes.\<close>

definition reads :: "flat \<Rightarrow> (u64 \<Rightarrow> 'v \<times> u64) \<Rightarrow> byte list \<Rightarrow> 'v \<Rightarrow> bool" where
  "reads m f bs v \<longleftrightarrow> (\<forall>p. found m p bs \<longrightarrow> f p = (v, p + of_nat (length bs)))"

lemma readsD: "reads m f bs v \<Longrightarrow> found m p bs \<Longrightarrow> f p = (v, p + of_nat (length bs))"
  by (simp add: reads_def)

lemma des_elements_reads:
  assumes "\<And>v. v \<in> set vs \<Longrightarrow> reads m (f new) (e v) v" and "found m p (concat (map e vs))"
  shows "des_elements f new (length vs) out p = (out @ vs, p + of_nat (length (concat (map e vs))))"
  using assms
proof (induction vs arbitrary: out p)
  case (Cons v vs)
  have "f new p = (v, p + of_nat (length (e v)))" using Cons.prems by (intro readsD [of m]) simp_all
  then show ?case using Cons.IH [of "p + of_nat (length (e v))" "out @ [v]"] Cons.prems by (simp add: add.assoc)
qed simp

lemma des_entries_reads:
  assumes "\<And>e. e \<in> set es \<Longrightarrow> reads m (f k\<^sub>0) (enc (fst e)) (fst e)" and "\<And>e. e \<in> set es \<Longrightarrow> reads m (g v\<^sub>0) (enc (snd e)) (snd e)"
    and "found m p (concat (map (\<lambda>e. enc (fst e) @ enc (snd e)) es))"
  shows "des_entries emplace f k\<^sub>0 g v\<^sub>0 (length es) out p =
    (fold (\<lambda>e. emplace (fst e) (snd e)) es out, p + of_nat (length (concat (map (\<lambda>e. enc (fst e) @ enc (snd e)) es))))"
  using assms
proof (induction es arbitrary: out p)
  case (Cons e es)
  have "f k\<^sub>0 p = (fst e, p + of_nat (length (enc (fst e))))" using Cons.prems by (intro readsD [of m]) simp_all
  moreover have "g v\<^sub>0 (p + of_nat (length (enc (fst e)))) = (snd e, p + of_nat (length (enc (fst e))) + of_nat (length (enc (snd e))))"
    using Cons.prems by (intro readsD [of m]) simp_all
  ultimately show ?case
    using Cons.IH [of "p + of_nat (length (enc (fst e))) + of_nat (length (enc (snd e)))" "emplace (fst e) (snd e) out"] Cons.prems
    by (simp add: add.assoc)
qed simp

lemma des_members_reads:
  assumes "list_all2 (\<lambda>t v. reads m (f t (new t)) (e v) v) ts vs" and "found m p (concat (map e vs))"
  shows "des_members f ts (map new ts) p = (vs, p + of_nat (length (concat (map e vs))))"
  using assms
proof (induction ts vs arbitrary: p rule: list_all2_induct)
  case (Cons t ts v vs)
  have "f t (new t) p = (v, p + of_nat (length (e v)))" using Cons by (intro readsD [of m]) simp_all
  then show ?case using Cons.IH [of "p + of_nat (length (e v))"] Cons.prems by (simp add: add.assoc)
qed simp

text \<open>The recursion over the index of a tuple visits its elements in order.\<close>

lemma des_members_append:
  assumes "length ts = length vs"
  shows "des_members f (ts @ [t]) (vs @ [v]) p =
    (case des_members f ts vs p of (xs, p') \<Rightarrow> case f t v p' of (x, p'') \<Rightarrow> (xs @ [x], p''))"
  using assms by (induction ts vs arbitrary: p rule: list_induct2) (simp_all split: prod.split)

lemma length_des_members: "length (fst (des_members f ts vs p)) = length vs"
proof (induction f ts vs p rule: des_members.induct)
  case (1 f t ts v vs p)
  obtain x q where "f t v p = (x, q)" by fastforce
  then show ?case using 1 [of x q] by (simp split: prod.split) (metis fst_conv)
qed simp_all

lemma des_tuple_members:
  assumes "length vs = length ts"
  shows "des_tuple f ts vs p = des_members f ts vs p"
proof -
  have "des_tuple_impl f ts n vs p = (case des_members f (take n ts) (take n vs) p of (xs, p') \<Rightarrow> (xs @ drop n vs, p'))"
    if "n \<le> length ts" for n
    using that
  proof (induction n)
    case (Suc n)
    obtain xs q where r: "des_members f (take n ts) (take n vs) p = (xs, q)" by fastforce
    then have "length xs = n" using length_des_members [of f "take n ts" "take n vs" p] Suc.prems assms by simp
    then show ?case
      using Suc r assms des_members_append [of "take n ts" "take n vs" f "ts ! n" "vs ! n" p]
      by (simp add: take_Suc_conv_app_nth nth_append list_update_append Cons_nth_drop_Suc [symmetric] split: prod.split)
  qed simp
  from this [of "length ts"] show ?thesis using assms by (simp add: des_tuple_def split: prod.split)
qed

text \<open>Entries in the order of a container are put where they were.\<close>

lemma emplace_map_last: "(\<And>x. x \<in> set es \<Longrightarrow> lt (fst x) k) \<Longrightarrow> emplace_map lt k v es = es @ [(k, v)]"
  by (induction es) simp_all

lemma emplace_multimap_last: "(\<And>x. x \<in> set es \<Longrightarrow> \<not> lt k (fst x)) \<Longrightarrow> emplace_multimap lt k v es = es @ [(k, v)]"
  by (induction es) simp_all

lemma fold_emplace:
  assumes "\<And>xs e. P xs e \<Longrightarrow> emplace (fst e) (snd e) xs = xs @ [e]" and "\<And>xs e ys. es = xs @ e # ys \<Longrightarrow> P xs e"
  shows "fold (\<lambda>e. emplace (fst e) (snd e)) es [] = es"
proof -
  have "fold (\<lambda>e. emplace (fst e) (snd e)) (take n es) [] = take n es" if "n \<le> length es" for n
    using that
  proof (induction n)
    case (Suc n)
    have "P (take n es) (es ! n)" using Suc.prems by (intro assms(2) [of _ _ "drop (Suc n) es"]) (simp add: id_take_nth_drop)
    then show ?case using Suc assms(1) by (simp add: take_Suc_conv_app_nth)
  qed simp
  from this [of "length es"] show ?thesis by simp
qed

lemma fold_emplace_map: "sorted_wrt (\<lambda>x y. lt (fst x) (fst y)) es \<Longrightarrow> fold (\<lambda>e. emplace_map lt (fst e) (snd e)) es [] = es"
  by (rule fold_emplace [where P = "\<lambda>xs e. \<forall>x \<in> set xs. lt (fst x) (fst e)"]) (auto simp: emplace_map_last sorted_wrt_append)

lemma fold_emplace_multimap:
  "sorted_wrt (\<lambda>x y. \<not> lt (fst y) (fst x)) es \<Longrightarrow> fold (\<lambda>e. emplace_multimap lt (fst e) (snd e)) es [] = es"
  by (rule fold_emplace [where P = "\<lambda>xs e. \<forall>x \<in> set xs. \<not> lt (fst e) (fst x)"]) (auto simp: emplace_multimap_last sorted_wrt_append)

lemma fold_emplace_unordered: "distinct (map fst es) \<Longrightarrow> fold (\<lambda>e. emplace_unordered (fst e) (snd e)) es [] = es"
  by (rule fold_emplace [where P = "\<lambda>xs e. fst e \<notin> set (map fst xs)"]) (auto simp: emplace_unordered_def)

lemma reads_reading: "reads m f bs x \<Longrightarrow> C x = v \<Longrightarrow> reads m (\<lambda>p. reading C (f p)) bs v"
  by (simp add: reads_def reading_def)

lemma deserializer_reads:
  assumes "has_type lt t v"
  shows "reads m (deserializer_and lt m t (fresh t)) (enc v) v"
  using assms
proof (induction rule: has_type.induct)
  case (3 s a t b)
  then show ?case by (simp add: reads_def reading_def des_pair_def add.assoc)
next
  case (4 ts vs)
  have "list_all2 (\<lambda>t v. reads m (deserializer_and lt m t (fresh t)) (enc v) v) ts vs"
    using 4 by (rule list_all2_mono) simp
  then show ?case using des_members_reads [of m "deserializer_and lt m" fresh enc ts vs]
    by (simp add: reads_def reading_def des_tuple_members)
next
  case (5 bs)
  then have u: "unat (of_nat (length bs) :: u32) = length bs" by (simp add: unat_of_nat take_bit_nat_eq_self)
  show ?case
    unfolding reads_def
  proof (intro allI impI)
    fix p assume f: "found m p (enc (VStr bs))"
    have "of_le_bytes (get_bytes m p 4) = (of_nat (length bs) :: u32)" "get_bytes m (p + 4) (length bs) = bs"
      using f by (simp_all add: found_def get_bytes_append u32_codec.dec_enc)
    moreover have "ucast (of_nat (length bs) :: u32) = (of_nat (length bs) :: u64)"
      unfolding u64_eq_iff_unat unsigned_ucast_eq u unat_of_nat using 5 by (simp add: take_bit_nat_eq_self)
    ultimately show "deserializer_and lt m Str (fresh Str) p = (VStr bs, p + of_nat (length (enc (VStr bs))))"
      using u by (simp add: reading_def des_string_def Let_def add.assoc)
  qed
next
  case (6 t vs)
  have "reads m (deserializer_and lt m t (fresh t)) (enc v) v" if "v \<in> set vs" for v
    using 6 that by (simp add: list_all_iff)
  then show ?case
    using des_elements_reads [of vs m "deserializer_and lt m t" "fresh t" enc] found_size_t 6(2)
    by (auto simp: reads_def reading_def des_vector_def unat_of_nat_u64 add.assoc)
next
  case (9 s t es)
  have "reads m (deserializer_and lt m s (fresh s)) (enc (fst e)) (fst e)" "reads m (deserializer_and lt m t (fresh t)) (enc (snd e)) (snd e)"
    if "e \<in> set es" for e
    using 9 that by (simp_all add: list_all_iff)
  then show ?case
    using des_entries_reads [of es m "deserializer_and lt m s" "fresh s" "deserializer_and lt m t" "fresh t"] found_size_t 9(2,3)
    by (auto simp: reads_def reading_def des_map_def unat_of_nat_u64 fold_emplace_map add.assoc)
next
  case (10 s t es)
  have "reads m (deserializer_and lt m s (fresh s)) (enc (fst e)) (fst e)" "reads m (deserializer_and lt m t (fresh t)) (enc (snd e)) (snd e)"
    if "e \<in> set es" for e
    using 10 that by (simp_all add: list_all_iff)
  then show ?case
    using des_entries_reads [of es m "deserializer_and lt m s" "fresh s" "deserializer_and lt m t" "fresh t"] found_size_t 10(2,3)
    by (auto simp: reads_def reading_def des_multimap_def unat_of_nat_u64 fold_emplace_multimap add.assoc)
next
  case (11 s t es)
  have "reads m (deserializer_and lt m s (fresh s)) (enc (fst e)) (fst e)" "reads m (deserializer_and lt m t (fresh t)) (enc (snd e)) (snd e)"
    if "e \<in> set es" for e
    using 11 that by (simp_all add: list_all_iff)
  then show ?case
    using des_entries_reads [of es m "deserializer_and lt m s" "fresh s" "deserializer_and lt m t" "fresh t"] found_size_t 11(2,3)
    by (auto simp: reads_def reading_def des_unordered_map_def unat_of_nat_u64 fold_emplace_unordered add.assoc)
next
  case (12 ts vs)
  have "list_all2 (\<lambda>t v. reads m (deserializer_and lt m t (fresh t)) (enc v) v) ts vs"
    using 12 by (rule list_all2_mono) simp
  then show ?case using des_members_reads [of m "deserializer_and lt m" fresh enc ts vs] by (simp add: reads_def reading_def)
next
  case (13 ts vs)
  have "list_all2 (\<lambda>t v. reads m (deserializer_and lt m t (fresh t)) (enc v) v) ts vs"
    using 13 by (rule list_all2_mono) simp
  then show ?case using des_members_reads [of m "deserializer_and lt m" fresh enc ts vs] by (simp add: reads_def reading_def)
qed (simp_all add: reads_def reading_def des_pod_def des_bool_def des_optional_def found_Cons, simp_all add: found_def add.assoc)

section \<open>Round trip\<close>

text \<open>
  C33. A value of a serializable type whose image is shorter than \<open>2 ^ 64\<close> bytes: \<^verbatim>\<open>serialize\<close> returns the
  number of bytes that it writes, its assertion on the final position holds, and it writes into the new
  buffer only. From every copy of these bytes, at any address, \<^verbatim>\<open>deserialize\<close> into a new object returns the
  value and the position behind it.
\<close>

theorem serialize_round_trip:
  assumes "has_type lt t v" and "length (enc v) < 2 ^ 64"
  shows "\<exists>bs. serialize v buf m = (Some (of_nat (length bs)), put_bytes m buf bs) \<and> length bs < 2 ^ 64 \<and>
    (\<forall>m' q. get_bytes m' q (length bs) = bs \<longrightarrow> deserialize lt t (fresh t) m' q = (v, q + of_nat (length bs)))"
proof (intro exI conjI allI impI)
  show "serialize v buf m = (Some (of_nat (length (enc v))), put_bytes m buf (enc v))"
    using serializer_puts [OF assms(1)] assms(2) by (simp add: serialize_def sizer_length put_def)
  show "length (enc v) < 2 ^ 64" by (rule assms(2))
  show "deserialize lt t (fresh t) m' q = (v, q + of_nat (length (enc v)))" if "get_bytes m' q (length (enc v)) = enc v" for m' q
    using readsD [OF deserializer_reads [OF assms(1)]] that by (simp add: deserialize_def found_def)
qed

text \<open>A map from one-byte keys to optional strings, ordered by the bytes of the keys.\<close>

fun pod_less :: "val \<Rightarrow> val \<Rightarrow> bool" where
  "pod_less (VPod [a]) (VPod [b]) = (a < b)"
| "pod_less _ _ = False"

definition demo_value :: val where
  "demo_value = VMap [(VPod [3], VOptional None), (VPod [7], VOptional (Some (VStr [65, 66])))]"

theorem serialize_round_trip_witness:
  "\<exists>bs. serialize demo_value 4096 (\<lambda>_. 0) = (Some (of_nat (length bs)), put_bytes (\<lambda>_. 0) 4096 bs) \<and>
    deserialize pod_less (Map (Pod 1) (Optional Str)) (VMap []) (put_bytes (\<lambda>_. 0) 4096 bs) 4096 = (demo_value, 4096 + of_nat (length bs))"
proof -
  have "has_type pod_less (Map (Pod 1) (Optional Str)) demo_value"
    by (simp add: demo_value_def has_type_simps)
  from serialize_round_trip [OF this, of 4096 "\<lambda>_. 0"] obtain bs where
    "serialize demo_value 4096 (\<lambda>_. 0) = (Some (of_nat (length bs)), put_bytes (\<lambda>_. 0) 4096 bs)" "length bs < 2 ^ 64"
    "\<forall>m' q. get_bytes m' q (length bs) = bs \<longrightarrow>
      deserialize pod_less (Map (Pod 1) (Optional Str)) (fresh (Map (Pod 1) (Optional Str))) m' q = (demo_value, q + of_nat (length bs))"
    by (auto simp: demo_value_def)
  then show ?thesis by (intro exI [of _ bs]) (simp add: get_put_same)
qed

section \<open>The type of what is read\<close>

lemma des_elements_all:
  assumes "\<And>p. P (fst (f new p))"
  shows "list_all P (fst (des_elements f new n out p)) = list_all P out \<and> length (fst (des_elements f new n out p)) = length out + n"
proof (induction n arbitrary: out p)
  case (Suc n)
  obtain v q where r: "f new p = (v, q)" by fastforce
  then have "P v" using assms [of p] by simp
  then show ?case using Suc [of "out @ [v]" q] r by simp
qed simp

lemma des_entries_all:
  assumes f: "\<And>p. P (fst (f k\<^sub>0 p))" and g: "\<And>p. Q (fst (g v\<^sub>0 p))"
    and keep: "\<And>k v es. P k \<Longrightarrow> Q v \<Longrightarrow> I es \<Longrightarrow> I (emplace k v es) \<and> length (emplace k v es) \<le> Suc (length es)"
    and out: "I out"
  shows "I (fst (des_entries emplace f k\<^sub>0 g v\<^sub>0 n out p)) \<and> length (fst (des_entries emplace f k\<^sub>0 g v\<^sub>0 n out p)) \<le> length out + n"
  using out
proof (induction n arbitrary: out p)
  case (Suc n)
  obtain k q where k: "f k\<^sub>0 p = (k, q)" by fastforce
  obtain v r where v: "g v\<^sub>0 q = (v, r)" by fastforce
  have "I (emplace k v out)" "length (emplace k v out) \<le> Suc (length out)"
    using keep [of k v out] f [of p] g [of q] k v Suc.prems by simp_all
  then show ?case using Suc.IH [of "emplace k v out" r] k v by simp
qed simp

lemma des_members_all:
  assumes "\<And>t p. t \<in> set ts \<Longrightarrow> T t (fst (f t (new t) p))"
  shows "list_all2 T ts (fst (des_members f ts (map new ts) p))"
  using assms
proof (induction ts arbitrary: p)
  case (Cons t ts)
  obtain v q where v: "f t (new t) p = (v, q)" by fastforce
  obtain vs r where vs: "des_members f ts (map new ts) q = (vs, r)" by fastforce
  have "T t v" using Cons.prems [of t p] v by simp
  then show ?case using Cons.IH [of q] Cons.prems v vs by simp
qed simp

text \<open>The containers keep their order.\<close>

definition entries_ok :: "(val \<Rightarrow> val \<Rightarrow> bool) \<Rightarrow> ty \<Rightarrow> ty \<Rightarrow> entries \<Rightarrow> bool" where
  "entries_ok lt s t es \<longleftrightarrow> list_all (\<lambda>e. has_type lt s (fst e) \<and> has_type lt t (snd e)) es"

lemma emplace_map_set: "set (emplace_map lt k v es) \<subseteq> insert (k, v) (set es)"
  by (induction es) auto

lemma emplace_multimap_set: "set (emplace_multimap lt k v es) = insert (k, v) (set es)"
  by (induction es) auto

lemma emplace_lengths:
  "length (emplace_map lt k v es) \<le> Suc (length es)" "length (emplace_multimap lt k v es) = Suc (length es)"
  "length (emplace_unordered k v es) \<le> Suc (length es)"
  by (induction es) (simp_all add: emplace_unordered_def)

lemma emplace_map_sorted:
  assumes "transp lt" and "sorted_wrt (\<lambda>x y. lt (fst x) (fst y)) es"
  shows "sorted_wrt (\<lambda>x y. lt (fst x) (fst y)) (emplace_map lt k v es)"
  using assms(2)
proof (induction es)
  case (Cons e es)
  show ?case
  proof (cases "lt (fst e) k")
    case True
    then show ?thesis using Cons emplace_map_set [of lt k v es] by fastforce
  next
    case False
    then show ?thesis using Cons.prems transpD [OF assms(1)] by auto
  qed
qed simp

lemma emplace_multimap_sorted:
  assumes "transp lt" and "asymp lt" and "sorted_wrt (\<lambda>x y. \<not> lt (fst y) (fst x)) es"
  shows "sorted_wrt (\<lambda>x y. \<not> lt (fst y) (fst x)) (emplace_multimap lt k v es)"
  using assms(3)
proof (induction es)
  case (Cons e es)
  show ?case
  proof (cases "lt k (fst e)")
    case True
    have "\<not> lt (fst y) k" if "y \<in> set (e # es)" for y
      using that Cons.prems True transpD [OF assms(1), of "fst y" k "fst e"] asympD [OF assms(2), of k "fst e"] by auto
    then show ?thesis using Cons.prems True by simp
  next
    case False
    then show ?thesis using Cons by (simp add: emplace_multimap_set)
  qed
qed simp

lemma deserializer_type:
  assumes "transp lt" and "asymp lt"
  shows "has_type lt t (fst (deserializer_and lt m t (fresh t) p))"
proof (induction t arbitrary: p)
  case (Pair s t)
  then show ?case by (auto simp: reading_def des_pair_def has_type_simps split: prod.split) (metis fst_conv)+
next
  case (Tuple ts)
  have "list_all2 (has_type lt) ts (fst (des_members (deserializer_and lt m) ts (map fresh ts) p))"
    by (rule des_members_all) (rule Tuple)
  then show ?case by (simp add: reading_def des_tuple_members has_type_simps)
next
  case Str
  have "unat (w :: u32) < 2 ^ 32" for w using unsigned_less [of w] by simp
  then show ?case by (simp add: reading_def des_string_def Let_def has_type_simps)
next
  case (Vector t)
  show ?case
    using des_elements_all [of "has_type lt t" "deserializer_and lt m t" "fresh t" "unat (read_size_t m p)" "[]" "p + 8"] Vector u64_lt
    by (simp add: reading_def des_vector_def has_type_simps)
next
  case (Optional t)
  then show ?case by (auto simp: reading_def des_optional_def has_type_simps split: prod.split) (metis fst_conv)
next
  case (Map s t)
  have "(entries_ok lt s t r \<and> sorted_wrt (\<lambda>x y. lt (fst x) (fst y)) r) \<and> length r \<le> length ([] :: entries) + unat (read_size_t m p)"
    if "r = fst (des_map lt m (deserializer_and lt m s) (fresh s) (deserializer_and lt m t) (fresh t) [] p)" for r
    unfolding that des_map_def
  proof (rule des_entries_all [where P = "has_type lt s" and Q = "has_type lt t"])
    fix k v es assume "has_type lt s k" "has_type lt t v" "entries_ok lt s t es \<and> sorted_wrt (\<lambda>x y. lt (fst x) (fst y)) es"
    then show "(entries_ok lt s t (emplace_map lt k v es) \<and> sorted_wrt (\<lambda>x y. lt (fst x) (fst y)) (emplace_map lt k v es)) \<and>
        length (emplace_map lt k v es) \<le> Suc (length es)"
      using emplace_map_set [of lt k v es] emplace_map_sorted [OF assms(1)] emplace_lengths(1) by (fastforce simp: entries_ok_def list_all_iff)
  qed (simp_all add: Map entries_ok_def)
  then show ?case using u64_lt [of "read_size_t m p"] by (auto simp: reading_def has_type_simps entries_ok_def)
next
  case (Multimap s t)
  have "(entries_ok lt s t r \<and> sorted_wrt (\<lambda>x y. \<not> lt (fst y) (fst x)) r) \<and> length r \<le> length ([] :: entries) + unat (read_size_t m p)"
    if "r = fst (des_multimap lt m (deserializer_and lt m s) (fresh s) (deserializer_and lt m t) (fresh t) [] p)" for r
    unfolding that des_multimap_def
  proof (rule des_entries_all [where P = "has_type lt s" and Q = "has_type lt t"])
    fix k v es assume "has_type lt s k" "has_type lt t v" "entries_ok lt s t es \<and> sorted_wrt (\<lambda>x y. \<not> lt (fst y) (fst x)) es"
    then show "(entries_ok lt s t (emplace_multimap lt k v es) \<and> sorted_wrt (\<lambda>x y. \<not> lt (fst y) (fst x)) (emplace_multimap lt k v es)) \<and>
        length (emplace_multimap lt k v es) \<le> Suc (length es)"
      using emplace_multimap_sorted [OF assms, of es k v] by (simp add: emplace_lengths(2) emplace_multimap_set entries_ok_def list_all_iff)
  qed (simp_all add: Multimap entries_ok_def)
  then show ?case using u64_lt [of "read_size_t m p"] by (auto simp: reading_def has_type_simps entries_ok_def)
next
  case (Unordered_map s t)
  have "(entries_ok lt s t r \<and> distinct (map fst r)) \<and> length r \<le> length ([] :: entries) + unat (read_size_t m p)"
    if "r = fst (des_unordered_map m (deserializer_and lt m s) (fresh s) (deserializer_and lt m t) (fresh t) [] p)" for r
    unfolding that des_unordered_map_def
  proof (rule des_entries_all [where P = "has_type lt s" and Q = "has_type lt t"])
    fix k v es assume "has_type lt s k" "has_type lt t v" "entries_ok lt s t es \<and> distinct (map fst es)"
    then show "(entries_ok lt s t (emplace_unordered k v es) \<and> distinct (map fst (emplace_unordered k v es))) \<and>
        length (emplace_unordered k v es) \<le> Suc (length es)"
      by (auto simp: emplace_unordered_def entries_ok_def list_all_iff)
  qed (simp_all add: Unordered_map entries_ok_def)
  then show ?case using u64_lt [of "read_size_t m p"] by (auto simp: reading_def has_type_simps entries_ok_def)
next
  case (Visit ts)
  have "list_all2 (has_type lt) ts (fst (des_members (deserializer_and lt m) ts (map fresh ts) p))"
    by (rule des_members_all) (rule Visit)
  then show ?case by (simp add: reading_def has_type_simps)
next
  case (Serializable ts)
  have "list_all2 (has_type lt) ts (fst (des_members (deserializer_and lt m) ts (map fresh ts) p))"
    by (rule des_members_all) (rule Serializable)
  then show ?case by (simp add: reading_def has_type_simps)
qed (simp_all add: reading_def des_pod_def des_bool_def has_type_simps)

text \<open>
  For a key order that is transitive and asymmetric, whatever bytes the memory holds: what
  \<^verbatim>\<open>deserialize\<close> puts into a new object is a value of its type. Maps are sorted without equivalent keys,
  multimaps are sorted, strings are shorter than \<open>2 ^ 32\<close>, and plain members have their size.
\<close>

theorem deserialize_well_typed:
  assumes "transp lt" and "asymp lt"
  shows "has_type lt t (fst (deserialize lt t (fresh t) m p))"
  unfolding deserialize_def by (rule deserializer_type [OF assms])

lemma pod_less_order: "transp pod_less" "asymp pod_less"
proof -
  have e: "pod_less x y \<longleftrightarrow> (\<exists>a b. x = VPod [a] \<and> y = VPod [b] \<and> a < b)" for x y
    by (cases "(x, y)" rule: pod_less.cases) auto
  show "transp pod_less" unfolding transp_def e by auto
  show "asymp pod_less" by (rule asympI) (auto simp: e)
qed

theorem deserialize_well_typed_witness:
  "has_type pod_less (Map (Pod 1) (Optional Str)) (fst (deserialize pod_less (Map (Pod 1) (Optional Str)) (VMap []) (\<lambda>a. ucast a) 3))"
  using deserialize_well_typed [OF pod_less_order, of "Map (Pod 1) (Optional Str)" "\<lambda>a. ucast a" 3] by simp

section \<open>Findings\<close>

text \<open>The length of a string is written as 32 bits, its size is counted in full: the assertion fails.\<close>

lemma long_string_fails:
  assumes "length bs = 2 ^ 32"
  shows "fst (serialize (VStr bs) buf m) = None"
proof -
  have "(of_nat (length bs) :: u32) = 0" unfolding assms by (simp add: word_eq_iff_unsigned)
  then show ?thesis using assms
    by (simp add: serialize_def other_impl_def size_string_def ser_string_def Let_def put_def)
qed

text \<open>Deserializing into objects that are not new keeps their old contents.\<close>

lemma deserialize_keeps_old:
  "deserialize lt (Vector Bool) (VVector [VBool True]) (put_bytes (\<lambda>_. 0) 0 (enc (VVector [VBool False]))) 0 =
    (VVector [VBool True, VBool False], 9)"
  "deserialize lt (Optional Bool) (VOptional (Some (VBool True))) (\<lambda>_. 0) 0 = (VOptional (Some (VBool True)), 1)"
proof -
  let ?m = "put_bytes (\<lambda>_. 0) 0 (enc (VVector [VBool False]))"
  have f: "found ?m 0 (enc (VVector [VBool False]))" unfolding found_def by (rule get_put_same) simp_all
  then have "read_size_t ?m 0 = 1" using found_size_t [of ?m 0 1] by simp
  moreover have "?m 8 = 0" using f found_Cons [of ?m 8 0 "[]"] by simp
  ultimately show "deserialize lt (Vector Bool) (VVector [VBool True]) ?m 0 = (VVector [VBool True, VBool False], 9)"
    by (simp add: deserialize_def reading_def des_vector_def des_bool_def)
  show "deserialize lt (Optional Bool) (VOptional (Some (VBool True))) (\<lambda>_. 0) 0 = (VOptional (Some (VBool True)), 1)"
    by (simp add: deserialize_def reading_def des_optional_def des_bool_def)
qed

end
