(* ===== verification/Infinio_Tasks.thy ===== *)
theory Infinio_Tasks
  imports Single_Consumer_Queue_Spec
begin

text \<open>
  The event loop of \<^verbatim>\<open>EventProcessor.cpp\<close> with its two kinds of task queues. The pollers of a loop are
  functions on a state of their own. The task queue that other threads fill is a transition system on top
  of the one of its \<^verbatim>\<open>SingleConsumerQueue\<close>: the threads in \<^verbatim>\<open>execute\<close>, the thread of the event loop, and the
  event descriptor with its edge-triggered registration in the \<^verbatim>\<open>epoll\<close> descriptor.
\<close>

section \<open>The event loop\<close>

record 's EventPoll =
  ep_poll :: "'s \<Rightarrow> bool \<times> 's"
  ep_prepareSleep :: "'s \<Rightarrow> 's"
  ep_wakeup :: "'s \<Rightarrow> 's"

text \<open>The registered pollers, by their addresses, and the descriptors in the epoll set.\<close>

record EventProcessor =
  mPoller :: "u64 list"
  mEpoll :: "int \<rightharpoonup> u64"
  mPollCycles :: u64
  mPollThread :: bool

datatype loop_error = System_error | Already_running

definition new_processor :: "bool \<Rightarrow> u64 \<Rightarrow> loop_error + EventProcessor" where
  "new_processor created pollCycles =
    (if created then Inr \<lparr>mPoller = [], mEpoll = Map.empty, mPollCycles = pollCycles, mPollThread = False\<rparr> else Inl System_error)"

text \<open>Adding and removing a descriptor succeed when \<^verbatim>\<open>epoll_ctl\<close>, a parameter, does.\<close>

definition registerPoll :: "bool \<Rightarrow> int \<Rightarrow> u64 \<Rightarrow> EventProcessor \<Rightarrow> (loop_error + unit) \<times> EventProcessor" where
  "registerPoll ctl fd poll p =
    (if fd \<noteq> - 1 \<and> \<not> ctl then (Inl System_error, p)
     else
       let p = if fd \<noteq> - 1 then p\<lparr>mEpoll := (mEpoll p)(fd \<mapsto> poll)\<rparr> else p
       in (Inr (), p\<lparr>mPoller := mPoller p @ [poll]\<rparr>))"

definition deregisterPoll :: "bool \<Rightarrow> int \<Rightarrow> u64 \<Rightarrow> EventProcessor \<Rightarrow> (loop_error + unit) \<times> EventProcessor" where
  "deregisterPoll ctl fd poll p =
    (if poll \<notin> set (mPoller p) then (Inr (), p)
     else
       let p = p\<lparr>mPoller := remove1 poll (mPoller p)\<rparr>
       in if fd \<noteq> - 1 then (if ctl then (Inr (), p\<lparr>mEpoll := (mEpoll p)(fd := None)\<rparr>) else (Inl System_error, p))
          else (Inr (), p))"

definition processor_start :: "EventProcessor \<Rightarrow> (loop_error + unit) \<times> EventProcessor" where
  "processor_start p = (if mPollThread p then (Inl Already_running, p) else (Inr (), p\<lparr>mPollThread := True\<rparr>))"

text \<open>One round over the pollers, with the counter of the loop, and the loop.\<close>

fun poll_round :: "'s EventPoll list \<Rightarrow> u64 \<Rightarrow> 's \<Rightarrow> u64 \<times> 's" where
  "poll_round [] i s = (i, s)"
| "poll_round (p # ps) i s = (case ep_poll p s of (result, s') \<Rightarrow> poll_round ps (if result then 0 else i) s')"

partial_function (option) poll_loop :: "u64 \<Rightarrow> 's EventPoll list \<Rightarrow> u64 \<Rightarrow> 's \<Rightarrow> 's option" where
  "poll_loop n ps i s =
    (if i < n then (case poll_round ps i s of (i', s') \<Rightarrow> poll_loop n ps (i' + 1) s') else Some s)"

text \<open>
  An iteration of the thread. \<^verbatim>\<open>epoll_wait\<close> is a parameter: the events, each an index of a poller and
  whether it is an error, and the state it leaves.
\<close>

definition process_event :: "'s EventPoll list \<Rightarrow> bool \<times> nat \<Rightarrow> 's \<Rightarrow> 's" where
  "process_event ps e s = (if fst e then s else ep_wakeup (ps ! snd e) s)"

definition doPoll :: "('s \<Rightarrow> (bool \<times> nat) list \<times> 's) \<Rightarrow> u64 \<Rightarrow> 's EventPoll list \<Rightarrow> 's \<Rightarrow> 's option" where
  "doPoll epoll_wait n ps s =
    (case poll_loop n ps 0 s of
       None \<Rightarrow> None
     | Some s \<Rightarrow>
        (case epoll_wait (fold ep_prepareSleep ps s) of (events, s') \<Rightarrow> Some (fold (process_event ps) events s')))"

text \<open>
  The constructors of the queues register them with the loop, the destructors take them out and only log
  a failure. The descriptor that \<^verbatim>\<open>eventfd\<close> returns is a parameter.
\<close>

definition task_queue_create :: "int \<Rightarrow> bool \<Rightarrow> u64 \<Rightarrow> EventProcessor \<Rightarrow> (loop_error + int) \<times> EventProcessor" where
  "task_queue_create mInterrupt ctl this p =
    (if mInterrupt = - 1 then (Inl System_error, p)
     else (case registerPoll ctl mInterrupt this p of (Inl e, p) \<Rightarrow> (Inl e, p) | (Inr _, p) \<Rightarrow> (Inr mInterrupt, p)))"

definition task_queue_destroy :: "int \<Rightarrow> bool \<Rightarrow> u64 \<Rightarrow> EventProcessor \<Rightarrow> EventProcessor" where
  "task_queue_destroy mInterrupt ctl this p = snd (deregisterPoll ctl mInterrupt this p)"

definition local_queue_create :: "u64 \<Rightarrow> EventProcessor \<Rightarrow> EventProcessor" where
  "local_queue_create this p = snd (registerPoll True (- 1) this p)"

definition local_queue_destroy :: "u64 \<Rightarrow> EventProcessor \<Rightarrow> EventProcessor" where
  "local_queue_destroy this p = snd (deregisterPoll True (- 1) this p)"

lemma queue_registered:
  assumes "task_queue_create fd ctl this p = (Inr fd', p')" and "this \<notin> set (mPoller p)" and "mEpoll p fd = None"
  shows "mPoller p' = mPoller p @ [this] \<and> mEpoll p' = (mEpoll p)(fd \<mapsto> this) \<and> task_queue_destroy fd True this p' = p"
  using assms
  by (auto simp: task_queue_create_def task_queue_destroy_def registerPoll_def deregisterPoll_def Let_def remove1_append fun_upd_idem
      split: if_splits sum.splits)

section \<open>The local task queue\<close>

text \<open>The tasks of the queue and the state they work on; \<open>run\<close> is what a task does, which may queue others.\<close>

record ('a, 's) LocalTaskQueue =
  lq_mTaskQueue :: "'a list"
  lq_world :: 's

definition local_execute :: "'a \<Rightarrow> ('a, 's) LocalTaskQueue \<Rightarrow> ('a, 's) LocalTaskQueue" where
  "local_execute fun q = q\<lparr>lq_mTaskQueue := lq_mTaskQueue q @ [fun]\<rparr>"

fun run_tasks :: "('a \<Rightarrow> 'q \<Rightarrow> 'q) \<Rightarrow> 'a list \<Rightarrow> 'q \<Rightarrow> 'q" where
  "run_tasks run [] q = q"
| "run_tasks run (fun # taskQueue) q = run_tasks run taskQueue (run fun q)"

definition local_poll :: "('a \<Rightarrow> ('a, 's) LocalTaskQueue \<Rightarrow> ('a, 's) LocalTaskQueue) \<Rightarrow> ('a, 's) LocalTaskQueue \<Rightarrow> bool \<times> ('a, 's) LocalTaskQueue" where
  "local_poll run q =
    (if lq_mTaskQueue q = [] then (False, q)
     else (True, run_tasks run (lq_mTaskQueue q) (q\<lparr>lq_mTaskQueue := []\<rparr>)))"

definition local_poller :: "('a \<Rightarrow> ('a, 's) LocalTaskQueue \<Rightarrow> ('a, 's) LocalTaskQueue) \<Rightarrow> ('a, 's) LocalTaskQueue EventPoll" where
  "local_poller run = \<lparr>ep_poll = local_poll run, ep_prepareSleep = \<lambda>q. q, ep_wakeup = \<lambda>q. q\<rparr>"

section \<open>The task queue of other threads\<close>

text \<open>
  Where a thread is in \<^verbatim>\<open>TaskQueue::execute\<close>: in the \<^verbatim>\<open>write\<close> of the queue, before the load of \<^verbatim>\<open>mSleeping\<close>,
  before the \<^verbatim>\<open>write\<close> to the descriptor. Where the event loop is: in the loop of \<^verbatim>\<open>TaskQueue::poll\<close>, called by
  \<^verbatim>\<open>prepareSleep\<close> or not; between polls; in \<^verbatim>\<open>epoll_wait\<close>; in \<^verbatim>\<open>wakeup\<close>, before and after the store.
\<close>

datatype exec_phase = Outside | Enqueuing | Loading | Signalling

datatype loop_phase = Polling bool | Resting | Asleep | Waking | Woken

text \<open>\<open>t_counter\<close>: the descriptor is readable; \<open>t_ready\<close>: the epoll descriptor has an edge to report.\<close>

record 'v TaskQueue =
  t_sys :: "'v system"
  t_exec :: "nat \<Rightarrow> exec_phase"
  t_loop :: loop_phase
  t_mSleeping :: bool
  t_counter :: bool
  t_ready :: bool

inductive task_step :: "'v TaskQueue \<Rightarrow> 'v TaskQueue \<Rightarrow> bool" where
  enqueue: "t_exec w t = Outside \<Longrightarrow> s = t_sys w \<Longrightarrow> s_pcs s t = Idle \<Longrightarrow> pos = q_insert_place (s_queue s) \<Longrightarrow>
    length (s_tickets s) < 2 ^ 62 \<Longrightarrow>
    task_step w (w\<lparr>t_sys := s\<lparr>s_queue := (s_queue s)\<lparr>q_insert_place := pos + 1\<rparr>,
        s_pcs := (s_pcs s)(t := Waiting pos v), s_tickets := s_tickets s @ [v]\<rparr>, t_exec := (t_exec w)(t := Enqueuing)\<rparr>)"
| enqueue_free: "t_exec w t = Enqueuing \<Longrightarrow> s = t_sys w \<Longrightarrow> s_pcs s t = Waiting pos v \<Longrightarrow> \<not> isFull (s_queue s) pos \<Longrightarrow>
    task_step w (w\<lparr>t_sys := s\<lparr>s_pcs := (s_pcs s)(t := Writing pos v)\<rparr>\<rparr>)"
| enqueue_value: "t_exec w t = Enqueuing \<Longrightarrow> s = t_sys w \<Longrightarrow> s_pcs s t = Writing pos v \<Longrightarrow>
    task_step w (w\<lparr>t_sys := s\<lparr>s_queue := store_value pos v (s_queue s), s_pcs := (s_pcs s)(t := Storing pos v)\<rparr>\<rparr>)"
| enqueue_flag: "t_exec w t = Enqueuing \<Longrightarrow> s = t_sys w \<Longrightarrow> s_pcs s t = Storing pos v \<Longrightarrow>
    task_step w (w\<lparr>t_sys := s\<lparr>s_queue := store_flag pos True (s_queue s), s_pcs := (s_pcs s)(t := Idle)\<rparr>,
      t_exec := (t_exec w)(t := Loading)\<rparr>)"
| load_sleeping: "t_exec w t = Loading \<Longrightarrow>
    task_step w (w\<lparr>t_exec := (t_exec w)(t := if t_mSleeping w then Signalling else Outside)\<rparr>)"
| signal: "t_exec w t = Signalling \<Longrightarrow>
    task_step w (w\<lparr>t_exec := (t_exec w)(t := Outside), t_counter := True, t_ready := True\<rparr>)"
| poll_read: "t_loop w = Polling b \<Longrightarrow> s = t_sys w \<Longrightarrow> s_consumer s = Ready \<Longrightarrow> \<not> nothing_to_read (s_queue s) \<Longrightarrow>
    pos = q_consumed (s_queue s) + 1 \<Longrightarrow>
    task_step w (w\<lparr>t_sys := s\<lparr>s_queue := store_flag pos False (s_queue s), s_consumer := Reading pos,
      s_read := s_read s @ [it_value (q_data (s_queue s) ! slot (s_queue s) pos)]\<rparr>\<rparr>)"
| poll_done: "t_loop w = Polling b \<Longrightarrow> s = t_sys w \<Longrightarrow> s_consumer s = Reading pos \<Longrightarrow>
    task_step w (w\<lparr>t_sys := s\<lparr>s_queue := (s_queue s)\<lparr>q_consumed := pos\<rparr>, s_consumer := Ready\<rparr>\<rparr>)"
| poll_end: "t_loop w = Polling b \<Longrightarrow> s_consumer (t_sys w) = Ready \<Longrightarrow> nothing_to_read (s_queue (t_sys w)) \<Longrightarrow>
    task_step w (w\<lparr>t_loop := if b then Asleep else Resting\<rparr>)"
| poll_begin: "t_loop w = Resting \<Longrightarrow> task_step w (w\<lparr>t_loop := Polling False\<rparr>)"
| prepareSleep: "t_loop w = Resting \<Longrightarrow>
    task_step w (w\<lparr>t_mSleeping := True, t_loop := if t_mSleeping w then Asleep else Polling True\<rparr>)"
| epoll_event: "t_loop w = Asleep \<Longrightarrow> t_ready w \<Longrightarrow> t_counter w \<Longrightarrow> task_step w (w\<lparr>t_ready := False, t_loop := Waking\<rparr>)"
| epoll_stale: "t_loop w = Asleep \<Longrightarrow> t_ready w \<Longrightarrow> \<not> t_counter w \<Longrightarrow> task_step w (w\<lparr>t_ready := False\<rparr>)"
| epoll_other: "t_loop w = Asleep \<Longrightarrow> task_step w (w\<lparr>t_loop := Resting\<rparr>)"
| wakeup_store: "t_loop w = Waking \<Longrightarrow> task_step w (w\<lparr>t_mSleeping := False, t_loop := Woken\<rparr>)"
| wakeup_read: "t_loop w = Woken \<Longrightarrow> task_step w (w\<lparr>t_counter := False, t_loop := Resting\<rparr>)"

definition QUEUE_SIZE :: nat where
  "QUEUE_SIZE = 256"

definition new_task_queue :: "'v \<Rightarrow> 'v TaskQueue" where
  "new_task_queue v = \<lparr>t_sys = new_system QUEUE_SIZE v, t_exec = \<lambda>_. Outside, t_loop = Resting, t_mSleeping = False, t_counter = False, t_ready = False\<rparr>"

end
