(* ===== verification/Infinio_Tasks_Spec.thy ===== *)
theory Infinio_Tasks_Spec
  imports Infinio_Tasks
begin

text \<open>
  The event loop goes to sleep only when its pollers found nothing in the last round, and no wakeup is
  lost: the loop does not stay asleep while a task is in the queue.
\<close>

section \<open>The poll loop\<close>

definition idle :: "'s EventPoll list \<Rightarrow> 's \<Rightarrow> bool" where
  "idle ps s \<longleftrightarrow> (\<forall>p \<in> set ps. ep_poll p s = (False, s))"

text \<open>Pollers that do nothing when they report nothing, and whose work gets less when they report some.\<close>

definition settles :: "('s \<Rightarrow> nat) \<Rightarrow> 's EventPoll list \<Rightarrow> bool" where
  "settles work ps \<longleftrightarrow> (\<forall>p \<in> set ps. \<forall>s s'.
    (ep_poll p s = (True, s') \<longrightarrow> work s' < work s) \<and> (ep_poll p s = (False, s') \<longrightarrow> s' = s))"

lemma poll_round_result:
  assumes "settles work ps"
  shows "poll_round ps i s = (i, s) \<and> idle ps s \<or> (\<exists>s'. poll_round ps i s = (0, s') \<and> work s' < work s)"
  using assms
proof (induction ps arbitrary: i s)
  case (Cons p ps)
  obtain b s' where b: "ep_poll p s = (b, s')" by fastforce
  have IH: "poll_round ps j r = (j, r) \<and> idle ps r \<or> (\<exists>s'. poll_round ps j r = (0, s') \<and> work s' < work r)" for j r
    by (rule Cons.IH) (use Cons.prems in \<open>simp add: settles_def\<close>)
  show ?case
  proof (cases b)
    case True
    then have "work s' < work s" using Cons.prems b by (simp add: settles_def)
    then show ?thesis using b True IH [of 0 s'] by auto
  next
    case False
    then have "s' = s" using Cons.prems b by (simp add: settles_def)
    then show ?thesis using b False IH [of i s] by (auto simp: idle_def)
  qed
qed (simp add: idle_def)

lemma poll_loop_ends:
  assumes "settles work ps"
    and n: "2 \<le> n" and "i \<le> n" and "2 \<le> i \<longrightarrow> idle ps s"
  shows "\<exists>s'. poll_loop n ps i s = Some s' \<and> idle ps s'"
  using assms(3,4)
proof (induction "(work s, unat n - unat i)" arbitrary: i s rule: wf_induct_rule [OF wf_lex_prod [OF wf_less_than wf_less_than]])
  case (1 i s)
  show ?case
  proof (cases "i < n")
    case True
    have u: "unat (i + 1) = Suc (unat i)" by (rule unat_Suc_less [OF True])
    have le: "i + 1 \<le> n" using True u by (simp add: word_le_nat_alt word_less_nat_alt)
    from poll_round_result [OF assms(1), of i s] show ?thesis
    proof (elim disjE exE conjE)
      assume r: "poll_round ps i s = (i, s)" "idle ps s"
      have "\<exists>s'. poll_loop n ps (i + 1) s = Some s' \<and> idle ps s'"
        by (rule 1(1)) (use r(2) le u True in \<open>auto simp: word_less_nat_alt\<close>)
      then show ?thesis using r(1) True by (subst poll_loop.simps) simp
    next
      fix s' assume r: "poll_round ps i s = (0, s')" "work s' < work s"
      have "\<exists>s''. poll_loop n ps 1 s' = Some s'' \<and> idle ps s''"
        by (rule 1(1)) (use r(2) n in \<open>auto simp: word_le_nat_alt\<close>)
      then show ?thesis using r(1) True by (subst poll_loop.simps) simp
    qed
  next
    case False
    then have "idle ps s" using 1(2,3) n by (auto simp: word_le_nat_alt word_less_nat_alt)
    then show ?thesis using False by (subst poll_loop.simps) simp
  qed
qed

text \<open>
  C34. Pollers that do nothing when they report nothing, and whose work is finite: with at least two poll
  cycles the loop of \<^verbatim>\<open>doPoll\<close> ends, and in the state in which \<^verbatim>\<open>prepareSleep\<close> is called no poller has anything
  to do.
\<close>

theorem loop_sleeps_idle:
  assumes "settles work ps"
    and "2 \<le> n"
  shows "\<exists>s'. (\<forall>p \<in> set ps. ep_poll p s' = (False, s')) \<and>
    doPoll epoll_wait n ps s = (case epoll_wait (fold ep_prepareSleep ps s') of (es, s'') \<Rightarrow> Some (fold (process_event ps) es s''))"
proof -
  from poll_loop_ends [OF assms, of 0 s] obtain s' where "poll_loop n ps 0 s = Some s'" "idle ps s'" by auto
  then show ?thesis by (auto simp: doPoll_def idle_def)
qed

text \<open>Tasks are numbers: a task \<open>k + 1\<close> adds one to the state and queues the task \<open>k\<close>.\<close>

fun demo_run :: "nat \<Rightarrow> (nat, nat) LocalTaskQueue \<Rightarrow> (nat, nat) LocalTaskQueue" where
  "demo_run 0 q = q\<lparr>lq_world := lq_world q + 1\<rparr>"
| "demo_run (Suc k) q = local_execute k (q\<lparr>lq_world := lq_world q + 1\<rparr>)"

definition demo_work :: "(nat, nat) LocalTaskQueue \<Rightarrow> nat" where
  "demo_work q = sum_list (map Suc (lq_mTaskQueue q))"

lemma demo_run_work: "demo_work (run_tasks demo_run ts q) + length ts = demo_work q + sum_list (map Suc ts)"
proof (induction ts arbitrary: q)
  case (Cons k ts)
  have "demo_work (demo_run k q) + 1 = demo_work q + Suc k" by (cases k) (simp_all add: demo_work_def local_execute_def)
  then show ?case using Cons [of "demo_run k q"] by simp
qed simp

theorem loop_sleeps_idle_witness:
  "\<exists>s'. ep_poll (local_poller demo_run) s' = (False, s') \<and>
    doPoll (\<lambda>s. ([], s)) 5 [local_poller demo_run] \<lparr>lq_mTaskQueue = [2, 0], lq_world = 0\<rparr> = Some s'"
proof -
  have 1: "demo_work s' < demo_work s" if "ep_poll (local_poller demo_run) s = (True, s')" for s s'
  proof -
    have "lq_mTaskQueue s \<noteq> []" "s' = run_tasks demo_run (lq_mTaskQueue s) (s\<lparr>lq_mTaskQueue := []\<rparr>)"
      using that by (auto simp: local_poller_def local_poll_def split: if_splits)
    then show ?thesis using demo_run_work [of "lq_mTaskQueue s" "s\<lparr>lq_mTaskQueue := []\<rparr>"]
      by (cases "lq_mTaskQueue s") (auto simp: demo_work_def)
  qed
  have 2: "s' = s" if "ep_poll (local_poller demo_run) s = (False, s')" for s s'
    using that by (auto simp: local_poller_def local_poll_def split: if_splits)
  have "\<exists>s'. (\<forall>p \<in> set [local_poller demo_run]. ep_poll p s' = (False, s')) \<and>
    doPoll (\<lambda>s. ([], s)) 5 [local_poller demo_run] \<lparr>lq_mTaskQueue = [2, 0], lq_world = 0\<rparr> =
      (case ([], fold ep_prepareSleep [local_poller demo_run] s') of (es, s'') \<Rightarrow> Some (fold (process_event [local_poller demo_run]) es s''))"
    by (rule loop_sleeps_idle [where work = demo_work]) (use 1 2 in \<open>auto simp: settles_def word_le_nat_alt\<close>)
  then show ?thesis by (auto simp: local_poller_def)
qed

text \<open>
  The counter that is reset to zero is increased at once: with one cycle the loop goes to sleep after a
  round in which work was done and more was queued.
\<close>

lemma one_cycle_sleeps_busy:
  "doPoll (\<lambda>s. ([], s)) 1 [local_poller demo_run] \<lparr>lq_mTaskQueue = [1], lq_world = 0\<rparr> =
    Some \<lparr>lq_mTaskQueue = [0], lq_world = 1\<rparr>"
  by (simp add: doPoll_def poll_loop.simps local_poller_def local_poll_def local_execute_def)

section \<open>No lost wakeup\<close>

definition available :: "'v system \<Rightarrow> bool" where
  "available s \<longleftrightarrow> length (s_read s) < length (s_tickets s) \<and> \<not> owned s (length (s_read s))"

text \<open>Something will wake the loop: a thread that is about to look at \<^verbatim>\<open>mSleeping\<close> or to signal, or an event.\<close>

definition signal_due :: "'v TaskQueue \<Rightarrow> bool" where
  "signal_due w \<longleftrightarrow> (\<exists>t. t_exec w t \<in> {Loading, Signalling}) \<or> t_ready w \<and> t_counter w"

definition task_inv :: "'v TaskQueue \<Rightarrow> bool" where
  "task_inv w \<longleftrightarrow> queue_inv QUEUE_SIZE (t_sys w) \<and>
    (\<forall>t. t_exec w t \<noteq> Enqueuing \<longrightarrow> s_pcs (t_sys w) t = Idle) \<and>
    (s_consumer (t_sys w) \<noteq> Ready \<longrightarrow> (\<exists>b. t_loop w = Polling b)) \<and>
    (t_loop w \<in> {Asleep, Polling True} \<longrightarrow> t_mSleeping w) \<and> (t_loop w = Woken \<longrightarrow> \<not> t_mSleeping w) \<and>
    (t_loop w \<in> {Resting, Asleep} \<longrightarrow> t_mSleeping w \<longrightarrow> available (t_sys w) \<longrightarrow> signal_due w)"

lemma task_invD:
  assumes "task_inv w"
  shows "queue_inv QUEUE_SIZE (t_sys w)" and "t_exec w t \<noteq> Enqueuing \<Longrightarrow> s_pcs (t_sys w) t = Idle"
    and "s_consumer (t_sys w) \<noteq> Ready \<Longrightarrow> \<exists>b. t_loop w = Polling b"
    and "t_loop w \<in> {Asleep, Polling True} \<Longrightarrow> t_mSleeping w"
    and "t_loop w \<in> {Resting, Asleep} \<Longrightarrow> t_mSleeping w \<Longrightarrow> available (t_sys w) \<Longrightarrow> signal_due w"
    and "t_loop w = Woken \<Longrightarrow> \<not> t_mSleeping w"
  using assms by (auto simp: task_inv_def)

text \<open>A step of a thread in the queue: the threads and the loop are elsewhere as before.\<close>

lemma task_inv_enqueue:
  assumes inv: "task_inv w" and step: "careful_step (t_sys w) s'" and taken: "s_consumer s' = s_consumer (t_sys w)"
    and idle: "\<And>u. f u \<noteq> Enqueuing \<Longrightarrow> s_pcs s' u = Idle"
    and due: "available s' \<Longrightarrow> available (t_sys w) \<or> (\<exists>u. f u \<in> {Loading, Signalling})"
    and phases: "\<And>u. t_exec w u \<in> {Loading, Signalling} \<Longrightarrow> f u \<in> {Loading, Signalling}"
  shows "task_inv (w\<lparr>t_sys := s', t_exec := f\<rparr>)"
proof -
  note d = task_invD [OF inv]
  have q: "queue_inv QUEUE_SIZE s'" by (rule queue_inv_kept [OF d(1) step])
  have "signal_due (w\<lparr>t_sys := s', t_exec := f\<rparr>)" if "t_loop w \<in> {Resting, Asleep}" "t_mSleeping w" "available s'"
  proof (cases "\<exists>u. f u \<in> {Loading, Signalling}")
    case True
    then show ?thesis by (simp add: signal_due_def)
  next
    case False
    then have "signal_due w" using due d(5) that by blast
    then show ?thesis using phases unfolding signal_due_def by auto
  qed
  then show ?thesis using q idle d(3,4,6) taken unfolding task_inv_def by simp
qed

lemma available_ticket:
  assumes "queue_at N c s" and "available (s\<lparr>s_queue := x, s_pcs := (s_pcs s)(t := Waiting (q_insert_place (s_queue s)) v), s_tickets := s_tickets s @ [v]\<rparr>)"
    and idle: "s_pcs s t = Idle"
  shows "available s"
proof -
  let ?s = "s\<lparr>s_queue := x, s_pcs := (s_pcs s)(t := Waiting (q_insert_place (s_queue s)) v), s_tickets := s_tickets s @ [v]\<rparr>"
  have "q_insert_place (s_queue s) = of_nat (length (s_tickets s))" using queue_atD(1) [OF assms(1)] by (simp add: sizes_ok_def)
  then have pos: "pos_of (Waiting (q_insert_place (s_queue s)) v) = Some (of_nat (length (s_tickets s)))" by simp
  have own: "owned ?s p \<longleftrightarrow> Some (of_nat (length (s_tickets s)) :: u64) = Some (of_nat p) \<or> owned s p" for p
    using owned_new [of "s_pcs s" t "Waiting (q_insert_place (s_queue s)) v" "of_nat p"] idle unfolding pos owned_def by simp
  have a: "length (s_read s) < Suc (length (s_tickets s))" "\<not> owned ?s (length (s_read s))" using assms(2) by (simp_all add: available_def)
  have "length (s_read s) \<noteq> length (s_tickets s)" using a(2) own [of "length (s_read s)"] by metis
  then show ?thesis using a own [of "length (s_read s)"] by (simp add: available_def)
qed

lemma available_pcs:
  "pos_of pc = pos_of (s_pcs s t) \<Longrightarrow> available (s\<lparr>s_queue := x, s_pcs := (s_pcs s)(t := pc)\<rparr>) = available s"
  using owned_same [of pc s t] by (simp add: available_def owned_def fun_eq_iff)

lemma nothing_available:
  assumes "queue_inv N s" and "s_consumer s = Ready" and "nothing_to_read (s_queue s)"
  shows "\<not> available s"
  using assms ready_at unfolding queue_inv_def available_def by blast

text \<open>A step that changes neither the queue nor the threads.\<close>

lemma task_inv_loop:
  assumes inv: "task_inv w" and same: "t_sys w' = t_sys w" "t_exec w' = t_exec w"
    and "s_consumer (t_sys w) \<noteq> Ready \<Longrightarrow> \<exists>b. t_loop w' = Polling b" and "t_loop w' \<in> {Asleep, Polling True} \<Longrightarrow> t_mSleeping w'"
    and "t_loop w' = Woken \<Longrightarrow> \<not> t_mSleeping w'"
    and "t_loop w' \<in> {Resting, Asleep} \<Longrightarrow> t_mSleeping w' \<Longrightarrow> available (t_sys w) \<Longrightarrow> signal_due w'"
  shows "task_inv w'"
  using task_invD(1,2) [OF inv] assms(4-7) unfolding task_inv_def same by blast

lemma task_inv_step:
  assumes "task_step w w'" and "task_inv w"
  shows "task_inv w'"
  using assms
proof (induction rule: task_step.induct)
  case (enqueue w t s pos v)
  note d = task_invD [OF enqueue(6)]
  obtain c where c: "queue_at QUEUE_SIZE c s" using d(1) enqueue(2) by (auto simp: queue_inv_def)
  show ?case
  proof (rule task_inv_enqueue [OF enqueue(6)])
    show "careful_step (t_sys w) (s\<lparr>s_queue := (s_queue s)\<lparr>q_insert_place := pos + 1\<rparr>,
        s_pcs := (s_pcs s)(t := Waiting pos v), s_tickets := s_tickets s @ [v]\<rparr>)"
      unfolding enqueue(2) [symmetric] by (rule plain_careful [OF take_ticket [OF enqueue(3-5)]]) (simp split: if_splits)
    show "available (t_sys w) \<or> (\<exists>u. ((t_exec w)(t := Enqueuing)) u \<in> {Loading, Signalling})"
      if "available (s\<lparr>s_queue := (s_queue s)\<lparr>q_insert_place := pos + 1\<rparr>, s_pcs := (s_pcs s)(t := Waiting pos v), s_tickets := s_tickets s @ [v]\<rparr>)"
      using available_ticket [OF c that [unfolded enqueue(4)] enqueue(3)] enqueue(2) by simp
  qed (use enqueue d(2) in \<open>auto split: if_splits\<close>)
next
  case (enqueue_free w t s pos v)
  note d = task_invD [OF enqueue_free(5)]
  have "task_inv (w\<lparr>t_sys := s\<lparr>s_pcs := (s_pcs s)(t := Writing pos v)\<rparr>, t_exec := t_exec w\<rparr>)"
  proof (rule task_inv_enqueue [OF enqueue_free(5)])
    show "careful_step (t_sys w) (s\<lparr>s_pcs := (s_pcs s)(t := Writing pos v)\<rparr>)"
      unfolding enqueue_free(2) [symmetric] by (rule plain_careful [OF slot_free [OF enqueue_free(3,4)]]) (simp split: if_splits)
    show "available (t_sys w) \<or> (\<exists>u. t_exec w u \<in> {Loading, Signalling})" if "available (s\<lparr>s_pcs := (s_pcs s)(t := Writing pos v)\<rparr>)"
      using available_pcs [of "Writing pos v" s t "s_queue s"] that enqueue_free(2,3) by simp
  qed (use enqueue_free d(2) in auto)
  then show ?case by simp
next
  case (enqueue_value w t s pos v)
  note d = task_invD [OF enqueue_value(4)]
  have "task_inv (w\<lparr>t_sys := s\<lparr>s_queue := store_value pos v (s_queue s), s_pcs := (s_pcs s)(t := Storing pos v)\<rparr>, t_exec := t_exec w\<rparr>)"
  proof (rule task_inv_enqueue [OF enqueue_value(4)])
    show "careful_step (t_sys w) (s\<lparr>s_queue := store_value pos v (s_queue s), s_pcs := (s_pcs s)(t := Storing pos v)\<rparr>)"
      unfolding enqueue_value(2) [symmetric] by (rule plain_careful [OF value_stored [OF enqueue_value(3)]]) (simp split: if_splits)
    show "available (t_sys w) \<or> (\<exists>u. t_exec w u \<in> {Loading, Signalling})"
      if "available (s\<lparr>s_queue := store_value pos v (s_queue s), s_pcs := (s_pcs s)(t := Storing pos v)\<rparr>)"
      using available_pcs [of "Storing pos v" s t] that enqueue_value(2,3) by simp
  qed (use enqueue_value d(2) in auto)
  then show ?case by simp
next
  case (enqueue_flag w t s pos v)
  note d = task_invD [OF enqueue_flag(4)]
  show ?case
  proof (rule task_inv_enqueue [OF enqueue_flag(4)])
    show "careful_step (t_sys w) (s\<lparr>s_queue := store_flag pos True (s_queue s), s_pcs := (s_pcs s)(t := Idle)\<rparr>)"
      unfolding enqueue_flag(2) [symmetric] by (rule plain_careful [OF flag_stored [OF enqueue_flag(3)]]) (simp split: if_splits)
  qed (use enqueue_flag d(2) in \<open>auto split: if_splits\<close>)
next
  case (load_sleeping w t)
  note d = task_invD [OF load_sleeping(2)]
  have "t_exec w u \<noteq> Enqueuing" if "((t_exec w)(t := if t_mSleeping w then Signalling else Outside)) u \<noteq> Enqueuing" for u
    using that load_sleeping(1) by (auto split: if_splits)
  moreover have "signal_due (w\<lparr>t_exec := (t_exec w)(t := if t_mSleeping w then Signalling else Outside)\<rparr>)" if "t_mSleeping w"
    using that by (auto simp: signal_due_def)
  ultimately show ?case using d unfolding task_inv_def by simp
next
  case (signal w t)
  note d = task_invD [OF signal(2)]
  have "t_exec w u \<noteq> Enqueuing" if "((t_exec w)(t := Outside)) u \<noteq> Enqueuing" for u
    using that signal(1) by (auto split: if_splits)
  then show ?case using d unfolding task_inv_def by (simp add: signal_due_def)
next
  case (poll_read w b s pos)
  note d = task_invD [OF poll_read(6)]
  have "queue_inv QUEUE_SIZE (s\<lparr>s_queue := store_flag pos False (s_queue s), s_consumer := Reading pos,
      s_read := s_read s @ [it_value (q_data (s_queue s) ! slot (s_queue s) pos)]\<rparr>)"
    by (rule queue_inv_kept [OF d(1) [folded poll_read(2)] plain_careful [OF read_value [OF poll_read(3-5)]]]) simp
  then show ?case using d(2,4,6) poll_read(1,2) unfolding task_inv_def by auto
next
  case (poll_done w b s pos)
  note d = task_invD [OF poll_done(4)]
  have "queue_inv QUEUE_SIZE (s\<lparr>s_queue := (s_queue s)\<lparr>q_consumed := pos\<rparr>, s_consumer := Ready\<rparr>)"
    by (rule queue_inv_kept [OF d(1) [folded poll_done(2)] plain_careful [OF read_done [OF poll_done(3)]]]) simp
  then show ?case using d(2,4,6) poll_done(1,2) unfolding task_inv_def by auto
next
  case (poll_end w b)
  note d = task_invD [OF poll_end(4)]
  show ?case
    by (rule task_inv_loop [OF poll_end(4)]) (use poll_end(1,2) d(4) nothing_available [OF d(1) poll_end(2,3)] in \<open>auto split: if_splits\<close>)
next
  case (poll_begin w)
  show ?case by (rule task_inv_loop [OF poll_begin(2)]) auto
next
  case (prepareSleep w)
  note d = task_invD [OF prepareSleep(2)]
  show ?case
    by (rule task_inv_loop [OF prepareSleep(2)]) (use prepareSleep(1) d(3,5) in \<open>auto simp: signal_due_def split: if_splits\<close>)
next
  case (epoll_event w)
  show ?case by (rule task_inv_loop [OF epoll_event(4)]) (use epoll_event(1) task_invD(3) [OF epoll_event(4)] in auto)
next
  case (epoll_stale w)
  note d = task_invD [OF epoll_stale(4)]
  show ?case by (rule task_inv_loop [OF epoll_stale(4)]) (use epoll_stale(1-3) d(3-5) in \<open>auto simp: signal_due_def\<close>)
next
  case (epoll_other w)
  note d = task_invD [OF epoll_other(2)]
  show ?case by (rule task_inv_loop [OF epoll_other(2)]) (use epoll_other(1) d(3-5) in \<open>auto simp: signal_due_def\<close>)
next
  case (wakeup_store w)
  show ?case by (rule task_inv_loop [OF wakeup_store(2)]) (use wakeup_store(1) task_invD(3) [OF wakeup_store(2)] in auto)
next
  case (wakeup_read w)
  show ?case by (rule task_inv_loop [OF wakeup_read(2)]) (use wakeup_read(1) task_invD(3,6) [OF wakeup_read(2)] in auto)
qed

text \<open>What the consumer finds is available.\<close>

lemma readable_available:
  assumes q: "queue_at N c s" and idle: "s_consumer s = Ready" and some: "\<not> nothing_to_read (s_queue s)"
  shows "available s"
proof -
  note d = queue_atD [OF q]
  have n: "length (s_tickets s) \<le> 2 ^ 62" and N: "0 < N" using d(1) by (auto simp: sizes_ok_def)
  have r: "length (s_read s) = c" "c \<le> length (s_tickets s)" using d(2) idle by (auto simp: reader_ok_def)
  have pos: "q_consumed (s_queue s) + 1 = of_nat c" using d(1) by (simp add: sizes_ok_def)
  have slot: "slot (s_queue s) (of_nat c) = c mod N" by (rule slot_nat [OF d(1)]) (use r n in simp)
  have "is_valid (q_data (s_queue s) ! (c mod N))" using some unfolding nothing_to_read_def pos slot by simp
  then show ?thesis using slotsD(1) [OF d(4), of c] r(1) N by (simp add: available_def)
qed

interpretation task_system: inductive_invariant "\<lambda>w. w = new_task_queue v" task_step task_inv
  for v
proof
  show "task_inv w" if "w = new_task_queue v" for w
    unfolding that task_inv_def using queue_inv_new [of QUEUE_SIZE v]
    by (simp add: new_task_queue_def QUEUE_SIZE_def new_system_def)
  show "task_inv w'" if "task_inv w" "task_step w w'" for w w' by (rule task_inv_step [OF that(2,1)])
qed

lemma all_read:
  assumes "queue_inv N s" and "\<And>t. s_pcs s t = Idle" and "\<not> available s"
  shows "s_read s = s_tickets s"
proof -
  obtain c where c: "queue_at N c s" using assms(1) by (auto simp: queue_inv_def)
  have "\<not> length (s_read s) < length (s_tickets s)" using assms(2,3) by (simp add: available_def owned_def)
  then have "length (s_read s) = length (s_tickets s)" using queue_atD(2) [OF c] by (simp add: reader_ok_def)
  then show ?thesis using read_at [OF c] by simp
qed

text \<open>
  C35. No lost wakeup. Under every interleaving of the threads that enqueue tasks with the event loop, for
  any number of events of other descriptors: when the loop is blocked in \<^verbatim>\<open>epoll_wait\<close> without an event of
  this queue and no thread is inside \<^verbatim>\<open>execute\<close>, every task that was enqueued has been taken out of the queue,
  in the order of the tickets. As long as the next task is ready and the loop is blocked, some thread is
  still about to load \<^verbatim>\<open>mSleeping\<close>, which is true, or to signal.
\<close>

theorem no_lost_wakeup:
  assumes "task_step\<^sup>*\<^sup>* (new_task_queue v\<^sub>0) w" and "t_loop w = Asleep" and "\<not> (t_ready w \<and> t_counter w)"
  shows "((\<forall>t. t_exec w t = Outside) \<longrightarrow> s_read (t_sys w) = s_tickets (t_sys w)) \<and>
    t_mSleeping w \<and>
    (\<not> nothing_to_read (s_queue (t_sys w)) \<longrightarrow> (\<exists>t. t_exec w t = Loading \<or> t_exec w t = Signalling))"
proof -
  have "task_inv w" using task_system.inv_reachable [of _ v\<^sub>0 w] assms(1) by blast
  note d = task_invD [OF this]
  have sl: "t_mSleeping w" using d(4) assms(2) by simp
  have taken: "s_consumer (t_sys w) = Ready" using d(3) assms(2) by (cases "s_consumer (t_sys w)") auto
  obtain c where c: "queue_at QUEUE_SIZE c (t_sys w)" using d(1) by (auto simp: queue_inv_def)
  have due: "\<exists>t. t_exec w t = Loading \<or> t_exec w t = Signalling" if "available (t_sys w)"
    using d(5) assms(2,3) sl that by (auto simp: signal_due_def)
  have "s_read (t_sys w) = s_tickets (t_sys w)" if "\<forall>t. t_exec w t = Outside"
    by (rule all_read [OF d(1)]) (use d(2) that due in auto)
  moreover have "available (t_sys w)" if "\<not> nothing_to_read (s_queue (t_sys w))"
    by (rule readable_available [OF c taken that])
  ultimately show ?thesis using sl due by blast
qed

text \<open>The loop has gone to sleep and a thread has stored a task.\<close>

definition demo_tasks :: "nat TaskQueue" where
  "demo_tasks = \<lparr>t_sys = \<lparr>s_queue = \<lparr>q_data = (replicate 256 \<lparr>it_value = 0, is_valid = False\<rparr>)[0 := \<lparr>it_value = 5, is_valid = True\<rparr>],
      q_consumed = - 1, q_insert_place = 1\<rparr>, s_pcs = \<lambda>_. Idle, s_consumer = Ready, s_tickets = [5], s_read = []\<rparr>,
    t_exec = (\<lambda>_. Outside)(0 := Loading), t_loop = Asleep, t_mSleeping = True, t_counter = False, t_ready = False\<rparr>"

lemma demo_tasks_reachable: "task_step\<^sup>*\<^sup>* (new_task_queue 0) demo_tasks"
proof -
  let ?w1 = "(new_task_queue (0 :: nat))\<lparr>t_mSleeping := True, t_loop := Polling True\<rparr>"
  let ?w2 = "?w1\<lparr>t_loop := Asleep\<rparr>"
  let ?s3 = "(t_sys ?w2)\<lparr>s_queue := (s_queue (t_sys ?w2))\<lparr>q_insert_place := 1\<rparr>, s_pcs := (\<lambda>_. Idle)(0 := Waiting 0 5), s_tickets := [5]\<rparr>"
  let ?w3 = "?w2\<lparr>t_sys := ?s3, t_exec := (\<lambda>_. Outside)(0 := Enqueuing)\<rparr>"
  let ?w4 = "?w3\<lparr>t_sys := (t_sys ?w3)\<lparr>s_pcs := (s_pcs (t_sys ?w3))(0 := Writing 0 5)\<rparr>\<rparr>"
  let ?w5 = "?w4\<lparr>t_sys := (t_sys ?w4)\<lparr>s_queue := store_value 0 5 (s_queue (t_sys ?w4)), s_pcs := (s_pcs (t_sys ?w4))(0 := Storing 0 5)\<rparr>\<rparr>"
  note defs = new_task_queue_def new_system_def new_queue_def QUEUE_SIZE_def
  have 1: "task_step (new_task_queue 0) ?w1" using prepareSleep [of "new_task_queue (0 :: nat)"] by (simp add: defs)
  have 2: "task_step ?w1 ?w2" using poll_end [of ?w1 True] by (simp add: defs nothing_to_read_def)
  have 3: "task_step ?w2 ?w3" using enqueue [of ?w2 0 "t_sys ?w2" 0 5] by (simp add: defs)
  have 4: "task_step ?w3 ?w4" by (rule enqueue_free) (simp_all add: defs isFull_def QueueSize_def word_le_nat_alt)
  have 5: "task_step ?w4 ?w5" by (rule enqueue_value) simp_all
  have "task_step ?w5 demo_tasks"
    using enqueue_flag [of ?w5 0 "t_sys ?w5" 0 5]
    by (simp add: defs demo_tasks_def store_flag_def store_value_def set_slot_def slot_def QueueSize_def fun_upd_idem)
  then show ?thesis using 1 2 3 4 5 by (meson converse_rtranclp_into_rtranclp rtranclp.rtrancl_refl)
qed

theorem no_lost_wakeup_witness:
  "task_step\<^sup>*\<^sup>* (new_task_queue 0) demo_tasks \<and> \<not> nothing_to_read (s_queue (t_sys demo_tasks)) \<and> t_mSleeping demo_tasks \<and>
    (\<exists>t. t_exec demo_tasks t = Loading \<or> t_exec demo_tasks t = Signalling)"
proof -
  have "\<not> nothing_to_read (s_queue (t_sys demo_tasks))" by (simp add: demo_tasks_def nothing_to_read_def slot_def)
  then show ?thesis using no_lost_wakeup [OF demo_tasks_reachable] demo_tasks_reachable by (auto simp: demo_tasks_def)
qed

end
