(* ===== verification/Fixed_Size_Stack.thy ===== *)
theory Fixed_Size_Stack
  imports Prelude
begin

text \<open>
  The lock-free stack of \<^verbatim>\<open>fixed_size_stack.hpp\<close> as a transition system of the threads that work on it. A
  \<^verbatim>\<open>push\<close> reserves a place by advancing the write head, stores its element, waits until the read head has
  come to its place and advances it; a \<^verbatim>\<open>pop\<close> moves both heads back when they are equal. The two heads are one
  atomic word. The log lists the operations that have taken effect, in the order in which they did; a \<^verbatim>\<open>push\<close>
  that is refused has no effect and is not in it.
\<close>

section \<open>The stack\<close>

type_synonym head = "u32 \<times> u32"

datatype 'a event = Pushed 'a | Popped 'a | Found_empty

text \<open>
  Where a thread is: in \<^verbatim>\<open>pop\<close> at the start of another round, before or after the load of an element; in \<^verbatim>\<open>push\<close> before the place is
  reserved, before the store, in the wait for the read head, in the loop that advances it. The heads are
  the local variable \<^verbatim>\<open>head\<close>.
\<close>

datatype 'a stack_pc = Out | Looping | Popping head | Taking head 'a
  | Reserving 'a head | Placing 'a u32 head | Awaiting 'a u32 head | Advancing 'a u32 head

record 'a stack =
  st_mVec :: "'a list"
  st_mHead :: head
  st_pcs :: "nat \<Rightarrow> 'a stack_pc"
  st_log :: "'a event list"

definition new_stack :: "nat \<Rightarrow> 'a \<Rightarrow> 'a stack" where
  "new_stack n nullValue = \<lparr>st_mVec = replicate n nullValue, st_mHead = (0, 0), st_pcs = \<lambda>_. Out, st_log = []\<rparr>"

definition stack_size :: "'a stack \<Rightarrow> u32" where
  "stack_size s = fst (st_mHead s)"

definition stack_capacity :: "'a stack \<Rightarrow> nat" where
  "stack_capacity s = length (st_mVec s)"

definition goto :: "nat \<Rightarrow> 'a stack_pc \<Rightarrow> 'a stack \<Rightarrow> 'a stack" where
  "goto t pc s = s\<lparr>st_pcs := (st_pcs s)(t := pc)\<rparr>"

definition emit :: "'a event \<Rightarrow> 'a stack \<Rightarrow> 'a stack" where
  "emit e s = s\<lparr>st_log := st_log s @ [e]\<rparr>"

text \<open>The steps of \<^verbatim>\<open>pop\<close> by a thread: the load with the tests, the load of the element, the exchange.\<close>

definition pop_load :: "nat \<Rightarrow> 'a stack \<Rightarrow> 'a stack" where
  "pop_load t s =
    (let head = st_mHead s in
     if snd head \<noteq> fst head then goto t Looping s
     else if fst head = 0 then emit Found_empty (goto t Out s)
     else goto t (Popping head) s)"

definition pop_element :: "nat \<Rightarrow> head \<Rightarrow> 'a stack \<Rightarrow> 'a stack" where
  "pop_element t head s = goto t (Taking head (st_mVec s ! unat (fst head - 1))) s"

definition pop_exchange :: "nat \<Rightarrow> head \<Rightarrow> 'a \<Rightarrow> 'a stack \<Rightarrow> 'a stack" where
  "pop_exchange t head result s =
    (if st_mHead s = head then emit (Popped result) (goto t Out (s\<lparr>st_mHead := (fst head - 1, snd head - 1)\<rparr>))
     else goto t Looping s)"

text \<open>
  The steps of \<^verbatim>\<open>push\<close>: the first load, an iteration of the reserving loop, the store, an iteration of the
  waiting loop, an iteration of the last loop.
\<close>

definition push_load :: "nat \<Rightarrow> 'a \<Rightarrow> 'a stack \<Rightarrow> 'a stack" where
  "push_load t element s = goto t (Reserving element (st_mHead s)) s"

definition push_reserve :: "nat \<Rightarrow> 'a \<Rightarrow> head \<Rightarrow> 'a stack \<Rightarrow> 'a stack" where
  "push_reserve t element head s =
    (if unat (snd head) = length (st_mVec s) then goto t Out s
     else if st_mHead s = head then goto t (Placing element (snd head) head) (s\<lparr>st_mHead := (fst head, snd head + 1)\<rparr>)
     else goto t (Reserving element (st_mHead s)) s)"

definition push_store :: "nat \<Rightarrow> 'a \<Rightarrow> u32 \<Rightarrow> head \<Rightarrow> 'a stack \<Rightarrow> 'a stack" where
  "push_store t element wHead head s = goto t (Awaiting element wHead head) (s\<lparr>st_mVec := (st_mVec s)[unat wHead := element]\<rparr>)"

definition push_wait :: "nat \<Rightarrow> 'a \<Rightarrow> u32 \<Rightarrow> head \<Rightarrow> 'a stack \<Rightarrow> 'a stack" where
  "push_wait t element wHead head s =
    (if fst head \<noteq> wHead then goto t (Awaiting element wHead (st_mHead s)) s else goto t (Advancing element wHead head) s)"

definition push_advance :: "nat \<Rightarrow> 'a \<Rightarrow> u32 \<Rightarrow> head \<Rightarrow> 'a stack \<Rightarrow> 'a stack" where
  "push_advance t element wHead head s =
    (if st_mHead s = head then emit (Pushed element) (goto t Out (s\<lparr>st_mHead := (wHead + 1, snd head)\<rparr>))
     else goto t (Advancing element wHead (st_mHead s)) s)"

text \<open>The threads in \<open>P\<close> pop, every thread may push.\<close>

inductive stack_step :: "nat set \<Rightarrow> 'a stack \<Rightarrow> 'a stack \<Rightarrow> bool" for P where
  "st_pcs s t = Out \<or> st_pcs s t = Looping \<Longrightarrow> t \<in> P \<Longrightarrow> stack_step P s (pop_load t s)"
| "st_pcs s t = Popping head \<Longrightarrow> stack_step P s (pop_element t head s)"
| "st_pcs s t = Taking head result \<Longrightarrow> stack_step P s (pop_exchange t head result s)"
| "st_pcs s t = Out \<Longrightarrow> stack_step P s (push_load t element s)"
| "st_pcs s t = Reserving element head \<Longrightarrow> stack_step P s (push_reserve t element head s)"
| "st_pcs s t = Placing element wHead head \<Longrightarrow> stack_step P s (push_store t element wHead head s)"
| "st_pcs s t = Awaiting element wHead head \<Longrightarrow> stack_step P s (push_wait t element wHead head s)"
| "st_pcs s t = Advancing element wHead head \<Longrightarrow> stack_step P s (push_advance t element wHead head s)"

section \<open>The invariant\<close>

text \<open>A stack of elements, and the effect of an event on it: \<open>None\<close> when the event cannot happen.\<close>

fun effect :: "'a event \<Rightarrow> 'a list \<Rightarrow> 'a list option" where
  "effect (Pushed x) xs = Some (xs @ [x])"
| "effect (Popped x) xs = (if xs \<noteq> [] \<and> last xs = x then Some (butlast xs) else None)"
| "effect Found_empty xs = (if xs = [] then Some [] else None)"

fun replay :: "'a event list \<Rightarrow> 'a list \<Rightarrow> 'a list option" where
  "replay [] xs = Some xs"
| "replay (e # es) xs = (case effect e xs of None \<Rightarrow> None | Some ys \<Rightarrow> replay es ys)"

lemma replay_append: "replay (es @ [e]) xs = (case replay es xs of None \<Rightarrow> None | Some ys \<Rightarrow> effect e ys)"
  by (induction es arbitrary: xs) (auto split: option.splits)

fun place_of :: "'a stack_pc \<Rightarrow> u32 option" where
  "place_of (Placing x w h) = Some w"
| "place_of (Awaiting x w h) = Some w"
| "place_of (Advancing x w h) = Some w"
| "place_of _ = None"

definition rd :: "'a stack \<Rightarrow> nat" where
  "rd s = unat (fst (st_mHead s))"

definition wr :: "'a stack \<Rightarrow> nat" where
  "wr s = unat (snd (st_mHead s))"

text \<open>What is known of a thread that has popped or pushed so far.\<close>

fun at_ok :: "'a stack \<Rightarrow> 'a stack_pc \<Rightarrow> bool" where
  "at_ok s (Popping h) \<longleftrightarrow> fst h = snd h \<and> 0 < unat (fst h) \<and> unat (fst h) \<le> rd s"
| "at_ok s (Taking h x) \<longleftrightarrow> fst h = snd h \<and> 0 < unat (fst h) \<and> unat (fst h) \<le> rd s \<and> st_mVec s ! (unat (fst h) - 1) = x"
| "at_ok s (Placing x w h) \<longleftrightarrow> rd s \<le> unat w \<and> unat w < wr s \<and> (fst h = w \<longrightarrow> rd s = unat w)"
| "at_ok s (Awaiting x w h) \<longleftrightarrow> rd s \<le> unat w \<and> unat w < wr s \<and> st_mVec s ! unat w = x \<and> (fst h = w \<longrightarrow> rd s = unat w)"
| "at_ok s (Advancing x w h) \<longleftrightarrow> rd s = unat w \<and> unat w < wr s \<and> st_mVec s ! unat w = x"
| "at_ok s _ \<longleftrightarrow> True"

definition stack_inv :: "nat \<Rightarrow> 'a stack \<Rightarrow> bool" where
  "stack_inv c s \<longleftrightarrow> rd s \<le> wr s \<and> wr s \<le> length (st_mVec s) \<and> length (st_mVec s) < 2 ^ 32 \<and>
    (\<forall>t. at_ok s (st_pcs s t)) \<and>
    (\<forall>t u w. place_of (st_pcs s t) = Some w \<longrightarrow> place_of (st_pcs s u) = Some w \<longrightarrow> t = u) \<and>
    (\<forall>t h x. st_pcs s t = Popping h \<or> st_pcs s t = Taking h x \<longrightarrow> t = c) \<and>
    replay (st_log s) [] = Some (take (rd s) (st_mVec s))"

lemma stack_invD:
  assumes "stack_inv c s"
  shows "rd s \<le> wr s" and "wr s \<le> length (st_mVec s)" and "length (st_mVec s) < 2 ^ 32" and "at_ok s (st_pcs s t)"
    and "place_of (st_pcs s t) = Some w \<Longrightarrow> place_of (st_pcs s u) = Some w \<Longrightarrow> t = u"
    and "st_pcs s t = Popping h \<or> st_pcs s t = Taking h x \<Longrightarrow> t = c"
    and "replay (st_log s) [] = Some (take (rd s) (st_mVec s))"
  using assms unfolding stack_inv_def by blast+

lemma at_ok_log [simp]: "at_ok (s\<lparr>st_log := l\<rparr>) pc = at_ok s pc"
  and at_ok_pcs [simp]: "at_ok (s\<lparr>st_pcs := f\<rparr>) pc = at_ok s pc"
  by (cases pc; simp add: rd_def wr_def)+

lemma heads_simps [simp]:
  "rd (s\<lparr>st_log := l\<rparr>) = rd s" "wr (s\<lparr>st_log := l\<rparr>) = wr s" "rd (s\<lparr>st_pcs := f\<rparr>) = rd s" "wr (s\<lparr>st_pcs := f\<rparr>) = wr s"
  "rd (s\<lparr>st_mVec := v\<rparr>) = rd s" "wr (s\<lparr>st_mVec := v\<rparr>) = wr s"
  "rd (s\<lparr>st_mHead := h\<rparr>) = unat (fst h)" "wr (s\<lparr>st_mHead := h\<rparr>) = unat (snd h)"
  by (simp_all add: rd_def wr_def)

text \<open>A thread moves on in a state in which all other parts of the invariant hold.\<close>

lemma inv_goto:
  assumes inv: "stack_inv c s" and ok: "at_ok s pc" and "place_of pc = None \<or> place_of pc = place_of (st_pcs s t)"
    and "\<And>h x. pc = Popping h \<or> pc = Taking h x \<Longrightarrow> t = c"
  shows "stack_inv c (goto t pc s)"
proof -
  note d = stack_invD [OF inv]
  let ?f = "(st_pcs s)(t := pc)"
  have pl: "place_of (st_pcs s u) = Some w" if "place_of (?f u) = Some w" for u w
    using that assms(3) by (cases "u = t") simp_all
  have 1: "t' = u" if p: "place_of (?f t') = Some w" "place_of (?f u) = Some w" for t' u w
    by (rule d(5) [OF pl [OF p(1)] pl [OF p(2)]])
  have 2: "u = c" if p: "?f u = Popping h \<or> ?f u = Taking h x" for u h x
  proof (cases "u = t")
    case True
    then show ?thesis using assms(4) [of h x] p by simp
  next
    case False
    then show ?thesis using d(6) [of u h x] p by simp
  qed
  have 3: "at_ok s (?f u)" for u using ok d(4) [of u] by simp
  have e: "st_pcs (s\<lparr>st_pcs := ?f\<rparr>) = ?f" "st_mVec (s\<lparr>st_pcs := ?f\<rparr>) = st_mVec s" "st_log (s\<lparr>st_pcs := ?f\<rparr>) = st_log s"
    by simp_all
  have "stack_inv c (s\<lparr>st_pcs := ?f\<rparr>)"
    unfolding stack_inv_def heads_simps at_ok_pcs e using d(1-3,7) 1 2 3 by blast
  then show ?thesis by (simp add: goto_def)
qed

lemma inv_found_empty:
  assumes "stack_inv c s" and "rd s = 0"
  shows "stack_inv c (emit Found_empty s)"
proof -
  note d = stack_invD [OF assms(1)]
  have "replay (st_log s @ [Found_empty]) [] = Some (take (rd s) (st_mVec s))" using d(7) assms(2) by (simp add: replay_append)
  then show ?thesis using d(1-6) unfolding stack_inv_def emit_def by simp
qed

lemma step_pop_load:
  assumes inv: "stack_inv c s"
  shows "stack_inv c (pop_load c s)"
proof -
  have out: "stack_inv c (goto c Out s)" "stack_inv c (goto c Looping s)" by (rule inv_goto [OF inv]; simp)+
  consider (retry) "snd (st_mHead s) \<noteq> fst (st_mHead s)" | (empty) "snd (st_mHead s) = fst (st_mHead s)" "fst (st_mHead s) = 0"
    | (some) "snd (st_mHead s) = fst (st_mHead s)" "fst (st_mHead s) \<noteq> 0" by blast
  then show ?thesis
  proof cases
    case retry
    then show ?thesis using out(2) by (simp add: pop_load_def)
  next
    case empty
    then have "rd (goto c Out s) = 0" by (simp add: rd_def goto_def)
    then show ?thesis using inv_found_empty [OF out(1)] empty by (simp add: pop_load_def)
  next
    case some
    then have "stack_inv c (goto c (Popping (st_mHead s)) s)"
      by (intro inv_goto [OF inv]) (auto simp: rd_def unat_gt_0)
    then show ?thesis using some by (simp add: pop_load_def Let_def)
  qed
qed

lemma step_pop_element:
  assumes "stack_inv c s" and "st_pcs s t = Popping h"
  shows "stack_inv c (pop_element t h s)"
proof -
  note d = stack_invD [OF assms(1)]
  have h: "fst h = snd h" "0 < unat (fst h)" "unat (fst h) \<le> rd s" using d(4) [of t] unfolding assms(2) at_ok.simps by blast+
  then have "unat (fst h - 1) = unat (fst h) - 1" by (simp add: unat_sub word_le_nat_alt)
  then show ?thesis unfolding pop_element_def by (intro inv_goto [OF assms(1)]) (use h d(6) [of t] assms(2) in auto)
qed

text \<open>When the heads are equal no place is reserved.\<close>

lemma no_place:
  assumes "stack_inv c s" and "rd s = wr s"
  shows "place_of (st_pcs s t) = None"
proof (cases "place_of (st_pcs s t)")
  case (Some w)
  then have "rd s \<le> unat w" "unat w < wr s" using stack_invD(4) [OF assms(1), of t] by (cases "st_pcs s t"; auto)+
  then show ?thesis using assms(2) by linarith
qed

lemma step_pop_exchange:
  assumes inv: "stack_inv c s" and pc: "st_pcs s t = Taking h x"
  shows "stack_inv c (pop_exchange t h x s)"
proof (cases "st_mHead s = h")
  case True
  note d = stack_invD [OF inv]
  let ?s = "s\<lparr>st_mHead := (fst h - 1, snd h - 1)\<rparr>"
  have h: "fst h = snd h" "0 < unat (fst h)" "st_mVec s ! (unat (fst h) - 1) = x" using d(4) [of t] unfolding pc at_ok.simps by blast+
  have r: "rd s = unat (fst h)" "wr s = unat (fst h)" using True h(1) by (simp_all add: rd_def wr_def)
  have u: "unat (fst h - 1) = unat (fst h) - 1" using h(2) by (simp add: unat_sub word_le_nat_alt)
  have other: "u = t" if "st_pcs s u = Popping h' \<or> st_pcs s u = Taking h' y" for u h' y
    using d(6) [of u] d(6) [of t] that pc by blast
  have ok: "at_ok ?s (((st_pcs s)(t := Out)) u)" for u
    using no_place [OF inv, of u] other [of u] r by (cases "st_pcs s u") auto
  have "unat (fst h) \<le> length (st_mVec s)" using d(2) r by simp
  then have tk: "take (unat (fst h)) (st_mVec s) = take (unat (fst h) - 1) (st_mVec s) @ [x]"
    using h(2,3) take_Suc_conv_app_nth [of "unat (fst h) - 1" "st_mVec s"] by simp
  have rp: "replay (st_log s @ [Popped x]) [] = Some (take (unat (fst h) - 1) (st_mVec s))"
    using d(7) unfolding replay_append r(1) tk by simp
  have pl: "place_of (((st_pcs s)(t := Out)) u) = None" for u using no_place [OF inv, of u] r by simp
  have po: "u = c" if "((st_pcs s)(t := Out)) u = Popping h' \<or> ((st_pcs s)(t := Out)) u = Taking h' y" for u h' y
    using that d(6) [of u] by (auto split: if_splits)
  have "stack_inv c (?s\<lparr>st_pcs := (st_pcs s)(t := Out), st_log := st_log s @ [Popped x]\<rparr>)"
    unfolding stack_inv_def using d(2,3) r u h(1) ok rp pl po by simp
  then show ?thesis using True by (simp add: pop_exchange_def emit_def goto_def)
next
  case False
  have "stack_inv c (goto t Looping s)" by (rule inv_goto [OF inv]) simp_all
  then show ?thesis using False by (simp add: pop_exchange_def)
qed

lemma unat_Suc_u32: "unat (w :: u32) < n \<Longrightarrow> n < 2 ^ 32 \<Longrightarrow> unat (w + 1) = Suc (unat w)"
  by (simp add: unat_word_ariths)

lemma step_push_reserve:
  assumes inv: "stack_inv c s" and pc: "st_pcs s t = Reserving x h"
  shows "stack_inv c (push_reserve t x h s)"
proof (cases "unat (snd h) \<noteq> length (st_mVec s) \<and> st_mHead s = h")
  case True
  note d = stack_invD [OF inv]
  let ?s = "s\<lparr>st_mHead := (fst h, snd h + 1)\<rparr>"
  let ?f = "(st_pcs s)(t := Placing x (snd h) h)"
  have r: "rd s = unat (fst h)" "wr s = unat (snd h)" using True by (simp_all add: rd_def wr_def)
  have u: "unat (snd h + 1) = Suc (wr s)" using unat_Suc_u32 [of "snd h" "length (st_mVec s)"] True d(2,3) r by simp
  have ok: "at_ok ?s (st_pcs s u)" for u
    using d(4) [of u] r u by (cases "st_pcs s u") auto
  have old: "unat w < wr s" if "place_of (st_pcs s u) = Some w" for u w
    using d(4) [of u] that by (cases "st_pcs s u") auto
  have 1: "u = u'" if p: "place_of (?f u) = Some w" "place_of (?f u') = Some w" for u u' w
  proof -
    have "w \<noteq> snd h" if "u'' \<noteq> t" "place_of (?f u'') = Some w" for u'' using old [of u'' w] that r by auto
    then show ?thesis using p d(5) [of u w u'] by (cases "u = t"; cases "u' = t") auto
  qed
  have 2: "u = c" if p: "?f u = Popping h' \<or> ?f u = Taking h' y" for u h' y
    using p d(6) [of u h' y] by (cases "u = t") simp_all
  have 3: "at_ok ?s (?f u)" for u using ok [of u] r u d(1) by simp
  let ?s' = "s\<lparr>st_mHead := (fst h, snd h + 1), st_pcs := ?f\<rparr>"
  have e: "st_pcs ?s' = ?f" "st_mVec ?s' = st_mVec s" "st_log ?s' = st_log s" "rd ?s' = rd s" "wr ?s' = Suc (wr s)" "at_ok ?s' = at_ok ?s"
    using r u by (simp_all add: fun_eq_iff)
  have "Suc (wr s) \<le> length (st_mVec s)" "rd s \<le> Suc (wr s)" using True d(1,2) r by simp_all
  then have "stack_inv c ?s'" unfolding stack_inv_def e using d(3,7) 1 2 3 by blast
  then show ?thesis using True by (simp add: push_reserve_def goto_def)
next
  case False
  have "stack_inv c (goto t Out s)" "stack_inv c (goto t (Reserving x (st_mHead s)) s)" by (rule inv_goto [OF inv]; simp)+
  then show ?thesis using False unfolding push_reserve_def by auto
qed

lemma step_push_store:
  assumes inv: "stack_inv c s" and pc: "st_pcs s t = Placing x w h"
  shows "stack_inv c (push_store t x w h s)"
proof -
  note d = stack_invD [OF inv]
  have w: "rd s \<le> unat w" "unat w < wr s" and h: "fst h = w \<longrightarrow> rd s = unat w" using d(4) [of t] unfolding pc at_ok.simps by blast+
  let ?s = "s\<lparr>st_mVec := (st_mVec s)[unat w := x]\<rparr>"
  have lt: "unat w < length (st_mVec s)" using w(2) d(2) by simp
  have ok: "at_ok ?s (st_pcs s u)" for u
  proof -
    have ne: "unat w' \<noteq> unat w" if "st_pcs s u = Awaiting y w' h' \<or> st_pcs s u = Advancing y w' h'" for y w' h'
      using d(5) [of u w t] that pc by (auto simp: word_unat_eq_iff [symmetric])
    then show ?thesis using d(4) [of u] w lt by (cases "st_pcs s u") auto
  qed
  have e: "st_pcs ?s = st_pcs s" "length (st_mVec ?s) = length (st_mVec s)" "st_log ?s = st_log s" "rd ?s = rd s" "wr ?s = wr s"
    "take (rd s) (st_mVec ?s) = take (rd s) (st_mVec s)"
    using w by simp_all
  have "stack_inv c ?s" unfolding stack_inv_def e using d ok by blast
  then show ?thesis unfolding push_store_def by (intro inv_goto) (use pc w lt h in auto)
qed

lemma step_push_wait:
  assumes inv: "stack_inv c s" and pc: "st_pcs s t = Awaiting x w h"
  shows "stack_inv c (push_wait t x w h s)"
proof -
  have w: "rd s \<le> unat w" "unat w < wr s" "st_mVec s ! unat w = x" "fst h = w \<longrightarrow> rd s = unat w"
    using stack_invD(4) [OF inv, of t] unfolding pc at_ok.simps by blast+
  show ?thesis
  proof (cases "fst h = w")
    case True
    then show ?thesis unfolding push_wait_def using inv_goto [OF inv, of "Advancing x w h" t] w pc by simp
  next
    case False
    have "at_ok s (Awaiting x w (st_mHead s))" using w by (simp add: rd_def)
    then show ?thesis unfolding push_wait_def using False inv_goto [OF inv, of "Awaiting x w (st_mHead s)" t] pc by simp
  qed
qed

lemma step_push_advance:
  assumes inv: "stack_inv c s" and pc: "st_pcs s t = Advancing x w h"
  shows "stack_inv c (push_advance t x w h s)"
proof -
  note d = stack_invD [OF inv]
  have w: "rd s = unat w" "unat w < wr s" "st_mVec s ! unat w = x"
    using d(4) [of t] unfolding pc at_ok.simps by blast+
  show ?thesis
  proof (cases "st_mHead s = h")
    case True
    let ?f = "(st_pcs s)(t := Out)"
    let ?s = "s\<lparr>st_mHead := (w + 1, snd h)\<rparr>"
    let ?s' = "s\<lparr>st_mHead := (w + 1, snd h), st_pcs := ?f, st_log := st_log s @ [Pushed x]\<rparr>"
    have u: "unat (w + 1) = Suc (unat w)" using unat_Suc_u32 [of w "length (st_mVec s)"] w(2) d(2,3) by simp
    have wr: "wr s = unat (snd h)" using True by (simp add: wr_def)
    have ne: "unat w' \<noteq> unat w" if "u \<noteq> t" "place_of (st_pcs s u) = Some w'" for u w'
      using d(5) [of u w t] that pc by (auto simp: word_unat_eq_iff [symmetric])
    have 3: "at_ok ?s (?f u)" for u
    proof (cases "u = t")
      case False
      then show ?thesis using d(4) [of u] ne [OF False] w u wr by (cases "st_pcs s u") auto
    qed simp
    have 1: "u = u'" if p: "place_of (?f u) = Some w'" "place_of (?f u') = Some w'" for u u' w'
      using p d(5) [of u w' u'] by (cases "u = t"; cases "u' = t") auto
    have 2: "u = c" if p: "?f u = Popping h' \<or> ?f u = Taking h' y" for u h' y
      using p d(6) [of u h' y] by (cases "u = t") simp_all
    have e: "st_pcs ?s' = ?f" "st_mVec ?s' = st_mVec s" "st_log ?s' = st_log s @ [Pushed x]" "rd ?s' = Suc (unat w)" "wr ?s' = wr s" "at_ok ?s' = at_ok ?s"
      using u wr by (simp_all add: fun_eq_iff)
    have "take (Suc (unat w)) (st_mVec s) = take (unat w) (st_mVec s) @ [x]" using w(2,3) d(2) by (simp add: take_Suc_conv_app_nth)
    then have 4: "replay (st_log s @ [Pushed x]) [] = Some (take (Suc (unat w)) (st_mVec s))" using d(7) unfolding replay_append w(1) by simp
    have "Suc (unat w) \<le> wr s" using w(2) by simp
    then have "stack_inv c ?s'" unfolding stack_inv_def e using d(2,3) 1 2 3 4 by blast
    then show ?thesis using True by (simp add: push_advance_def goto_def emit_def)
  next
    case False
    have "stack_inv c (goto t (Advancing x w (st_mHead s)) s)" by (rule inv_goto [OF inv]) (use w pc in simp_all)
    then show ?thesis using False by (simp add: push_advance_def)
  qed
qed

lemma stack_inv_step: "stack_step {c} s s' \<Longrightarrow> stack_inv c s \<Longrightarrow> stack_inv c s'"
proof (induction rule: stack_step.induct)
  case (4 s t x)
  then show ?case unfolding push_load_def by (intro inv_goto) simp_all
qed (simp_all add: step_pop_load step_pop_element step_pop_exchange step_push_reserve step_push_store step_push_wait step_push_advance)

lemma stack_inv_new: "n < 2 ^ 32 \<Longrightarrow> stack_inv c (new_stack n v)"
  by (simp add: stack_inv_def new_stack_def rd_def wr_def)

interpretation stack_system: inductive_invariant "\<lambda>s. s = new_stack n v \<and> n < 2 ^ 32" "stack_step {c}" "stack_inv c"
  for n v c
proof
  show "stack_inv c s" if "s = new_stack n v \<and> n < 2 ^ 32" for s using that stack_inv_new [of n c v] by blast
  show "stack_inv c s'" if "stack_inv c s" "stack_step {c} s s'" for s s' by (rule stack_inv_step [OF that(2,1)])
qed

section \<open>Last in, first out\<close>

text \<open>
  C36. One thread pops and any number of threads push, in every interleaving: the operations take effect
  one after the other, as on a stack. A successful \<^verbatim>\<open>pop\<close> returns the element that is on top at this moment, a
  failed one finds the stack empty, and the stack that the log describes is the elements below the read head.
\<close>

theorem stack_is_lifo:
  assumes "n < 2 ^ 32" and "(stack_step {c})\<^sup>*\<^sup>* (new_stack n v\<^sub>0) s"
  shows "replay (st_log s) [] = Some (take (unat (stack_size s)) (st_mVec s)) \<and> unat (stack_size s) \<le> stack_capacity s \<and>
    stack_capacity s = n"
proof -
  have "stack_inv c s" using stack_system.inv_reachable [of _ n v\<^sub>0 c s] assms by blast
  note d = stack_invD [OF this]
  have "length (st_mVec s) = n" using assms(2)
  proof (induction rule: rtranclp_induct)
    case (step s s')
    from step(2,3) show ?case
      by (cases rule: stack_step.cases) (simp_all add: pop_load_def Let_def pop_element_def pop_exchange_def push_load_def push_reserve_def push_store_def push_wait_def push_advance_def goto_def emit_def)
  qed (simp add: new_stack_def)
  then show ?thesis using d(1,2,7) by (simp add: stack_size_def stack_capacity_def rd_def)
qed

text \<open>Schedules: a thread begins a \<^verbatim>\<open>push\<close> or a round of \<^verbatim>\<open>pop\<close>, or makes the next step of its operation.\<close>

datatype 'a move = Push nat 'a | Pop nat | Go nat

definition next_step :: "nat \<Rightarrow> 'a stack \<Rightarrow> 'a stack" where
  "next_step t s =
    (case st_pcs s t of
       Out \<Rightarrow> s
     | Looping \<Rightarrow> s
     | Popping h \<Rightarrow> pop_element t h s
     | Taking h x \<Rightarrow> pop_exchange t h x s
     | Reserving x h \<Rightarrow> push_reserve t x h s
     | Placing x w h \<Rightarrow> push_store t x w h s
     | Awaiting x w h \<Rightarrow> push_wait t x w h s
     | Advancing x w h \<Rightarrow> push_advance t x w h s)"

fun make_move :: "'a move \<Rightarrow> 'a stack \<Rightarrow> 'a stack" where
  "make_move (Push t x) s = (if st_pcs s t = Out then push_load t x s else s)"
| "make_move (Pop t) s = (if st_pcs s t = Out \<or> st_pcs s t = Looping then pop_load t s else s)"
| "make_move (Go t) s = next_step t s"

fun popper :: "'a move \<Rightarrow> nat option" where
  "popper (Pop t) = Some t"
| "popper _ = None"

lemma make_move_step: "(\<And>t. popper mv = Some t \<Longrightarrow> t \<in> P) \<Longrightarrow> (stack_step P)\<^sup>*\<^sup>* s (make_move mv s)"
  by (cases mv) (auto simp: next_step_def intro: stack_step.intros split: stack_pc.split)

lemma moves_steps: "(\<And>mv t. mv \<in> set ms \<Longrightarrow> popper mv = Some t \<Longrightarrow> t \<in> P) \<Longrightarrow> (stack_step P)\<^sup>*\<^sup>* s (fold make_move ms s)"
proof (induction ms arbitrary: s)
  case (Cons mv ms)
  have "(stack_step P)\<^sup>*\<^sup>* s (make_move mv s)" by (rule make_move_step) (use Cons.prems in auto)
  also have "(stack_step P)\<^sup>*\<^sup>* (make_move mv s) (fold make_move ms (make_move mv s))" by (rule Cons.IH) (use Cons.prems in auto)
  finally show ?case by simp
qed simp

text \<open>Two threads push at the same time, then the first pops.\<close>

definition demo_moves :: "nat move list" where
  "demo_moves = [Push 0 7, Push 1 8, Go 0, Go 1, Go 1, Go 0, Go 1, Go 1, Go 0, Go 0, Go 0, Go 1, Go 1, Go 1, Go 1, Pop 0, Go 0, Go 0]"

lemma demo_moves_log: "st_log (fold make_move demo_moves (new_stack 4 0)) = [Pushed 7, Pushed 8, Popped 8]"
  by code_simp

theorem stack_is_lifo_witness:
  "replay [Pushed 7, Pushed 8, Popped 8] [] =
    Some (take (unat (stack_size (fold make_move demo_moves (new_stack 4 (0 :: nat))))) (st_mVec (fold make_move demo_moves (new_stack 4 0))))"
proof -
  have "(stack_step {0})\<^sup>*\<^sup>* (new_stack 4 0) (fold make_move demo_moves (new_stack 4 (0 :: nat)))"
    by (rule moves_steps) (auto simp: demo_moves_def)
  from stack_is_lifo [OF _ this] show ?thesis by (simp add: demo_moves_log)
qed

text \<open>
  With two threads that pop, the comparison of the heads does not notice that the stack was emptied and
  filled again: thread 0 returns the element that thread 1 has already got, and the new one is lost.
\<close>

definition aba_moves :: "nat move list" where
  "aba_moves = [Push 1 7, Go 1, Go 1, Go 1, Go 1, Go 1, Pop 0, Go 0, Pop 1, Go 1, Go 1, Push 1 9, Go 1, Go 1, Go 1, Go 1, Go 1, Go 0]"

lemma pop_returns_twice:
  "(stack_step {0, 1})\<^sup>*\<^sup>* (new_stack 4 0) (fold make_move aba_moves (new_stack 4 0)) \<and>
    st_log (fold make_move aba_moves (new_stack 4 0)) = [Pushed 7, Popped 7, Pushed 9, Popped 7]"
proof
  show "(stack_step {0, 1})\<^sup>*\<^sup>* (new_stack 4 0) (fold make_move aba_moves (new_stack 4 0))"
    by (rule moves_steps) (auto simp: aba_moves_def)
  show "st_log (fold make_move aba_moves (new_stack 4 0)) = [Pushed 7, Popped 7, Pushed 9, Popped 7]" by code_simp
qed

end
