(* ===== verification/Chunk_Pool.thy ===== *)
theory Chunk_Pool
  imports Byte_Buffer
begin

text \<open>
  The memory pool of \<^verbatim>\<open>ChunkAllocator.cpp\<close> and the allocator on top of it. A heap is the list of the
  blocks that are allocated, with their addresses and sizes; the address that \<^verbatim>\<open>new char[n]\<close> returns is a
  parameter, and the pool relies on its documented behaviour: blocks do not overlap and are aligned.
\<close>

section \<open>The pool\<close>

type_synonym blocks = "(u64 \<times> u64) list"
type_synonym new_char = "blocks \<Rightarrow> u64 \<Rightarrow> u64 option"

record ChunkMemoryPool =
  mChunkSize :: u64
  mCurrent :: u64
  mEnd :: u64
  mChunks :: "u64 list"

text \<open>\<open>None\<close> is \<^verbatim>\<open>std::bad_alloc\<close>, which leaves the pool and the heap as they were.\<close>

definition new_block :: "new_char \<Rightarrow> u64 \<Rightarrow> blocks \<Rightarrow> (u64 \<times> blocks) option" where
  "new_block nw n h = (case nw h n of None \<Rightarrow> None | Some a \<Rightarrow> Some (a, (a, n) # h))"

definition new_pool :: "new_char \<Rightarrow> u64 \<Rightarrow> blocks \<Rightarrow> (ChunkMemoryPool \<times> blocks) option" where
  "new_pool nw chunkSize h =
    (case new_block nw chunkSize h of
       None \<Rightarrow> None
     | Some (a, h) \<Rightarrow> Some (\<lparr>mChunkSize = chunkSize, mCurrent = a, mEnd = a + chunkSize, mChunks = [a]\<rparr>, h))"

definition appendNewChunk :: "new_char \<Rightarrow> ChunkMemoryPool \<Rightarrow> blocks \<Rightarrow> (ChunkMemoryPool \<times> blocks) option" where
  "appendNewChunk nw p h =
    (case new_block nw (mChunkSize p) h of
       None \<Rightarrow> None
     | Some (a, h) \<Rightarrow> Some (p\<lparr>mCurrent := a, mEnd := a + mChunkSize p, mChunks := mChunks p @ [a]\<rparr>, h))"

definition take_current :: "u64 \<Rightarrow> ChunkMemoryPool \<Rightarrow> u64 \<times> ChunkMemoryPool" where
  "take_current n p = (mCurrent p, p\<lparr>mCurrent := align (mCurrent p + n) 8\<rparr>)"

definition pool_allocate :: "new_char \<Rightarrow> u64 \<Rightarrow> ChunkMemoryPool \<Rightarrow> blocks \<Rightarrow> (u64 \<times> ChunkMemoryPool \<times> blocks) option" where
  "pool_allocate nw n p h =
    (if mEnd p < mCurrent p + n then
       if mChunkSize p < n then
         (case new_block nw n h of None \<Rightarrow> None | Some (res, h) \<Rightarrow> Some (res, p\<lparr>mChunks := mChunks p @ [res]\<rparr>, h))
       else
         (case appendNewChunk nw p h of None \<Rightarrow> None | Some (p, h) \<Rightarrow> (case take_current n p of (a, p) \<Rightarrow> Some (a, p, h)))
     else (case take_current n p of (a, p) \<Rightarrow> Some (a, p, h)))"

text \<open>\<^verbatim>\<open>delete[]\<close> of a block that is not allocated is undefined, here \<open>None\<close>.\<close>

definition delete_block :: "u64 \<Rightarrow> blocks \<Rightarrow> blocks option" where
  "delete_block a h = (if a \<in> set (map fst h) then Some (filter (\<lambda>b. fst b \<noteq> a) h) else None)"

fun delete_blocks :: "u64 list \<Rightarrow> blocks \<Rightarrow> blocks option" where
  "delete_blocks [] h = Some h"
| "delete_blocks (c # cs) h = (case delete_block c h of None \<Rightarrow> None | Some h \<Rightarrow> delete_blocks cs h)"

definition pool_destroy :: "ChunkMemoryPool \<Rightarrow> blocks \<Rightarrow> blocks option" where
  "pool_destroy p h = delete_blocks (mChunks p) h"

text \<open>\<^verbatim>\<open>ChunkAllocator::allocate\<close> for a type of the given size; \<^verbatim>\<open>deallocate\<close> does nothing.\<close>

definition chunk_allocate :: "new_char \<Rightarrow> u64 \<Rightarrow> u64 \<Rightarrow> ChunkMemoryPool \<Rightarrow> blocks \<Rightarrow> (u64 \<times> ChunkMemoryPool \<times> blocks) option" where
  "chunk_allocate nw sizeof_T n p h = pool_allocate nw (sizeof_T * n) p h"

definition chunk_deallocate :: "u64 \<Rightarrow> u64 \<Rightarrow> ChunkMemoryPool \<Rightarrow> ChunkMemoryPool" where
  "chunk_deallocate ptr n p = p"

text \<open>A client that asks for blocks of the given sizes and keeps what it gets.\<close>

fun allocations :: "new_char \<Rightarrow> u64 list \<Rightarrow> ChunkMemoryPool \<Rightarrow> blocks \<Rightarrow> (u64 \<times> u64) list \<times> ChunkMemoryPool \<times> blocks" where
  "allocations nw [] p h = ([], p, h)"
| "allocations nw (n # ns) p h =
    (case pool_allocate nw n p h of
       None \<Rightarrow> allocations nw ns p h
     | Some (a, p, h) \<Rightarrow> (case allocations nw ns p h of (rs, r) \<Rightarrow> ((a, n) # rs, r)))"

section \<open>Regions\<close>

text \<open>Regions as intervals of addresses.\<close>

definition apart :: "u64 \<times> u64 \<Rightarrow> u64 \<times> u64 \<Rightarrow> bool" where
  "apart x y \<longleftrightarrow> unat (fst x) + unat (snd x) \<le> unat (fst y) \<or> unat (fst y) + unat (snd y) \<le> unat (fst x)"

definition within :: "u64 \<times> u64 \<Rightarrow> u64 \<times> u64 \<Rightarrow> bool" where
  "within x b \<longleftrightarrow> unat (fst b) \<le> unat (fst x) \<and> unat (fst x) + unat (snd x) \<le> unat (fst b) + unat (snd b)"

lemma apart_within: "apart b c \<Longrightarrow> within x b \<Longrightarrow> within y c \<Longrightarrow> apart x y"
  by (auto simp: apart_def within_def)

lemma apart_sym: "apart x y \<Longrightarrow> apart y x"
  by (auto simp: apart_def)

text \<open>What is relied on of \<^verbatim>\<open>new char[n]\<close>; addresses of user space are below \<open>2 ^ 47\<close>.\<close>

definition good_new :: "new_char \<Rightarrow> bool" where
  "good_new nw \<longleftrightarrow> (\<forall>h n a. nw h n = Some a \<longrightarrow> unat a + unat n \<le> 2 ^ 47 \<and> 16 dvd unat a \<and> a \<notin> set (map fst h) \<and>
    (\<forall>b \<in> set h. apart (a, n) b))"

text \<open>
  The invariant, with the regions handed out so far and the blocks \<open>h\<^sub>0\<close> of the others: the current chunk
  is a block, what is handed out of it is before the current position, every region is in a block of the
  pool, and these blocks are apart from \<open>h\<^sub>0\<close>.
\<close>

definition chunk_base :: "ChunkMemoryPool \<Rightarrow> u64" where
  "chunk_base p = mEnd p - mChunkSize p"

definition current_ok :: "ChunkMemoryPool \<Rightarrow> blocks \<Rightarrow> bool" where
  "current_ok p h \<longleftrightarrow> unat (mEnd p) \<le> 2 ^ 47 \<and> unat (chunk_base p) + unat (mChunkSize p) = unat (mEnd p) \<and>
    (chunk_base p, mChunkSize p) \<in> set h \<and> chunk_base p \<in> set (mChunks p) \<and>
    8 dvd unat (mCurrent p) \<and> unat (chunk_base p) \<le> unat (mCurrent p) \<and> unat (mCurrent p) \<le> unat (mEnd p) + 7"

definition region_ok :: "ChunkMemoryPool \<Rightarrow> blocks \<Rightarrow> u64 \<times> u64 \<Rightarrow> bool" where
  "region_ok p h x \<longleftrightarrow> 8 dvd unat (fst x) \<and> (\<exists>b \<in> set h. fst b \<in> set (mChunks p) \<and> within x b) \<and>
    (apart x (chunk_base p, mChunkSize p) \<or> unat (fst x) + unat (snd x) \<le> unat (mCurrent p))"

definition blocks_ok :: "blocks \<Rightarrow> ChunkMemoryPool \<Rightarrow> blocks \<Rightarrow> bool" where
  "blocks_ok h\<^sub>0 p h \<longleftrightarrow> distinct (mChunks p) \<and> set (mChunks p) \<inter> set (map fst h\<^sub>0) = {} \<and>
    set (mChunks p) \<subseteq> set (map fst h) \<and> filter (\<lambda>b. fst b \<notin> set (mChunks p)) h = h\<^sub>0 \<and>
    (\<forall>b \<in> set h. fst b \<in> set (mChunks p) \<longrightarrow> (\<forall>c \<in> set h\<^sub>0. apart b c))"

definition pool_inv :: "blocks \<Rightarrow> (u64 \<times> u64) list \<Rightarrow> ChunkMemoryPool \<Rightarrow> blocks \<Rightarrow> bool" where
  "pool_inv h\<^sub>0 rs p h \<longleftrightarrow> current_ok p h \<and> (\<forall>x \<in> set rs. region_ok p h x) \<and> sorted_wrt apart rs \<and> blocks_ok h\<^sub>0 p h"

lemma pool_invD:
  assumes "pool_inv h\<^sub>0 rs p h"
  shows "current_ok p h" and "x \<in> set rs \<Longrightarrow> region_ok p h x" and "sorted_wrt apart rs" and "blocks_ok h\<^sub>0 p h"
  using assms by (auto simp: pool_inv_def)

lemma good_newD:
  assumes "good_new nw" and "nw h n = Some a"
  shows "unat a + unat n \<le> 2 ^ 47" and "16 dvd unat a" and "a \<notin> set (map fst h)" and "b \<in> set h \<Longrightarrow> apart (a, n) b"
  using assms unfolding good_new_def by blast+

section \<open>The operations keep the invariant\<close>

lemma blocks_ok_new:
  assumes "blocks_ok h\<^sub>0 p h" and "good_new nw" and "nw h n = Some a" and "mChunks p' = mChunks p @ [a]"
  shows "blocks_ok h\<^sub>0 p' ((a, n) # h)"
proof -
  note g = good_newD [OF assms(2,3)]
  have d: "distinct (mChunks p)" "set (mChunks p) \<inter> set (map fst h\<^sub>0) = {}" "set (mChunks p) \<subseteq> set (map fst h)"
    "filter (\<lambda>b. fst b \<notin> set (mChunks p)) h = h\<^sub>0"
    and ap: "\<And>b c. b \<in> set h \<Longrightarrow> fst b \<in> set (mChunks p) \<Longrightarrow> c \<in> set h\<^sub>0 \<Longrightarrow> apart b c"
    using assms(1) by (auto simp: blocks_ok_def)
  have sub: "set h\<^sub>0 \<subseteq> set h" using d(4) by auto
  have "filter (\<lambda>b. fst b \<notin> set (mChunks p')) h = filter (\<lambda>b. fst b \<notin> set (mChunks p)) h"
    by (rule filter_cong) (use g(3) assms(4) in auto)
  then have "filter (\<lambda>b. fst b \<notin> set (mChunks p')) ((a, n) # h) = h\<^sub>0" using d(4) assms(4) by simp
  moreover have "apart b c" if "b \<in> set ((a, n) # h)" "fst b \<in> set (mChunks p')" "c \<in> set h\<^sub>0" for b c
  proof (cases "b = (a, n)")
    case True
    then show ?thesis using g(4) sub that(3) by blast
  next
    case False
    then have "b \<in> set h" using that(1) by simp
    moreover from this have "fst b \<noteq> a" using g(3) by auto
    ultimately show ?thesis using ap that(2,3) assms(4) by simp
  qed
  moreover have "distinct (mChunks p')" "set (mChunks p') \<inter> set (map fst h\<^sub>0) = {}" "set (mChunks p') \<subseteq> set (map fst ((a, n) # h))"
    using d(1-3) g(3) sub assms(4) by auto
  ultimately show ?thesis unfolding blocks_ok_def by blast
qed

lemma within_refl [simp]: "within x x"
  by (simp add: within_def)

text \<open>A region is apart from a block that is made later.\<close>

lemma region_apart_new:
  assumes "region_ok p h x" and "good_new nw" and "nw h n = Some a"
  shows "apart x (a, n)"
proof -
  obtain b where "b \<in> set h" "within x b" using assms(1) by (auto simp: region_ok_def)
  then show ?thesis using apart_within [OF good_newD(4) [OF assms(2,3)] within_refl] apart_sym by blast
qed

lemma region_ok_new:
  assumes "region_ok p h x" and "good_new nw" and "nw h n = Some a" and "mChunks p' = mChunks p @ [a]"
    and "chunk_base p' = chunk_base p \<and> mChunkSize p' = mChunkSize p \<and> mCurrent p' = mCurrent p \<or> (chunk_base p', mChunkSize p') = (a, n)"
  shows "region_ok p' ((a, n) # h) x"
  using assms(1,4,5) region_apart_new [OF assms(1-3)] by (auto simp: region_ok_def)

lemma unat_sum:
  assumes "unat (a :: u64) + unat (b :: u64) \<le> 2 ^ 47 + 2 ^ 63"
  shows "unat (a + b) = unat a + unat b"
  by (rule unat_add_no_wrap) (use assms in simp)

text \<open>A block of its own for a large request.\<close>

lemma inv_large:
  assumes inv: "pool_inv h\<^sub>0 rs p h" and good: "good_new nw" and new: "nw h n = Some a"
  shows "pool_inv h\<^sub>0 (rs @ [(a, n)]) (p\<lparr>mChunks := mChunks p @ [a]\<rparr>) ((a, n) # h)"
proof -
  let ?p = "p\<lparr>mChunks := mChunks p @ [a]\<rparr>"
  note d = pool_invD [OF inv] and g = good_newD [OF good new]
  have base: "chunk_base ?p = chunk_base p" by (simp add: chunk_base_def)
  have cur: "(chunk_base p, mChunkSize p) \<in> set h" using d(1) by (simp add: current_ok_def)
  have "8 dvd unat a" using g(2) by (rule dvd_trans [rotated]) simp
  then have "region_ok ?p ((a, n) # h) (a, n)" using g(4) [OF cur] by (auto simp: region_ok_def base)
  moreover have "region_ok ?p ((a, n) # h) x" if "x \<in> set rs" for x
    by (rule region_ok_new [OF d(2) [OF that] good new]) (simp_all add: base)
  moreover have "apart x (a, n)" if "x \<in> set rs" for x by (rule region_apart_new [OF d(2) [OF that] good new])
  moreover have "current_ok ?p ((a, n) # h)" using d(1) by (simp add: current_ok_def base)
  moreover have "blocks_ok h\<^sub>0 ?p ((a, n) # h)" by (rule blocks_ok_new [OF d(4) good new]) simp
  ultimately show ?thesis using d(3) by (auto simp: pool_inv_def sorted_wrt_append)
qed

lemma inv_append:
  assumes inv: "pool_inv h\<^sub>0 rs p h" and good: "good_new nw" and new: "nw h (mChunkSize p) = Some a"
  shows "pool_inv h\<^sub>0 rs (p\<lparr>mCurrent := a, mEnd := a + mChunkSize p, mChunks := mChunks p @ [a]\<rparr>) ((a, mChunkSize p) # h)"
proof -
  let ?p = "p\<lparr>mCurrent := a, mEnd := a + mChunkSize p, mChunks := mChunks p @ [a]\<rparr>"
  note d = pool_invD [OF inv] and g = good_newD [OF good new]
  have base: "chunk_base ?p = a" by (simp add: chunk_base_def)
  have e: "unat (a + mChunkSize p) = unat a + unat (mChunkSize p)" by (rule unat_sum) (use g(1) in simp)
  have "8 dvd unat a" using g(2) by (rule dvd_trans [rotated]) simp
  then have "current_ok ?p ((a, mChunkSize p) # h)" using g(1) e by (simp add: current_ok_def base)
  moreover have "region_ok ?p ((a, mChunkSize p) # h) x" if "x \<in> set rs" for x
    by (rule region_ok_new [OF d(2) [OF that] good new]) (simp_all add: base)
  moreover have "blocks_ok h\<^sub>0 ?p ((a, mChunkSize p) # h)" by (rule blocks_ok_new [OF d(4) good new]) simp
  ultimately show ?thesis using d(3) by (simp add: pool_inv_def)
qed

lemma inv_take:
  assumes inv: "pool_inv h\<^sub>0 rs p h" and room: "unat (mCurrent p) + unat n \<le> unat (mEnd p)"
  shows "pool_inv h\<^sub>0 (rs @ [(mCurrent p, n)]) (p\<lparr>mCurrent := align (mCurrent p + n) 8\<rparr>) h"
proof -
  let ?p = "p\<lparr>mCurrent := align (mCurrent p + n) 8\<rparr>"
  note d = pool_invD [OF inv]
  have c: "unat (mEnd p) \<le> 2 ^ 47" "unat (chunk_base p) + unat (mChunkSize p) = unat (mEnd p)" "(chunk_base p, mChunkSize p) \<in> set h"
    "chunk_base p \<in> set (mChunks p)" "8 dvd unat (mCurrent p)" "unat (chunk_base p) \<le> unat (mCurrent p)"
    using d(1) by (simp_all add: current_ok_def)
  have base: "chunk_base ?p = chunk_base p" by (simp add: chunk_base_def)
  have s: "unat (mCurrent p + n) = unat (mCurrent p) + unat n" by (rule unat_sum) (use room c(1) in simp)
  have "unat (align (mCurrent p + n) (2 ^ 3)) = round_up (unat (mCurrent p + n)) (2 ^ 3)"
    by (rule unat_align) (use s room c(1) in simp_all)
  then have al: "unat (align (mCurrent p + n) 8) = round_up (unat (mCurrent p) + unat n) 8" by (simp add: s)
  note up = round_up_least [of 8 "unat (mCurrent p) + unat n", simplified]
  have win: "within (mCurrent p, n) (chunk_base p, mChunkSize p)" using c room by (simp add: within_def)
  have "current_ok ?p h" using c up(1-3) room by (simp add: current_ok_def base al)
  moreover have "region_ok ?p h (mCurrent p, n)"
    unfolding region_ok_def using c(3-5) win up(1) by (auto simp: base al intro!: bexI [of _ "(chunk_base p, mChunkSize p)"])
  moreover have "region_ok ?p h x" if "x \<in> set rs" for x using d(2) [OF that] up(1) by (auto simp: region_ok_def base al)
  moreover have "apart x (mCurrent p, n)" if "x \<in> set rs" for x
  proof -
    from d(2) [OF that] consider "apart x (chunk_base p, mChunkSize p)" | "unat (fst x) + unat (snd x) \<le> unat (mCurrent p)"
      by (auto simp: region_ok_def)
    then show ?thesis
    proof cases
      case 1
      then show ?thesis by (rule apart_within [OF _ within_refl win])
    next
      case 2
      then show ?thesis by (simp add: apart_def)
    qed
  qed
  moreover have "blocks_ok h\<^sub>0 ?p h" using d(4) by (simp add: blocks_ok_def)
  ultimately show ?thesis using d(3) by (auto simp: pool_inv_def sorted_wrt_append)
qed

lemma inv_allocate:
  assumes inv: "pool_inv h\<^sub>0 rs p h" and good: "good_new nw" and n: "unat n < 2 ^ 63"
    and res: "pool_allocate nw n p h = Some (a, p', h')"
  shows "pool_inv h\<^sub>0 (rs @ [(a, n)]) p' h'"
proof -
  have c: "unat (mEnd p) \<le> 2 ^ 47" "unat (mCurrent p) \<le> unat (mEnd p) + 7" using pool_invD(1) [OF inv] by (simp_all add: current_ok_def)
  have s: "unat (mCurrent p + n) = unat (mCurrent p) + unat n" by (rule unat_add_no_wrap) (use c n in simp)
  show ?thesis
  proof (cases "mEnd p < mCurrent p + n")
    case False
    then have "unat (mCurrent p) + unat n \<le> unat (mEnd p)" using s by (simp add: word_less_nat_alt)
    then show ?thesis using inv_take [OF inv] False res by (auto simp: pool_allocate_def take_current_def)
  next
    case full: True
    show ?thesis
    proof (cases "mChunkSize p < n")
      case True
      then show ?thesis using inv_large [OF inv good] full res by (auto simp: pool_allocate_def new_block_def split: option.splits)
    next
      case False
      then obtain b where b: "nw h (mChunkSize p) = Some b" using full res
        by (auto simp: pool_allocate_def appendNewChunk_def new_block_def split: option.splits)
      let ?p = "p\<lparr>mCurrent := b, mEnd := b + mChunkSize p, mChunks := mChunks p @ [b]\<rparr>"
      have e: "unat (b + mChunkSize p) = unat b + unat (mChunkSize p)"
        by (rule unat_sum) (use good_newD(1) [OF good b] in simp)
      have "unat (mCurrent ?p) + unat n \<le> unat (mEnd ?p)" using False e by (simp add: word_less_nat_alt)
      from inv_take [OF inv_append [OF inv good b] this] show ?thesis
        using full False b res by (auto simp: pool_allocate_def appendNewChunk_def new_block_def take_current_def)
    qed
  qed
qed

lemma inv_allocations:
  assumes "good_new nw" and "\<forall>n \<in> set ns. unat n < 2 ^ 63" and "pool_inv h\<^sub>0 rs p h" and "allocations nw ns p h = (rs', p', h')"
  shows "pool_inv h\<^sub>0 (rs @ rs') p' h'"
  using assms(2-4)
proof (induction ns arbitrary: rs p h rs')
  case (Cons n ns)
  show ?case
  proof (cases "pool_allocate nw n p h")
    case None
    then show ?thesis using Cons.IH [of rs p h rs'] Cons.prems by simp
  next
    case (Some r)
    obtain a q k where r: "r = (a, q, k)" by (cases r)
    obtain rs'' where rs: "allocations nw ns q k = (rs'', p', h')" "rs' = (a, n) # rs''"
      using Cons.prems(3) Some r by (auto split: prod.splits)
    have "pool_inv h\<^sub>0 (rs @ [(a, n)]) q k" using inv_allocate [OF Cons.prems(2) assms(1)] Cons.prems(1) Some r by simp
    from Cons.IH [OF _ this rs(1)] show ?thesis using Cons.prems(1) rs(2) by simp
  qed
qed simp

lemma new_pool_inv:
  assumes good: "good_new nw" and res: "new_pool nw chunkSize h\<^sub>0 = Some (p, h)"
  shows "pool_inv h\<^sub>0 [] p h"
proof -
  obtain a where a: "nw h\<^sub>0 chunkSize = Some a" and p: "p = \<lparr>mChunkSize = chunkSize, mCurrent = a, mEnd = a + chunkSize, mChunks = [a]\<rparr>"
    and h: "h = (a, chunkSize) # h\<^sub>0"
    using res by (auto simp: new_pool_def new_block_def split: option.splits)
  note g = good_newD [OF good a]
  have e: "unat (a + chunkSize) = unat a + unat chunkSize" by (rule unat_sum) (use g(1) in simp)
  have "8 dvd unat a" using g(2) by (rule dvd_trans [rotated]) simp
  then have "current_ok p h" using g(1) e by (simp add: current_ok_def chunk_base_def p h)
  moreover have "filter (\<lambda>b. fst b \<noteq> a) h\<^sub>0 = h\<^sub>0" by (rule filter_True) (use g(3) in auto)
  then have "blocks_ok h\<^sub>0 p h" using g(3,4) by (auto simp: blocks_ok_def p h)
  ultimately show ?thesis by (simp add: pool_inv_def)
qed

lemma delete_blocks_all:
  assumes "distinct cs" and "set cs \<subseteq> set (map fst h)"
  shows "delete_blocks cs h = Some (filter (\<lambda>b. fst b \<notin> set cs) h)"
  using assms
proof (induction cs arbitrary: h)
  case (Cons c cs)
  have "set cs \<subseteq> set (map fst (filter (\<lambda>b. fst b \<noteq> c) h))" using Cons.prems by fastforce
  then have "delete_blocks cs (filter (\<lambda>b. fst b \<noteq> c) h) = Some (filter (\<lambda>b. fst b \<notin> set cs) (filter (\<lambda>b. fst b \<noteq> c) h))"
    using Cons.IH Cons.prems(1) by simp
  moreover have "delete_block c h = Some (filter (\<lambda>b. fst b \<noteq> c) h)" using Cons.prems(2) by (auto simp: delete_block_def)
  ultimately show ?case by (simp add: conj_commute)
qed simp

section \<open>Memory safety of the pool\<close>

text \<open>
  C38. For any sequence of requests of less than \<open>2 ^ 63\<close> bytes, some of which may fail with
  \<^verbatim>\<open>bad_alloc\<close>: the regions handed out are multiples of eight, lie in blocks that the pool holds, do not
  overlap each other or a block of anyone else, and the destructor frees every block of the pool exactly
  once and leaves the heap as it was before the pool was made.
\<close>

theorem pool_regions_disjoint:
  assumes "good_new nw" and "\<forall>n \<in> set ns. unat n < 2 ^ 63" and "new_pool nw chunkSize h\<^sub>0 = Some (p\<^sub>0, h\<^sub>1)"
    and "allocations nw ns p\<^sub>0 h\<^sub>1 = (rs, p, h)"
  shows "sorted_wrt apart rs \<and>
    (\<forall>x \<in> set rs. 8 dvd unat (fst x) \<and> (\<exists>b \<in> set h. fst b \<in> set (mChunks p) \<and> within x b) \<and> (\<forall>c \<in> set h\<^sub>0. apart x c)) \<and>
    pool_destroy p h = Some h\<^sub>0"
proof -
  have "pool_inv h\<^sub>0 ([] @ rs) p h" by (rule inv_allocations [OF assms(1,2) new_pool_inv [OF assms(1,3)] assms(4)])
  then have inv: "pool_inv h\<^sub>0 rs p h" by simp
  note d = pool_invD [OF this]
  have "apart x c" if x: "x \<in> set rs" and c: "c \<in> set h\<^sub>0" for x c
  proof -
    obtain b where b: "b \<in> set h" "fst b \<in> set (mChunks p)" "within x b" using d(2) [OF x] by (auto simp: region_ok_def)
    then have "apart b c" using d(4) c by (simp add: blocks_ok_def)
    then show ?thesis by (rule apart_within [OF _ b(3) within_refl])
  qed
  moreover have "pool_destroy p h = Some h\<^sub>0" using d(4) by (simp add: pool_destroy_def blocks_ok_def delete_blocks_all)
  ultimately show ?thesis using d(2,3) by (auto simp: region_ok_def)
qed

text \<open>A heap that grows upwards from address 4096 in steps of 16 bytes.\<close>

definition heap_top :: "blocks \<Rightarrow> nat" where
  "heap_top h = 16 * (256 + sum_list (map (\<lambda>b. unat (fst b) + unat (snd b) + 1) h))"

definition bump :: new_char where
  "bump h n = (if heap_top h + unat n \<le> 2 ^ 47 then Some (of_nat (heap_top h)) else None)"

lemma heap_top_bound: "b \<in> set h \<Longrightarrow> unat (fst b) + unat (snd b) < heap_top h"
  using member_le_sum_list [of "unat (fst b) + unat (snd b) + 1" "map (\<lambda>b. unat (fst b) + unat (snd b) + 1) h"]
  by (force simp: heap_top_def)

lemma good_bump: "good_new bump"
  unfolding good_new_def
proof (intro allI impI)
  fix h n a assume a: "bump h n = Some a"
  then have le: "heap_top h + unat n \<le> 2 ^ 47" and a: "a = of_nat (heap_top h)" by (auto simp: bump_def split: if_splits)
  have u: "unat a = heap_top h" unfolding a by (rule unat_of_nat_u64) (use le in simp)
  have "16 dvd heap_top h" by (simp add: heap_top_def)
  then show "unat a + unat n \<le> 2 ^ 47 \<and> 16 dvd unat a \<and> a \<notin> set (map fst h) \<and> (\<forall>b \<in> set h. apart (a, n) b)"
    using le u heap_top_bound [of _ h] by (force simp: apart_def)
qed

theorem pool_regions_disjoint_witness:
  "\<exists>rs p h p\<^sub>0 h\<^sub>1. new_pool bump 64 [(16, 8)] = Some (p\<^sub>0, h\<^sub>1) \<and> allocations bump [10, 100, 50, 20] p\<^sub>0 h\<^sub>1 = (rs, p, h) \<and>
    sorted_wrt apart rs \<and> pool_destroy p h = Some [(16, 8)]"
proof -
  obtain p\<^sub>0 h\<^sub>1 where p: "new_pool bump 64 [(16, 8)] = Some (p\<^sub>0, h\<^sub>1)"
    by (auto simp: new_pool_def new_block_def bump_def heap_top_def)
  obtain rs p h where a: "allocations bump [10, 100, 50, 20] p\<^sub>0 h\<^sub>1 = (rs, p, h)" by (metis prod_cases3)
  from pool_regions_disjoint [OF good_bump _ p a] p a show ?thesis by auto
qed

section \<open>Findings\<close>

text \<open>The room check adds the size to a pointer: a size close to \<open>2 ^ 64\<close> wraps and the current position moves back.\<close>

lemma pool_room_wraps:
  "pool_allocate nw (- 8) \<lparr>mChunkSize = 64, mCurrent = 4112, mEnd = 4160, mChunks = [4096]\<rparr> h =
    Some (4112, \<lparr>mChunkSize = 64, mCurrent = 4104, mEnd = 4160, mChunks = [4096]\<rparr>, h)"
  by (simp add: pool_allocate_def take_current_def align_def)

text \<open>The allocator multiplies without a check: an array of more than \<open>2 ^ 61\<close> elements of eight bytes gets eight bytes.\<close>

lemma chunk_allocate_wraps: "chunk_allocate nw 8 (2 ^ 61 + 1) p h = chunk_allocate nw 8 1 p h"
proof -
  have "(8 * (2 ^ 61 + 1) :: u64) = 8 * 1" by code_simp
  then show ?thesis unfolding chunk_allocate_def by (rule arg_cong)
qed

end
