(* ===== verification/Program_Options.thy ===== *)
theory Program_Options
  imports Prelude
begin

text \<open>
  The command line parser of \<^verbatim>\<open>program_options.hpp\<close>. The options of a program are a list, in the order of the
  template parameters; an option has a type, and its tags are a list as well. A C string is the list of its
  characters before the terminator, and a read behind the terminator or of the null pointer at the end of
  \<^verbatim>\<open>argv\<close> is the error \<open>Undefined\<close>. The conversions of the standard library to integers are modelled; those to
  floating point numbers are a parameter, which returns \<open>None\<close> when they throw.
\<close>

section \<open>Errors and values\<close>

datatype perror = Parse_error string | Inexpected_value string | Argument_not_found string | Undefined

fun perror_what :: "perror \<Rightarrow> string" where
  "perror_what (Parse_error w) = ''Error while parsing arguments: '' @ w"
| "perror_what (Inexpected_value v) = ''Error while parsing arguments: Unexpected value '' @ [CHR 0x27] @ v @ [CHR 0x27]"
| "perror_what (Argument_not_found a) = ''Error while parsing arguments: Unknown argument '' @ [CHR 0x27] @ a @ [CHR 0x27]"
| "perror_what Undefined = []"

datatype opt_type = T_bool | T_string | T_char | T_short | T_unsigned_short | T_int | T_unsigned | T_long | T_unsigned_long
  | T_long_long | T_unsigned_long_long | T_float | T_double | T_long_double

datatype 'f opt_value = Bool_val bool | String_val string | Char_val char | Int_val int | Real_val 'f

text \<open>The null character that a read at the terminator finds, and reads behind it.\<close>

definition nul :: char where
  "nul = CHR 0x00"

definition cstr_at :: "string \<Rightarrow> nat \<Rightarrow> char option" where
  "cstr_at s k = (if k < length s then Some (s ! k) else if k = length s then Some nul else None)"

section \<open>Conversions of the standard library\<close>

definition is_space :: "char \<Rightarrow> bool" where
  "is_space c \<longleftrightarrow> c \<in> {CHR '' '', CHR 0x09, CHR 0x0A, CHR 0x0B, CHR 0x0C, CHR 0x0D}"

definition digit_value :: "char \<Rightarrow> nat" where
  "digit_value c =
    (let n = of_char c :: nat in
     if 48 \<le> n \<and> n \<le> 57 then n - 48
     else if 97 \<le> n \<and> n \<le> 122 then n - 87
     else if 65 \<le> n \<and> n \<le> 90 then n - 55 else 99)"

definition digits_value :: "nat \<Rightarrow> string \<Rightarrow> nat" where
  "digits_value base ds = foldl (\<lambda>v c. v * base + digit_value c) 0 ds"

definition digits :: "nat \<Rightarrow> string \<Rightarrow> nat option" where
  "digits base s = (let ds = takeWhile (\<lambda>c. digit_value c < base) s in if ds = [] then None else Some (digits_value base ds))"

text \<open>The subject sequence of \<^verbatim>\<open>strtol\<close> and \<^verbatim>\<open>strtoul\<close> with base zero: the magnitude after the sign.\<close>

fun magnitude :: "string \<Rightarrow> nat option" where
  "magnitude (z # x # d # s) =
    (if z = CHR ''0'' \<and> x \<in> {CHR ''x'', CHR ''X''} \<and> digit_value d < 16 then digits 16 (d # s)
     else digits (if z = CHR ''0'' then 8 else 10) (z # x # d # s))"
| "magnitude (z # s) = digits (if z = CHR ''0'' then 8 else 10) (z # s)"
| "magnitude [] = None"

fun signed_magnitude :: "string \<Rightarrow> (bool \<times> nat) option" where
  "signed_magnitude (c # s) =
    (if c = CHR ''-'' then map_option (Pair True) (magnitude s)
     else if c = CHR ''+'' then map_option (Pair False) (magnitude s)
     else map_option (Pair False) (magnitude (c # s)))"
| "signed_magnitude [] = None"

definition in_signed :: "nat \<Rightarrow> int \<Rightarrow> bool" where
  "in_signed w v \<longleftrightarrow> - (2 ^ (w - 1)) \<le> v \<and> v < 2 ^ (w - 1)"

text \<open>\<^verbatim>\<open>std::stol\<close> and \<^verbatim>\<open>std::stoll\<close>, \<^verbatim>\<open>std::stoi\<close>, and \<^verbatim>\<open>std::stoul\<close> and \<^verbatim>\<open>std::stoull\<close>; \<open>None\<close> is an exception.\<close>

definition stol :: "string \<Rightarrow> int option" where
  "stol s =
    (case signed_magnitude (dropWhile is_space s) of
       None \<Rightarrow> None
     | Some (neg, n) \<Rightarrow> let v = if neg then - int n else int n in if in_signed 64 v then Some v else None)"

definition stoi :: "string \<Rightarrow> int option" where
  "stoi s = (case stol s of None \<Rightarrow> None | Some v \<Rightarrow> if in_signed 32 v then Some v else None)"

definition stoul :: "string \<Rightarrow> int option" where
  "stoul s =
    (case signed_magnitude (dropWhile is_space s) of
       None \<Rightarrow> None
     | Some (neg, n) \<Rightarrow> if n < 2 ^ 64 then Some ((if neg then - int n else int n) mod 2 ^ 64) else None)"

section \<open>The parsers of the types\<close>

definition or_error :: "string \<Rightarrow> ('a \<Rightarrow> 'f opt_value) \<Rightarrow> 'a option \<Rightarrow> perror + 'f opt_value" where
  "or_error w C r = (case r of None \<Rightarrow> Inl (Parse_error w) | Some v \<Rightarrow> Inr (C v))"

definition parse_char :: "string \<Rightarrow> perror + 'f opt_value" where
  "parse_char str =
    (if cstr_at str 0 = Some nul \<or> cstr_at str 1 \<noteq> Some nul then Inl (Parse_error (''Could not parse char: '' @ str))
     else Inr (Char_val (str ! 0)))"

definition parse_short_int :: "string \<Rightarrow> perror + 'f opt_value" where
  "parse_short_int str =
    or_error (str @ '' is not a valid short'') Int_val
      (case stoi str of None \<Rightarrow> None | Some val \<Rightarrow> if in_signed 16 val then Some val else None)"

definition parse_unsigned :: "nat \<Rightarrow> string \<Rightarrow> string \<Rightarrow> perror + 'f opt_value" where
  "parse_unsigned w message str =
    or_error (str @ message) Int_val
      (case stoul str of None \<Rightarrow> None | Some val \<Rightarrow> if val < 2 ^ w then Some val else None)"

fun parser :: "(opt_type \<Rightarrow> string \<Rightarrow> 'f option) \<Rightarrow> opt_type \<Rightarrow> string \<Rightarrow> perror + 'f opt_value" where
  "parser reals T_bool str = Inr (Bool_val True)"
| "parser reals T_string str = Inr (String_val str)"
| "parser reals T_char str = parse_char str"
| "parser reals T_short str = parse_short_int str"
| "parser reals T_int str = or_error (str @ ''is not a valid int'') Int_val (stoi str)"
| "parser reals T_long str = or_error (str @ ''is not a valid long'') Int_val (stol str)"
| "parser reals T_long_long str = or_error (str @ ''is not a valid long long'') Int_val (stol str)"
| "parser reals T_unsigned_short str = parse_unsigned 16 '' is not a valid unsigned short'' str"
| "parser reals T_unsigned str = parse_unsigned 32 '' is not a valid unsigned'' str"
| "parser reals T_unsigned_long str = or_error (str @ ''is not a valid unsigned long'') Int_val (stoul str)"
| "parser reals T_unsigned_long_long str = or_error (str @ ''is not a valid unsigned long long'') Int_val (stoul str)"
| "parser reals T_float str = or_error (str @ ''is not a valid float'') Real_val (reals T_float str)"
| "parser reals T_double str = or_error (str @ ''is not a valid double'') Real_val (reals T_double str)"
| "parser reals T_long_double str = or_error (str @ ''is not a valid long double'') Real_val (reals T_long_double str)"

text \<open>The name of a type in the help text; \<^verbatim>\<open>float\<close> has no printer of its own.\<close>

fun type_printer :: "opt_type \<Rightarrow> string" where
  "type_printer T_bool = []"
| "type_printer T_char = ''character''"
| "type_printer T_short = ''short''"
| "type_printer T_unsigned_short = ''unsigned short''"
| "type_printer T_int = ''int''"
| "type_printer T_unsigned = ''unsigned''"
| "type_printer T_long = ''long''"
| "type_printer T_unsigned_long = ''unsigned long''"
| "type_printer T_long_long = ''long long''"
| "type_printer T_unsigned_long_long = ''unsigned long long''"
| "type_printer T_double = ''double''"
| "type_printer T_long_double = ''long double''"
| "type_printer T_string = ''string''"
| "type_printer T_float = ''Unknown''"

section \<open>Options\<close>

text \<open>
  The tags of an option; the first tag of a kind counts. A callback is the function on the value that it
  computes: a callback that returns nothing may change its argument.
\<close>

datatype 'f opt_tag = Show bool | Ignore_short bool | Ignore_long bool | Description string | Callback "'f opt_value \<Rightarrow> 'f opt_value"

fun show_option :: "'f opt_tag list \<Rightarrow> bool" where
  "show_option (Show v # tags) = v"
| "show_option (_ # tags) = show_option tags"
| "show_option [] = True"

fun ignore_short_option :: "'f opt_tag list \<Rightarrow> bool" where
  "ignore_short_option (Ignore_short v # tags) = v"
| "ignore_short_option (_ # tags) = ignore_short_option tags"
| "ignore_short_option [] = False"

fun ignore_long_option :: "'f opt_tag list \<Rightarrow> bool" where
  "ignore_long_option (Ignore_long v # tags) = v"
| "ignore_long_option (_ # tags) = ignore_long_option tags"
| "ignore_long_option [] = False"

fun opt_callback :: "'f opt_tag list \<Rightarrow> 'f opt_value \<Rightarrow> 'f opt_value" where
  "opt_callback (Callback f # tags) arg = f arg"
| "opt_callback (_ # tags) arg = opt_callback tags arg"
| "opt_callback [] arg = arg"

fun opt_description :: "'f opt_tag list \<Rightarrow> string" where
  "opt_description (Description d # tags) = d"
| "opt_description (_ # tags) = opt_description tags"
| "opt_description [] = []"

record 'f opt =
  o_name :: char
  o_type :: opt_type
  o_longoption :: string
  o_value_ptr :: "nat option"
  o_value :: "'f opt_value"
  o_tags :: "'f opt_tag list"

type_synonym 'f cells = "nat \<rightharpoonup> 'f opt_value"

fun default_value :: "'f \<Rightarrow> opt_type \<Rightarrow> 'f opt_value" where
  "default_value zero T_bool = Bool_val False"
| "default_value zero T_string = String_val []"
| "default_value zero T_char = Char_val nul"
| "default_value zero t = (if t \<in> {T_float, T_double, T_long_double} then Real_val zero else Int_val 0)"

definition new_option :: "'f \<Rightarrow> char \<Rightarrow> opt_type \<Rightarrow> string \<Rightarrow> nat option \<Rightarrow> 'f opt_tag list \<Rightarrow> 'f opt" where
  "new_option zero name t longoption ptr tags =
    \<lparr>o_name = name, o_type = t, o_longoption = longoption, o_value_ptr = ptr, o_value = default_value zero t, o_tags = tags\<rparr>"

definition set_value :: "'f opt_value \<Rightarrow> 'f opt \<Rightarrow> 'f cells \<Rightarrow> 'f opt \<times> 'f cells" where
  "set_value v opt m =
    (let v = opt_callback (o_tags opt) v
     in (opt\<lparr>o_value := v\<rparr>, case o_value_ptr opt of None \<Rightarrow> m | Some a \<Rightarrow> m(a \<mapsto> v)))"

section \<open>Help\<close>

definition newline :: string where
  "newline = [CHR 0x0A]"

definition option_help :: "'f opt \<Rightarrow> string" where
  "option_help opt =
    (let short = \<not> ignore_short_option (o_tags opt); long = \<not> ignore_long_option (o_tags opt); desc = opt_description (o_tags opt) in
     if \<not> short \<and> \<not> long then []
     else '' '' @ (if short then [CHR ''-'', o_name opt] @ (if long then '','' else []) else []) @
       (if long then ''--'' @ o_longoption opt else []) @ '' '' @ type_printer (o_type opt) @
       (if desc \<noteq> [] then newline @ ''    '' @ desc else []) @ newline)"

definition print_help :: "string \<Rightarrow> 'f opt list \<Rightarrow> string" where
  "print_help global_name opts =
    (if opts \<noteq> [] then ''Usage: '' @ global_name @ '' [OPTION...]'' @ newline else []) @ concat (map option_help opts)"

section \<open>Parsing\<close>

fun get_value :: "char \<Rightarrow> 'f opt list \<Rightarrow> 'f opt_value option" where
  "get_value name (opt # opts) = (if name = o_name opt then Some (o_value opt) else get_value name opts)"
| "get_value name [] = None"

text \<open>\<^verbatim>\<open>parse_impl\<close>: a flag is set, any other option takes the next argument; behind the last one is a null pointer.\<close>

definition parse_impl ::
  "(opt_type \<Rightarrow> string \<Rightarrow> 'f option) \<Rightarrow> 'f opt \<Rightarrow> nat \<Rightarrow> string list \<Rightarrow> 'f cells \<Rightarrow> perror + nat \<times> 'f opt \<times> 'f cells" where
  "parse_impl reals opt i args m =
    (if o_type opt = T_bool then Inr (i, set_value (Bool_val True) opt m)
     else if Suc i < length args then
       (case parser reals (o_type opt) (args ! Suc i) of Inl e \<Rightarrow> Inl e | Inr v \<Rightarrow> Inr (Suc i, set_value v opt m))
     else Inl Undefined)"

text \<open>The result for the options behind the first one, and for the first one.\<close>

definition in_base :: "'f opt \<Rightarrow> perror + nat \<times> 'f opt list \<times> 'f cells \<Rightarrow> perror + nat \<times> 'f opt list \<times> 'f cells" where
  "in_base opt r = (case r of Inl e \<Rightarrow> Inl e | Inr (i, opts, m) \<Rightarrow> Inr (i, opt # opts, m))"

definition in_first :: "'f opt list \<Rightarrow> perror + nat \<times> 'f opt \<times> 'f cells \<Rightarrow> perror + nat \<times> 'f opt list \<times> 'f cells" where
  "in_first opts r = (case r of Inl e \<Rightarrow> Inl e | Inr (i, opt, m) \<Rightarrow> Inr (i, opt # opts, m))"

fun parse_long ::
  "(opt_type \<Rightarrow> string \<Rightarrow> 'f option) \<Rightarrow> 'f opt list \<Rightarrow> nat \<Rightarrow> string list \<Rightarrow> 'f cells \<Rightarrow> perror + nat \<times> 'f opt list \<times> 'f cells" where
  "parse_long reals (opt # opts) i args m =
    (let arg = dropWhile (\<lambda>c. c = CHR ''-'') (args ! i) in
     if ignore_long_option (o_tags opt) \<or> arg \<noteq> o_longoption opt then in_base opt (parse_long reals opts i args m)
     else in_first opts (parse_impl reals opt i args m))"
| "parse_long reals [] i args m = Inl (Argument_not_found (''--'' @ args ! i))"

fun parse_short ::
  "(opt_type \<Rightarrow> string \<Rightarrow> 'f option) \<Rightarrow> 'f opt list \<Rightarrow> char \<Rightarrow> nat \<Rightarrow> string list \<Rightarrow> 'f cells \<Rightarrow> perror + nat \<times> 'f opt list \<times> 'f cells" where
  "parse_short reals (opt # opts) n i args m =
    (if o_name opt = n \<and> \<not> ignore_short_option (o_tags opt) then in_first opts (parse_impl reals opt i args m)
     else in_base opt (parse_short reals opts n i args m))"
| "parse_short reals [] n i args m = Inl (Argument_not_found [CHR ''-'', n])"

text \<open>The loop over the remaining arguments once one is found that is not an option.\<close>

fun remaining :: "string \<Rightarrow> nat \<Rightarrow> string list \<Rightarrow> perror + nat" where
  "remaining str i [] = Inr i"
| "remaining str i (a # as) =
    (if a = ''--'' then Inr i else if cstr_at a 0 = Some (CHR ''-'') then Inl (Inexpected_value str) else remaining str i as)"

text \<open>One iteration of \<^verbatim>\<open>parse\<close>: it returns, or goes on behind the index it has reached.\<close>

datatype 'r iteration = Return 'r | Next 'r

definition parse_one ::
  "(opt_type \<Rightarrow> string \<Rightarrow> 'f option) \<Rightarrow> string list \<Rightarrow> nat \<Rightarrow> 'f opt list \<Rightarrow> 'f cells \<Rightarrow> (perror + nat \<times> 'f opt list \<times> 'f cells) iteration" where
  "parse_one reals argv i opts m =
    (let str = argv ! i in
     if cstr_at str 0 = Some (CHR ''-'') then
       if cstr_at str 1 = Some (CHR ''-'') then
         (case cstr_at str 2 of
            None \<Rightarrow> Return (Inl Undefined)
          | Some c \<Rightarrow> if is_space c \<or> c = nul then Return (Inr (i + 1, opts, m)) else Next (parse_long reals opts i argv m))
       else
         (case cstr_at str 2 of
            None \<Rightarrow> Return (Inl Undefined)
          | Some c \<Rightarrow>
             if c \<noteq> nul then Return (Inl (Parse_error (''Long options must start with '' @ [CHR 0x27] @ ''--'' @ [CHR 0x27])))
             else Next (parse_short reals opts (str ! 1) i argv m))
     else Return (case remaining str i (drop i argv) of Inl e \<Rightarrow> Inl e | Inr k \<Rightarrow> Inr (k, opts, m)))"

lemma parse_impl_index: "parse_impl reals opt i args m = Inr (i', r) \<Longrightarrow> i \<le> i'"
  by (auto simp: parse_impl_def split: if_splits sum.splits)

lemma parse_long_index: "parse_long reals opts i args m = Inr (i', r) \<Longrightarrow> i \<le> i'"
  by (induction opts arbitrary: r) (auto simp: in_base_def in_first_def Let_def split: if_splits sum.splits dest!: parse_impl_index)

lemma parse_short_index: "parse_short reals opts n i args m = Inr (i', r) \<Longrightarrow> i \<le> i'"
  by (induction opts arbitrary: r) (auto simp: in_base_def in_first_def split: if_splits sum.splits dest!: parse_impl_index)

lemma parse_one_index: "parse_one reals argv i opts m = Next (Inr (i', r)) \<Longrightarrow> i \<le> i'"
  by (auto simp: parse_one_def Let_def split: if_splits option.splits sum.splits dest: parse_long_index parse_short_index)

function parse_from ::
  "(opt_type \<Rightarrow> string \<Rightarrow> 'f option) \<Rightarrow> string list \<Rightarrow> nat \<Rightarrow> 'f opt list \<Rightarrow> 'f cells \<Rightarrow> perror + nat \<times> 'f opt list \<times> 'f cells" where
  "parse_from reals argv i opts m =
    (if i < length argv then
       (case parse_one reals argv i opts m of
          Return r \<Rightarrow> r
        | Next (Inl e) \<Rightarrow> Inl e
        | Next (Inr (i', opts', m')) \<Rightarrow> parse_from reals argv (i' + 1) opts' m')
     else Inr (i, opts, m))"
  by pat_completeness auto
termination
  by (relation "measure (\<lambda>(reals, argv, i, opts, m). length argv - i)") (auto dest!: parse_one_index)

declare parse_from.simps [simp del]

definition opts_parse ::
  "(opt_type \<Rightarrow> string \<Rightarrow> 'f option) \<Rightarrow> 'f opt list \<Rightarrow> string list \<Rightarrow> 'f cells \<Rightarrow> perror + nat \<times> 'f opt list \<times> 'f cells" where
  "opts_parse reals opts argv m = parse_from reals argv 1 opts m"

end
