(* ===== verification/Program_Options_Spec.thy ===== *)
theory Program_Options_Spec
  imports Program_Options
begin

text \<open>
  Command lines against the assignments they are written for: an assignment names an option by its index,
  says whether its long or its short name is used, and gives the text of its value.
\<close>

section \<open>Command lines\<close>

type_synonym usage = "nat \<times> bool \<times> string"

fun render :: "'f opt list \<Rightarrow> usage \<Rightarrow> string list" where
  "render opts (k, long, arg) =
    (let opt = opts ! k in
     (if long then ''--'' @ o_longoption opt else [CHR ''-'', o_name opt]) # (if o_type opt = T_bool then [] else [arg]))"

definition usage_value :: "(opt_type \<Rightarrow> string \<Rightarrow> 'f option) \<Rightarrow> 'f opt \<Rightarrow> string \<Rightarrow> perror + 'f opt_value" where
  "usage_value reals opt arg = (if o_type opt = T_bool then Inr (Bool_val True) else parser reals (o_type opt) arg)"

fun apply_usage :: "(opt_type \<Rightarrow> string \<Rightarrow> 'f option) \<Rightarrow> usage \<Rightarrow> 'f opt list \<times> 'f cells \<Rightarrow> 'f opt list \<times> 'f cells" where
  "apply_usage reals (k, long, arg) (opts, m) =
    (case usage_value reals (opts ! k) arg of
       Inl e \<Rightarrow> (opts, m)
     | Inr v \<Rightarrow> (case set_value v (opts ! k) m of (opt, m') \<Rightarrow> (opts[k := opt], m')))"

text \<open>Options that can be told apart, and an assignment that names one of them and has a text that can be parsed.\<close>

definition opts_ok :: "'f opt list \<Rightarrow> bool" where
  "opts_ok opts \<longleftrightarrow> distinct (map o_name opts) \<and>
    distinct (map o_longoption (filter (\<lambda>opt. \<not> ignore_long_option (o_tags opt)) opts))"

fun usable :: "(opt_type \<Rightarrow> string \<Rightarrow> 'f option) \<Rightarrow> 'f opt list \<Rightarrow> usage \<Rightarrow> bool" where
  "usable reals opts (k, long, arg) \<longleftrightarrow> k < length opts \<and> (\<exists>v. usage_value reals (opts ! k) arg = Inr v) \<and>
    (if long then \<not> ignore_long_option (o_tags (opts ! k)) \<and>
       (\<exists>c s. o_longoption (opts ! k) = c # s \<and> c \<noteq> CHR ''-'' \<and> \<not> is_space c \<and> c \<noteq> nul)
     else \<not> ignore_short_option (o_tags (opts ! k)) \<and> o_name (opts ! k) \<noteq> CHR ''-'')"

text \<open>What does not change when values are set.\<close>

definition fixed :: "'f opt \<Rightarrow> char \<times> opt_type \<times> string \<times> 'f opt_tag list \<times> nat option" where
  "fixed opt = (o_name opt, o_type opt, o_longoption opt, o_tags opt, o_value_ptr opt)"

lemma fixed_set_value [simp]: "fixed (fst (set_value v opt m)) = fixed opt"
  by (simp add: fixed_def set_value_def Let_def)

lemma fixed_apply: "map fixed (fst (apply_usage reals u s)) = map fixed (fst s)"
proof (cases u)
  case (fields k long arg)
  obtain opts m where s: "s = (opts, m)" by (cases s)
  show ?thesis
  proof (cases "usage_value reals (opts ! k) arg")
    case (Inr v)
    have "map fixed (opts[k := fst (set_value v (opts ! k) m)]) = map fixed opts"
      by (cases "k < length opts") (simp_all add: map_update list_update_same_conv list_update_beyond)
    then show ?thesis by (simp add: fields s Inr split: prod.split) (metis fst_conv)
  qed (simp add: fields s)
qed

lemma fixed_nth:
  assumes "map fixed opts = map fixed opts'" and "k < length opts"
  shows "o_name (opts ! k) = o_name (opts' ! k)" and "o_type (opts ! k) = o_type (opts' ! k)"
    and "o_longoption (opts ! k) = o_longoption (opts' ! k)" and "o_tags (opts ! k) = o_tags (opts' ! k)"
proof -
  have "fixed (opts ! k) = fixed (opts' ! k)" using assms by (metis length_map nth_map)
  then show "o_name (opts ! k) = o_name (opts' ! k)" and "o_type (opts ! k) = o_type (opts' ! k)"
    and "o_longoption (opts ! k) = o_longoption (opts' ! k)" and "o_tags (opts ! k) = o_tags (opts' ! k)"
    by (simp_all add: fixed_def)
qed

lemma usable_fixed:
  assumes "map fixed opts = map fixed opts'" and "usable reals opts u"
  shows "usable reals opts' u" and "render opts' u = render opts u"
proof -
  obtain k long arg where u: "u = (k, long, arg)" by (cases u)
  have k: "k < length opts" "length opts' = length opts" using assms(2) map_eq_imp_length_eq [OF assms(1)] by (simp_all add: u)
  note f = fixed_nth [OF assms(1) k(1)]
  show "usable reals opts' u" using assms(2) unfolding u usable.simps usage_value_def f k(2) .
  show "render opts' u = render opts u" unfolding u render.simps Let_def f ..
qed

lemma opts_ok_fixed:
  assumes "map fixed opts = map fixed opts'" and "opts_ok opts"
  shows "opts_ok opts'"
proof -
  have n: "map o_name xs = map fst (map fixed xs)" for xs :: "'a opt list" by (simp add: fixed_def)
  have l: "map o_longoption (filter (\<lambda>opt. \<not> ignore_long_option (o_tags opt)) xs) =
      map (\<lambda>x. fst (snd (snd x))) (filter (\<lambda>x. \<not> ignore_long_option (fst (snd (snd (snd x))))) (map fixed xs))" for xs :: "'a opt list"
    by (induction xs) (simp_all add: fixed_def)
  show ?thesis using assms(2) unfolding opts_ok_def n l assms(1) .
qed

section \<open>One assignment\<close>

text \<open>The option that is reached is the one that is named.\<close>

definition at_index :: "nat \<Rightarrow> 'f opt list \<Rightarrow> perror + nat \<times> 'f opt \<times> 'f cells \<Rightarrow> perror + nat \<times> 'f opt list \<times> 'f cells" where
  "at_index k opts r = (case r of Inl e \<Rightarrow> Inl e | Inr (i, opt, m) \<Rightarrow> Inr (i, opts[k := opt], m))"

lemma parse_long_finds:
  assumes "distinct (map o_longoption (filter (\<lambda>opt. \<not> ignore_long_option (o_tags opt)) opts))"
    and "k < length opts" and "\<not> ignore_long_option (o_tags (opts ! k))"
    and "dropWhile (\<lambda>c. c = CHR ''-'') (args ! i) = o_longoption (opts ! k)"
  shows "parse_long reals opts i args m = at_index k opts (parse_impl reals (opts ! k) i args m)"
  using assms
proof (induction opts arbitrary: k)
  case (Cons opt opts)
  show ?case
  proof (cases k)
    case 0
    then show ?thesis using Cons.prems by (simp add: in_first_def at_index_def split: sum.split)
  next
    case (Suc j)
    have ne: "ignore_long_option (o_tags opt) \<or> o_longoption (opts ! j) \<noteq> o_longoption opt"
    proof (cases "ignore_long_option (o_tags opt)")
      case False
      have "opts ! j \<in> {x \<in> set opts. \<not> ignore_long_option (o_tags x)}" using Cons.prems(2,3) Suc by simp
      then have "o_longoption (opts ! j) \<in> o_longoption ` {x \<in> set opts. \<not> ignore_long_option (o_tags x)}" by (rule imageI)
      then show ?thesis using Cons.prems(1) False by (auto simp del: mem_Collect_eq image_iff)
    qed simp
    have "parse_long reals opts i args m = at_index j opts (parse_impl reals (opts ! j) i args m)"
      by (rule Cons.IH) (use Cons.prems Suc in \<open>auto split: if_splits\<close>)
    then show ?thesis using ne Suc Cons.prems(4) by (simp add: in_base_def at_index_def split: sum.split)
  qed
qed simp

lemma parse_short_finds:
  assumes "distinct (map o_name opts)" and "k < length opts" and "\<not> ignore_short_option (o_tags (opts ! k))"
  shows "parse_short reals opts (o_name (opts ! k)) i args m = at_index k opts (parse_impl reals (opts ! k) i args m)"
  using assms
proof (induction opts arbitrary: k)
  case (Cons opt opts)
  show ?case
  proof (cases k)
    case 0
    then show ?thesis using Cons.prems by (simp add: in_first_def at_index_def split: sum.split)
  next
    case (Suc j)
    have ne: "o_name opt \<noteq> o_name (opts ! j)" using Cons.prems(1,2) Suc nth_mem [of j opts] by force
    have "parse_short reals opts (o_name (opts ! j)) i args m = at_index j opts (parse_impl reals (opts ! j) i args m)"
      by (rule Cons.IH) (use Cons.prems Suc in auto)
    then show ?thesis using ne Suc by (simp add: in_base_def at_index_def split: sum.split)
  qed
qed simp

text \<open>The arguments of an assignment stand at index \<open>i\<close>: one iteration carries it out and reaches its last argument.\<close>

definition stands_at :: "string list \<Rightarrow> nat \<Rightarrow> string list \<Rightarrow> bool" where
  "stands_at argv i xs \<longleftrightarrow> take (length xs) (drop i argv) = xs"

lemma stands_at_Cons: "stands_at argv i (x # xs) \<longleftrightarrow> i < length argv \<and> argv ! i = x \<and> stands_at argv (Suc i) xs"
  by (cases "i < length argv") (auto simp: stands_at_def Cons_nth_drop_Suc [symmetric])

lemma stands_at_append: "stands_at argv i (xs @ ys) \<Longrightarrow> stands_at argv i xs \<and> stands_at argv (i + length xs) ys"
proof (induction xs arbitrary: i)
  case (Cons x xs)
  then show ?case using Cons.IH [of "Suc i"] by (simp add: stands_at_Cons)
qed (simp add: stands_at_def)

lemma parse_impl_usage:
  assumes "usage_value reals opt arg = Inr v" and "o_type opt = T_bool \<or> Suc i < length args \<and> args ! Suc i = arg"
  shows "parse_impl reals opt i args m = Inr (i + (if o_type opt = T_bool then 0 else 1), set_value v opt m)"
  using assms by (auto simp: parse_impl_def usage_value_def)

lemma parse_one_usage:
  assumes ok: "opts_ok opts" and use: "usable reals opts u" and at: "stands_at argv i (render opts u)"
  shows "parse_one reals argv i opts m = Next (Inr (i + length (render opts u) - 1, apply_usage reals u (opts, m)))"
proof -
  obtain k long arg where u: "u = (k, long, arg)" by (cases u)
  let ?o = "opts ! k"
  have k: "k < length opts" using use by (simp add: u)
  obtain v where v: "usage_value reals ?o arg = Inr v" using use by (auto simp: u)
  have args: "argv ! i = (if long then ''--'' @ o_longoption ?o else [CHR ''-'', o_name ?o])"
    "o_type ?o = T_bool \<or> Suc i < length argv \<and> argv ! Suc i = arg"
    using at by (auto simp: u Let_def stands_at_Cons split: if_splits)
  obtain opt m' where set: "set_value v ?o m = (opt, m')" by fastforce
  have "at_index k opts (parse_impl reals ?o i argv m) = Inr (i + length (render opts u) - 1, apply_usage reals u (opts, m))"
    unfolding parse_impl_usage [OF v args(2)] by (simp add: at_index_def u v set Let_def)
  moreover have "parse_one reals argv i opts m = Next (at_index k opts (parse_impl reals ?o i argv m))"
  proof (cases long)
    case True
    then obtain c s where c: "o_longoption ?o = c # s" "c \<noteq> CHR ''-''" "\<not> is_space c" "c \<noteq> nul" "\<not> ignore_long_option (o_tags ?o)"
      using use by (auto simp: u)
    have "parse_long reals opts i argv m = at_index k opts (parse_impl reals ?o i argv m)"
      by (rule parse_long_finds) (use ok k c args(1) True in \<open>auto simp: opts_ok_def\<close>)
    then show ?thesis using args(1) True c by (simp add: parse_one_def cstr_at_def)
  next
    case False
    then have n: "\<not> ignore_short_option (o_tags ?o)" "o_name ?o \<noteq> CHR ''-''" using use by (simp_all add: u)
    have "parse_short reals opts (o_name ?o) i argv m = at_index k opts (parse_impl reals ?o i argv m)"
      by (rule parse_short_finds) (use ok k n in \<open>auto simp: opts_ok_def\<close>)
    then show ?thesis using args(1) False n by (simp add: parse_one_def cstr_at_def)
  qed
  ultimately show ?thesis by simp
qed

lemma parse_from_usages:
  assumes "opts_ok opts" and "list_all (usable reals opts) us" and "stands_at argv i (concat (map (render opts) us))"
  shows "parse_from reals argv i opts m =
    (case fold (apply_usage reals) us (opts, m) of (opts', m') \<Rightarrow> parse_from reals argv (i + length (concat (map (render opts) us))) opts' m')"
  using assms
proof (induction us arbitrary: i opts m)
  case (Cons u us)
  obtain opts' m' where a: "apply_usage reals u (opts, m) = (opts', m')" by fastforce
  have f: "map fixed opts = map fixed opts'" using fixed_apply [of reals u "(opts, m)"] a by simp
  have at: "stands_at argv i (render opts u)" "stands_at argv (i + length (render opts u)) (concat (map (render opts) us))"
    using stands_at_append Cons.prems(3) by fastforce+
  have r: "map (render opts') us = map (render opts) us" and us: "list_all (usable reals opts') us"
  proof -
    have "usable reals opts' x \<and> render opts' x = render opts x" if "x \<in> set us" for x
      using usable_fixed [OF f, of reals x] Cons.prems(2) that by (simp add: list_all_iff)
    then show "map (render opts') us = map (render opts) us" "list_all (usable reals opts') us" by (simp_all add: list_all_iff)
  qed
  have i: "i < length argv" "0 < length (render opts u)" using at(1) by (cases u; simp add: Let_def stands_at_Cons)+
  have "parse_from reals argv i opts m = parse_from reals argv (i + length (render opts u)) opts' m'"
    using parse_one_usage [OF Cons.prems(1) _ at(1)] Cons.prems(2) i a by (subst parse_from.simps) simp
  also have "\<dots> = (case fold (apply_usage reals) us (opts', m') of
      (opts'', m'') \<Rightarrow> parse_from reals argv (i + length (render opts u) + length (concat (map (render opts') us))) opts'' m'')"
    by (rule Cons.IH) (use opts_ok_fixed [OF f Cons.prems(1)] us at(2) in \<open>simp_all only: r\<close>)
  finally show ?case using a r by (simp add: add.assoc)
qed simp

section \<open>Whole command lines\<close>

lemma remaining_plain: "\<forall>a \<in> set as. cstr_at a 0 \<noteq> Some (CHR ''-'') \<Longrightarrow> remaining str i as = Inr i"
  by (induction as) (auto simp: cstr_at_def)

lemma parse_long_unknown:
  "\<forall>opt \<in> set opts. ignore_long_option (o_tags opt) \<or> o_longoption opt \<noteq> dropWhile (\<lambda>c. c = CHR ''-'') (args ! i) \<Longrightarrow>
    parse_long reals opts i args m = Inl (Argument_not_found (''--'' @ args ! i))"
  by (induction opts) (auto simp: in_base_def)

text \<open>The arguments behind the options: nothing, the mark \<^verbatim>\<open>--\<close> with anything behind it, or arguments that are no options.\<close>

definition rest_ok :: "string list \<Rightarrow> bool" where
  "rest_ok rest \<longleftrightarrow> (\<exists>r. rest = ''--'' # r) \<or> (\<forall>a \<in> set rest. cstr_at a 0 \<noteq> Some (CHR ''-''))"

lemma parse_rest:
  assumes "rest_ok rest" and "drop i argv = rest" and "i \<le> length argv"
  shows "parse_from reals argv i opts m = Inr (i + (if \<exists>r. rest = ''--'' # r then 1 else 0), opts, m)"
proof (cases rest)
  case Nil
  then show ?thesis using assms(2,3) by (subst parse_from.simps) simp
next
  case (Cons a r)
  have i: "i < length argv" "argv ! i = a" using Cons assms(2) by (auto simp: nth_via_drop not_le [symmetric])
  show ?thesis
  proof (cases "a = ''--''")
    case True
    then show ?thesis using i Cons by (subst parse_from.simps) (simp add: parse_one_def cstr_at_def)
  next
    case False
    then have no: "\<forall>a \<in> set rest. cstr_at a 0 \<noteq> Some (CHR ''-'')" using assms(1) Cons by (auto simp: rest_ok_def)
    then show ?thesis using i Cons False assms(2) remaining_plain [of rest a i] by (subst parse_from.simps) (simp add: parse_one_def)
  qed
qed

text \<open>
  C39. A command line that consists of the program name, the rendering of any list of assignments to
  options (by long or short names, each with a text its type accepts) and a rest: \<^verbatim>\<open>parse\<close> returns the index of
  the rest, behind the mark \<^verbatim>\<open>--\<close> if there is one, and has carried out exactly the assignments, in their order,
  with their callbacks and stores. When the rest begins with a long option that does not exist, it throws
  \<^verbatim>\<open>argument_not_found\<close>.
\<close>

theorem parse_command_line:
  assumes "opts_ok opts" and "list_all (usable reals opts) us"
    and "argv = prog # concat (map (render opts) us) @ rest"
  shows "(rest_ok rest \<longrightarrow>
      (\<exists>opts' m'. fold (apply_usage reals) us (opts, m) = (opts', m') \<and>
        opts_parse reals opts argv m = Inr (length argv - length rest + (if \<exists>r. rest = ''--'' # r then 1 else 0), opts', m'))) \<and>
    (\<forall>name r. rest = (''--'' @ name) # r \<longrightarrow> name \<noteq> [] \<longrightarrow> \<not> is_space (hd name) \<longrightarrow> hd name \<noteq> nul \<longrightarrow> hd name \<noteq> CHR ''-'' \<longrightarrow>
      (\<forall>opt \<in> set opts. o_longoption opt \<noteq> name) \<longrightarrow>
      opts_parse reals opts argv m = Inl (Argument_not_found (''----'' @ name)))"
proof -
  let ?xs = "concat (map (render opts) us)"
  obtain opts' m' where f: "fold (apply_usage reals) us (opts, m) = (opts', m')" by fastforce
  have "stands_at argv 1 ?xs" using assms(3) by (simp add: stands_at_def)
  from parse_from_usages [OF assms(1,2) this] have go: "opts_parse reals opts argv m = parse_from reals argv (1 + length ?xs) opts' m'"
    using f by (simp add: opts_parse_def)
  have dr: "drop (1 + length ?xs) argv = rest" "1 + length ?xs = length argv - length rest" "1 + length ?xs \<le> length argv"
    using assms(3) by simp_all
  have fx: "map fixed opts' = map fixed opts"
  proof -
    have "map fixed (fst (fold (apply_usage reals) us s)) = map fixed (fst s)" for s
      by (induction us arbitrary: s) (simp_all add: fixed_apply)
    from this [of "(opts, m)"] show ?thesis by (simp add: f)
  qed
  have "opts_parse reals opts argv m = Inl (Argument_not_found (''----'' @ name))"
    if r: "rest = (''--'' @ name) # r" and c: "name \<noteq> []" "\<not> is_space (hd name)" "hd name \<noteq> nul" "hd name \<noteq> CHR ''-''"
      and unknown: "\<forall>opt \<in> set opts. o_longoption opt \<noteq> name" for name r
  proof -
    let ?i = "1 + length ?xs"
    have i: "?i < length argv" "argv ! ?i = ''--'' @ name" using assms(3) r by (simp_all add: nth_append)
    have dw: "dropWhile (\<lambda>c. c = CHR ''-'') (argv ! ?i) = name" using c i(2) by (cases name) simp_all
    have "o_longoption opt \<noteq> name" if "opt \<in> set opts'" for opt
    proof -
      obtain j where j: "j < length opts'" "opt = opts' ! j" using \<open>opt \<in> set opts'\<close> by (auto simp: in_set_conv_nth)
      have "length opts' = length opts" using map_eq_imp_length_eq [OF fx] .
      then show ?thesis using fixed_nth(3) [OF fx j(1)] j unknown by simp
    qed
    then have "parse_long reals opts' ?i argv m' = Inl (Argument_not_found (''--'' @ argv ! ?i))"
      using parse_long_unknown [of opts' argv ?i reals m'] dw by simp
    then show ?thesis unfolding go using i c by (subst parse_from.simps) (cases name; simp add: parse_one_def cstr_at_def)
  qed
  moreover have "opts_parse reals opts argv m = Inr (length argv - length rest + (if \<exists>r. rest = ''--'' # r then 1 else 0), opts', m')"
    if "rest_ok rest"
    unfolding go using parse_rest [OF that dr(1,3)] unfolding dr(2) .
  ultimately show ?thesis using f by blast
qed

text \<open>A program with a port, stored at cell 0, and a flag.\<close>

definition demo_opts :: "unit opt list" where
  "demo_opts = [new_option () (CHR ''p'') T_int ''port'' (Some 0) [], new_option () (CHR ''v'') T_bool ''verbose'' None []]"

definition demo_argv :: "string list" where
  "demo_argv = [''prog'', ''--port'', ''0x1F90'', ''-v'', ''--'', ''-x'']"

theorem parse_command_line_witness:
  "\<exists>opts m. opts_parse (\<lambda>_ _. None) demo_opts demo_argv Map.empty = Inr (5, opts, m) \<and> get_value (CHR ''p'') opts = Some (Int_val 8080) \<and>
    get_value (CHR ''v'') opts = Some (Bool_val True) \<and> m 0 = Some (Int_val 8080)"
proof -
  let ?us = "[(0, True, ''0x1F90''), (1, False, [])] :: usage list"
  have p: "stoi ''0x1F90'' = Some 8080" by code_simp
  have ok: "opts_ok demo_opts" by (simp add: demo_opts_def opts_ok_def new_option_def)
  have us: "list_all (usable (\<lambda>_ _. None) demo_opts) ?us"
    by (simp add: demo_opts_def new_option_def usage_value_def p or_error_def is_space_def nul_def)
  have argv: "demo_argv = ''prog'' # concat (map (render demo_opts) ?us) @ [''--'', ''-x'']"
    by (simp add: demo_argv_def demo_opts_def new_option_def Let_def)
  from parse_command_line [OF ok us argv, of Map.empty] show ?thesis
    by (auto simp: rest_ok_def demo_argv_def demo_opts_def new_option_def usage_value_def p or_error_def set_value_def Let_def)
qed

section \<open>Findings\<close>

text \<open>The argument \<^verbatim>\<open>-\<close> is read behind its terminator, and an option at the end takes the null pointer for its value.\<close>

lemma parse_reads_out_of_bounds:
  "opts_parse (\<lambda>_ _. None) demo_opts [''prog'', ''-''] m = Inl Undefined"
  "opts_parse (\<lambda>_ _. None) demo_opts [''prog'', ''--port''] m = Inl Undefined"
  by (simp_all add: opts_parse_def parse_from.simps parse_one_def cstr_at_def demo_opts_def new_option_def in_first_def parse_impl_def
      is_space_def nul_def)

text \<open>The position up to which the standard functions have read is not looked at, and they accept a minus for unsigned types.\<close>

lemma parser_accepts_junk:
  "parser (\<lambda>_ _. None) T_int ''12abc'' = Inr (Int_val 12 :: unit opt_value)"
  "parser (\<lambda>_ _. None) T_unsigned_long ''-1'' = Inr (Int_val (2 ^ 64 - 1) :: unit opt_value)"
proof -
  have "stoi ''12abc'' = Some 12" by code_simp
  then show "parser (\<lambda>_ _. None) T_int ''12abc'' = Inr (Int_val 12 :: unit opt_value)" by (simp add: or_error_def)
  have "signed_magnitude (dropWhile is_space ''-1'') = Some (True, 1)" by code_simp
  then show "parser (\<lambda>_ _. None) T_unsigned_long ''-1'' = Inr (Int_val (2 ^ 64 - 1) :: unit opt_value)"
    by (simp add: or_error_def stoul_def)
qed

end
