(* ===== verification/Epoch_Allocator.thy ===== *)
theory Epoch_Allocator
  imports Prelude "HOL-Library.Multiset"
begin

text \<open>
  The allocator of \<^verbatim>\<open>allocator.cpp\<close>, which defers the destruction of objects until no guard that may still use
  them is alive. A guard is an object of class \<^verbatim>\<open>allocator\<close>; its constructor counts it in the active counter. There
  are three counters and three collections of objects that wait for their destruction; the destructor of a
  guard tries to rotate them, and a rotation destroys the objects of the oldest collection. A counter is twice
  the number of its guards, plus one when it is open for new guards.

  Each call is one step here; the calls that the destructor of a guard consists of are definitions of their
  own, so that they can be interleaved. An object stands for one allocation: an address that is allocated again
  is another object. Running a destructor is an entry of a log; the destructors do not call the allocator.
\<close>

section \<open>Lists of objects\<close>

definition NUM_LISTS :: nat where
  "NUM_LISTS = 64"

type_synonym waiting = "nat list list"

definition new_lists :: waiting where
  "new_lists = replicate NUM_LISTS []"

definition lists_append :: "nat \<Rightarrow> u64 \<Rightarrow> waiting \<Rightarrow> waiting" where
  "lists_append ptr mycnt ls = (let i = unat mycnt mod NUM_LISTS in ls[i := ptr # ls ! i])"

text \<open>The destructor of a list destroys what was appended before first; an array destroys its last element first.\<close>

fun list_destruct :: "nat list \<Rightarrow> nat list" where
  "list_destruct [] = []"
| "list_destruct (node # rest) = list_destruct rest @ [node]"

definition lists_delete :: "waiting \<Rightarrow> nat list" where
  "lists_delete ls = concat (map list_destruct (rev ls))"

section \<open>The state\<close>

record epoch =
  e_cells :: "u64 list"
  e_active_cnt :: nat
  e_old_cnt :: nat
  e_oldest_cnt :: nat
  e_active_list :: waiting
  e_old_list :: waiting
  e_oldest_list :: waiting
  e_owned :: "nat set"
  e_destroyed :: "nat list"

definition allocator_init :: epoch where
  "allocator_init = \<lparr>e_cells = [1, 0, 0], e_active_cnt = 0, e_old_cnt = 1, e_oldest_cnt = 2,
    e_active_list = new_lists, e_old_list = new_lists, e_oldest_list = new_lists, e_owned = {}, e_destroyed = []\<rparr>"

definition allocator_destroy :: "epoch \<Rightarrow> epoch" where
  "allocator_destroy e = e\<lparr>e_destroyed := e_destroyed e @ lists_delete (e_oldest_list e) @ lists_delete (e_old_list e) @ lists_delete (e_active_list e),
    e_oldest_list := [], e_old_list := [], e_active_list := []\<rparr>"

text \<open>\<^verbatim>\<open>free\<close> with the time stamp as a parameter; a node that is owned already is left alone.\<close>

definition append_object :: "nat \<Rightarrow> u64 \<Rightarrow> epoch \<Rightarrow> epoch" where
  "append_object ptr t e =
    (if ptr \<in> e_owned e then e
     else e\<lparr>e_owned := insert ptr (e_owned e), e_active_list := lists_append ptr t (e_active_list e)\<rparr>)"

definition allocator_free :: "u64 \<Rightarrow> nat \<Rightarrow> epoch \<Rightarrow> epoch" where
  "allocator_free t ptr e = append_object ptr t e"

definition free_in_order :: "nat \<Rightarrow> epoch \<Rightarrow> epoch" where
  "free_in_order ptr e = append_object ptr 0 e"

definition destroy_object :: "u64 \<Rightarrow> nat \<Rightarrow> epoch \<Rightarrow> epoch" where
  "destroy_object t ptr e = (if ptr = 0 then e else allocator_free t ptr e)"

definition destroy_in_order :: "nat \<Rightarrow> epoch \<Rightarrow> epoch" where
  "destroy_in_order ptr e = (if ptr = 0 then e else free_in_order ptr e)"

section \<open>Guards\<close>

text \<open>An iteration of the constructor: \<open>None\<close> is that the counter is closed or has changed, and it tries again.\<close>

definition guard_enter :: "epoch \<Rightarrow> (nat \<times> epoch) option" where
  "guard_enter e =
    (let cnt = e_active_cnt e; my_cnt = e_cells e ! cnt in
     if my_cnt mod 2 = 1 then Some (cnt, e\<lparr>e_cells := (e_cells e)[cnt := my_cnt + 2]\<rparr>) else None)"

text \<open>The destructor: it leaves its counter, looks at the counters, and tries to close the active one and to rotate.\<close>

definition guard_count_down :: "nat \<Rightarrow> epoch \<Rightarrow> epoch" where
  "guard_count_down cnt e = e\<lparr>e_cells := (e_cells e)[cnt := e_cells e ! cnt - 2]\<rparr>"

definition guard_examine :: "epoch \<Rightarrow> (nat \<times> u64) option" where
  "guard_examine e =
    (let oac = e_cells e ! e_active_cnt e in
     if e_cells e ! e_oldest_cnt e = 0 \<and> e_cells e ! e_old_cnt e = 0 \<and> oac mod 2 = 1 then Some (e_active_cnt e, oac) else None)"

definition rotate_counters :: "epoch \<Rightarrow> epoch" where
  "rotate_counters e = e\<lparr>e_active_cnt := e_oldest_cnt e, e_oldest_cnt := e_old_cnt e, e_old_cnt := e_active_cnt e\<rparr>"

definition rotate_lists :: "epoch \<Rightarrow> epoch" where
  "rotate_lists e = e\<lparr>e_oldest_list := e_old_list e, e_old_list := e_active_list e, e_active_list := new_lists,
    e_destroyed := e_destroyed e @ lists_delete (e_oldest_list e)\<rparr>"

definition open_active :: "epoch \<Rightarrow> epoch" where
  "open_active e = e\<lparr>e_cells := (e_cells e)[e_active_cnt e := e_cells e ! e_active_cnt e + 1]\<rparr>"

definition guard_rotate :: "nat \<times> u64 \<Rightarrow> epoch \<Rightarrow> epoch" where
  "guard_rotate r e =
    (case r of (ac, oac) \<Rightarrow>
     if e_cells e ! ac \<noteq> oac then e
     else open_active (rotate_lists (rotate_counters (e\<lparr>e_cells := (e_cells e)[ac := oac - 1]\<rparr>))))"

definition guard_leave :: "nat \<Rightarrow> epoch \<Rightarrow> epoch" where
  "guard_leave cnt e =
    (let e = guard_count_down cnt e in case guard_examine e of None \<Rightarrow> e | Some r \<Rightarrow> guard_rotate r e)"

section \<open>Memory\<close>

text \<open>
  The node in front of an object: the addresses of the nodes, each with the pointer that \<^verbatim>\<open>::malloc\<close> or
  \<^verbatim>\<open>::aligned_alloc\<close> returned, which is a parameter. \<open>node\<close> is the size of a node.
\<close>

type_synonym nodes = "u64 \<rightharpoonup> u64"

definition allocator_malloc :: "u64 \<Rightarrow> u64 option \<Rightarrow> nodes \<Rightarrow> u64 option \<times> nodes" where
  "allocator_malloc node res h = (case res of None \<Rightarrow> (None, h) | Some res \<Rightarrow> (Some (res + node), h(res \<mapsto> res)))"

definition node_padding :: "u64 \<Rightarrow> u64 \<Rightarrow> u64" where
  "node_padding node align = (if node mod align \<noteq> 0 then align - node mod align else 0)"

definition allocator_malloc_aligned :: "u64 \<Rightarrow> u64 \<Rightarrow> u64 option \<Rightarrow> nodes \<Rightarrow> u64 option \<times> nodes" where
  "allocator_malloc_aligned node align res h =
    (case res of
       None \<Rightarrow> (None, h)
     | Some res \<Rightarrow> (let pad = node_padding node align in (Some (res + node + pad), h(res + pad \<mapsto> res))))"

text \<open>\<^verbatim>\<open>free_now\<close>: the pointer that is passed to \<^verbatim>\<open>::free\<close>.\<close>

definition free_now :: "u64 \<Rightarrow> u64 \<Rightarrow> nodes \<Rightarrow> u64 option" where
  "free_now node ptr h = h (ptr - node)"

definition destroy_now :: "u64 \<Rightarrow> u64 \<Rightarrow> nodes \<Rightarrow> u64 option" where
  "destroy_now node ptr h = (if ptr = 0 then None else free_now node ptr h)"

lemma free_now_base:
  "allocator_malloc node (Some res) h = (Some p, h') \<Longrightarrow> free_now node p h' = Some res"
  "allocator_malloc_aligned node align (Some res) h = (Some p, h') \<Longrightarrow> free_now node p h' = Some res"
  by (auto simp: allocator_malloc_def allocator_malloc_aligned_def free_now_def Let_def)

lemma malloc_aligned_multiple:
  assumes "allocator_malloc_aligned node align (Some res) h = (Some p, h')" and "0 < unat align" and "unat align dvd unat res"
    and "unat res + unat node + unat align \<le> 2 ^ 64"
  shows "unat align dvd unat p"
proof -
  let ?m = "unat node mod unat align"
  have m: "unat (node mod align) = ?m" "?m < unat align" using assms(2) by (simp_all add: unat_mod_distrib)
  have pad: "unat (node_padding node align) = (if ?m = 0 then 0 else unat align - ?m)"
    using m by (auto simp: node_padding_def unat_sub word_le_nat_alt word_unat_eq_iff)
  have p: "p = res + node + node_padding node align" using assms(1) by (auto simp: allocator_malloc_aligned_def Let_def)
  have "unat (res + node) = unat res + unat node" by (rule unat_add_no_wrap) (use assms(2,4) in simp)
  moreover from this have "unat (res + node + node_padding node align) = unat (res + node) + unat (node_padding node align)"
    by (intro unat_add_no_wrap) (use pad m(2) assms(2,4) in \<open>auto split: if_splits\<close>)
  ultimately have u: "unat p = unat res + (unat node + (if ?m = 0 then 0 else unat align - ?m))" using p pad by simp
  have n: "unat node = unat align * (unat node div unat align) + ?m" by simp
  have "unat align dvd unat node + (if ?m = 0 then 0 else unat align - ?m)"
  proof (cases "?m = 0")
    case False
    then have "unat node + (unat align - ?m) = unat align * (unat node div unat align) + unat align" using n m(2) by linarith
    then show ?thesis using False by simp
  qed (simp add: mod_eq_0_iff_dvd)
  then show ?thesis using u assms(3) by simp
qed

section \<open>Several guards\<close>

text \<open>
  The guards that are alive, each with its counter, the guards there ever were, and for every object the
  guards that were alive when it was freed. A guard is never used again after its destructor.
\<close>

record guarded =
  g_epoch :: epoch
  g_guards :: "nat \<rightharpoonup> nat"
  g_used :: "nat set"
  g_alive_at :: "nat \<Rightarrow> nat set"

inductive epoch_step :: "guarded \<Rightarrow> guarded \<Rightarrow> bool" where
  enter: "g \<notin> g_used s \<Longrightarrow> card (dom (g_guards s)) < 2 ^ 62 \<Longrightarrow> guard_enter (g_epoch s) = Some (cnt, e) \<Longrightarrow>
    epoch_step s (s\<lparr>g_epoch := e, g_guards := (g_guards s)(g \<mapsto> cnt), g_used := insert g (g_used s)\<rparr>)"
| free: "ptr \<notin> e_owned (g_epoch s) \<Longrightarrow>
    epoch_step s (s\<lparr>g_epoch := allocator_free t ptr (g_epoch s), g_alive_at := (g_alive_at s)(ptr := dom (g_guards s))\<rparr>)"
| free_again: "ptr \<in> e_owned (g_epoch s) \<Longrightarrow> epoch_step s (s\<lparr>g_epoch := allocator_free t ptr (g_epoch s)\<rparr>)"
| leave: "g_guards s g = Some cnt \<Longrightarrow>
    epoch_step s (s\<lparr>g_epoch := guard_leave cnt (g_epoch s), g_guards := (g_guards s)(g := None)\<rparr>)"

definition no_guards :: guarded where
  "no_guards = \<lparr>g_epoch = allocator_init, g_guards = Map.empty, g_used = {}, g_alive_at = \<lambda>_. {}\<rparr>"

section \<open>The invariant\<close>

definition at_counter :: "(nat \<rightharpoonup> nat) \<Rightarrow> nat \<Rightarrow> nat set" where
  "at_counter gs i = {g. gs g = Some i}"

definition counters_ok :: "(nat \<rightharpoonup> nat) \<Rightarrow> epoch \<Rightarrow> bool" where
  "counters_ok gs e \<longleftrightarrow> length (e_cells e) = 3 \<and> {e_active_cnt e, e_old_cnt e, e_oldest_cnt e} = {0, 1, 2} \<and>
    ran gs \<subseteq> {0, 1, 2} \<and> finite (dom gs) \<and> card (dom gs) \<le> 2 ^ 62 \<and>
    (\<forall>i \<in> {0, 1, 2}. e_cells e ! i = of_nat (2 * card (at_counter gs i) + (if i = e_active_cnt e then 1 else 0)))"

definition items :: "waiting \<Rightarrow> nat list" where
  "items ls = concat ls"

definition lists_ok :: "epoch \<Rightarrow> bool" where
  "lists_ok e \<longleftrightarrow> length (e_active_list e) = NUM_LISTS \<and>
    distinct (e_destroyed e @ items (e_oldest_list e) @ items (e_old_list e) @ items (e_active_list e)) \<and>
    e_owned e = set (e_destroyed e) \<union> set (items (e_oldest_list e)) \<union> set (items (e_old_list e)) \<union> set (items (e_active_list e))"

definition ages_ok :: "(nat \<rightharpoonup> nat) \<Rightarrow> (nat \<Rightarrow> nat set) \<Rightarrow> epoch \<Rightarrow> bool" where
  "ages_ok gs al e \<longleftrightarrow>
    (\<forall>p \<in> set (items (e_old_list e)). \<forall>g \<in> al p \<inter> dom gs. gs g = Some (e_old_cnt e)) \<and>
    (\<forall>p \<in> set (items (e_oldest_list e)) \<union> set (e_destroyed e). al p \<inter> dom gs = {})"

definition epoch_inv :: "guarded \<Rightarrow> bool" where
  "epoch_inv s \<longleftrightarrow> counters_ok (g_guards s) (g_epoch s) \<and> lists_ok (g_epoch s) \<and>
    ages_ok (g_guards s) (g_alive_at s) (g_epoch s) \<and> dom (g_guards s) \<subseteq> g_used s \<and> (\<forall>p. g_alive_at s p \<subseteq> g_used s)"

text \<open>Lists.\<close>

lemma list_destruct_rev [simp]: "list_destruct xs = rev xs"
  by (induction xs) simp_all

lemma lists_delete_items: "lists_delete ls = rev (items ls)"
proof -
  have "list_destruct = rev" by (rule ext) simp
  then show ?thesis by (simp add: lists_delete_def items_def rev_concat rev_map)
qed

lemma items_append:
  assumes "length ls = NUM_LISTS"
  shows "mset (items (lists_append p t ls)) = add_mset p (mset (items ls))"
proof -
  let ?i = "unat t mod NUM_LISTS"
  have i: "?i < length ls" using assms by (simp add: NUM_LISTS_def)
  have "lists_append p t ls = take ?i ls @ (p # ls ! ?i) # drop (Suc ?i) ls"
    using i by (simp add: lists_append_def Let_def upd_conv_take_nth_drop)
  then have "mset (items (lists_append p t ls)) = add_mset p (mset (items (take ?i ls @ ls ! ?i # drop (Suc ?i) ls)))"
    by (simp add: items_def)
  then show ?thesis using i by (simp add: id_take_nth_drop [symmetric])
qed

lemma items_new [simp]: "items new_lists = []"
  by (simp add: items_def new_lists_def)

lemma length_lists [simp]: "length new_lists = NUM_LISTS" "length (lists_append p t ls) = length ls"
  by (simp_all add: new_lists_def lists_append_def Let_def)

text \<open>Counters.\<close>

lemma at_counter_upd:
  "gs g = None \<Longrightarrow> at_counter (gs(g \<mapsto> c)) i = (if i = c then insert g (at_counter gs i) else at_counter gs i)"
  "gs g = Some c \<Longrightarrow> at_counter (gs(g := None)) i = (if i = c then at_counter gs i - {g} else at_counter gs i)"
  by (auto simp: at_counter_def)

lemma at_counter_finite: "finite (dom gs) \<Longrightarrow> finite (at_counter gs i)" "finite (dom gs) \<Longrightarrow> card (at_counter gs i) \<le> card (dom gs)"
proof -
  have "at_counter gs i \<subseteq> dom gs" by (auto simp: at_counter_def)
  then show "finite (dom gs) \<Longrightarrow> finite (at_counter gs i)" "finite (dom gs) \<Longrightarrow> card (at_counter gs i) \<le> card (dom gs)"
    by (simp_all add: finite_subset card_mono)
qed

lemma even_zero: "n \<le> 2 ^ 62 \<Longrightarrow> (of_nat (2 * n) :: u64) = 0 \<longleftrightarrow> n = 0"
proof -
  assume "n \<le> 2 ^ 62"
  then have "unat (of_nat (2 * n) :: u64) = 2 * n" by (intro unat_of_nat_u64) simp
  then show ?thesis unfolding word_unat_eq_iff by simp
qed

lemma odd_mod: "n \<le> 2 ^ 62 \<Longrightarrow> (of_nat (2 * n + 1) :: u64) mod 2 = 1"
proof -
  assume "n \<le> 2 ^ 62"
  then have "unat (of_nat (2 * n + 1) :: u64) = 2 * n + 1" by (intro unat_of_nat_u64) simp
  then show ?thesis unfolding word_unat_eq_iff unat_mod_distrib by simp
qed

lemma counter_ids:
  assumes "{a, b, c} = {0, 1, 2 :: nat}"
  shows "a < 3" and "b < 3" and "c < 3" and "a \<noteq> b" and "b \<noteq> c" and "a \<noteq> c"
proof -
  have "card {a, b, c} = 3" by (simp add: assms)
  then show "a \<noteq> b" and "b \<noteq> c" and "a \<noteq> c" by (auto simp: card_insert_if split: if_splits)
  have "a \<in> {0, 1, 2}" "b \<in> {0, 1, 2}" "c \<in> {0, 1, 2}" using assms by blast+
  then show "a < 3" and "b < 3" and "c < 3" by auto
qed

section \<open>The steps keep the invariant\<close>

lemma counters_okD:
  assumes "counters_ok gs e"
  shows "length (e_cells e) = 3" and "{e_active_cnt e, e_old_cnt e, e_oldest_cnt e} = {0, 1, 2}" and "ran gs \<subseteq> {0, 1, 2}"
    and "finite (dom gs)" and "card (dom gs) \<le> 2 ^ 62" and "card (at_counter gs i) \<le> 2 ^ 62"
    and "i < 3 \<Longrightarrow> e_cells e ! i = of_nat (2 * card (at_counter gs i) + (if i = e_active_cnt e then 1 else 0))"
proof -
  note a = assms [unfolded counters_ok_def]
  show "length (e_cells e) = 3" using a by (elim conjE)
  show "{e_active_cnt e, e_old_cnt e, e_oldest_cnt e} = {0, 1, 2}" using a by (elim conjE)
  show "ran gs \<subseteq> {0, 1, 2}" using a by (elim conjE)
  show f: "finite (dom gs)" using a by (elim conjE)
  show c: "card (dom gs) \<le> 2 ^ 62" using a by (elim conjE)
  show "card (at_counter gs i) \<le> 2 ^ 62" using at_counter_finite(2) [OF f, of i] c by simp
  show "e_cells e ! i = of_nat (2 * card (at_counter gs i) + (if i = e_active_cnt e then 1 else 0))" if "i < 3"
  proof -
    have i: "i \<in> {0, 1, 2}" using that by auto
    have "\<forall>i \<in> {0, 1, 2}. e_cells e ! i = of_nat (2 * card (at_counter gs i) + (if i = e_active_cnt e then 1 else 0))"
      using a by (elim conjE)
    then show ?thesis using i by (rule bspec)
  qed
qed

lemma counters_okI:
  assumes "length (e_cells e) = 3" and "{e_active_cnt e, e_old_cnt e, e_oldest_cnt e} = {0, 1, 2}" and "ran gs \<subseteq> {0, 1, 2}"
    and "finite (dom gs)" and "card (dom gs) \<le> 2 ^ 62"
    and "\<And>i. i < 3 \<Longrightarrow> e_cells e ! i = of_nat (2 * card (at_counter gs i) + (if i = e_active_cnt e then 1 else 0))"
  shows "counters_ok gs e"
  using assms unfolding counters_ok_def by (auto simp del: of_nat_add of_nat_mult)

lemma enter_ok:
  assumes ok: "counters_ok gs e" and g: "gs g = None" and c: "card (dom gs) < 2 ^ 62" and res: "guard_enter e = Some (cnt, e')"
  shows "counters_ok (gs(g \<mapsto> cnt)) e'"
proof -
  note d = counters_okD [OF ok] and ids = counter_ids [OF counters_okD(2) [OF ok]]
  have r: "cnt = e_active_cnt e" "e' = e\<lparr>e_cells := (e_cells e)[cnt := e_cells e ! cnt + 2]\<rparr>"
    using res by (auto simp: guard_enter_def Let_def split: if_splits)
  show ?thesis
  proof (rule counters_okI)
    show "e_cells e' ! i = of_nat (2 * card (at_counter (gs(g \<mapsto> cnt)) i) + (if i = e_active_cnt e' then 1 else 0))" if i: "i < 3" for i
    proof (cases "i = cnt")
      case True
      have "g \<notin> at_counter gs cnt" using g by (simp add: at_counter_def)
      then have "card (at_counter (gs(g \<mapsto> cnt)) cnt) = Suc (card (at_counter gs cnt))"
        using at_counter_upd(1) [of gs g cnt cnt, OF g] at_counter_finite(1) [OF d(4), of cnt] by simp
      moreover have "e_cells e ! cnt = of_nat (2 * card (at_counter gs cnt) + 1)" using d(7) [OF i] True r(1) by simp
      ultimately show ?thesis using True i r d(1) by simp
    next
      case False
      then show ?thesis using d(7) [OF i] at_counter_upd(1) [of gs g cnt i, OF g] r by simp
    qed
    have "dom (gs(g \<mapsto> cnt)) = insert g (dom gs)" "g \<notin> dom gs" using g by auto
    then show "finite (dom (gs(g \<mapsto> cnt)))" "card (dom (gs(g \<mapsto> cnt))) \<le> 2 ^ 62" using d(4) c by simp_all
    have "ran (gs(g \<mapsto> cnt)) \<subseteq> insert cnt (ran gs)" by (auto simp: ran_def)
    moreover have "cnt \<in> {0, 1, 2}" using r(1) ids(1) by auto
    ultimately show "ran (gs(g \<mapsto> cnt)) \<subseteq> {0, 1, 2}" using d(3) by blast
  qed (use d(1,2) r(2) in simp_all)
qed

lemma count_down_ok:
  assumes ok: "counters_ok gs e" and g: "gs g = Some cnt"
  shows "counters_ok (gs(g := None)) (guard_count_down cnt e)"
proof -
  note d = counters_okD [OF ok]
  have "cnt \<in> {0, 1, 2}" using d(3) ranI [of gs g cnt, OF g] by blast
  then have cnt: "cnt < 3" by auto
  show ?thesis
  proof (rule counters_okI)
    show "e_cells (guard_count_down cnt e) ! i =
        of_nat (2 * card (at_counter (gs(g := None)) i) + (if i = e_active_cnt (guard_count_down cnt e) then 1 else 0))" if i: "i < 3" for i
    proof (cases "i = cnt")
      case True
      have "g \<in> at_counter gs cnt" using g by (simp add: at_counter_def)
      then have "card (at_counter gs cnt) = Suc (card (at_counter (gs(g := None)) cnt))"
        using at_counter_upd(2) [of gs g cnt cnt, OF g] at_counter_finite(1) [OF d(4), of cnt] card_Suc_Diff1 [of "at_counter gs cnt" g] by simp
      then show ?thesis using d(7) [OF i] True i d(1) by (simp add: guard_count_down_def)
    next
      case False
      then show ?thesis using d(7) [OF i] at_counter_upd(2) [of gs g cnt i, OF g] by (simp add: guard_count_down_def)
    qed
    show "ran (gs(g := None)) \<subseteq> {0, 1, 2}" using d(3) by (auto simp: ran_def split: if_splits)
    have "dom (gs(g := None)) \<subseteq> dom gs" by auto
    then show "finite (dom (gs(g := None)))" "card (dom (gs(g := None))) \<le> 2 ^ 62"
      using d(4,5) card_mono [of "dom gs" "dom (gs(g := None))"] by (simp_all add: finite_subset)
  qed (use d(1,2) in \<open>simp_all add: guard_count_down_def\<close>)
qed

text \<open>When the two older counters are zero every guard is in the active one.\<close>

lemma examine_active:
  assumes ok: "counters_ok gs e" and ex: "guard_examine e = Some r"
  shows "r = (e_active_cnt e, e_cells e ! e_active_cnt e)" and "at_counter gs (e_old_cnt e) = {}" and "at_counter gs (e_oldest_cnt e) = {}"
    and "gs g = Some i \<Longrightarrow> i = e_active_cnt e"
proof -
  note d = counters_okD [OF ok] and ids = counter_ids [OF counters_okD(2) [OF ok]]
  have z: "e_cells e ! e_oldest_cnt e = 0" "e_cells e ! e_old_cnt e = 0" and r: "r = (e_active_cnt e, e_cells e ! e_active_cnt e)"
    using ex by (auto simp: guard_examine_def Let_def split: if_splits)
  have "e_cells e ! e_old_cnt e = of_nat (2 * card (at_counter gs (e_old_cnt e)))" using d(7) [OF ids(2)] ids(4) by auto
  then have "card (at_counter gs (e_old_cnt e)) = 0" using even_zero [OF d(6)] z(2) by metis
  then show old: "at_counter gs (e_old_cnt e) = {}" using at_counter_finite(1) [OF d(4)] by simp
  have "e_cells e ! e_oldest_cnt e = of_nat (2 * card (at_counter gs (e_oldest_cnt e)))" using d(7) [OF ids(3)] ids(6) by auto
  then have "card (at_counter gs (e_oldest_cnt e)) = 0" using even_zero [OF d(6)] z(1) by metis
  then show oldest: "at_counter gs (e_oldest_cnt e) = {}" using at_counter_finite(1) [OF d(4)] by simp
  show "r = (e_active_cnt e, e_cells e ! e_active_cnt e)" by (rule r)
  show "i = e_active_cnt e" if g: "gs g = Some i"
  proof -
    have "i \<in> {e_active_cnt e, e_old_cnt e, e_oldest_cnt e}" using ranI [of gs g i, OF g] d(2,3) by blast
    then show ?thesis using g old oldest by (auto simp: at_counter_def)
  qed
qed

lemma rotate_fields:
  assumes "r = (e_active_cnt e, e_cells e ! e_active_cnt e)" and "e' = guard_rotate r e"
  shows "e_active_cnt e' = e_oldest_cnt e" and "e_oldest_cnt e' = e_old_cnt e" and "e_old_cnt e' = e_active_cnt e"
    and "e_active_list e' = new_lists" and "e_old_list e' = e_active_list e" and "e_oldest_list e' = e_old_list e"
    and "e_destroyed e' = e_destroyed e @ rev (items (e_oldest_list e))" and "e_owned e' = e_owned e"
    and "e_cells e' = (let cs = (e_cells e)[e_active_cnt e := e_cells e ! e_active_cnt e - 1] in cs[e_oldest_cnt e := cs ! e_oldest_cnt e + 1])"
  using assms by (simp_all add: guard_rotate_def open_active_def rotate_lists_def rotate_counters_def lists_delete_items Let_def)

lemma rotate_counters_ok:
  assumes ok: "counters_ok gs e" and ex: "guard_examine e = Some r"
  shows "counters_ok gs (guard_rotate r e)"
proof -
  note d = counters_okD [OF ok] and ids = counter_ids [OF counters_okD(2) [OF ok]] and x = examine_active [OF ok ex]
  note f = rotate_fields [OF x(1) refl]
  show ?thesis
  proof (rule counters_okI)
    show "length (e_cells (guard_rotate r e)) = 3" using d(1) by (simp add: f(9) Let_def)
    show "{e_active_cnt (guard_rotate r e), e_old_cnt (guard_rotate r e), e_oldest_cnt (guard_rotate r e)} = {0, 1, 2}"
      unfolding f(1-3) using d(2) by (simp add: insert_commute)
    fix i :: nat assume i: "i < 3"
    then have "i \<in> {e_active_cnt e, e_old_cnt e, e_oldest_cnt e}" unfolding d(2) by auto
    then consider "i = e_active_cnt e" | "i = e_old_cnt e" | "i = e_oldest_cnt e" by auto
    then show "e_cells (guard_rotate r e) ! i = of_nat (2 * card (at_counter gs i) + (if i = e_active_cnt (guard_rotate r e) then 1 else 0))"
      by cases (use d(1) d(7) [OF i] ids x(2,3) in \<open>simp_all add: f(1,9) Let_def\<close>)
  qed (use d(3-5) in simp_all)
qed

lemma rotate_lists_ok:
  assumes "lists_ok e" and "r = (e_active_cnt e, e_cells e ! e_active_cnt e)"
  shows "lists_ok (guard_rotate r e)"
  using assms(1) unfolding lists_ok_def rotate_fields [OF assms(2) refl] by auto

lemma rotate_ages_ok:
  assumes ok: "counters_ok gs e" and ages: "ages_ok gs al e" and ex: "guard_examine e = Some r"
  shows "ages_ok gs al (guard_rotate r e)"
proof -
  note x = examine_active [OF ok ex]
  have old: "gs g = Some (e_old_cnt e)" if "p \<in> set (items (e_old_list e))" "g \<in> al p" "g \<in> dom gs" for p g
    using ages that unfolding ages_ok_def by blast
  have none: "gs g \<noteq> Some (e_old_cnt e)" for g using x(2) unfolding at_counter_def by blast
  have 1: "al p \<inter> dom gs = {}" if "p \<in> set (items (e_old_list e))" for p using old [OF that] none by blast
  have 2: "gs g = Some (e_active_cnt e)" if "g \<in> dom gs" for g using x(4) that by blast
  have 3: "al p \<inter> dom gs = {}" if "p \<in> set (items (e_oldest_list e)) \<union> set (e_destroyed e)" for p
    using ages that unfolding ages_ok_def by blast
  show ?thesis
    unfolding ages_ok_def rotate_fields [OF x(1) refl] set_append set_rev using 1 2 3 by blast
qed

lemma ages_okD:
  assumes "ages_ok gs al e"
  shows "p \<in> set (items (e_old_list e)) \<Longrightarrow> g \<in> al p \<Longrightarrow> g \<in> dom gs \<Longrightarrow> gs g = Some (e_old_cnt e)"
    and "p \<in> set (items (e_oldest_list e)) \<union> set (e_destroyed e) \<Longrightarrow> al p \<inter> dom gs = {}"
  using assms unfolding ages_ok_def by blast+

lemma epoch_invD:
  assumes "epoch_inv s"
  shows "counters_ok (g_guards s) (g_epoch s)" and "lists_ok (g_epoch s)" and "ages_ok (g_guards s) (g_alive_at s) (g_epoch s)"
    and "dom (g_guards s) \<subseteq> g_used s" and "g_alive_at s p \<subseteq> g_used s"
  using assms unfolding epoch_inv_def by blast+

lemma step_enter:
  assumes inv: "epoch_inv s" and g: "g \<notin> g_used s" and c: "card (dom (g_guards s)) < 2 ^ 62" and res: "guard_enter (g_epoch s) = Some (cnt, e)"
  shows "epoch_inv (s\<lparr>g_epoch := e, g_guards := (g_guards s)(g \<mapsto> cnt), g_used := insert g (g_used s)\<rparr>)"
proof -
  note d = epoch_invD [OF inv]
  have gn: "g_guards s g = None" using d(4) g by auto
  have e: "e_old_list e = e_old_list (g_epoch s)" "e_oldest_list e = e_oldest_list (g_epoch s)" "e_active_list e = e_active_list (g_epoch s)"
    "e_destroyed e = e_destroyed (g_epoch s)" "e_owned e = e_owned (g_epoch s)" "e_old_cnt e = e_old_cnt (g_epoch s)"
    using res by (auto simp: guard_enter_def Let_def split: if_splits)
  have "counters_ok ((g_guards s)(g \<mapsto> cnt)) e" by (rule enter_ok [OF d(1) gn c res])
  moreover have "lists_ok e" using d(2) unfolding lists_ok_def e .
  moreover have "ages_ok ((g_guards s)(g \<mapsto> cnt)) (g_alive_at s) e"
  proof -
    have al: "g \<notin> g_alive_at s p" for p using d(5) [of p] g by blast
    have "((g_guards s)(g \<mapsto> cnt)) x = Some (e_old_cnt e)"
      if "p \<in> set (items (e_old_list e))" "x \<in> g_alive_at s p \<inter> dom ((g_guards s)(g \<mapsto> cnt))" for p x
    proof -
      have ne: "x \<noteq> g" using al [of p] that(2) by blast
      then have "g_guards s x = Some (e_old_cnt (g_epoch s))" by (intro ages_okD(1) [OF d(3)]) (use that e in auto)
      then show ?thesis using ne e(6) by simp
    qed
    moreover have "g_alive_at s p \<inter> dom ((g_guards s)(g \<mapsto> cnt)) = {}" if "p \<in> set (items (e_oldest_list e)) \<union> set (e_destroyed e)" for p
    proof -
      have "g_alive_at s p \<inter> dom (g_guards s) = {}" by (rule ages_okD(2) [OF d(3)]) (use that e in simp)
      then show ?thesis using al [of p] by auto
    qed
    ultimately show ?thesis unfolding ages_ok_def by blast
  qed
  ultimately show ?thesis using d(4,5) unfolding epoch_inv_def by auto
qed

lemma free_in_order_free: "free_in_order ptr = allocator_free 0 ptr"
  by (rule ext) (simp add: free_in_order_def allocator_free_def)

lemma step_free:
  assumes inv: "epoch_inv s" and ptr: "ptr \<notin> e_owned (g_epoch s)"
  shows "epoch_inv (s\<lparr>g_epoch := allocator_free t ptr (g_epoch s), g_alive_at := (g_alive_at s)(ptr := dom (g_guards s))\<rparr>)"
proof -
  let ?e = "g_epoch s"
  note d = epoch_invD [OF inv]
  have f: "allocator_free t ptr ?e = ?e\<lparr>e_owned := insert ptr (e_owned ?e), e_active_list := lists_append ptr t (e_active_list ?e)\<rparr>"
    using ptr by (simp add: allocator_free_def append_object_def)
  have l: "length (e_active_list ?e) = NUM_LISTS"
    "distinct (e_destroyed ?e @ items (e_oldest_list ?e) @ items (e_old_list ?e) @ items (e_active_list ?e))"
    "e_owned ?e = set (e_destroyed ?e) \<union> set (items (e_oldest_list ?e)) \<union> set (items (e_old_list ?e)) \<union> set (items (e_active_list ?e))"
    using d(2) unfolding lists_ok_def by blast+
  have m: "mset (items (lists_append ptr t (e_active_list ?e))) = mset (ptr # items (e_active_list ?e))" using items_append [OF l(1)] by simp
  have st: "set (items (lists_append ptr t (e_active_list ?e))) = insert ptr (set (items (e_active_list ?e)))"
    using mset_eq_setD [OF m] by simp
  have ds: "distinct (items (lists_append ptr t (e_active_list ?e)))" using mset_eq_imp_distinct_iff [OF m] l(2,3) ptr by simp
  have "lists_ok (allocator_free t ptr ?e)" unfolding f lists_ok_def using l ptr st ds by auto
  moreover have "counters_ok (g_guards s) (allocator_free t ptr ?e)" using d(1) unfolding f counters_ok_def by simp
  moreover have "ages_ok (g_guards s) ((g_alive_at s)(ptr := dom (g_guards s))) (allocator_free t ptr ?e)"
  proof -
    have "x \<noteq> ptr" if "x \<in> set (items (e_old_list ?e)) \<union> set (items (e_oldest_list ?e)) \<union> set (e_destroyed ?e)" for x
      using that ptr l(3) by blast
    then have "((g_alive_at s)(ptr := dom (g_guards s))) x = g_alive_at s x"
      if "x \<in> set (items (e_old_list ?e)) \<union> set (items (e_oldest_list ?e)) \<union> set (e_destroyed ?e)" for x using that by auto
    then show ?thesis using d(3) unfolding f ages_ok_def by simp
  qed
  ultimately show ?thesis using d(4,5) unfolding epoch_inv_def by auto
qed

lemma step_leave:
  assumes inv: "epoch_inv s" and g: "g_guards s g = Some cnt"
  shows "epoch_inv (s\<lparr>g_epoch := guard_leave cnt (g_epoch s), g_guards := (g_guards s)(g := None)\<rparr>)"
proof -
  let ?gs = "(g_guards s)(g := None)" and ?e = "guard_count_down cnt (g_epoch s)"
  note d = epoch_invD [OF inv]
  have c: "counters_ok ?gs ?e" by (rule count_down_ok [OF d(1) g])
  have l: "lists_ok ?e" using d(2) by (simp add: lists_ok_def guard_count_down_def)
  have a: "ages_ok ?gs (g_alive_at s) ?e"
  proof -
    have "?gs x = Some (e_old_cnt ?e)" if "p \<in> set (items (e_old_list ?e))" "x \<in> g_alive_at s p \<inter> dom ?gs" for p x
      using ages_okD(1) [OF d(3), of p x] that by (auto simp: guard_count_down_def split: if_splits)
    moreover have "g_alive_at s p \<inter> dom ?gs = {}" if "p \<in> set (items (e_oldest_list ?e)) \<union> set (e_destroyed ?e)" for p
    proof -
      have "g_alive_at s p \<inter> dom (g_guards s) = {}" by (rule ages_okD(2) [OF d(3)]) (use that in \<open>simp add: guard_count_down_def\<close>)
      then show ?thesis by auto
    qed
    ultimately show ?thesis unfolding ages_ok_def by blast
  qed
  have "counters_ok ?gs (guard_leave cnt (g_epoch s)) \<and> lists_ok (guard_leave cnt (g_epoch s)) \<and> ages_ok ?gs (g_alive_at s) (guard_leave cnt (g_epoch s))"
  proof (cases "guard_examine ?e")
    case None
    then show ?thesis using c l a by (simp add: guard_leave_def)
  next
    case (Some r)
    then show ?thesis
      using rotate_counters_ok [OF c Some] rotate_lists_ok [OF l examine_active(1) [OF c Some]] rotate_ages_ok [OF c a Some]
      by (simp add: guard_leave_def)
  qed
  then show ?thesis using d(4,5) unfolding epoch_inv_def by auto
qed

lemma epoch_inv_step: "epoch_step s s' \<Longrightarrow> epoch_inv s \<Longrightarrow> epoch_inv s'"
proof (induction rule: epoch_step.induct)
  case (free_again ptr s t)
  then show ?case by (simp add: allocator_free_def append_object_def)
qed (simp_all add: step_enter step_free step_leave)

lemma epoch_inv_start: "epoch_inv no_guards"
proof -
  have "counters_ok Map.empty allocator_init"
    by (rule counters_okI) (auto simp: allocator_init_def at_counter_def less_Suc_eq numeral_3_eq_3)
  then show ?thesis by (simp add: epoch_inv_def no_guards_def lists_ok_def ages_ok_def allocator_init_def)
qed

interpretation epoch_system: inductive_invariant "\<lambda>s. s = no_guards" epoch_step epoch_inv
proof
  show "epoch_inv s" if "s = no_guards" for s using that epoch_inv_start by simp
  show "epoch_inv t" if "epoch_inv s" "epoch_step s t" for s t by (rule epoch_inv_step [OF that(2,1)])
qed

section \<open>Safe reclamation\<close>

text \<open>
  C40. In every sequence of guards that are made and destroyed and objects that are freed, with any number of
  guards alive at a time and each call a step: an object is destroyed at most once, and only when every guard
  that was alive when it was freed is gone. No object is lost: what was freed is destroyed, or waits in one of
  the lists, and \<^verbatim>\<open>destroy\<close>, which runs at the end of the program, destroys what is left.
\<close>

theorem reclamation_safe:
  assumes "epoch_step\<^sup>*\<^sup>* no_guards s"
  shows "(\<forall>ptr \<in> set (e_destroyed (g_epoch s)). g_alive_at s ptr \<inter> dom (g_guards s) = {}) \<and>
    distinct (e_destroyed (allocator_destroy (g_epoch s))) \<and>
    set (e_destroyed (allocator_destroy (g_epoch s))) = e_owned (g_epoch s) \<and>
    set (e_destroyed (g_epoch s)) \<subseteq> e_owned (g_epoch s)"
proof -
  have "epoch_inv s" using epoch_system.inv_reachable [OF refl assms] .
  note d = epoch_invD [OF this]
  have "g_alive_at s ptr \<inter> dom (g_guards s) = {}" if "ptr \<in> set (e_destroyed (g_epoch s))" for ptr
    using ages_okD(2) [OF d(3)] that by blast
  then show ?thesis using d(2) by (auto simp: lists_ok_def allocator_destroy_def lists_delete_items)
qed


lemmas rotation_defs = guard_leave_def guard_count_down_def guard_examine_def guard_rotate_def rotate_counters_def rotate_lists_def open_active_def

text \<open>A run with four guards: the object is freed while the first is alive, and destroyed when the third is gone.\<close>

lemma epoch_example:
  "epoch_step\<^sup>*\<^sup>* no_guards
    \<lparr>g_epoch = \<lparr>e_cells = [3, 0, 0], e_active_cnt = 0, e_old_cnt = 1, e_oldest_cnt = 2, e_active_list = new_lists, e_old_list = new_lists,
       e_oldest_list = new_lists, e_owned = {5}, e_destroyed = [5]\<rparr>,
     g_guards = [3 \<mapsto> 0], g_used = {0, 1, 2, 3}, g_alive_at = (\<lambda>_. {})(5 := {0})\<rparr>"
proof -
  let ?ep = "\<lambda>cells a b c old oldest d. \<lparr>e_cells = cells, e_active_cnt = a, e_old_cnt = b, e_oldest_cnt = c, e_active_list = new_lists,
    e_old_list = old, e_oldest_list = oldest, e_owned = {5}, e_destroyed = d\<rparr>"
  let ?st = "\<lambda>e gs used. \<lparr>g_epoch = e, g_guards = gs, g_used = used, g_alive_at = (\<lambda>_. {})(5 := {0})\<rparr>"
  let ?L = "new_lists[7 := [5]]"
  have L: "lists_append 5 7 new_lists = ?L" "lists_delete ?L = [5]" "lists_delete new_lists = []" by code_simp+
  have 1: "epoch_step no_guards (no_guards\<lparr>g_epoch := allocator_init\<lparr>e_cells := [3, 0, 0]\<rparr>, g_guards := [0 \<mapsto> 0], g_used := {0}\<rparr>)" (is "epoch_step _ ?s1")
    using epoch_step.enter [of 0 no_guards 0 "allocator_init\<lparr>e_cells := [3, 0, 0]\<rparr>"]
    by (simp add: no_guards_def allocator_init_def guard_enter_def)
  have 2: "epoch_step ?s1 (?st (allocator_init\<lparr>e_cells := [3, 0, 0], e_active_list := ?L, e_owned := {5}\<rparr>) [0 \<mapsto> 0] {0})" (is "epoch_step _ ?s2")
    using epoch_step.free [of 5 ?s1 7] by (simp add: no_guards_def allocator_init_def allocator_free_def append_object_def L)
  have 3: "epoch_step ?s2 (?st (?ep [0, 0, 1] 2 0 1 ?L new_lists []) Map.empty {0})" (is "epoch_step _ ?s3")
    using epoch_step.leave [of ?s2 0 0]
    by (simp add: allocator_init_def rotation_defs L)
  have 4: "epoch_step ?s3 (?st (?ep [0, 0, 3] 2 0 1 ?L new_lists []) [1 \<mapsto> 2] {0, 1})" (is "epoch_step _ ?s4")
    using epoch_step.enter [of 1 ?s3 2 "?ep [0, 0, 3] 2 0 1 ?L new_lists []"] by (simp add: guard_enter_def insert_commute)
  have 5: "epoch_step ?s4 (?st (?ep [0, 1, 0] 1 2 0 new_lists ?L []) Map.empty {0, 1})" (is "epoch_step _ ?s5")
    using epoch_step.leave [of ?s4 1 2]
    by (simp add: rotation_defs L)
  have 6: "epoch_step ?s5 (?st (?ep [0, 3, 0] 1 2 0 new_lists ?L []) [2 \<mapsto> 1] {0, 1, 2})" (is "epoch_step _ ?s6")
    using epoch_step.enter [of 2 ?s5 1 "?ep [0, 3, 0] 1 2 0 new_lists ?L []"] by (simp add: guard_enter_def insert_commute)
  have 7: "epoch_step ?s6 (?st (?ep [1, 0, 0] 0 1 2 new_lists new_lists [5]) Map.empty {0, 1, 2})" (is "epoch_step _ ?s7")
    using epoch_step.leave [of ?s6 2 1]
    by (simp add: rotation_defs L)
  have 8: "epoch_step ?s7 (?st (?ep [3, 0, 0] 0 1 2 new_lists new_lists [5]) [3 \<mapsto> 0] {0, 1, 2, 3})"
    using epoch_step.enter [of 3 ?s7 0 "?ep [3, 0, 0] 0 1 2 new_lists new_lists [5]"] by (simp add: guard_enter_def insert_commute)
  note more = rtranclp.rtrancl_into_rtrancl [of epoch_step]
  show ?thesis by (rule more [OF more [OF more [OF more [OF more [OF more [OF more [OF r_into_rtranclp [of epoch_step, OF 1] 2] 3] 4] 5] 6] 7] 8])
qed

theorem reclamation_safe_witness:
  "\<exists>s. epoch_step\<^sup>*\<^sup>* no_guards s \<and> e_destroyed (g_epoch s) = [5] \<and> g_alive_at s 5 = {0} \<and> dom (g_guards s) = {3} \<and>
    g_alive_at s 5 \<inter> dom (g_guards s) = {} \<and> distinct (e_destroyed (allocator_destroy (g_epoch s))) \<and>
    set (e_destroyed (allocator_destroy (g_epoch s))) = {5}"
proof (rule exI, intro conjI)
  show "epoch_step\<^sup>*\<^sup>* no_guards
    \<lparr>g_epoch = \<lparr>e_cells = [3, 0, 0], e_active_cnt = 0, e_old_cnt = 1, e_oldest_cnt = 2, e_active_list = new_lists, e_old_list = new_lists,
       e_oldest_list = new_lists, e_owned = {5}, e_destroyed = [5]\<rparr>,
     g_guards = [3 \<mapsto> 0], g_used = {0, 1, 2, 3}, g_alive_at = (\<lambda>_. {})(5 := {0})\<rparr>" by (rule epoch_example)
qed (use reclamation_safe [OF epoch_example] in simp_all)

section \<open>A guard that rotates late\<close>

text \<open>
  The destructor of a guard examines the old counters before it closes the active counter, and the exchange
  that closes it looks at the active counter only. Two destructors are interrupted after \<open>guard_examine\<close>, at
  \<open>e1\<close> and \<open>e3\<close>; after two rotations the counters they looked at are active again and have the same
  value, the old counter now has a guard, and both exchanges succeed. The object \<open>5\<close> is destroyed while the guard that
  entered counter 1 at \<open>e5\<close>, before the object was freed, is alive.
\<close>

lemma late_rotation_unsafe:
  "let join = (\<lambda>e. snd (the (guard_enter e)));
     e1 = guard_count_down 0 (join allocator_init); late1 = the (guard_examine e1);
     e2 = guard_leave 0 (join e1);
     e3 = guard_count_down 2 (join e2); late2 = the (guard_examine e3);
     e4 = guard_leave 2 (join e3);
     e5 = join e4;
     e6 = allocator_free 7 5 e5;
     e7 = guard_leave 1 (join e6);
     e9 = guard_rotate late2 (guard_rotate late1 e7)
   in fst (the (guard_enter e4)) = 1 \<and> e_destroyed e7 = [] \<and> e_cells e7 ! 1 = 2 \<and> e_destroyed e9 = [5] \<and> e_cells e9 ! 1 = 3"
proof -
  let ?ep = "\<lambda>cells a b c act old oldest own d. \<lparr>e_cells = cells, e_active_cnt = a, e_old_cnt = b, e_oldest_cnt = c, e_active_list = act,
    e_old_list = old, e_oldest_list = oldest, e_owned = own, e_destroyed = d\<rparr>"
  let ?N = new_lists and ?L = "new_lists[7 := [5]]"
  have L: "lists_append 5 7 ?N = ?L" "lists_delete ?L = [5]" "lists_delete ?N = []" by code_simp+
  note rotation = rotation_defs L
  have 1: "guard_enter allocator_init = Some (0, ?ep [3, 0, 0] 0 1 2 ?N ?N ?N {} [])" by (simp add: guard_enter_def allocator_init_def)
  have 2: "guard_count_down 0 (?ep [3, 0, 0] 0 1 2 ?N ?N ?N {} []) = ?ep [1, 0, 0] 0 1 2 ?N ?N ?N {} []" by (simp add: guard_count_down_def)
  have 3: "guard_examine (?ep [1, 0, 0] 0 1 2 ?N ?N ?N {} []) = Some (0, 1)" by (simp add: guard_examine_def)
  have 4: "guard_enter (?ep [1, 0, 0] 0 1 2 ?N ?N ?N {} []) = Some (0, ?ep [3, 0, 0] 0 1 2 ?N ?N ?N {} [])" by (simp add: guard_enter_def)
  have 5: "guard_leave 0 (?ep [3, 0, 0] 0 1 2 ?N ?N ?N {} []) = ?ep [0, 0, 1] 2 0 1 ?N ?N ?N {} []" by (simp add: rotation)
  have 6: "guard_enter (?ep [0, 0, 1] 2 0 1 ?N ?N ?N {} []) = Some (2, ?ep [0, 0, 3] 2 0 1 ?N ?N ?N {} [])" by (simp add: guard_enter_def)
  have 7: "guard_count_down 2 (?ep [0, 0, 3] 2 0 1 ?N ?N ?N {} []) = ?ep [0, 0, 1] 2 0 1 ?N ?N ?N {} []" by (simp add: guard_count_down_def)
  have 8: "guard_examine (?ep [0, 0, 1] 2 0 1 ?N ?N ?N {} []) = Some (2, 1)" by (simp add: guard_examine_def)
  have 9: "guard_leave 2 (?ep [0, 0, 3] 2 0 1 ?N ?N ?N {} []) = ?ep [0, 1, 0] 1 2 0 ?N ?N ?N {} []" by (simp add: rotation)
  have 10: "guard_enter (?ep [0, 1, 0] 1 2 0 ?N ?N ?N {} []) = Some (1, ?ep [0, 3, 0] 1 2 0 ?N ?N ?N {} [])" by (simp add: guard_enter_def)
  have 11: "allocator_free 7 5 (?ep [0, 3, 0] 1 2 0 ?N ?N ?N {} []) = ?ep [0, 3, 0] 1 2 0 ?L ?N ?N {5} []"
    by (simp add: allocator_free_def append_object_def L)
  have 12: "guard_enter (?ep [0, 3, 0] 1 2 0 ?L ?N ?N {5} []) = Some (1, ?ep [0, 5, 0] 1 2 0 ?L ?N ?N {5} [])" by (simp add: guard_enter_def)
  have 13: "guard_leave 1 (?ep [0, 5, 0] 1 2 0 ?L ?N ?N {5} []) = ?ep [1, 2, 0] 0 1 2 ?N ?L ?N {5} []" by (simp add: rotation)
  have 14: "guard_rotate (0, 1) (?ep [1, 2, 0] 0 1 2 ?N ?L ?N {5} []) = ?ep [0, 2, 1] 2 0 1 ?N ?N ?L {5} []" by (simp add: rotation)
  have 15: "guard_rotate (2, 1) (?ep [0, 2, 1] 2 0 1 ?N ?N ?L {5} []) = ?ep [0, 3, 0] 1 2 0 ?N ?N ?N {5} [5]" by (simp add: rotation)
  show ?thesis unfolding Let_def 1 option.sel snd_conv 2 3 4 5 6 7 8 9 10 11 12 13 14 15 by simp
qed

end
