(* ===== verification/Protocol.thy ===== *)
theory Protocol
  imports Serializer_Spec
begin

text \<open>
  Remote calls over a stream socket, \<^verbatim>\<open>crossbow/Protocol.hpp\<close>. A request is its length, a command and the
  arguments; a response is its length and the result, or a single byte when there is no result. Client
  and server collect a message in a buffer, piece by piece as the socket delivers it.

  The socket is the environment: an asynchronous operation is a value that says what is asked for, and
  its completion handler is an operation. The address of a new buffer is chosen by a parameter.
\<close>

section \<open>The buffer of a client or server\<close>

text \<open>\<open>pe_cap\<close> is the length of the array; \<open>pe_size\<close> is \<^verbatim>\<open>mCurrSize\<close> or \<^verbatim>\<open>mBufSize\<close>.\<close>

record peer =
  pe_mem :: flat
  pe_buf :: u64
  pe_cap :: u64
  pe_size :: u64

type_synonym new_array = "peer \<Rightarrow> u64 \<Rightarrow> u64"

definition new_client :: "flat \<Rightarrow> u64 \<Rightarrow> peer" where
  "new_client m a = \<lparr>pe_mem = m, pe_buf = a, pe_cap = 1024, pe_size = 1024\<rparr>"

definition store_piece :: "u64 \<Rightarrow> byte list \<Rightarrow> peer \<Rightarrow> peer" where
  "store_piece off bs p = p\<lparr>pe_mem := put_bytes (pe_mem p) (pe_buf p + off) bs\<rparr>"

text \<open>The new array for a message that is longer than the buffer, with the bytes there are.\<close>

definition move_to_new :: "new_array \<Rightarrow> u64 \<Rightarrow> peer \<Rightarrow> peer" where
  "move_to_new new n p =
    (let a = new p n
     in p\<lparr>pe_mem := put_bytes (pe_mem p) a (get_bytes (pe_mem p) (pe_buf p) (unat (pe_size p))), pe_buf := a, pe_cap := n\<rparr>)"

datatype io = Io_error nat | Io_data "byte list"

section \<open>The client\<close>

datatype client_action = Callback "val option" | Callback_error nat "val option" | Client_reads u64 u64

text \<open>\<^verbatim>\<open>ArgSerializer\<close>.\<close>

fun arg_exec :: "(val \<Rightarrow> 'c \<Rightarrow> 'c) \<Rightarrow> val list \<Rightarrow> 'c \<Rightarrow> 'c" where
  "arg_exec f [] c = c"
| "arg_exec f (head # tail) c = arg_exec f tail (f head c)"

definition pod_size_t :: "u64 \<Rightarrow> val" where
  "pod_size_t s = VPod (le_bytes 8 s)"

definition pod_command :: "u32 \<Rightarrow> val" where
  "pod_command cmd = VPod (le_bytes 4 cmd)"

text \<open>\<^verbatim>\<open>execute\<close>: the bytes that are written to the socket.\<close>

definition client_execute :: "new_array \<Rightarrow> u32 \<Rightarrow> val list \<Rightarrow> peer \<Rightarrow> byte list \<times> peer" where
  "client_execute new cmd args c =
    (let s = arg_exec sizer_and args (sizer_and (pod_command cmd) (sizer_and (pod_size_t 0) 0));
         c = (if pe_size c < s then c\<lparr>pe_buf := new c s, pe_cap := s, pe_size := s\<rparr> else c);
         ar = serializer_and (pod_command cmd) (serializer_and (pod_size_t s) \<lparr>ar_mem = pe_mem c, ar_pos = pe_buf c\<rparr>);
         c = c\<lparr>pe_mem := ar_mem (arg_exec serializer_and args ar)\<rparr>
     in (get_bytes (pe_mem c) (pe_buf c) (unat s), c))"

text \<open>\<^verbatim>\<open>readResponse\<close> for a command without a result; \<open>None\<close> is that its assertion fails.\<close>

definition readResponse_void :: "u64 \<Rightarrow> peer \<Rightarrow> client_action list option" where
  "readResponse_void bytes_read c =
    (if bytes_read \<le> 1
     then Some ((if bytes_read \<noteq> 0 then [Callback None] else []) @ [Client_reads (pe_buf c) (pe_size c)])
     else None)"

definition readResponse :: "new_array \<Rightarrow> (val \<Rightarrow> val \<Rightarrow> bool) \<Rightarrow> ty \<Rightarrow> u64 \<Rightarrow> peer \<Rightarrow> client_action \<times> peer" where
  "readResponse new lt t bytes_read c =
    (let respSize = read_size_t (pe_mem c) (pe_buf c)
     in if 8 \<le> bytes_read \<and> respSize = bytes_read
        then (Callback (Some (fst (deserialize lt t (fresh t) (pe_mem c) (pe_buf c + 8)))), c)
        else let c = (if 8 \<le> bytes_read \<and> pe_size c < respSize then move_to_new new respSize c else c)
             in (Client_reads (pe_buf c + bytes_read) (pe_size c - bytes_read), c))"

text \<open>The completion handlers; \<^verbatim>\<open>error\<close> passes a new object when there is a result type.\<close>

definition client_error :: "ty option \<Rightarrow> nat \<Rightarrow> client_action" where
  "client_error t ec = Callback_error ec (map_option fresh t)"

fun client_on_read_void :: "u64 \<Rightarrow> io \<Rightarrow> peer \<Rightarrow> client_action list option \<times> peer" where
  "client_on_read_void bytes_read (Io_error ec) c = (Some [client_error None ec], c)"
| "client_on_read_void bytes_read (Io_data bs) c =
    (let c = store_piece 0 bs c in (readResponse_void (bytes_read + of_nat (length bs)) c, c))"

fun client_on_read :: "new_array \<Rightarrow> (val \<Rightarrow> val \<Rightarrow> bool) \<Rightarrow> ty \<Rightarrow> u64 \<Rightarrow> io \<Rightarrow> peer \<Rightarrow> client_action \<times> peer" where
  "client_on_read new lt t bytes_read (Io_error ec) c = (client_error (Some t) ec, c)"
| "client_on_read new lt t bytes_read (Io_data bs) c =
    readResponse new lt t (bytes_read + of_nat (length bs)) (store_piece bytes_read bs c)"

definition client_on_written :: "new_array \<Rightarrow> (val \<Rightarrow> val \<Rightarrow> bool) \<Rightarrow> ty option \<Rightarrow> nat option \<Rightarrow> peer \<Rightarrow> client_action list option \<times> peer" where
  "client_on_written new lt t ec c =
    (case ec of
       Some ec \<Rightarrow> (Some [client_error t ec], c)
     | None \<Rightarrow> (case t of
         None \<Rightarrow> (readResponse_void 0 c, c)
       | Some t \<Rightarrow> (case readResponse new lt t 0 c of (a, c) \<Rightarrow> (Some [a], c))))"

section \<open>The server\<close>

record server =
  sv_peer :: peer
  sv_quit :: bool
  sv_stopped :: bool
  sv_closed :: bool

datatype server_action = Execute u32 | Server_reads u64 u64 | Server_writes "byte list" | Server_idle

definition new_server :: "flat \<Rightarrow> u64 \<Rightarrow> server" where
  "new_server m a = \<lparr>sv_peer = new_client m a, sv_quit = False, sv_stopped = False, sv_closed = False\<rparr>"

definition server_quit :: "server \<Rightarrow> server" where
  "server_quit s = s\<lparr>sv_quit := True\<rparr>"

definition server_read :: "new_array \<Rightarrow> u64 \<Rightarrow> server \<Rightarrow> server_action \<times> server" where
  "server_read new bytes_read s =
    (let s = (if bytes_read = 0 \<and> sv_quit s then s\<lparr>sv_stopped := True\<rparr> else s);
         p = sv_peer s;
         reqSize = (if bytes_read \<noteq> 0 then read_size_t (pe_mem p) (pe_buf p) else 0)
     in if bytes_read \<noteq> 0 \<and> reqSize = bytes_read
        then (Execute (of_le_bytes (get_bytes (pe_mem p) (pe_buf p + 8) 4)), s)
        else let p = (if 8 \<le> bytes_read \<and> pe_size p < reqSize then (move_to_new new reqSize p)\<lparr>pe_size := reqSize\<rparr> else p)
             in (Server_reads (pe_buf p + bytes_read) (pe_size p - bytes_read), s\<lparr>sv_peer := p\<rparr>))"

fun server_on_read :: "new_array \<Rightarrow> u64 \<Rightarrow> io \<Rightarrow> server \<Rightarrow> server_action \<times> server" where
  "server_on_read new bytes_read (Io_error ec) s = (Server_idle, s\<lparr>sv_closed := True\<rparr>)"
| "server_on_read new bytes_read (Io_data bs) s =
    server_read new (bytes_read + of_nat (length bs)) (s\<lparr>sv_peer := store_piece bytes_read bs (sv_peer s)\<rparr>)"

text \<open>The arguments of a command, and the two callbacks that send its result.\<close>

definition server_args :: "(val \<Rightarrow> val \<Rightarrow> bool) \<Rightarrow> ty option \<Rightarrow> server \<Rightarrow> val option" where
  "server_args lt t s =
    map_option (\<lambda>t. fst (deserialize lt t (fresh t) (pe_mem (sv_peer s)) (pe_buf (sv_peer s) + 8 + 4))) t"

definition respond_void :: "server \<Rightarrow> server_action \<times> server" where
  "respond_void s =
    (let p = store_piece 0 [1] (sv_peer s) in (Server_writes (get_bytes (pe_mem p) (pe_buf p) 1), s\<lparr>sv_peer := p\<rparr>))"

definition respond :: "new_array \<Rightarrow> val \<Rightarrow> server \<Rightarrow> server_action \<times> server" where
  "respond new result s =
    (let n = sizer_and result (sizer_and (pod_size_t 0) 0);
         p = sv_peer s;
         p = (if pe_size p < n then p\<lparr>pe_buf := new p n, pe_cap := n\<rparr> else p);
         ar = serializer_and result (serializer_and (pod_size_t n) \<lparr>ar_mem = pe_mem p, ar_pos = pe_buf p\<rparr>);
         p = p\<lparr>pe_mem := ar_mem ar\<rparr>
     in (Server_writes (get_bytes (pe_mem p) (pe_buf p) (unat n)), s\<lparr>sv_peer := p\<rparr>))"

text \<open>
  \<^verbatim>\<open>execute_impl\<close>: the commands with the types of their arguments and results, and what the implementation
  computes. A command that is not in the list is ignored.
\<close>

type_synonym signature = "u32 \<rightharpoonup> ty option \<times> ty option"

definition execute_impl ::
  "signature \<Rightarrow> (u32 \<Rightarrow> val option \<Rightarrow> val) \<Rightarrow> new_array \<Rightarrow> (val \<Rightarrow> val \<Rightarrow> bool) \<Rightarrow> u32 \<Rightarrow> server \<Rightarrow> server_action \<times> server" where
  "execute_impl sig impl new lt cmd s =
    (case sig cmd of
       None \<Rightarrow> (Server_idle, s)
     | Some (targs, tres) \<Rightarrow>
         (let args = server_args lt targs s
          in case tres of None \<Rightarrow> respond_void s | Some t \<Rightarrow> respond new (impl cmd args) s))"

definition server_on_written :: "new_array \<Rightarrow> ty option \<Rightarrow> nat option \<Rightarrow> server \<Rightarrow> server_action \<times> server" where
  "server_on_written new tres ec s =
    (case ec of
       Some ec \<Rightarrow> (Server_idle, case tres of None \<Rightarrow> s | Some t \<Rightarrow> s\<lparr>sv_closed := True\<rparr>)
     | None \<Rightarrow> server_read new 0 s)"

section \<open>A message that arrives in pieces\<close>

text \<open>
  The socket delivers a message: each element of \<open>ks\<close> is the number of bytes that are ready when a read is
  started, of which it returns what fits. \<open>wants\<close> is the number of bytes that an action asks for, if it is a read.
\<close>

fun deliver_pieces ::
  "('a \<Rightarrow> nat option) \<Rightarrow> (u64 \<Rightarrow> io \<Rightarrow> 's \<Rightarrow> 'a \<times> 's) \<Rightarrow> nat list \<Rightarrow> byte list \<Rightarrow> u64 \<Rightarrow> 'a \<times> 's \<Rightarrow> 'a \<times> 's" where
  "deliver_pieces wants on_read [] bs br r = r"
| "deliver_pieces wants on_read (k # ks) bs br (a, s) =
    (case wants a of
       None \<Rightarrow> (a, s)
     | Some n \<Rightarrow> (let now = take (min k n) bs
         in deliver_pieces wants on_read ks (drop (min k n) bs) (br + of_nat (length now)) (on_read br (Io_data now) s)))"

fun server_wants :: "server_action \<Rightarrow> nat option" where
  "server_wants (Server_reads a n) = Some (unat n)"
| "server_wants _ = None"

fun client_wants :: "client_action \<Rightarrow> nat option" where
  "client_wants (Client_reads a n) = Some (unat n)"
| "client_wants _ = None"

text \<open>
  An interface for both sides: \<open>good msg pre r\<close> says that the part \<open>pre\<close> of the message \<open>msg\<close> has arrived and more is
  asked for, \<open>complete msg r\<close> that all of it has arrived. The length, the first eight bytes, must arrive in
  one piece.
\<close>

locale collector =
  fixes wants :: "'a \<Rightarrow> nat option" and on_read :: "u64 \<Rightarrow> io \<Rightarrow> 's \<Rightarrow> 'a \<times> 's"
    and good :: "byte list \<Rightarrow> byte list \<Rightarrow> 'a \<times> 's \<Rightarrow> bool" and complete :: "byte list \<Rightarrow> 'a \<times> 's \<Rightarrow> bool"
  assumes asks: "good msg pre (a, s) \<Longrightarrow> \<exists>n. wants a = Some n \<and> 0 < n \<and> (pre = [] \<longrightarrow> 8 \<le> n) \<and> 8 \<le> length msg"
    and piece: "good msg pre (a, s) \<Longrightarrow> wants a = Some n \<Longrightarrow> msg = pre @ bs @ rest \<Longrightarrow> bs \<noteq> [] \<Longrightarrow> length bs \<le> n \<Longrightarrow>
      (pre = [] \<Longrightarrow> 8 \<le> length bs) \<Longrightarrow>
      (if rest = [] then complete msg (on_read (of_nat (length pre)) (Io_data bs) s) else good msg (pre @ bs) (on_read (of_nat (length pre)) (Io_data bs) s))"
    and ended: "complete msg (a, s) \<Longrightarrow> wants a = None"
begin

lemma deliver_ended: "complete msg r \<Longrightarrow> deliver_pieces wants on_read ks bs br r = r"
  using ended by (cases ks; cases r) auto

lemma deliver_complete:
  assumes "good msg pre r" and "msg = pre @ rest" and "rest \<noteq> []" and "list_all (\<lambda>k. 1 \<le> k) ks" and "pre = [] \<Longrightarrow> 8 \<le> hd ks"
    and "length rest \<le> length ks"
  shows "complete msg (deliver_pieces wants on_read ks rest (of_nat (length pre)) r)"
  using assms
proof (induction ks arbitrary: pre rest r)
  case (Cons k ks)
  obtain a s where r: "r = (a, s)" by fastforce
  obtain n where n: "wants a = Some n" "0 < n" "pre = [] \<Longrightarrow> 8 \<le> n" "8 \<le> length msg" using asks Cons.prems(1) r by blast
  let ?now = "take (min k n) rest" and ?rest = "drop (min k n) rest"
  have now: "?now \<noteq> []" "length ?now \<le> n" "length ?rest < length rest" using Cons.prems(3,4) n(2) by auto
  have eight: "8 \<le> length ?now" if "pre = []" using that Cons.prems(2,5) n(3,4) by simp
  have p: "if ?rest = [] then complete msg (on_read (of_nat (length pre)) (Io_data ?now) s)
      else good msg (pre @ ?now) (on_read (of_nat (length pre)) (Io_data ?now) s)"
    by (rule piece [OF Cons.prems(1) [unfolded r] n(1) _ now(1,2) eight]) (simp_all add: Cons.prems(2))
  have l: "of_nat (length pre) + of_nat (length ?now) = (of_nat (length (pre @ ?now)) :: u64)" by simp
  show ?case
  proof (cases "?rest = []")
    case True
    then show ?thesis using p deliver_ended by (simp add: r n(1) Let_def)
  next
    case False
    have "complete msg (deliver_pieces wants on_read ks ?rest (of_nat (length (pre @ ?now))) (on_read (of_nat (length pre)) (Io_data ?now) s))"
      by (rule Cons.IH) (use p False Cons.prems now in auto)
    then show ?thesis by (simp add: r n(1) Let_def l [simplified])
  qed
qed simp

end

section \<open>What the buffers hold\<close>

lemma put_same:
  assumes "found m a bs"
  shows "put_bytes m a bs = m"
proof
  fix x
  have "m x = bs ! unat (x - a)" if "unat (x - a) < length bs"
    using assms that nth_get_bytes [of "unat (x - a)" "length bs" m a] by (simp add: found_def)
  then show "put_bytes m a bs x = m x" by (simp add: put_bytes_def)
qed

lemma found_put_append:
  assumes "found m a xs" and "length xs + length ys \<le> 2 ^ 64"
  shows "found (put_bytes m (a + of_nat (length xs)) ys) a (xs @ ys)"
proof -
  have "put_bytes m (a + of_nat (length xs)) ys = put_bytes m a (xs @ ys)"
    using put_bytes_append [OF assms(2), of m a] put_same [OF assms(1)] by simp
  then show ?thesis using assms(2) get_put_same [of "xs @ ys"] by (simp add: found_def del: found_append)
qed

lemma found_prefix: "found m a (xs @ ys) \<Longrightarrow> found m a xs"
  by simp

lemma found_move:
  assumes "found (pe_mem p) (pe_buf p) bs" and "length bs \<le> unat (pe_size p)"
  shows "found (pe_mem (move_to_new new n p)) (pe_buf (move_to_new new n p)) bs"
proof -
  let ?c = "get_bytes (pe_mem p) (pe_buf p) (unat (pe_size p))"
  have "unat (pe_size p) \<le> 2 ^ 64" using u64_lt [of "pe_size p"] by simp
  then have "found (pe_mem (move_to_new new n p)) (pe_buf (move_to_new new n p)) ?c"
    by (simp add: move_to_new_def Let_def found_def get_put_same)
  moreover have "?c = bs @ drop (length bs) ?c"
    using assms get_bytes_sub [of 0 "length bs" "unat (pe_size p)" "pe_mem p" "pe_buf p"] append_take_drop_id [of "length bs" ?c]
    by (simp add: found_def)
  ultimately show ?thesis using found_prefix by metis
qed

section \<open>The server collects a request\<close>

text \<open>Requests and responses start with their length.\<close>

definition framed :: "byte list \<Rightarrow> bool" where
  "framed msg \<longleftrightarrow> (\<exists>content. msg = le_bytes 8 (of_nat (length msg) :: u64) @ content) \<and> length msg < 2 ^ 64"

lemma framed_length: "framed msg \<Longrightarrow> 8 \<le> length msg"
  unfolding framed_def by (metis le_add1 length_append length_le_bytes)

lemma framed_size:
  assumes "framed msg" and "msg = pre @ rest" and "8 \<le> length pre" and "found m a pre"
  shows "read_size_t m a = of_nat (length msg)"
proof -
  have "take 8 msg = le_bytes 8 (of_nat (length msg) :: u64)" using assms(1) unfolding framed_def
    by (metis append_eq_conv_conj length_le_bytes)
  then have "pre = le_bytes 8 (of_nat (length msg) :: u64) @ drop 8 pre" using assms(2,3) by (metis append_take_drop_id take_append take_all_iff append_Nil2 diff_is_0_eq take0)
  then show ?thesis using assms(4) found_size_t found_prefix by metis
qed

definition server_good :: "byte list \<Rightarrow> byte list \<Rightarrow> server_action \<times> server \<Rightarrow> bool" where
  "server_good msg pre r \<longleftrightarrow> framed msg \<and> (case r of (a, s) \<Rightarrow> let p = sv_peer s in
    a = Server_reads (pe_buf p + of_nat (length pre)) (pe_size p - of_nat (length pre)) \<and> found (pe_mem p) (pe_buf p) pre \<and>
    length pre < unat (pe_size p) \<and> 8 \<le> unat (pe_size p) \<and> (pre = [] \<or> 8 \<le> length pre))"

definition server_complete :: "byte list \<Rightarrow> server_action \<times> server \<Rightarrow> bool" where
  "server_complete msg r \<longleftrightarrow> (case r of (a, s) \<Rightarrow> let p = sv_peer s in
    a = Execute (of_le_bytes (get_bytes (pe_mem p) (pe_buf p + 8) 4)) \<and> found (pe_mem p) (pe_buf p) msg \<and> 8 \<le> unat (pe_size p))"

lemma room_left: "n < unat (w :: u64) \<Longrightarrow> unat (w - of_nat n) = unat w - n"
proof -
  assume n: "n < unat w"
  then have "unat (of_nat n :: u64) = n" using u64_lt [of w] by (intro unat_of_nat_u64) simp
  then show ?thesis using n by (simp add: unat_sub word_le_nat_alt)
qed

lemma server_piece:
  assumes "framed msg" and "msg = pre @ rest" and "8 \<le> length pre" and "found (pe_mem (sv_peer s)) (pe_buf (sv_peer s)) pre"
    and "length pre \<le> unat (pe_size (sv_peer s))"
  shows "if rest = [] then server_complete msg (server_read new (of_nat (length pre)) s) else server_good msg pre (server_read new (of_nat (length pre)) s)"
proof -
  let ?p = "sv_peer s"
  have lt: "length msg < 2 ^ 64" using assms(1) by (simp add: framed_def)
  have sz: "read_size_t (pe_mem ?p) (pe_buf ?p) = of_nat (length msg)" by (rule framed_size [OF assms(1-4)])
  have pre: "unat (of_nat (length pre) :: u64) = length pre" using lt assms(2) by (intro unat_of_nat_u64) simp
  have ne: "(of_nat (length pre) :: u64) \<noteq> 0" "8 \<le> (of_nat (length pre) :: u64)"
    using pre assms(3) by (auto simp: word_le_nat_alt)
  have mu: "unat (of_nat (length msg) :: u64) = length msg" using lt by (intro unat_of_nat_u64) simp
  show ?thesis
  proof (cases "rest = []")
    case True
    then show ?thesis using assms ne sz by (simp add: server_read_def Let_def server_complete_def)
  next
    case False
    then have "length pre < length msg" using assms(2) by simp
    then have d: "(of_nat (length msg) :: u64) \<noteq> of_nat (length pre)" using mu pre by (metis less_irrefl)
    show ?thesis
    proof (cases "pe_size ?p < of_nat (length msg)")
      case True
      then have "unat (pe_size ?p) < length msg" by (simp add: word_less_nat_alt mu)
      moreover have "found (pe_mem (move_to_new new (of_nat (length msg)) ?p)) (pe_buf (move_to_new new (of_nat (length msg)) ?p)) pre"
        by (rule found_move [OF assms(4,5)])
      ultimately show ?thesis
        using True False d ne sz assms(1,3) \<open>length pre < length msg\<close> mu framed_length [OF assms(1)]
        by (simp add: server_read_def Let_def server_good_def move_to_new_def)
    next
      case le: False
      then have "length msg \<le> unat (pe_size ?p)" by (simp add: word_less_nat_alt mu)
      then show ?thesis using le False d ne sz assms(1,3,4) \<open>length pre < length msg\<close> framed_length [OF assms(1)]
        by (simp add: server_read_def Let_def server_good_def)
    qed
  qed
qed

interpretation server_side: collector server_wants "server_on_read new" server_good server_complete for new
proof
  fix msg pre a s
  assume "server_good msg pre (a, s)"
  then show "\<exists>n. server_wants a = Some n \<and> 0 < n \<and> (pre = [] \<longrightarrow> 8 \<le> n) \<and> 8 \<le> length msg"
    by (auto simp: server_good_def Let_def room_left framed_length)
next
  fix msg pre a s n bs rest
  assume g: "server_good msg pre (a, s)" and w: "server_wants a = Some n" and m: "msg = pre @ bs @ rest" and bs: "bs \<noteq> []" "length bs \<le> n" "pre = [] \<Longrightarrow> 8 \<le> length bs"
  let ?p = "store_piece (of_nat (length pre)) bs (sv_peer s)"
  have n: "n = unat (pe_size (sv_peer s)) - length pre" "length pre < unat (pe_size (sv_peer s))" "framed msg"
    and f: "found (pe_mem (sv_peer s)) (pe_buf (sv_peer s)) pre"
    using g w by (auto simp: server_good_def Let_def room_left)
  have "found (pe_mem ?p) (pe_buf ?p) (pre @ bs)"
    unfolding store_piece_def using found_put_append [OF f, of bs] n(3) m by (simp add: framed_def del: found_append)
  moreover have "8 \<le> length (pre @ bs)" using g bs(3) by (auto simp: server_good_def Let_def)
  moreover have "length (pre @ bs) \<le> unat (pe_size ?p)" using n bs(2) by (simp add: store_piece_def)
  ultimately have "if rest = [] then server_complete msg (server_read new (of_nat (length (pre @ bs))) (s\<lparr>sv_peer := ?p\<rparr>))
      else server_good msg (pre @ bs) (server_read new (of_nat (length (pre @ bs))) (s\<lparr>sv_peer := ?p\<rparr>))"
    using m n(3) by (intro server_piece) simp_all
  then show "if rest = [] then server_complete msg (server_on_read new (of_nat (length pre)) (Io_data bs) s)
      else server_good msg (pre @ bs) (server_on_read new (of_nat (length pre)) (Io_data bs) s)"
    by (simp only: server_on_read.simps length_append of_nat_add)
next
  show "server_wants a = None" if "server_complete msg (a, s)" for msg a s using that by (simp add: server_complete_def Let_def)
qed

section \<open>The client collects a response\<close>

text \<open>The response must fit into the buffer that there is.\<close>

definition client_good :: "byte list \<Rightarrow> byte list \<Rightarrow> client_action \<times> peer \<Rightarrow> bool" where
  "client_good msg pre r \<longleftrightarrow> framed msg \<and> (case r of (a, c) \<Rightarrow>
    a = Client_reads (pe_buf c + of_nat (length pre)) (pe_size c - of_nat (length pre)) \<and> found (pe_mem c) (pe_buf c) pre \<and>
    length pre < length msg \<and> length msg \<le> unat (pe_size c) \<and> (pre = [] \<or> 8 \<le> length pre))"

definition client_complete :: "(val \<Rightarrow> val \<Rightarrow> bool) \<Rightarrow> ty \<Rightarrow> byte list \<Rightarrow> client_action \<times> peer \<Rightarrow> bool" where
  "client_complete lt t msg r \<longleftrightarrow> (case r of (a, c) \<Rightarrow>
    a = Callback (Some (fst (deserialize lt t (fresh t) (pe_mem c) (pe_buf c + 8)))) \<and> found (pe_mem c) (pe_buf c) msg)"

lemma client_piece:
  assumes "framed msg" and "msg = pre @ rest" and "8 \<le> length pre" and "found (pe_mem c) (pe_buf c) pre" and "length msg \<le> unat (pe_size c)"
  shows "if rest = [] then client_complete lt t msg (readResponse new lt t (of_nat (length pre)) c)
    else client_good msg pre (readResponse new lt t (of_nat (length pre)) c)"
proof -
  have lt: "length msg < 2 ^ 64" using assms(1) by (simp add: framed_def)
  have sz: "read_size_t (pe_mem c) (pe_buf c) = of_nat (length msg)" by (rule framed_size [OF assms(1-4)])
  have pre: "unat (of_nat (length pre) :: u64) = length pre" using lt assms(2) by (intro unat_of_nat_u64) simp
  have mu: "unat (of_nat (length msg) :: u64) = length msg" using lt by (intro unat_of_nat_u64) simp
  have ne: "8 \<le> (of_nat (length pre) :: u64)" using pre assms(3) by (auto simp: word_le_nat_alt)
  have le: "\<not> pe_size c < of_nat (length msg)" using assms(5) mu by (simp add: word_less_nat_alt)
  show ?thesis
  proof (cases "rest = []")
    case True
    then show ?thesis using assms ne sz by (simp add: readResponse_def Let_def client_complete_def)
  next
    case False
    then have "length pre < length msg" using assms(2) by simp
    moreover from this have "(of_nat (length msg) :: u64) \<noteq> of_nat (length pre)" using mu pre by (metis less_irrefl)
    ultimately show ?thesis using False le ne sz assms(1,3-5) by (simp add: readResponse_def Let_def client_good_def)
  qed
qed

interpretation client_side: collector client_wants "client_on_read new lt t" client_good "client_complete lt t" for new lt t
proof
  fix msg pre a c
  assume "client_good msg pre (a, c)"
  then show "\<exists>n. client_wants a = Some n \<and> 0 < n \<and> (pre = [] \<longrightarrow> 8 \<le> n) \<and> 8 \<le> length msg"
    by (auto simp: client_good_def room_left framed_length dest: framed_length)
next
  fix msg pre a c n bs rest
  assume g: "client_good msg pre (a, c)" and w: "client_wants a = Some n" and m: "msg = pre @ bs @ rest" and bs: "bs \<noteq> []" "length bs \<le> n" "pre = [] \<Longrightarrow> 8 \<le> length bs"
  let ?c = "store_piece (of_nat (length pre)) bs c"
  have n: "length msg \<le> unat (pe_size c)" "framed msg" and f: "found (pe_mem c) (pe_buf c) pre"
    using g by (auto simp: client_good_def)
  have "found (pe_mem ?c) (pe_buf ?c) (pre @ bs)"
    unfolding store_piece_def using found_put_append [OF f, of bs] n(2) m by (simp add: framed_def del: found_append)
  moreover have "8 \<le> length (pre @ bs)" using g bs(3) by (auto simp: client_good_def)
  ultimately have "if rest = [] then client_complete lt t msg (readResponse new lt t (of_nat (length (pre @ bs))) ?c)
      else client_good msg (pre @ bs) (readResponse new lt t (of_nat (length (pre @ bs))) ?c)"
    using m n by (intro client_piece) (simp_all add: store_piece_def)
  then show "if rest = [] then client_complete lt t msg (client_on_read new lt t (of_nat (length pre)) (Io_data bs) c)
      else client_good msg (pre @ bs) (client_on_read new lt t (of_nat (length pre)) (Io_data bs) c)"
    by (simp only: client_on_read.simps length_append of_nat_add)
next
  show "client_wants a = None" if "client_complete lt t msg (a, c)" for msg a c using that by (simp add: client_complete_def)
qed

section \<open>Calls\<close>

text \<open>\<^verbatim>\<open>argsType\<close>: one argument is passed as it is, several as a tuple.\<close>

fun args_type :: "ty list \<Rightarrow> ty option" where
  "args_type [] = None"
| "args_type [t] = Some t"
| "args_type ts = Some (Tuple ts)"

fun args_value :: "val list \<Rightarrow> val option" where
  "args_value [] = None"
| "args_value [v] = Some v"
| "args_value vs = Some (VTuple vs)"

definition request_bytes :: "u32 \<Rightarrow> val list \<Rightarrow> byte list" where
  "request_bytes cmd args =
    (let body = concat (map enc args) in le_bytes 8 (of_nat (12 + length body) :: u64) @ le_bytes 4 cmd @ body)"

definition response_bytes :: "val \<Rightarrow> byte list" where
  "response_bytes v = le_bytes 8 (of_nat (8 + length (enc v)) :: u64) @ enc v"

lemma framed_messages:
  "length (request_bytes cmd args) < 2 ^ 64 \<Longrightarrow> framed (request_bytes cmd args)" "length (response_bytes v) < 2 ^ 64 \<Longrightarrow> framed (response_bytes v)"
  by (auto simp: framed_def request_bytes_def response_bytes_def Let_def)

lemma arg_exec_fold: "arg_exec f args c = fold f args c"
  by (induction args arbitrary: c) simp_all

lemma client_execute_bytes:
  assumes "list_all2 (has_type lt) ts args" and "length (request_bytes cmd args) < 2 ^ 64"
  shows "fst (client_execute new cmd args c) = request_bytes cmd args" and "pe_size c \<le> pe_size (snd (client_execute new cmd args c))"
proof -
  let ?s = "of_nat (length (request_bytes cmd args)) :: u64"
  have s: "arg_exec sizer_and args (sizer_and (pod_command cmd) (sizer_and (pod_size_t 0) 0)) = ?s"
    using fold_size [of args sizer_and enc] by (simp add: arg_exec_fold sizer_length pod_command_def pod_size_t_def request_bytes_def Let_def)
  have pods: "serializer_and (pod_command cmd) (serializer_and (pod_size_t ?s) ar) = put (le_bytes 8 ?s @ le_bytes 4 cmd) ar" for ar
    by (simp add: pod_command_def pod_size_t_def ser_pod_def put_append)
  have "serializer_and v ar = put (enc v) ar" if "v \<in> set args" "length (enc v) \<le> 2 ^ 64" for v ar
    using assms(1) that serializer_puts by (metis in_set_conv_nth list_all2_conv_all_nth)
  then have f: "fold serializer_and args (put (le_bytes 8 ?s @ le_bytes 4 cmd) ar) = put ((le_bytes 8 ?s @ le_bytes 4 cmd) @ concat (map enc args)) ar" for ar
    by (rule fold_put) (use assms(2) in \<open>simp_all add: request_bytes_def Let_def\<close>)
  have rq: "request_bytes cmd args = (le_bytes 8 ?s @ le_bytes 4 cmd) @ concat (map enc args)" by (simp add: request_bytes_def Let_def)
  have w: "arg_exec serializer_and args (serializer_and (pod_command cmd) (serializer_and (pod_size_t ?s) ar)) = put (request_bytes cmd args) ar" for ar
    unfolding arg_exec_fold pods by (rule trans [OF f]) (rule arg_cong [where f = "\<lambda>x. put x ar"], rule rq [symmetric])
  have u: "unat ?s = length (request_bytes cmd args)" using assms(2) by (intro unat_of_nat_u64) simp
  show "fst (client_execute new cmd args c) = request_bytes cmd args"
    unfolding client_execute_def s Let_def w using assms(2) u by (simp add: put_def get_put_same)
  show "pe_size c \<le> pe_size (snd (client_execute new cmd args c))"
    unfolding client_execute_def s Let_def by (simp add: less_imp_le)
qed

lemma respond_bytes:
  assumes "has_type lt t v" and "length (response_bytes v) < 2 ^ 64"
  shows "fst (respond new v s) = Server_writes (response_bytes v)"
proof -
  let ?n = "of_nat (length (response_bytes v)) :: u64"
  have n: "sizer_and v (sizer_and (pod_size_t 0) 0) = ?n" by (simp add: sizer_length pod_size_t_def response_bytes_def)
  have "serializer_and v (serializer_and (pod_size_t ?n) ar) = put (response_bytes v) ar" for ar
    using assms serializer_puts [OF assms(1)] by (simp add: pod_size_t_def ser_pod_def put_append response_bytes_def)
  moreover have "unat ?n = length (response_bytes v)" using assms(2) by (intro unat_of_nat_u64) simp
  ultimately show ?thesis unfolding respond_def n Let_def using assms(2) by (simp add: put_def get_put_same)
qed

lemma server_args_found:
  assumes "list_all2 (has_type lt) ts args" and "found (pe_mem (sv_peer s)) (pe_buf (sv_peer s)) (request_bytes cmd args)"
  shows "server_args lt (args_type ts) s = args_value args"
    and "of_le_bytes (get_bytes (pe_mem (sv_peer s)) (pe_buf (sv_peer s) + 8) 4) = cmd"
proof -
  let ?m = "pe_mem (sv_peer s)" and ?a = "pe_buf (sv_peer s)"
  have f: "found ?m (?a + 8) (le_bytes 4 cmd)" "found ?m (?a + 8 + 4) (concat (map enc args))"
    using assms(2) by (simp_all add: request_bytes_def Let_def)
  show "of_le_bytes (get_bytes ?m (?a + 8) 4) = cmd" using f(1) by (simp add: found_def u32_codec.dec_enc)
  have read: "fst (deserialize lt t (fresh t) ?m (?a + 8 + 4)) = v" if "has_type lt t v" "enc v = concat (map enc args)" for t v
    using readsD [OF deserializer_reads [OF that(1)]] f(2) that(2) by (simp add: deserialize_def)
  show "server_args lt (args_type ts) s = args_value args"
  proof (cases "length args < 2")
    case True
    then show ?thesis using assms(1) read
      by (cases args; cases ts) (auto simp: server_args_def)
  next
    case False
    then obtain v w vs where vs: "args = v # w # vs" by (metis One_nat_def Suc_1 length_Cons less_2_cases_iff list.exhaust list.size(3))
    moreover from this obtain a b ts' where "ts = a # b # ts'" using assms(1) by (auto simp: list_all2_Cons2)
    ultimately show ?thesis using read [of "Tuple ts" "VTuple args"] assms(1) by (simp add: server_args_def has_type_simps)
  qed
qed

text \<open>
  C37: a call of a command with a result, and its answer. The request reaches the server in any pieces of at least one byte of which the
  first has at least eight, whatever its length; the server finds the command and the arguments, and the
  client gets the result that the implementation computed, in pieces of the same kind, provided that the
  response fits into the buffer that the client has. A longer response is never read and a shorter first
  piece may be misread, as the last section shows.
\<close>

theorem call_round_trip:
  assumes args: "list_all2 (has_type lt) ts args" "length (request_bytes cmd args) < 2 ^ 64"
    and sig: "sig cmd = Some (args_type ts, Some t)"
    and res: "has_type lt t (impl cmd (args_value args))" "length (response_bytes (impl cmd (args_value args))) \<le> unat (pe_size c)"
    and ks: "list_all (\<lambda>k. 1 \<le> k) ks" "8 \<le> hd ks" "length (request_bytes cmd args) \<le> length ks" "8 \<le> unat (pe_size (sv_peer s))"
    and ks': "list_all (\<lambda>k. 1 \<le> k) ks'" "8 \<le> hd ks'" "length (response_bytes (impl cmd (args_value args))) \<le> length ks'"
  shows "\<exists>c' s' s''. client_execute new cmd args c = (request_bytes cmd args, c') \<and>
    deliver_pieces server_wants (server_on_read new) ks (request_bytes cmd args) 0 (server_read new 0 s) = (Execute cmd, s') \<and>
    execute_impl sig impl new lt cmd s' = (Server_writes (response_bytes (impl cmd (args_value args))), s'') \<and>
    fst (deliver_pieces client_wants (client_on_read new lt t) ks' (response_bytes (impl cmd (args_value args))) 0 (readResponse new lt t 0 c')) =
      Callback (Some (impl cmd (args_value args)))"
proof -
  let ?v = "impl cmd (args_value args)"
  let ?req = "request_bytes cmd args" and ?resp = "response_bytes ?v" and ?c = "snd (client_execute new cmd args c)"
  let ?r = "deliver_pieces server_wants (server_on_read new) ks ?req 0 (server_read new 0 s)"
  have fr: "framed ?req" "framed ?resp" using args(2) res(2) u64_lt [of "pe_size c"] by (auto intro!: framed_messages)
  then have ne: "?req \<noteq> []" "?resp \<noteq> []" using framed_length by fastforce+
  have "server_good ?req [] (server_read new 0 s)" using fr ks(4) by (auto simp: server_good_def server_read_def Let_def)
  then have "server_complete ?req (deliver_pieces server_wants (server_on_read new) ks ?req (of_nat (length ([] :: byte list))) (server_read new 0 s))"
    by (rule server_side.deliver_complete) (use ks ne in simp_all)
  then have done_req: "server_complete ?req ?r" by simp
  obtain a s' where r: "?r = (a, s')" by fastforce
  have s': "a = Execute cmd" "server_args lt (args_type ts) s' = args_value args"
    using done_req server_args_found [OF args(1)] unfolding r by (auto simp: server_complete_def Let_def)
  have ex: "execute_impl sig impl new lt cmd s' = (Server_writes ?resp, snd (respond new ?v s'))"
    using respond_bytes [OF res(1)] fr(2) by (simp add: execute_impl_def sig s' framed_def prod_eq_iff)
  have "length ?resp \<le> unat (pe_size ?c)"
    using client_execute_bytes(2) [OF args, of c new] res(2) by (simp add: word_le_nat_alt)
  then have "client_good ?resp [] (readResponse new lt t 0 ?c)" using fr ne by (simp add: client_good_def readResponse_def Let_def)
  then have "client_complete lt t ?resp (deliver_pieces client_wants (client_on_read new lt t) ks' ?resp (of_nat (length ([] :: byte list))) (readResponse new lt t 0 ?c))"
    by (rule client_side.deliver_complete) (use ks' ne in simp_all)
  moreover obtain b c'' where b: "deliver_pieces client_wants (client_on_read new lt t) ks' ?resp 0 (readResponse new lt t 0 ?c) = (b, c'')" by fastforce
  ultimately have d: "b = Callback (Some (fst (deserialize lt t (fresh t) (pe_mem c'') (pe_buf c'' + 8))))" and f: "found (pe_mem c'') (pe_buf c'') ?resp"
    by (simp_all add: client_complete_def)
  have "fst (deserialize lt t (fresh t) (pe_mem c'') (pe_buf c'' + 8)) = ?v"
    using readsD [OF deserializer_reads [OF res(1)]] f by (simp add: deserialize_def response_bytes_def)
  then show ?thesis using client_execute_bytes(1) [OF args, of new c] r s'(1) ex b d by (metis fst_conv prod.collapse)
qed

text \<open>The command 1 takes a byte and returns a byte; the messages arrive in pieces of eight bytes.\<close>

theorem call_round_trip_witness:
  "\<exists>c' s' s''. client_execute (\<lambda>_ _. 8192) 1 [VPod [7]] (new_client (\<lambda>_. 0) 4096) = (request_bytes 1 [VPod [7]], c') \<and>
    deliver_pieces server_wants (server_on_read (\<lambda>_ _. 8192)) (replicate 13 8) (request_bytes 1 [VPod [7]]) 0 (server_read (\<lambda>_ _. 8192) 0 (new_server (\<lambda>_. 0) 4096)) = (Execute 1, s') \<and>
    execute_impl [1 \<mapsto> (Some (Pod 1), Some (Pod 1))] (\<lambda>_ _. VPod [9]) (\<lambda>_ _. 8192) pod_less 1 s' = (Server_writes (response_bytes (VPod [9])), s'') \<and>
    fst (deliver_pieces client_wants (client_on_read (\<lambda>_ _. 8192) pod_less (Pod 1)) (replicate 9 8) (response_bytes (VPod [9])) 0
      (readResponse (\<lambda>_ _. 8192) pod_less (Pod 1) 0 c')) = Callback (Some (VPod [9]))"
proof -
  have u: "unat (1024 :: u64) = 1024" by simp
  show ?thesis
    by (rule call_round_trip [where ts = "[Pod 1]" and impl = "\<lambda>_ _. VPod [9]"])
      (simp_all add: has_type_simps request_bytes_def response_bytes_def new_client_def new_server_def u list_all_length)
qed

section \<open>Where the code goes wrong\<close>

text \<open>
  A response that is longer than the buffer of the client: the new array is longer, but \<^verbatim>\<open>mCurrSize\<close> is not
  changed, so once the old size has been read the client asks for no bytes, again and again.
\<close>

lemma move_keeps_size: "8 \<le> pe_size c \<Longrightarrow> read_size_t (pe_mem (move_to_new new n c)) (pe_buf (move_to_new new n c)) = read_size_t (pe_mem c) (pe_buf c)"
  using found_move [of c "get_bytes (pe_mem c) (pe_buf c) 8" new n] by (simp add: read_size_t_def found_def word_le_nat_alt)

lemma long_response_never_read:
  assumes "8 \<le> pe_size c" and "pe_size c < read_size_t (pe_mem c) (pe_buf c)"
  shows "\<exists>a c'. deliver_pieces client_wants (client_on_read new lt t) ks bs (pe_size c) (readResponse new lt t (pe_size c) c) = (Client_reads a 0, c')"
  using assms
proof (induction ks arbitrary: c)
  case Nil
  then show ?case by (simp add: readResponse_def Let_def move_to_new_def)
next
  case (Cons k ks)
  let ?c = "move_to_new new (read_size_t (pe_mem c) (pe_buf c)) c"
  have c: "pe_size ?c = pe_size c" by (simp add: move_to_new_def Let_def)
  have st: "store_piece (pe_size c) [] ?c = ?c" by (simp add: store_piece_def put_bytes_def)
  have "readResponse new lt t (pe_size c) c = (Client_reads (pe_buf ?c + pe_size c) 0, ?c)"
    using Cons.prems c by (auto simp: readResponse_def Let_def)
  then show ?case using Cons.IH [of ?c] Cons.prems c st move_keeps_size by simp
qed

text \<open>The client goes on reading after the answer of a command without a result; the next answer breaks its assertion.\<close>

lemma void_reads_again:
  "readResponse_void 1 c = Some [Callback None, Client_reads (pe_buf c) (pe_size c)]"
  "fst (client_on_read_void 1 (Io_data [1]) c) = None"
  by (simp_all add: readResponse_void_def Let_def word_le_nat_alt)

text \<open>
  A request of 257 bytes of which one byte arrives first: the other bytes of the length are those of the
  buffer, here zero, and the server takes the request to be complete.
\<close>

lemma first_byte_alone:
  "let req = request_bytes 1 [VPod (replicate 245 7)]
   in length req = 257 \<and>
     fst (deliver_pieces server_wants (server_on_read new) [1, 256] req 0 (server_read new 0 (new_server (\<lambda>_. 0) 4096))) = Execute 0"
proof -
  have "le_bytes 8 (257 :: u64) = [1, 1, 0, 0, 0, 0, 0, 0]" by code_simp
  then have b: "request_bytes 1 [VPod (replicate 245 7)] = 1 # [1, 0, 0, 0, 0, 0, 0] @ le_bytes 4 (1 :: u32) @ replicate 245 7"
    by (simp add: request_bytes_def Let_def)
  have z: "get_bytes (put_bytes (\<lambda>_. 0) 4096 [1]) 4096 8 = le_bytes 8 (1 :: u64)" "get_bytes (put_bytes (\<lambda>_. 0) 4096 [1]) 4104 4 = le_bytes 4 (0 :: u32)"
    by code_simp+
  show ?thesis unfolding b by (simp add: server_read_def new_server_def new_client_def store_piece_def read_size_t_def z u64_codec.dec_enc u32_codec.dec_enc)
qed

end
