(* ===== verification/Infinio_Fibers.thy ===== *)
theory Infinio_Fibers
  imports Prelude "HOL-Library.Multiset"
begin

text \<open>
  Fibers, \<^verbatim>\<open>Fiber.cpp\<close>, and the part of \<^verbatim>\<open>InfinibandProcessor\<close> that creates and reuses them. A fiber runs on the
  thread of its processor, in a stack of its own, until it waits or its function returns; then the code
  that resumed it goes on. What a fiber does between two of these points is the environment; the calls it
  can make are the actions below. The switch between two stacks is a library call: here the thread is a
  list of frames, and resuming and waiting push and pop a frame.

  An operation returns \<open>None\<close> when an assertion of the source fails or a fiber is used that was deleted.
\<close>

section \<open>The state of a processor thread\<close>

text \<open>\<open>Resuming\<close> is the rest of the loop of \<^verbatim>\<open>notify_all\<close>.\<close>

datatype frame = Run nat | Resuming "nat list"

datatype fiber_task = Resume nat | Delete nat

text \<open>
  \<open>sc_fun\<close> and \<open>sc_return\<close> are the fibers whose \<^verbatim>\<open>mFun\<close> and \<^verbatim>\<open>mReturnContext\<close> are set, \<open>sc_blocked\<close> those that
  called \<^verbatim>\<open>wait\<close> and that another thread will unblock, \<open>sc_conds\<close> the queues of the condition variables.
\<close>

record sched =
  sc_frames :: "frame list"
  sc_alive :: "nat set"
  sc_fun :: "nat set"
  sc_return :: "nat set"
  sc_cache :: "nat list"
  sc_cacheSize :: nat
  sc_tasks :: "fiber_task list"
  sc_blocked :: "nat list"
  sc_conds :: "nat list list"

definition new_sched :: "nat \<Rightarrow> nat \<Rightarrow> sched" where
  "new_sched cacheSize conds = \<lparr>sc_frames = [], sc_alive = {}, sc_fun = {}, sc_return = {}, sc_cache = [], sc_cacheSize = cacheSize,
    sc_tasks = [], sc_blocked = [], sc_conds = replicate conds []\<rparr>"

section \<open>Fibers\<close>

definition fiber_resume :: "nat \<Rightarrow> sched \<Rightarrow> sched option" where
  "fiber_resume f s =
    (if f \<in> sc_alive s \<and> f \<notin> sc_return s
     then Some (s\<lparr>sc_return := insert f (sc_return s), sc_frames := Run f # sc_frames s\<rparr>)
     else None)"

text \<open>\<^verbatim>\<open>wait\<close> of the fiber that runs; the code that resumed it resets \<^verbatim>\<open>mReturnContext\<close>.\<close>

definition fiber_wait :: "nat \<Rightarrow> sched \<Rightarrow> sched option" where
  "fiber_wait f s =
    (if f \<in> sc_alive s \<and> f \<in> sc_return s
     then Some (s\<lparr>sc_return := sc_return s - {f}, sc_frames := tl (sc_frames s)\<rparr>)
     else None)"

definition enqueue_local :: "fiber_task \<Rightarrow> sched \<Rightarrow> sched" where
  "enqueue_local t s = s\<lparr>sc_tasks := sc_tasks s @ [t]\<rparr>"

definition fiber_yield :: "nat \<Rightarrow> sched \<Rightarrow> sched option" where
  "fiber_yield f s = fiber_wait f (enqueue_local (Resume f) s)"

definition fiber_execute :: "nat \<Rightarrow> sched \<Rightarrow> sched option" where
  "fiber_execute f s = (if f \<in> sc_alive s \<and> f \<notin> sc_fun s then fiber_resume f (s\<lparr>sc_fun := insert f (sc_fun s)\<rparr>) else None)"

text \<open>\<^verbatim>\<open>executeLocalFiber\<close>: \<open>new\<close> is the fiber that is created when the cache is empty.\<close>

definition executeLocalFiber :: "nat \<Rightarrow> sched \<Rightarrow> sched option" where
  "executeLocalFiber new s =
    (case sc_cache s of
       [] \<Rightarrow> fiber_execute new (s\<lparr>sc_alive := insert new (sc_alive s)\<rparr>)
     | f # rest \<Rightarrow> fiber_execute f (s\<lparr>sc_cache := rest\<rparr>))"

definition recycleFiber :: "nat \<Rightarrow> sched \<Rightarrow> sched option" where
  "recycleFiber f s =
    (if f \<notin> sc_fun s
     then Some (if length (sc_cache s) < sc_cacheSize s then s\<lparr>sc_cache := sc_cache s @ [f]\<rparr> else enqueue_local (Delete f) s)
     else None)"

text \<open>The end of the function of a fiber, in the loop of \<^verbatim>\<open>start\<close>.\<close>

definition fiber_return :: "nat \<Rightarrow> sched \<Rightarrow> sched option" where
  "fiber_return f s = Option.bind (recycleFiber f (s\<lparr>sc_fun := sc_fun s - {f}\<rparr>)) (fiber_wait f)"

section \<open>Condition variables\<close>

definition cond_wait :: "nat \<Rightarrow> nat \<Rightarrow> sched \<Rightarrow> sched option" where
  "cond_wait c f s = fiber_wait f (s\<lparr>sc_conds := (sc_conds s)[c := sc_conds s ! c @ [f]]\<rparr>)"

definition cond_notify_one :: "nat \<Rightarrow> sched \<Rightarrow> sched option" where
  "cond_notify_one c s =
    (case sc_conds s ! c of
       [] \<Rightarrow> Some s
     | f # rest \<Rightarrow> fiber_resume f (s\<lparr>sc_conds := (sc_conds s)[c := rest]\<rparr>))"

definition cond_notify_all :: "nat \<Rightarrow> sched \<Rightarrow> sched" where
  "cond_notify_all c s =
    (if sc_conds s ! c = [] then s
     else s\<lparr>sc_conds := (sc_conds s)[c := []], sc_frames := Resuming (sc_conds s ! c) # sc_frames s\<rparr>)"

section \<open>The thread\<close>

text \<open>What the running code calls: \<open>Spawn\<close> is \<^verbatim>\<open>executeLocalFiber\<close> with a new function.\<close>

datatype fiber_action = Yield | Block | Cond_wait nat | Notify_one nat | Notify_all nat | Spawn nat | Return

fun fiber_act :: "nat \<Rightarrow> fiber_action \<Rightarrow> sched \<Rightarrow> sched option" where
  "fiber_act f Yield s = fiber_yield f s"
| "fiber_act f Block s = fiber_wait f (s\<lparr>sc_blocked := f # sc_blocked s\<rparr>)"
| "fiber_act f (Cond_wait c) s = cond_wait c f s"
| "fiber_act f (Notify_one c) s = cond_notify_one c s"
| "fiber_act f (Notify_all c) s = Some (cond_notify_all c s)"
| "fiber_act f (Spawn new) s = executeLocalFiber new s"
| "fiber_act f Return s = fiber_return f s"

text \<open>Condition variables exist, and a new fiber has a new address.\<close>

fun action_ok :: "fiber_action \<Rightarrow> sched \<Rightarrow> bool" where
  "action_ok (Cond_wait c) s = (c < length (sc_conds s))"
| "action_ok (Notify_one c) s = (c < length (sc_conds s))"
| "action_ok (Notify_all c) s = (c < length (sc_conds s))"
| "action_ok (Spawn new) s = (new \<notin> sc_alive s)"
| "action_ok _ s = True"

text \<open>A task of the event loop; deleting a fiber whose stack is in use is an error.\<close>

fun run_fiber_task :: "fiber_task \<Rightarrow> sched \<Rightarrow> sched option" where
  "run_fiber_task (Resume f) s = fiber_resume f s"
| "run_fiber_task (Delete f) s =
    (if f \<in> sc_alive s \<and> f \<notin> sc_return s \<and> f \<notin> sc_fun s then Some (s\<lparr>sc_alive := sc_alive s - {f}\<rparr>) else None)"

text \<open>\<^verbatim>\<open>unblock\<close> by another thread: the task is run by the event loop like a local one.\<close>

definition fiber_unblock :: "nat \<Rightarrow> sched \<Rightarrow> sched" where
  "fiber_unblock f s = s\<lparr>sc_blocked := remove1 f (sc_blocked s), sc_tasks := sc_tasks s @ [Resume f]\<rparr>"

text \<open>
  The steps: the running fiber acts, the loop of \<^verbatim>\<open>notify_all\<close> resumes the next fiber or ends, the event loop takes
  a task or runs code that starts a fiber or notifies, another thread unblocks a fiber.
\<close>

inductive sched_step :: "sched \<Rightarrow> sched option \<Rightarrow> bool" where
  act: "sc_frames s = Run f # fs \<Longrightarrow> action_ok a s \<Longrightarrow> sched_step s (fiber_act f a s)"
| resume_next: "sc_frames s = Resuming (f # rest) # fs \<Longrightarrow> sched_step s (fiber_resume f (s\<lparr>sc_frames := Resuming rest # fs\<rparr>))"
| resume_end: "sc_frames s = Resuming [] # fs \<Longrightarrow> sched_step s (Some (s\<lparr>sc_frames := fs\<rparr>))"
| task: "sc_frames s = [] \<Longrightarrow> sc_tasks s = t # ts \<Longrightarrow> sched_step s (run_fiber_task t (s\<lparr>sc_tasks := ts\<rparr>))"
| event_spawn: "sc_frames s = [] \<Longrightarrow> new \<notin> sc_alive s \<Longrightarrow> sched_step s (executeLocalFiber new s)"
| event_one: "sc_frames s = [] \<Longrightarrow> c < length (sc_conds s) \<Longrightarrow> sched_step s (cond_notify_one c s)"
| event_all: "sc_frames s = [] \<Longrightarrow> c < length (sc_conds s) \<Longrightarrow> sched_step s (Some (cond_notify_all c s))"
| unblock: "f \<in> set (sc_blocked s) \<Longrightarrow> sched_step s (Some (fiber_unblock f s))"

definition sched_next :: "sched \<Rightarrow> sched \<Rightarrow> bool" where
  "sched_next s s' \<longleftrightarrow> sched_step s (Some s')"

section \<open>Where the fibers are\<close>

fun frame_runs :: "frame \<Rightarrow> nat list" where
  "frame_runs (Run f) = [f]"
| "frame_runs (Resuming fs) = []"

fun frame_holds :: "frame \<Rightarrow> nat list" where
  "frame_holds (Run f) = []"
| "frame_holds (Resuming fs) = fs"

fun task_resumes :: "fiber_task \<Rightarrow> nat list" where
  "task_resumes (Resume f) = [f]"
| "task_resumes (Delete f) = []"

fun task_deletes :: "fiber_task \<Rightarrow> nat list" where
  "task_deletes (Resume f) = []"
| "task_deletes (Delete f) = [f]"

definition running :: "sched \<Rightarrow> nat list" where
  "running s = concat (map frame_runs (sc_frames s))"

definition waiting_fibers :: "sched \<Rightarrow> nat list" where
  "waiting_fibers s = concat (map frame_holds (sc_frames s)) @ concat (map task_resumes (sc_tasks s)) @ sc_blocked s @ concat (sc_conds s)"

definition unused :: "sched \<Rightarrow> nat list" where
  "unused s = sc_cache s @ concat (map task_deletes (sc_tasks s))"

text \<open>
  Every fiber is in exactly one place: it runs, or it waits and somebody will resume it, or it has no
  function. The place determines its function and its return context.
\<close>

definition ledger :: "nat multiset \<Rightarrow> nat multiset \<Rightarrow> nat multiset \<Rightarrow> nat set \<Rightarrow> nat set \<Rightarrow> nat set \<Rightarrow> bool" where
  "ledger R W U al fn rt \<longleftrightarrow> finite al \<and> R + W + U = mset_set al \<and> rt = set_mset R \<and> fn = set_mset R \<union> set_mset W"

definition sched_inv :: "sched \<Rightarrow> bool" where
  "sched_inv s \<longleftrightarrow>
    ledger (mset (running s)) (mset (waiting_fibers s)) (mset (unused s)) (sc_alive s) (sc_fun s) (sc_return s) \<and>
    length (sc_cache s) \<le> sc_cacheSize s"

lemma ledger_once:
  assumes "ledger R W U al fn rt"
  shows "f \<in># R \<Longrightarrow> f \<in> al \<and> f \<notin># W \<and> f \<notin># U" and "f \<in># W \<Longrightarrow> f \<in> al \<and> f \<notin># R \<and> f \<notin># U"
    and "f \<in># U \<Longrightarrow> f \<in> al \<and> f \<notin># R \<and> f \<notin># W" and "count R f \<le> 1" and "count W f \<le> 1" and "count U f \<le> 1"
proof -
  have "count R f + count W f + count U f = count (mset_set al) f" using assms by (metis ledger_def count_union)
  also have "\<dots> = (if f \<in> al then 1 else 0)" using assms by (simp add: ledger_def count_mset_set')
  finally have c: "count R f + count W f + count U f = (if f \<in> al then 1 else 0)" .
  then show "count R f \<le> 1" and "count W f \<le> 1" and "count U f \<le> 1" by (simp_all split: if_splits)
  show "f \<in># R \<Longrightarrow> f \<in> al \<and> f \<notin># W \<and> f \<notin># U" and "f \<in># W \<Longrightarrow> f \<in> al \<and> f \<notin># R \<and> f \<notin># U"
    and "f \<in># U \<Longrightarrow> f \<in> al \<and> f \<notin># R \<and> f \<notin># W"
    using c count_greater_zero_iff [of R f] count_greater_zero_iff [of W f] count_greater_zero_iff [of U f]
    by (auto simp del: count_greater_zero_iff split: if_splits)
qed

lemma ledger_rest:
  assumes "ledger R W U al fn rt"
  shows "R = add_mset f M \<Longrightarrow> f \<notin># M" and "W = add_mset f M \<Longrightarrow> f \<notin># M" and "U = add_mset f M \<Longrightarrow> f \<notin># M"
  using ledger_once(4-6) [OF assms, of f] by (auto simp: not_in_iff)

lemma ledger_resume:
  assumes "ledger R (add_mset f W) U al fn rt"
  shows "f \<in> al" "f \<notin> rt" "ledger (add_mset f R) W U al fn (insert f rt)"
  using assms ledger_once(2) [OF assms, of f] by (auto simp: ledger_def)

lemma ledger_wait:
  assumes "ledger (add_mset f R) W U al fn rt"
  shows "f \<in> al" "f \<in> rt" "ledger R (add_mset f W) U al fn (rt - {f})"
  using assms ledger_once(1) [OF assms, of f] ledger_rest(1) [OF assms refl] by (auto simp: ledger_def)

lemma ledger_start:
  assumes "ledger R W (add_mset f U) al fn rt"
  shows "f \<in> al" "f \<notin> fn" "f \<notin> rt" "ledger R (add_mset f W) U al (insert f fn) rt"
  using assms ledger_once(3) [OF assms, of f] by (auto simp: ledger_def)

lemma ledger_create:
  assumes "ledger R W U al fn rt" and "f \<notin> al"
  shows "ledger R W (add_mset f U) (insert f al) fn rt"
  using assms by (simp add: ledger_def)

lemma ledger_retire:
  assumes "ledger (add_mset f R) W U al fn rt"
  shows "f \<in> al" "f \<in> rt" "ledger R W (add_mset f U) al (fn - {f}) (rt - {f})"
  using assms ledger_once(1) [OF assms, of f] ledger_rest(1) [OF assms refl] by (auto simp: ledger_def)

lemma ledger_delete:
  assumes "ledger R W (add_mset f U) al fn rt"
  shows "f \<in> al" "f \<notin> rt" "f \<notin> fn" "ledger R W U (al - {f}) fn rt"
proof -
  have f: "f \<in> al" "f \<notin># R" "f \<notin># W" using ledger_once(3) [OF assms, of f] by auto
  then have "mset_set al = add_mset f (mset_set (al - {f}))" using assms by (simp add: ledger_def mset_set.remove)
  then have "R + W + U = mset_set (al - {f})" using assms by (simp add: ledger_def)
  then show "f \<in> al" "f \<notin> rt" "f \<notin> fn" "ledger R W U (al - {f}) fn rt" using f assms by (auto simp: ledger_def)
qed

section \<open>The queues of the condition variables\<close>

lemma conds_update:
  assumes "c < length xss"
  shows "mset (concat (xss[c := ys])) + mset (xss ! c) = mset (concat xss) + mset ys"
proof -
  have "mset (concat xss) = mset (concat (take c xss @ xss ! c # drop (Suc c) xss))" using assms by (simp add: id_take_nth_drop [symmetric])
  then show ?thesis using assms by (simp add: upd_conv_take_nth_drop)
qed

lemma conds_push: "c < length xss \<Longrightarrow> mset (concat (xss[c := xss ! c @ [f]])) = add_mset f (mset (concat xss))"
  using conds_update [of c xss "xss ! c @ [f]"] by simp

lemma conds_pop: "c < length xss \<Longrightarrow> xss ! c = f # rest \<Longrightarrow> mset (concat xss) = add_mset f (mset (concat (xss[c := rest])))"
  using conds_update [of c xss rest] by simp

lemma conds_clear: "c < length xss \<Longrightarrow> mset (concat (xss[c := []])) + mset (xss ! c) = mset (concat xss)"
  using conds_update [of c xss "[]"] by simp

section \<open>The steps keep the invariant\<close>

lemmas places_defs = running_def waiting_fibers_def unused_def

lemma resume_inv:
  assumes "ledger (mset (running s)) (add_mset f (mset (waiting_fibers s))) (mset (unused s)) (sc_alive s) (sc_fun s) (sc_return s)"
    and "length (sc_cache s) \<le> sc_cacheSize s"
  shows "\<exists>s'. fiber_resume f s = Some s' \<and> sched_inv s'"
  using ledger_resume [OF assms(1)] assms(2) by (simp add: fiber_resume_def sched_inv_def places_defs)

lemma execute_inv:
  assumes "ledger (mset (running s)) (mset (waiting_fibers s)) (add_mset f (mset (unused s))) (sc_alive s) (sc_fun s) (sc_return s)"
    and "length (sc_cache s) \<le> sc_cacheSize s"
  shows "\<exists>s'. fiber_execute f s = Some s' \<and> sched_inv s'"
  using ledger_start [OF assms(1)] resume_inv [of "s\<lparr>sc_fun := insert f (sc_fun s)\<rparr>" f] assms(2) by (simp add: fiber_execute_def places_defs)

lemma spawn_inv:
  assumes "sched_inv s" and "new \<notin> sc_alive s"
  shows "\<exists>s'. executeLocalFiber new s = Some s' \<and> sched_inv s'"
proof (cases "sc_cache s")
  case Nil
  then show ?thesis
    using execute_inv [of "s\<lparr>sc_alive := insert new (sc_alive s)\<rparr>" new] ledger_create [OF _ assms(2)] assms(1)
    by (simp add: executeLocalFiber_def sched_inv_def places_defs)
next
  case (Cons f rest)
  then show ?thesis using execute_inv [of "s\<lparr>sc_cache := rest\<rparr>" f] assms(1) by (simp add: executeLocalFiber_def sched_inv_def places_defs)
qed

lemma wait_inv:
  assumes "sc_frames s = Run f # fs" and "ledger (mset (running s)) W (mset (unused s)) (sc_alive s) (sc_fun s) (sc_return s)"
    and "add_mset f W = mset (waiting_fibers s)" and "length (sc_cache s) \<le> sc_cacheSize s"
  shows "\<exists>s'. fiber_wait f s = Some s' \<and> sched_inv s'"
proof -
  have "ledger (add_mset f (mset (concat (map frame_runs fs)))) W (mset (unused s)) (sc_alive s) (sc_fun s) (sc_return s)"
    using assms(1,2) by (simp add: running_def)
  from ledger_wait [OF this] show ?thesis using assms(1,3,4) by (simp add: fiber_wait_def sched_inv_def places_defs)
qed

lemma return_inv:
  assumes "sc_frames s = Run f # fs" and "sched_inv s"
  shows "\<exists>s'. fiber_return f s = Some s' \<and> sched_inv s'"
proof -
  have "ledger (add_mset f (mset (concat (map frame_runs fs)))) (mset (waiting_fibers s)) (mset (unused s)) (sc_alive s) (sc_fun s) (sc_return s)"
    using assms by (simp add: running_def sched_inv_def)
  from ledger_retire [OF this] show ?thesis using assms
    by (auto simp: fiber_return_def recycleFiber_def enqueue_local_def fiber_wait_def sched_inv_def places_defs)
qed

lemma notify_one_inv:
  assumes "sched_inv s" and "c < length (sc_conds s)"
  shows "\<exists>s'. cond_notify_one c s = Some s' \<and> sched_inv s'"
proof (cases "sc_conds s ! c")
  case (Cons f rest)
  have "mset (waiting_fibers s) = add_mset f (mset (waiting_fibers (s\<lparr>sc_conds := (sc_conds s)[c := rest]\<rparr>)))"
    using conds_pop [OF assms(2) Cons] by (simp add: waiting_fibers_def)
  then show ?thesis
    using resume_inv [of "s\<lparr>sc_conds := (sc_conds s)[c := rest]\<rparr>" f] assms(1) Cons
    by (simp add: cond_notify_one_def sched_inv_def running_def unused_def)
qed (use assms in \<open>simp add: cond_notify_one_def\<close>)

lemma notify_all_inv:
  assumes "sched_inv s" and "c < length (sc_conds s)"
  shows "sched_inv (cond_notify_all c s)"
proof (cases "sc_conds s ! c = []")
  case False
  let ?s = "s\<lparr>sc_conds := (sc_conds s)[c := []], sc_frames := Resuming (sc_conds s ! c) # sc_frames s\<rparr>"
  have "mset (waiting_fibers ?s) = mset (waiting_fibers s)"
    using conds_clear [OF assms(2)] by (simp add: waiting_fibers_def ac_simps)
  then show ?thesis using False assms(1) by (simp add: cond_notify_all_def sched_inv_def running_def unused_def)
qed (use assms in \<open>simp add: cond_notify_all_def\<close>)

lemma act_inv:
  assumes "sched_inv s" and "sc_frames s = Run f # fs" and "action_ok a s"
  shows "\<exists>s'. fiber_act f a s = Some s' \<and> sched_inv s'"
proof (cases a)
  case Yield
  then show ?thesis using wait_inv [of "enqueue_local (Resume f) s" f fs "mset (waiting_fibers s)"] assms
    by (simp add: fiber_yield_def enqueue_local_def sched_inv_def places_defs)
next
  case Block
  then show ?thesis using wait_inv [of "s\<lparr>sc_blocked := f # sc_blocked s\<rparr>" f fs "mset (waiting_fibers s)"] assms
    by (simp add: sched_inv_def places_defs)
next
  case (Cond_wait c)
  then show ?thesis
    using wait_inv [of "s\<lparr>sc_conds := (sc_conds s)[c := sc_conds s ! c @ [f]]\<rparr>" f fs "mset (waiting_fibers s)"] conds_push [of c "sc_conds s" f] assms
    by (simp add: cond_wait_def sched_inv_def places_defs)
qed (use assms notify_one_inv notify_all_inv spawn_inv return_inv in auto)

lemma task_inv:
  assumes "sched_inv s" and "sc_tasks s = t # ts"
  shows "\<exists>s'. run_fiber_task t (s\<lparr>sc_tasks := ts\<rparr>) = Some s' \<and> sched_inv s'"
proof (cases t)
  case (Resume f)
  then show ?thesis using resume_inv [of "s\<lparr>sc_tasks := ts\<rparr>" f] assms by (simp add: sched_inv_def places_defs)
next
  case (Delete f)
  then have "ledger (mset (running s)) (mset (waiting_fibers s)) (add_mset f (mset (unused (s\<lparr>sc_tasks := ts\<rparr>)))) (sc_alive s) (sc_fun s) (sc_return s)"
    using assms by (simp add: sched_inv_def places_defs)
  from ledger_delete [OF this] show ?thesis using Delete assms by (simp add: sched_inv_def places_defs)
qed

lemma resume_next_inv:
  assumes "sched_inv s" and "sc_frames s = Resuming (f # rest) # fs"
  shows "\<exists>s'. fiber_resume f (s\<lparr>sc_frames := Resuming rest # fs\<rparr>) = Some s' \<and> sched_inv s'"
  using resume_inv [of "s\<lparr>sc_frames := Resuming rest # fs\<rparr>" f] assms by (simp add: sched_inv_def places_defs)

lemma unblock_inv:
  assumes "sched_inv s" and "f \<in> set (sc_blocked s)"
  shows "sched_inv (fiber_unblock f s)"
  using assms by (simp add: fiber_unblock_def sched_inv_def places_defs)

text \<open>No step fails: every assertion holds, and no fiber is resumed, entered or deleted after it was deleted.\<close>

lemma step_inv:
  assumes "sched_step s r" and "sched_inv s"
  shows "\<exists>s'. r = Some s' \<and> sched_inv s'"
  using assms
proof (induction rule: sched_step.induct)
  case (resume_end s fs)
  then show ?case by (simp add: sched_inv_def places_defs)
qed (simp_all add: act_inv resume_next_inv task_inv spawn_inv notify_one_inv notify_all_inv unblock_inv)

interpretation fiber_system: inductive_invariant "\<lambda>s. \<exists>n k. s = new_sched n k" sched_next sched_inv
proof
  show "sched_inv s" if "\<exists>n k. s = new_sched n k" for s
    using that by (auto simp: new_sched_def sched_inv_def ledger_def places_defs)
  show "sched_inv s'" if "sched_inv s" "sched_next s s'" for s s' using step_inv [of s "Some s'"] that by (simp add: sched_next_def)
qed

theorem fibers_never_fail:
  assumes "sched_next\<^sup>*\<^sup>* (new_sched n k) s"
  shows "sched_step s r \<Longrightarrow> r \<noteq> None" and "distinct (running s @ waiting_fibers s @ unused s)"
    and "sc_alive s = set (running s) \<union> set (waiting_fibers s) \<union> set (unused s)" and "length (sc_cache s) \<le> sc_cacheSize s"
proof -
  have inv: "sched_inv s" using fiber_system.inv_reachable [OF _ assms] by blast
  then have l: "finite (sc_alive s)" "mset (running s @ waiting_fibers s @ unused s) = mset_set (sc_alive s)"
    by (auto simp: sched_inv_def ledger_def add.assoc)
  show "sched_step s r \<Longrightarrow> r \<noteq> None" using step_inv [OF _ inv] by blast
  show al: "sc_alive s = set (running s) \<union> set (waiting_fibers s) \<union> set (unused s)"
    using arg_cong [OF l(2), of set_mset] l(1) by (simp add: Un_assoc)
  show "distinct (running s @ waiting_fibers s @ unused s)"
    unfolding distinct_count_atmost_1 l(2) using al by (auto simp: count_mset_set' l(1))
  show "length (sc_cache s) \<le> sc_cacheSize s" using inv by (simp add: sched_inv_def)
qed

text \<open>
  A thread can always go on: only a thread without frames and tasks waits for events. A waiting fiber is in
  a queue of a condition variable, blocked, or due to be resumed.
\<close>

lemma sched_progress:
  assumes "sched_next\<^sup>*\<^sup>* (new_sched n k) s" and "sc_frames s \<noteq> [] \<or> sc_tasks s \<noteq> []"
  shows "\<exists>s'. sched_next s s'"
proof -
  have "\<exists>r. sched_step s r"
  proof (cases "sc_frames s")
    case Nil
    then show ?thesis using assms(2) sched_step.task by (cases "sc_tasks s") auto
  next
    case (Cons fr fs)
    then show ?thesis
    proof (cases fr)
      case (Run f)
      then show ?thesis using Cons sched_step.act [of s f fs Yield] by auto
    next
      case (Resuming q)
      then show ?thesis using Cons sched_step.resume_next sched_step.resume_end by (cases q) blast+
    qed
  qed
  then obtain r where r: "sched_step s r" by blast
  moreover from this have "r \<noteq> None" by (rule fibers_never_fail(1) [OF assms(1)])
  ultimately show ?thesis by (auto simp: sched_next_def)
qed

end
