(* ===== verification/Spec2Isabelle.thy ===== *)
theory Spec2Isabelle
  imports Bstring_Findings Infinio_Handles Infinio_Findings Concurrent_Map_Spec Single_Consumer_Queue_Spec
    Serializer_Spec Infinio_Tasks_Spec Fixed_Size_Stack Chunk_Pool Program_Options_Spec Epoch_Allocator
    Protocol Infinio_Fibers
begin

text \<open>
  Verification of crossbow, a C++ library: a string class, containers, a serializer, allocators and an
  RPC layer over Infiniband. The theories follow the source files; names of definitions are those of the
  source where they are free, and otherwise carry a prefix of their class.

  \<^bold>\<open>Foundations.\<close> \<open>Prelude\<close> has the machine integers, the byte images of integers, overwritten arrays, and
  the two interfaces \<open>fixed_codec\<close> and \<open>inductive_invariant\<close>. \<open>Refinement\<close> has the interface
  \<open>functional_refinement\<close>: operations that return what a specification returns, step by step and for runs.
  \<open>Cpp_Memory\<close> is the memory of the string class: blocks of bytes, pointers into them, an outcome that is a
  result, an exception or undefined behaviour, and an allocator that may fail.

  \<^bold>\<open>The string class\<close>, \<^verbatim>\<open>crossbow/string.hpp\<close>. \<open>Bstring_Rep\<close>: the 32 bytes of a string object and its
  layouts. \<open>Bstring_Alloc\<close>, \<open>Bstring_Construct\<close>, \<open>Bstring_Assign\<close>: constructors, destructor, assignments,
  \<^verbatim>\<open>reserve\<close> and \<^verbatim>\<open>shrink_to_fit\<close>. \<open>Bstring_Edit\<close>: insertion, erasure, appending. \<open>Bstring_Replace\<close>: replacement,
  resizing, element access. \<open>Bstring_Search\<close>, \<open>Bstring_Compare\<close>, \<open>Bstring_Stream\<close>: searches, comparison and
  hashing, stream input. \<open>Bstring_Spec\<close> (C1 to C12) states what each operation does to the list of characters
  that the object stands for, that no operation is undefined under its conditions, that nothing else in
  memory changes and no block is lost, also when memory runs out. \<open>Bstring_Findings\<close> shows where the code does
  something else than it means to.

  \<^bold>\<open>Byte buffers\<close>, \<^verbatim>\<open>byte_buffer.hpp\<close> and \<^verbatim>\<open>alignment.hpp\<close>: \<open>Byte_Buffer\<close>, on a flat memory of bytes; C13 is the
  round trip of any sequence of writes and alignments.

  \<^bold>\<open>Infinio\<close>, \<^verbatim>\<open>libs/infinio\<close>. \<open>Infinio_Ids\<close>: packed identifiers and error codes (C14). \<open>Infinio_Buffer\<close> and
  \<open>Infinio_Handles\<close>: memory regions, buffers and the owned verbs objects (C15, C16). \<open>Infinio_Context\<close>: the buffer
  pools, the socket map and the completion processing. \<open>Infinio_Socket\<close>: sockets, acceptors and the events of
  the connection manager. \<open>Infinio_Batching\<close>, \<open>Infinio_Framing\<close>, \<open>Infinio_Delivery\<close>, \<open>Infinio_Receive\<close>: the
  socket that batches messages into send buffers, and that every message a sender writes reaches the
  receiver unchanged and in order. \<open>Infinio_Rpc\<close>, \<open>Infinio_Calls\<close>, \<open>Infinio_Rpc_Spec\<close>: pending responses, the
  client and the server; requests are sent, responses go to the request they belong to, the error of a
  server reaches its client, and a lost connection completes every request that was sent, unless one with a
  result is already completed, which stops the handler with an exception (C26 to C29); requests that wait
  for a slot may be left waiting. \<^verbatim>\<open>LOG_ASSERT\<close> is empty in a release build, which is what is modelled. The network, the verbs library and the code of fibers are
  parameters or steps of the environment; effects on them are a list of calls. \<open>Infinio_Findings\<close> has the
  defects found. \<open>Infinio_Tasks\<close> and \<open>Infinio_Tasks_Spec\<close>: the event loop of \<^verbatim>\<open>EventProcessor.cpp\<close> and its task
  queues; the loop goes to sleep only when nothing is to be done (C34) and no wakeup is lost under any
  interleaving (C35). \<open>Infinio_Fibers\<close>: fibers, their cache and condition variables on the thread of a processor;
  every fiber is in exactly one place, no assertion fails and no deleted fiber is used.

  \<^bold>\<open>Containers.\<close> \<open>Concurrent_Map\<close> and \<open>Concurrent_Map_Spec\<close>, \<^verbatim>\<open>concurrent_map.hpp\<close>: the operations on the
  buckets, \<^verbatim>\<open>clear\<close> apart, refine a finite map, one by one and in runs of several threads (C30, C31).
  \<open>Single_Consumer_Queue\<close> and \<open>Single_Consumer_Queue_Spec\<close>, \<^verbatim>\<open>singleconsumerqueue.hpp\<close>: first in, first out under
  every interleaving of the atomic steps (C32) in which no \<^verbatim>\<open>tryWrite\<close> overruns the queue before the first value is
  consumed; with such a \<^verbatim>\<open>tryWrite\<close> values are overwritten. \<open>Fixed_Size_Stack\<close>, \<^verbatim>\<open>fixed_size_stack.hpp\<close>: last in, first out
  with one popping thread (C36), and a schedule that breaks it with two.

  \<^bold>\<open>Serializer\<close>, \<^verbatim>\<open>crossbow/serializer\<close>: \<open>Serializer\<close> and \<open>Serializer_Spec\<close>; sizes and round trip (C33), and
  well-typedness of what is read.

  \<^bold>\<open>Remote calls\<close>, \<^verbatim>\<open>Protocol.hpp\<close>: \<open>Protocol\<close>; a call over a stream socket and its answer (C37), in any pieces
  of which the first holds the length and for a response that fits into the buffer of the client, under the
  interface \<open>collector\<close> of client and server, and three cases where the code fails.

  \<^bold>\<open>Allocators.\<close> \<open>Chunk_Pool\<close>, \<^verbatim>\<open>ChunkAllocator.cpp\<close>: the regions of the memory pool are disjoint and its
  blocks are freed once (C38). \<open>Epoch_Allocator\<close>, \<^verbatim>\<open>allocator.cpp\<close>: objects that are freed while guards are alive
  are destroyed once and not before these guards are gone (C40), when each call is a step; an interleaving
  inside the destructor of a guard breaks it.

  \<^bold>\<open>Program options\<close>, \<^verbatim>\<open>program_options.hpp\<close>: \<open>Program_Options\<close> and \<open>Program_Options_Spec\<close>; the parsers, the options
  and the loop over the arguments, and that a rendered command line is parsed back (C39).

  \<^bold>\<open>Bounds.\<close> Sizes and addresses are 64-bit words throughout. The queue is verified for fewer than \<open>2 ^ 62\<close>
  tickets and the map for fewer than \<open>2 ^ 54\<close> elements, which keeps their counters from wrapping. Loops of the
  code that may not end are partial functions to an option type, and their theorems state that they return.
  Shared memory is sequentially consistent.

  \<^bold>\<open>Not modelled.\<close> \<^verbatim>\<open>libs/infinityverbs\<close>, an older wrapper of the verbs library that no other code of the repository uses:
  most of it hands arguments on and keeps the pointers it gets; its spin lock and its table of memory
  tokens could be modelled. \<^verbatim>\<open>libs/logger\<close> formats and prints. \<^verbatim>\<open>singleton.hpp\<close> selects
  policies for creation and life time at compile time. \<^verbatim>\<open>Endpoint\<close> and \<^verbatim>\<open>AddressHelper\<close> convert socket addresses with
  calls of the operating system. The rest of \<^verbatim>\<open>InfinibandService\<close> opens and closes the connection manager and
  fetches its events, one call after the other. \<^verbatim>\<open>non_copyable.hpp\<close> and \<^verbatim>\<open>enum_underlying.hpp\<close> declare types without behaviour.
  The examples and tests call the library. The switch between the stacks of two fibers is a library call
  written for each processor; waiting and resuming are modelled by what they do to the fibers.
\<close>

end
